(* ===== verification/WhenLang.thy ===== *)
theory WhenLang
  imports PyPrelude
begin

text \<open>
  The conditional-edge predicate language of
  \<open>src/ai_org/patchwork_queue/patch_series_gate.py\<close>: the tokenizer and the recursive
  descent parser of \<open>_WhenParser\<close>, the evaluator \<open>_eval_when_ast\<close> with its
  iterative flattening, \<open>evaluate_when\<close>, and the static identifier and comparison-type
  checks. The theory proves that the parser always returns, that the iterative evaluator agrees
  with the direct recursive meaning of the syntax tree, and what the static type check does and
  does not guarantee.

  Every \<open>raise WhenSyntaxError\<close> site is a constructor of \<open>when_error\<close>.
\<close>

section \<open>Tokens\<close>

text \<open>The value of a check variable or of a literal: Python's int, str and bool.\<close>

datatype wval = WInt int | WStr string | WBool bool

datatype token = TokLiteral wval | TokIdent string | TokSym string | TokEof

datatype when_error =
    ExpressionTooLong
  | InvalidToken "char option"
  | IntegerTooLong
  | InvalidStringLiteral
  | NestingTooDeep
  | UnbalancedParentheses
  | UnexpectedToken token
  | NotNestingTooDeep
  | TooManyTerms
  | ExpectedExpression token
  | ExpectedSymbol string
  | OutOfFuel

definition MAX_WHEN_LENGTH :: nat where "MAX_WHEN_LENGTH = 4096"
definition MAX_WHEN_NESTING :: nat where "MAX_WHEN_NESTING = 128"
definition MAX_WHEN_TERMS :: nat where "MAX_WHEN_TERMS = 256"
definition MAX_WHEN_INTEGER_DIGITS :: nat where "MAX_WHEN_INTEGER_DIGITS = 18"

definition is_ident_start :: "char \<Rightarrow> bool" where
  "is_ident_start c \<longleftrightarrow> is_lower c \<or> is_upper c \<or> c = CHR ''_''"

definition is_ident_char :: "char \<Rightarrow> bool" where
  "is_ident_char c \<longleftrightarrow> is_ident_start c \<or> is_digit c \<or> c \<in> set ''.:-''"

text \<open>
  The string alternatives of \<open>_TOKEN_RE\<close>: after the opening quote \<open>q\<close>, the text up
  to the first unescaped \<open>q\<close>; a backslash takes the next character with it, which must
  not be a line feed. The result is the text between the quotes and the rest of the input.
\<close>

fun scan_string :: "char \<Rightarrow> string \<Rightarrow> string \<Rightarrow> (string \<times> string) option" where
  "scan_string q acc [] = None"
| "scan_string q acc (c # cs) =
     (if c = q then Some (rev acc, cs)
      else if char_code c = 92 then
        (case cs of
           [] \<Rightarrow> None
         | d # ds \<Rightarrow> if char_code d = 10 then None else scan_string q (d # c # acc) ds)
      else scan_string q (c # acc) cs)"

text \<open>
  \<open>ast.literal_eval\<close> of a quoted token, on the text between the quotes: Python's escape
  sequences; a bare line end or a NUL is a syntax error, a backslash before a carriage return
  continues the line. Escapes that denote a character beyond code point 255 (or name one) are
  outside the text domain of this development and are treated as malformed.
\<close>

definition hex_val :: "char \<Rightarrow> nat option" where
  "hex_val c =
     (let n = char_code c in
      if 48 \<le> n \<and> n \<le> 57 then Some (n - 48)
      else if 97 \<le> n \<and> n \<le> 102 then Some (n - 87)
      else if 65 \<le> n \<and> n \<le> 70 then Some (n - 55)
      else None)"

fun hex_number :: "nat \<Rightarrow> nat \<Rightarrow> string \<Rightarrow> (nat \<times> string) option" where
  "hex_number 0 acc cs = Some (acc, cs)"
| "hex_number (Suc n) acc [] = None"
| "hex_number (Suc n) acc (c # cs) =
     (case hex_val c of None \<Rightarrow> None | Some d \<Rightarrow> hex_number n (16 * acc + d) cs)"

fun octal_number :: "nat \<Rightarrow> nat \<Rightarrow> string \<Rightarrow> nat \<times> string" where
  "octal_number 0 acc cs = (acc, cs)"
| "octal_number (Suc n) acc [] = (acc, [])"
| "octal_number (Suc n) acc (c # cs) =
     (if 48 \<le> char_code c \<and> char_code c \<le> 55
      then octal_number n (8 * acc + (char_code c - 48)) cs
      else (acc, c # cs))"

definition code_point :: "nat \<Rightarrow> string \<Rightarrow> (string \<times> string) option" where
  "code_point n cs = (if n < 256 then Some ([char_of n], cs) else None)"

definition escape_sequence :: "char \<Rightarrow> string \<Rightarrow> (string \<times> string) option" where
  "escape_sequence d ds =
     (let n = char_code d in
      if n = 92 \<or> n = 39 \<or> n = 34 then Some ([d], ds)
      else if d = CHR ''a'' then code_point 7 ds
      else if d = CHR ''b'' then code_point 8 ds
      else if d = CHR ''f'' then code_point 12 ds
      else if d = CHR ''n'' then code_point 10 ds
      else if d = CHR ''r'' then code_point 13 ds
      else if d = CHR ''t'' then code_point 9 ds
      else if d = CHR ''v'' then code_point 11 ds
      else if 48 \<le> n \<and> n \<le> 55 then (case octal_number 2 (n - 48) ds of (v, r) \<Rightarrow> code_point v r)
      else if d = CHR ''x'' then Option.bind (hex_number 2 0 ds) (\<lambda>(v, r). code_point v r)
      else if d = CHR ''u'' then Option.bind (hex_number 4 0 ds) (\<lambda>(v, r). code_point v r)
      else if d = CHR ''U'' then Option.bind (hex_number 8 0 ds) (\<lambda>(v, r). code_point v r)
      else if d = CHR ''N'' then None
      else if n = 13 then
        (case ds of c # cs \<Rightarrow> Some ([], if char_code c = 10 then cs else ds) | [] \<Rightarrow> Some ([], []))
      else if n = 0 then None
      else Some ([char_of (92::nat), d], ds))"

lemma hex_number_length: "hex_number n acc cs = Some (v, r) \<Longrightarrow> length r \<le> length cs"
  by (induction n acc cs rule: hex_number.induct) (auto split: option.splits)

lemma octal_number_length: "octal_number n acc cs = (v, r) \<Longrightarrow> length r \<le> length cs"
  by (induction n acc cs rule: octal_number.induct) (auto split: if_splits)

lemma escape_sequence_length:
  assumes "escape_sequence d ds = Some (t, r)"
  shows "length r \<le> length ds"
proof -
  have oct: "length (snd (octal_number 2 n ds)) \<le> length ds" for n
    using octal_number_length [of 2 n ds] by (metis prod.collapse)
  show ?thesis
    using assms oct [of "char_code d - 48"]
    by (auto simp: escape_sequence_def code_point_def Let_def bind_eq_Some_conv
        dest: hex_number_length split: if_splits list.splits prod.splits)
qed

function literal_body :: "string \<Rightarrow> string option" where
  "literal_body [] = Some []"
| "literal_body (c # cs) =
     (if char_code c = 92 then
        (case cs of
           [] \<Rightarrow> None
         | d # ds \<Rightarrow>
             (case escape_sequence d ds of
                None \<Rightarrow> None
              | Some (t, r) \<Rightarrow> map_option (\<lambda>u. t @ u) (literal_body r)))
      else if char_code c \<in> {0, 10, 13} then None
      else map_option (\<lambda>u. c # u) (literal_body cs))"
  by pat_completeness auto
termination
  by (relation "measure length") (auto dest!: escape_sequence_length)

section \<open>The tokenizer\<close>

text \<open>
  One match of \<open>_TOKEN_RE\<close> at the current position. Where only white space is left the
  pattern backtracks into it: the last character that is not a line feed is the bad token, and
  with line feeds alone nothing matches; both are errors.
\<close>

datatype lexeme =
    LexInt string
  | LexString string
  | LexOp string
  | LexIdent string
  | LexBad "char option"

definition two_char_ops :: "string list" where
  "two_char_ops = [''=='', ''!='', ''<='', ''>='']"

definition one_char_ops :: "string list" where
  "one_char_ops = [''<'', ''>'', ''('', '')'']"

definition lexeme_at :: "char \<Rightarrow> string \<Rightarrow> lexeme \<times> string" where
  "lexeme_at c cs =
     (if is_digit c then
        (LexInt (c # takeWhile is_digit cs), dropWhile is_digit cs)
      else
        (case (if char_code c \<in> {34, 39} then scan_string c [] cs else None) of
           Some (body, rest) \<Rightarrow> (LexString body, rest)
         | None \<Rightarrow>
             if take 2 (c # cs) \<in> set two_char_ops then (LexOp (take 2 (c # cs)), drop 1 cs)
             else if [c] \<in> set one_char_ops then (LexOp [c], cs)
             else if is_ident_start c then
               (LexIdent (c # takeWhile is_ident_char cs), dropWhile is_ident_char cs)
             else (LexBad (Some c), cs)))"

definition next_lexeme :: "string \<Rightarrow> lexeme \<times> string" where
  "next_lexeme text =
     (case dropWhile is_space text of
        [] \<Rightarrow>
          (let solid = filter (\<lambda>c. char_code c \<noteq> 10) text
           in (LexBad (if solid = [] then None else Some (last solid)), []))
      | c # cs \<Rightarrow> lexeme_at c cs)"

lemma scan_string_length: "scan_string q acc cs = Some (b, r) \<Longrightarrow> length r < length cs"
proof (induction q acc cs rule: scan_string.induct)
  case (2 q acc c cs)
  then show ?case
    by (fastforce split: if_splits list.splits)
qed simp

lemma lexeme_at_length: "length (snd (lexeme_at c cs)) \<le> length cs"
proof (cases "if char_code c \<in> {34, 39} then scan_string c [] cs else None")
  case None
  then show ?thesis
    by (simp add: lexeme_at_def length_dropWhile_le)
next
  case (Some br)
  then have "length (snd br) < length cs"
    using scan_string_length [of c "[]" cs "fst br" "snd br"] by (simp split: if_splits)
  with Some show ?thesis
    by (cases br) (simp add: lexeme_at_def length_dropWhile_le)
qed

lemma next_lexeme_length: "text \<noteq> [] \<Longrightarrow> length (snd (next_lexeme text)) < length text"
proof -
  assume ne: "text \<noteq> []"
  show ?thesis
  proof (cases "dropWhile is_space text")
    case Nil
    with ne show ?thesis unfolding next_lexeme_def by (simp add: Let_def del: dropWhile_eq_Nil_conv)
  next
    case (Cons c cs)
    have "Suc (length cs) \<le> length text"
      using Cons length_dropWhile_le [of is_space "text"] by simp
    with Cons lexeme_at_length [of c cs] show ?thesis by (simp add: next_lexeme_def)
  qed
qed

lemma next_lexeme_length': "(lx, rest) = next_lexeme text \<Longrightarrow> text \<noteq> [] \<Longrightarrow> length rest < length text"
  using next_lexeme_length [of "text"] by (metis snd_conv)

function tokens_from :: "int \<Rightarrow> string \<Rightarrow> when_error + token list" where
  "tokens_from depth text =
     (if text = [] then Inr [TokEof]
      else
        (case next_lexeme text of
           (LexBad c, rest) \<Rightarrow> Inl (InvalidToken c)
         | (LexInt ds, rest) \<Rightarrow>
             if length ds > MAX_WHEN_INTEGER_DIGITS then Inl IntegerTooLong
             else rbind (tokens_from depth rest) (\<lambda>ts. Inr (TokLiteral (WInt (int (dec_value ds))) # ts))
         | (LexString body, rest) \<Rightarrow>
             (case literal_body body of
                None \<Rightarrow> Inl InvalidStringLiteral
              | Some s \<Rightarrow> rbind (tokens_from depth rest) (\<lambda>ts. Inr (TokLiteral (WStr s) # ts)))
         | (LexOp opr, rest) \<Rightarrow>
             (let depth' = (if opr = ''('' then depth + 1 else if opr = '')'' then depth - 1 else depth)
              in if opr = ''('' \<and> depth' > int MAX_WHEN_NESTING then Inl NestingTooDeep
                 else if opr = '')'' \<and> depth' < 0 then Inl UnbalancedParentheses
                 else rbind (tokens_from depth' rest) (\<lambda>ts. Inr (TokSym opr # ts)))
         | (LexIdent name, rest) \<Rightarrow>
             rbind (tokens_from depth rest)
               (\<lambda>ts. Inr ((if name \<in> {''and'', ''or'', ''not''} then TokSym name
                           else TokIdent name) # ts))))"
  by pat_completeness auto
termination
  by (relation "measure (\<lambda>(d, t). length t)") (auto dest: next_lexeme_length')

declare tokens_from.simps [simp del]

lemma tokens_from_Nil [simp]: "tokens_from d [] = Inr [TokEof]"
  by (simp add: tokens_from.simps)

section \<open>The parser\<close>

datatype cmpop = CEq | CNe | CLt | CLe | CGt | CGe

datatype ast =
    Lit wval
  | Var string
  | Neg ast
  | And ast ast
  | Or ast ast
  | Cmp cmpop ast ast

text \<open>
  The parser object's state is the tokens from \<open>self.index\<close> on and
  \<open>self.term_count\<close>. The token list ends in \<open>TokEof\<close>, which no rule consumes.
  Each function spends one unit of fuel per call; \<open>parse_tokens\<close> supplies enough for any
  token list (\<open>parser_enough_fuel\<close>).
\<close>

type_synonym parse_result = "when_error + ast \<times> token list \<times> nat"

definition peek :: "token list \<Rightarrow> token" where
  "peek ts = (case ts of [] \<Rightarrow> TokEof | t # _ \<Rightarrow> t)"

definition cmp_of_token :: "token \<Rightarrow> cmpop option" where
  "cmp_of_token t =
     (case t of
        TokSym opr \<Rightarrow>
          (if opr = ''=='' then Some CEq else if opr = ''!='' then Some CNe
           else if opr = ''<'' then Some CLt else if opr = ''<='' then Some CLe
           else if opr = ''>'' then Some CGt else if opr = ''>='' then Some CGe
           else None)
      | _ \<Rightarrow> None)"

fun accept_nots :: "nat \<Rightarrow> token list \<Rightarrow> when_error + nat \<times> token list" where
  "accept_nots cnt [] = Inr (cnt, [])"
| "accept_nots cnt (t # ts) =
     (if t = TokSym ''not'' then
        (if Suc cnt > MAX_WHEN_NESTING then Inl NotNestingTooDeep
         else accept_nots (Suc cnt) ts)
      else Inr (cnt, t # ts))"

function p_or :: "nat \<Rightarrow> token list \<Rightarrow> nat \<Rightarrow> parse_result"
and p_or_rest :: "nat \<Rightarrow> ast \<Rightarrow> token list \<Rightarrow> nat \<Rightarrow> parse_result"
and p_and :: "nat \<Rightarrow> token list \<Rightarrow> nat \<Rightarrow> parse_result"
and p_and_rest :: "nat \<Rightarrow> ast \<Rightarrow> token list \<Rightarrow> nat \<Rightarrow> parse_result"
and p_not :: "nat \<Rightarrow> token list \<Rightarrow> nat \<Rightarrow> parse_result"
and p_comparison :: "nat \<Rightarrow> token list \<Rightarrow> nat \<Rightarrow> parse_result"
and p_primary :: "nat \<Rightarrow> token list \<Rightarrow> nat \<Rightarrow> parse_result" where
  "p_or 0 ts k = Inl OutOfFuel"
| "p_or (Suc n) ts k = rbind (p_and n ts k) (\<lambda>(left, ts1, k1). p_or_rest n left ts1 k1)"
| "p_or_rest 0 left ts k = Inl OutOfFuel"
| "p_or_rest (Suc n) left ts k =
     (if peek ts = TokSym ''or'' then
        rbind (p_and n (tl ts) k) (\<lambda>(right, ts1, k1). p_or_rest n (Or left right) ts1 k1)
      else Inr (left, ts, k))"
| "p_and 0 ts k = Inl OutOfFuel"
| "p_and (Suc n) ts k = rbind (p_not n ts k) (\<lambda>(left, ts1, k1). p_and_rest n left ts1 k1)"
| "p_and_rest 0 left ts k = Inl OutOfFuel"
| "p_and_rest (Suc n) left ts k =
     (if peek ts = TokSym ''and'' then
        rbind (p_not n (tl ts) k) (\<lambda>(right, ts1, k1). p_and_rest n (And left right) ts1 k1)
      else Inr (left, ts, k))"
| "p_not 0 ts k = Inl OutOfFuel"
| "p_not (Suc n) ts k =
     rbind (accept_nots 0 ts) (\<lambda>(cnt, ts1).
     rbind (p_comparison n ts1 k) (\<lambda>(expr, ts2, k1).
       if Suc k1 > MAX_WHEN_TERMS then Inl TooManyTerms
       else Inr ((Neg ^^ cnt) expr, ts2, Suc k1)))"
| "p_comparison 0 ts k = Inl OutOfFuel"
| "p_comparison (Suc n) ts k =
     rbind (p_primary n ts k) (\<lambda>(left, ts1, k1).
       case cmp_of_token (peek ts1) of
         Some c \<Rightarrow> rbind (p_primary n (tl ts1) k1) (\<lambda>(right, ts2, k2). Inr (Cmp c left right, ts2, k2))
       | None \<Rightarrow> Inr (left, ts1, k1))"
| "p_primary 0 ts k = Inl OutOfFuel"
| "p_primary (Suc n) ts k =
     (case peek ts of
        TokSym opr \<Rightarrow>
          (if opr = ''('' then
             rbind (p_or n (tl ts) k) (\<lambda>(expr, ts1, k1).
               if peek ts1 = TokSym '')'' then Inr (expr, tl ts1, k1)
               else Inl (ExpectedSymbol '')''))
           else Inl (ExpectedExpression (TokSym opr)))
      | TokIdent name \<Rightarrow> Inr (Var name, tl ts, k)
      | TokLiteral v \<Rightarrow> Inr (Lit v, tl ts, k)
      | TokEof \<Rightarrow> Inl (ExpectedExpression TokEof))"
  by pat_completeness auto
termination
  by (relation "measure (\<lambda>x. case x of
      Inl (Inl (n, _)) \<Rightarrow> n | Inl (Inr (Inl (n, _))) \<Rightarrow> n | Inl (Inr (Inr (n, _))) \<Rightarrow> n
    | Inr (Inl (Inl (n, _))) \<Rightarrow> n | Inr (Inl (Inr (n, _))) \<Rightarrow> n
    | Inr (Inr (Inl (n, _))) \<Rightarrow> n | Inr (Inr (Inr (n, _))) \<Rightarrow> n)") auto

definition parse_tokens :: "token list \<Rightarrow> when_error + ast" where
  "parse_tokens ts =
     rbind (p_or (7 * length ts + 8) ts 0) (\<lambda>(expr, ts1, k).
       if peek ts1 = TokEof then Inr expr else Inl (UnexpectedToken (peek ts1)))"

text \<open>\<open>_WhenParser(text).parse()\<close>.\<close>

definition when_parse :: "string \<Rightarrow> when_error + ast" where
  "when_parse t =
     rbind (guard (length t \<le> MAX_WHEN_LENGTH) ExpressionTooLong) (\<lambda>_.
     rbind (tokens_from 0 t) parse_tokens)"

section \<open>The evaluator\<close>

datatype when_warning =
    TypeWarning string string "nat option"
  | SyntaxWarning string nat string when_error

fun wtruthy :: "wval \<Rightarrow> bool" where
  "wtruthy (WInt i) = (i \<noteq> 0)"
| "wtruthy (WStr s) = (s \<noteq> [])"
| "wtruthy (WBool b) = b"

fun same_type :: "wval \<Rightarrow> wval \<Rightarrow> bool" where
  "same_type (WInt _) (WInt _) = True"
| "same_type (WStr _) (WStr _) = True"
| "same_type (WBool _) (WBool _) = True"
| "same_type _ _ = False"

definition cmp_holds :: "cmpop \<Rightarrow> 'a::linorder \<Rightarrow> 'a \<Rightarrow> bool" where
  "cmp_holds c x y =
     (case c of CEq \<Rightarrow> x = y | CNe \<Rightarrow> x \<noteq> y | CLt \<Rightarrow> x < y | CLe \<Rightarrow> x \<le> y
              | CGt \<Rightarrow> y < x | CGe \<Rightarrow> y \<le> x)"

fun compare_values :: "cmpop \<Rightarrow> wval \<Rightarrow> wval \<Rightarrow> bool" where
  "compare_values c (WInt x) (WInt y) = cmp_holds c x y"
| "compare_values c (WStr x) (WStr y) = cmp_holds c x y"
| "compare_values c (WBool x) (WBool y) = cmp_holds c x y"
| "compare_values c _ _ = False"

type_synonym check_values = "string \<Rightarrow> wval option"

definition lookup_check :: "check_values \<Rightarrow> string \<Rightarrow> wval" where
  "lookup_check vs name = (case vs name of Some v \<Rightarrow> v | None \<Rightarrow> WInt 0)"

text \<open>\<open>_logical_operands\<close>: the stack loop that flattens a chain of one connective.\<close>

fun is_and :: "ast \<Rightarrow> bool" where
  "is_and (And _ _) = True"
| "is_and _ = False"

fun conj_operands :: "ast \<Rightarrow> ast list" where
  "conj_operands (And l r) = conj_operands l @ conj_operands r"
| "conj_operands e = [e]"

fun disj_operands :: "ast \<Rightarrow> ast list" where
  "disj_operands (Or l r) = disj_operands l @ disj_operands r"
| "disj_operands e = [e]"

function operands_loop :: "bool \<Rightarrow> ast list \<Rightarrow> ast list \<Rightarrow> ast list" where
  "operands_loop cj [] operands = operands"
| "operands_loop cj (current # stack) operands =
     (case current of
        And l r \<Rightarrow> if cj then operands_loop cj (l # r # stack) operands
                   else operands_loop cj stack (operands @ [current])
      | Or l r \<Rightarrow> if cj then operands_loop cj stack (operands @ [current])
                  else operands_loop cj (l # r # stack) operands
      | _ \<Rightarrow> operands_loop cj stack (operands @ [current]))"
  by pat_completeness auto
termination
  by (relation "measure (\<lambda>(c, stack, acc). sum_list (map (\<lambda>e. Suc (2 * size e)) stack))") auto

definition logical_operands :: "bool \<Rightarrow> ast \<Rightarrow> ast list" where
  "logical_operands cj e = operands_loop cj [e] []"

lemma operands_loop_conj: "operands_loop True stack acc = acc @ concat (map conj_operands stack)"
proof (induction True stack acc rule: operands_loop.induct)
  case (2 current stack operands)
  then show ?case by (cases current) simp_all
qed simp

lemma operands_loop_disj: "operands_loop False stack acc = acc @ concat (map disj_operands stack)"
proof (induction False stack acc rule: operands_loop.induct)
  case (2 current stack operands)
  then show ?case by (cases current) simp_all
qed simp

lemma logical_operands_eq:
  "logical_operands True e = conj_operands e" "logical_operands False e = disj_operands e"
  by (simp_all add: logical_operands_def operands_loop_conj operands_loop_disj del: operands_loop.simps)

lemma conj_operands_size: "x \<in> set (conj_operands e) \<Longrightarrow> size x \<le> size e"
  by (induction e) fastforce+

lemma disj_operands_size: "x \<in> set (disj_operands e) \<Longrightarrow> size x \<le> size e"
  by (induction e) fastforce+

text \<open>The parity loop of the \<open>not\<close> case: strip the chain, counting modulo two.\<close>

fun strip_nots :: "bool \<Rightarrow> ast \<Rightarrow> bool \<times> ast" where
  "strip_nots negate (Neg e) = strip_nots (\<not> negate) e"
| "strip_nots negate e = (negate, e)"

lemma strip_nots_size: "size (snd (strip_nots b e)) \<le> size e"
  by (induction b e rule: strip_nots.induct) (simp_all add: le_SucI)

text \<open>
  Where the warnings go: \<open>node\<close>, \<open>edge_index\<close> and \<open>predicate\<close> are the arguments
  of the same names. The result carries the warnings appended during the evaluation.
\<close>

record when_site =
  ws_node :: string
  ws_edge_index :: "nat option"
  ws_predicate :: string

definition type_warning :: "when_site \<Rightarrow> when_warning" where
  "type_warning w = TypeWarning (ws_node w) (ws_predicate w) (ws_edge_index w)"

lemma conj_operands_measure:
  "sum_list (map (\<lambda>x. Suc (3 * size x)) (conj_operands e)) + 2 * length (conj_operands e) = 3 * size e + 3"
  by (induction e) simp_all

lemma disj_operands_measure:
  "sum_list (map (\<lambda>x. Suc (3 * size x)) (disj_operands e)) + 2 * length (disj_operands e) = 3 * size e + 3"
  by (induction e) simp_all

lemma conj_operands_length: "1 \<le> length (conj_operands e)"
  by (induction e) simp_all

lemma disj_operands_length: "1 \<le> length (disj_operands e)"
  by (induction e) simp_all

lemma operands_decrease:
  "Suc (sum_list (map (\<lambda>x. Suc (3 * size x)) (logical_operands True (And l r)))) < Suc (3 * size (And l r))"
  "Suc (sum_list (map (\<lambda>x. Suc (3 * size x)) (logical_operands False (Or l r)))) < Suc (3 * size (Or l r))"
  using conj_operands_measure [of "And l r"] disj_operands_measure [of "Or l r"]
    conj_operands_length [of l] conj_operands_length [of r]
    disj_operands_length [of l] disj_operands_length [of r]
  by (simp_all only: logical_operands_eq) simp_all

function eval_when_ast :: "when_site \<Rightarrow> check_values \<Rightarrow> ast \<Rightarrow> wval \<times> when_warning list"
and eval_all :: "when_site \<Rightarrow> check_values \<Rightarrow> ast list \<Rightarrow> bool \<times> when_warning list"
and eval_any :: "when_site \<Rightarrow> check_values \<Rightarrow> ast list \<Rightarrow> bool \<times> when_warning list" where
  "eval_when_ast w vs (Lit v) = (v, [])"
| "eval_when_ast w vs (Var name) = (lookup_check vs name, [])"
| "eval_when_ast w vs (Neg e) =
     (let (negate, current) = strip_nots False (Neg e);
          (v, ws) = eval_when_ast w vs current
      in (WBool (if negate then \<not> wtruthy v else wtruthy v), ws))"
| "eval_when_ast w vs (And l r) =
     (let (b, ws) = eval_all w vs (logical_operands True (And l r)) in (WBool b, ws))"
| "eval_when_ast w vs (Or l r) =
     (let (b, ws) = eval_any w vs (logical_operands False (Or l r)) in (WBool b, ws))"
| "eval_when_ast w vs (Cmp c l r) =
     (let (x, ws1) = eval_when_ast w vs l;
          (y, ws2) = eval_when_ast w vs r
      in if same_type x y then (WBool (compare_values c x y), ws1 @ ws2)
         else (WBool False, ws1 @ ws2 @ [type_warning w]))"
| "eval_all w vs [] = (True, [])"
| "eval_all w vs (x # xs) =
     (let (v, ws) = eval_when_ast w vs x
      in if wtruthy v then (let (b, ws') = eval_all w vs xs in (b, ws @ ws')) else (False, ws))"
| "eval_any w vs [] = (False, [])"
| "eval_any w vs (x # xs) =
     (let (v, ws) = eval_when_ast w vs x
      in if wtruthy v then (True, ws) else (let (b, ws') = eval_any w vs xs in (b, ws @ ws')))"
  by pat_completeness auto
termination
proof (relation "measure (\<lambda>x. case x of
    Inl (w, vs, e) \<Rightarrow> Suc (3 * size e)
  | Inr (Inl (w, vs, xs)) \<Rightarrow> Suc (sum_list (map (\<lambda>x. Suc (3 * size x)) xs))
  | Inr (Inr (w, vs, xs)) \<Rightarrow> Suc (sum_list (map (\<lambda>x. Suc (3 * size x)) xs)))", goal_cases)
  case (2 w vs e x y current)
  then show ?case using strip_nots_size [of True e] by (auto simp: prod_eq_iff)
qed (use operands_decrease in auto)

text \<open>The direct meaning of the tree: no flattening, no parity loop.\<close>

fun eval_ref :: "when_site \<Rightarrow> check_values \<Rightarrow> ast \<Rightarrow> wval \<times> when_warning list" where
  "eval_ref w vs (Lit v) = (v, [])"
| "eval_ref w vs (Var name) = (lookup_check vs name, [])"
| "eval_ref w vs (Neg e) = (let (v, ws) = eval_ref w vs e in (WBool (\<not> wtruthy v), ws))"
| "eval_ref w vs (And l r) =
     (let (v, ws) = eval_ref w vs l
      in if wtruthy v then (let (u, ws') = eval_ref w vs r in (WBool (wtruthy u), ws @ ws'))
         else (WBool False, ws))"
| "eval_ref w vs (Or l r) =
     (let (v, ws) = eval_ref w vs l
      in if wtruthy v then (WBool True, ws)
         else (let (u, ws') = eval_ref w vs r in (WBool (wtruthy u), ws @ ws')))"
| "eval_ref w vs (Cmp c l r) =
     (let (x, ws1) = eval_ref w vs l;
          (y, ws2) = eval_ref w vs r
      in if same_type x y then (WBool (compare_values c x y), ws1 @ ws2)
         else (WBool False, ws1 @ ws2 @ [type_warning w]))"

fun all_ref :: "when_site \<Rightarrow> check_values \<Rightarrow> ast list \<Rightarrow> bool \<times> when_warning list" where
  "all_ref w vs [] = (True, [])"
| "all_ref w vs (x # xs) =
     (let (v, ws) = eval_ref w vs x
      in if wtruthy v then (let (b, ws') = all_ref w vs xs in (b, ws @ ws')) else (False, ws))"

fun any_ref :: "when_site \<Rightarrow> check_values \<Rightarrow> ast list \<Rightarrow> bool \<times> when_warning list" where
  "any_ref w vs [] = (False, [])"
| "any_ref w vs (x # xs) =
     (let (v, ws) = eval_ref w vs x
      in if wtruthy v then (True, ws) else (let (b, ws') = any_ref w vs xs in (b, ws @ ws')))"

lemma all_ref_append:
  "all_ref w vs (xs @ ys) =
     (let (b, ws) = all_ref w vs xs
      in if b then (let (b', ws') = all_ref w vs ys in (b', ws @ ws')) else (False, ws))"
  by (induction xs) (auto simp: Let_def split: prod.splits)

lemma any_ref_append:
  "any_ref w vs (xs @ ys) =
     (let (b, ws) = any_ref w vs xs
      in if b then (True, ws) else (let (b', ws') = any_ref w vs ys in (b', ws @ ws')))"
  by (induction xs) (auto simp: Let_def split: prod.splits)

lemma all_ref_conj_operands:
  "all_ref w vs (conj_operands e) = (let (v, ws) = eval_ref w vs e in (wtruthy v, ws))"
  by (induction e) (auto simp: all_ref_append Let_def split: prod.splits)

lemma any_ref_disj_operands:
  "any_ref w vs (disj_operands e) = (let (v, ws) = eval_ref w vs e in (wtruthy v, ws))"
  by (induction e) (auto simp: any_ref_append Let_def split: prod.splits)

lemma eval_ref_strip_nots:
  "(let (v, ws) = eval_ref w vs (snd (strip_nots b e))
    in (if fst (strip_nots b e) then \<not> wtruthy v else wtruthy v, ws)) =
   (let (v, ws) = eval_ref w vs e in (if b then \<not> wtruthy v else wtruthy v, ws))"
  by (induction b e rule: strip_nots.induct) (auto simp: Let_def split: prod.splits)

lemma eval_eq_ref_all:
  "eval_when_ast w vs e = eval_ref w vs e"
  "eval_all w vs xs = all_ref w vs xs"
  "eval_any w vs xs = any_ref w vs xs"
proof (induction w vs e and w vs xs and w vs xs rule: eval_when_ast_eval_all_eval_any.induct)
  case (3 w vs e)
  have "eval_when_ast w vs (snd (strip_nots True e)) = eval_ref w vs (snd (strip_nots True e))"
    using "3.IH" [OF refl prod.collapse] by simp
  then show ?case
    using eval_ref_strip_nots [of w vs True e] by (auto simp: Let_def split: prod.splits)
next
  case (4 w vs l r)
  then show ?case
    using all_ref_conj_operands [of w vs "And l r"]
    by (auto simp: logical_operands_eq Let_def split: prod.splits)
next
  case (5 w vs l r)
  then show ?case
    using any_ref_disj_operands [of w vs "Or l r"]
    by (auto simp: logical_operands_eq Let_def split: prod.splits)
qed (auto simp: Let_def split: prod.splits)

section \<open>Evaluating an expression\<close>

definition evaluate_when ::
  "string option \<Rightarrow> check_values \<Rightarrow> string \<Rightarrow> nat option \<Rightarrow> when_error + bool \<times> when_warning list" where
  "evaluate_when expression vs node edge_index =
     (let t = py_strip (case expression of None \<Rightarrow> [] | Some e \<Rightarrow> e) in
      if t = [] then Inr (True, [])
      else rbind (when_parse t) (\<lambda>e.
        let w = \<lparr>ws_node = node, ws_edge_index = edge_index, ws_predicate = t\<rparr>;
            (v, ws) = eval_when_ast w vs e
        in Inr (wtruthy v, ws)))"

section \<open>Static checks\<close>

type_synonym check_registry = "string \<Rightarrow> string option"

text \<open>\<open>_when_identifiers\<close> and \<open>_when_comparison_type_pairs\<close>: the stack loops; the
  head of the list is the top of the stack.\<close>

function when_identifiers_loop :: "ast list \<Rightarrow> string set \<Rightarrow> string set" where
  "when_identifiers_loop [] identifiers = identifiers"
| "when_identifiers_loop (current # stack) identifiers =
     (case current of
        Var name \<Rightarrow> when_identifiers_loop stack (insert name identifiers)
      | Neg e \<Rightarrow> when_identifiers_loop (e # stack) identifiers
      | And l r \<Rightarrow> when_identifiers_loop (r # l # stack) identifiers
      | Or l r \<Rightarrow> when_identifiers_loop (r # l # stack) identifiers
      | Cmp c l r \<Rightarrow> when_identifiers_loop (r # l # stack) identifiers
      | Lit v \<Rightarrow> when_identifiers_loop stack identifiers)"
  by pat_completeness auto
termination
  by (relation "measure (\<lambda>(stack, ids). sum_list (map (\<lambda>e. Suc (2 * size e)) stack))") auto

definition when_identifiers :: "ast \<Rightarrow> string set" where
  "when_identifiers e = when_identifiers_loop [e] {}"

definition when_operand_type :: "check_registry \<Rightarrow> ast \<Rightarrow> string option" where
  "when_operand_type registry e =
     (case e of
        Var name \<Rightarrow> registry name
      | Lit (WInt _) \<Rightarrow> Some ''counter''
      | Lit (WStr _) \<Rightarrow> Some ''text''
      | _ \<Rightarrow> None)"

function type_pairs_loop ::
  "check_registry \<Rightarrow> ast list \<Rightarrow> (string option \<times> string option) list \<Rightarrow>
   (string option \<times> string option) list" where
  "type_pairs_loop registry [] pairs = pairs"
| "type_pairs_loop registry (current # stack) pairs =
     (case current of
        Cmp c l r \<Rightarrow> type_pairs_loop registry (r # l # stack)
                      (pairs @ [(when_operand_type registry l, when_operand_type registry r)])
      | Neg e \<Rightarrow> type_pairs_loop registry (e # stack) pairs
      | And l r \<Rightarrow> type_pairs_loop registry (r # l # stack) pairs
      | Or l r \<Rightarrow> type_pairs_loop registry (r # l # stack) pairs
      | _ \<Rightarrow> type_pairs_loop registry stack pairs)"
  by pat_completeness auto
termination
  by (relation "measure (\<lambda>(r, stack, ps). sum_list (map (\<lambda>e. Suc (2 * size e)) stack))") auto

definition when_comparison_type_pairs ::
  "ast \<Rightarrow> check_registry \<Rightarrow> (string option \<times> string option) list" where
  "when_comparison_type_pairs e registry = type_pairs_loop registry [e] []"

datatype when_static_error =
    DeclaredChecksMissing
  | UndeclaredVariable string
  | WhenTypeError string string

text \<open>
  \<open>_when_static_errors\<close> on the edge's \<open>when\<close> field (\<open>None\<close> when it is absent or not
  a string); the report fields that repeat the arguments (node, edge, predicate) are left out.
\<close>

definition when_static_errors ::
  "string option \<Rightarrow> check_registry \<Rightarrow> bool \<Rightarrow> when_static_error list" where
  "when_static_errors whenv registry registry_present =
     (case whenv of
        None \<Rightarrow> []
      | Some t \<Rightarrow>
          if py_strip t = [] then []
          else (case when_parse t of
                  Inl _ \<Rightarrow> []
                | Inr e \<Rightarrow>
                    if \<not> registry_present then [DeclaredChecksMissing]
                    else
                      (let undeclared = filter (\<lambda>i. registry i = None) (sorted_list_of_set (when_identifiers e))
                       in if undeclared \<noteq> [] then map UndeclaredVariable undeclared
                          else concat (map (\<lambda>(lt, rt). case (lt, rt) of
                                    (Some a, Some b) \<Rightarrow> if a \<noteq> b then [WhenTypeError a b] else []
                                  | _ \<Rightarrow> [])
                                 (when_comparison_type_pairs e registry)))))"

fun ast_vars :: "ast \<Rightarrow> string set" where
  "ast_vars (Lit v) = {}"
| "ast_vars (Var name) = {name}"
| "ast_vars (Neg e) = ast_vars e"
| "ast_vars (And l r) = ast_vars l \<union> ast_vars r"
| "ast_vars (Or l r) = ast_vars l \<union> ast_vars r"
| "ast_vars (Cmp c l r) = ast_vars l \<union> ast_vars r"

fun ast_cmps :: "ast \<Rightarrow> (ast \<times> ast) set" where
  "ast_cmps (Lit v) = {}"
| "ast_cmps (Var name) = {}"
| "ast_cmps (Neg e) = ast_cmps e"
| "ast_cmps (And l r) = ast_cmps l \<union> ast_cmps r"
| "ast_cmps (Or l r) = ast_cmps l \<union> ast_cmps r"
| "ast_cmps (Cmp c l r) = insert (l, r) (ast_cmps l \<union> ast_cmps r)"

declare when_identifiers_loop.simps(2) [simp del] type_pairs_loop.simps(2) [simp del]

lemma when_identifiers_loop_eq:
  "when_identifiers_loop stack ids = ids \<union> \<Union> (ast_vars ` set stack)"
proof (induction stack ids rule: when_identifiers_loop.induct)
  case (2 current stack ids)
  then show ?case
    by (subst when_identifiers_loop.simps(2)) (cases current; simp add: Un_ac)
qed simp

lemma type_pairs_loop_eq:
  "set (type_pairs_loop registry stack pairs) =
     set pairs \<union> (\<lambda>(l, r). (when_operand_type registry l, when_operand_type registry r)) ` \<Union> (ast_cmps ` set stack)"
proof (induction registry stack pairs rule: type_pairs_loop.induct)
  case (2 registry current stack pairs)
  then show ?case
    by (subst type_pairs_loop.simps(2)) (cases current; simp add: image_Un Un_ac)
qed simp

lemma when_identifiers_eq: "when_identifiers e = ast_vars e"
  by (simp add: when_identifiers_def when_identifiers_loop_eq)

lemma set_type_pairs:
  "set (when_comparison_type_pairs e registry) =
     (\<lambda>(l, r). (when_operand_type registry l, when_operand_type registry r)) ` ast_cmps e"
  by (simp add: when_comparison_type_pairs_def type_pairs_loop_eq)

lemma finite_ast_vars [simp]: "finite (ast_vars e)"
  by (induction e) simp_all

section \<open>What the parser does to its state\<close>

fun ast_leaves :: "ast \<Rightarrow> nat" where
  "ast_leaves (Lit v) = 1"
| "ast_leaves (Var name) = 1"
| "ast_leaves (Neg e) = ast_leaves e"
| "ast_leaves (And l r) = ast_leaves l + ast_leaves r"
| "ast_leaves (Or l r) = ast_leaves l + ast_leaves r"
| "ast_leaves (Cmp c l r) = ast_leaves l + ast_leaves r"

fun ast_lits :: "ast \<Rightarrow> wval set" where
  "ast_lits (Lit v) = {v}"
| "ast_lits (Var name) = {}"
| "ast_lits (Neg e) = ast_lits e"
| "ast_lits (And l r) = ast_lits l \<union> ast_lits r"
| "ast_lits (Or l r) = ast_lits l \<union> ast_lits r"
| "ast_lits (Cmp c l r) = ast_lits l \<union> ast_lits r"

definition token_lits :: "token list \<Rightarrow> wval set" where
  "token_lits ts = {v. TokLiteral v \<in> set ts}"

lemma negs_measures [simp]:
  "ast_leaves ((Neg ^^ n) e) = ast_leaves e" "ast_lits ((Neg ^^ n) e) = ast_lits e"
  by (induction n) simp_all

text \<open>What a successful call of a parser function has done to the parser's state.\<close>

definition parsed :: "nat \<Rightarrow> nat \<Rightarrow> token list \<Rightarrow> nat \<Rightarrow> ast \<Rightarrow> token list \<Rightarrow> nat \<Rightarrow> bool" where
  "parsed c d ts k e ts' k' \<longleftrightarrow>
     length ts' + c \<le> length ts \<and> set ts' \<subseteq> set ts \<and> k \<le> k' \<and>
     (k \<le> MAX_WHEN_TERMS \<longrightarrow> k' \<le> MAX_WHEN_TERMS) \<and>
     ast_leaves e + 2 * k \<le> 2 * k' + d \<and> ast_lits e \<subseteq> token_lits ts"

definition parsed_rest :: "ast \<Rightarrow> token list \<Rightarrow> nat \<Rightarrow> ast \<Rightarrow> token list \<Rightarrow> nat \<Rightarrow> bool" where
  "parsed_rest l ts k e ts' k' \<longleftrightarrow>
     length ts' \<le> length ts \<and> set ts' \<subseteq> set ts \<and> k \<le> k' \<and>
     (k \<le> MAX_WHEN_TERMS \<longrightarrow> k' \<le> MAX_WHEN_TERMS) \<and>
     ast_leaves e + 2 * k \<le> 2 * k' + ast_leaves l \<and> ast_lits e \<subseteq> ast_lits l \<union> token_lits ts"

lemma token_lits_mono: "set ts' \<subseteq> set ts \<Longrightarrow> token_lits ts' \<subseteq> token_lits ts"
  by (auto simp: token_lits_def)

lemma set_tl_subset: "set (tl ts) \<subseteq> set ts"
  by (cases ts) auto

lemma parsed_then_rest:
  "parsed (Suc 0) 0 ts k l t1 k1 \<Longrightarrow> parsed_rest l t1 k1 e ts' k' \<Longrightarrow> parsed (Suc 0) 0 ts k e ts' k'"
  using token_lits_mono [of t1 ts] by (auto simp: parsed_def parsed_rest_def)

lemma rest_step:
  assumes "parsed (Suc 0) 0 (tl ts) k r t1 k1"
    and "parsed_rest lr t1 k1 e ts' k'"
    and "ast_leaves lr = ast_leaves l + ast_leaves r" "ast_lits lr = ast_lits l \<union> ast_lits r"
  shows "parsed_rest l ts k e ts' k'"
proof -
  have "token_lits (tl ts) \<subseteq> token_lits ts" by (intro token_lits_mono set_tl_subset)
  moreover have "token_lits t1 \<subseteq> token_lits (tl ts)"
    using assms(1) by (intro token_lits_mono) (simp add: parsed_def)
  ultimately have "ast_lits e \<subseteq> ast_lits l \<union> token_lits ts"
    using assms unfolding parsed_def parsed_rest_def by blast
  then show ?thesis
    using assms set_tl_subset [of ts] unfolding parsed_def parsed_rest_def by auto
qed

lemma rest_refl: "parsed_rest l ts k l ts k"
  by (simp add: parsed_rest_def)

lemma accept_nots_shrinks: "accept_nots c ts = Inr (c', ts') \<Longrightarrow> length ts' \<le> length ts \<and> set ts' \<subseteq> set ts"
  by (induction c ts rule: accept_nots.induct) (auto split: if_splits)

lemma parsed_not:
  assumes "accept_nots 0 ts = Inr (c, t1)" "parsed (Suc 0) 2 t1 k e ts' k1" "Suc k1 \<le> MAX_WHEN_TERMS"
  shows "parsed (Suc 0) 0 ts k ((Neg ^^ c) e) ts' (Suc k1)"
  using assms accept_nots_shrinks [OF assms(1)] token_lits_mono [of t1 ts]
  unfolding parsed_def by auto

lemma parsed_comparison:
  assumes "parsed (Suc 0) (Suc 0) ts k l t1 k1" "parsed (Suc 0) (Suc 0) (tl t1) k1 r ts' k'"
  shows "parsed (Suc 0) 2 ts k (Cmp c l r) ts' k'"
  using assms token_lits_mono [of "tl t1" t1] token_lits_mono [of t1 ts] set_tl_subset [of t1]
  unfolding parsed_def by auto

lemma parsed_weaken: "parsed c d ts k e ts' k' \<Longrightarrow> d \<le> d' \<Longrightarrow> parsed c d' ts k e ts' k'"
  by (auto simp: parsed_def)

lemma parsed_parens:
  "parsed (Suc 0) 0 (tl ts) k e t1 k' \<Longrightarrow> parsed (Suc 0) (Suc 0) ts k e (tl t1) k'"
  using token_lits_mono [of "tl ts" ts] set_tl_subset [of ts] set_tl_subset [of t1]
  unfolding parsed_def by auto

lemma parsed_leaf:
  "peek ts = TokLiteral v \<Longrightarrow> parsed (Suc 0) (Suc 0) ts k (Lit v) (tl ts) k"
  "peek ts = TokIdent x \<Longrightarrow> parsed (Suc 0) (Suc 0) ts k (Var x) (tl ts) k"
  by (cases ts; auto simp: parsed_def peek_def token_lits_def)+

lemma parser_parsed:
  "(\<forall>ts k e ts' k'. p_or n ts k = Inr (e, ts', k') \<longrightarrow> parsed (Suc 0) 0 ts k e ts' k') \<and>
   (\<forall>l ts k e ts' k'. p_or_rest n l ts k = Inr (e, ts', k') \<longrightarrow> parsed_rest l ts k e ts' k') \<and>
   (\<forall>ts k e ts' k'. p_and n ts k = Inr (e, ts', k') \<longrightarrow> parsed (Suc 0) 0 ts k e ts' k') \<and>
   (\<forall>l ts k e ts' k'. p_and_rest n l ts k = Inr (e, ts', k') \<longrightarrow> parsed_rest l ts k e ts' k') \<and>
   (\<forall>ts k e ts' k'. p_not n ts k = Inr (e, ts', k') \<longrightarrow> parsed (Suc 0) 0 ts k e ts' k') \<and>
   (\<forall>ts k e ts' k'. p_comparison n ts k = Inr (e, ts', k') \<longrightarrow> parsed (Suc 0) 2 ts k e ts' k') \<and>
   (\<forall>ts k e ts' k'. p_primary n ts k = Inr (e, ts', k') \<longrightarrow> parsed (Suc 0) (Suc 0) ts k e ts' k')"
proof (induction n)
  case (Suc n)
  then have IH:
    "\<And>ts k e ts' k'. p_or n ts k = Inr (e, ts', k') \<Longrightarrow> parsed (Suc 0) 0 ts k e ts' k'"
    "\<And>l ts k e ts' k'. p_or_rest n l ts k = Inr (e, ts', k') \<Longrightarrow> parsed_rest l ts k e ts' k'"
    "\<And>ts k e ts' k'. p_and n ts k = Inr (e, ts', k') \<Longrightarrow> parsed (Suc 0) 0 ts k e ts' k'"
    "\<And>l ts k e ts' k'. p_and_rest n l ts k = Inr (e, ts', k') \<Longrightarrow> parsed_rest l ts k e ts' k'"
    "\<And>ts k e ts' k'. p_not n ts k = Inr (e, ts', k') \<Longrightarrow> parsed (Suc 0) 0 ts k e ts' k'"
    "\<And>ts k e ts' k'. p_comparison n ts k = Inr (e, ts', k') \<Longrightarrow> parsed (Suc 0) 2 ts k e ts' k'"
    "\<And>ts k e ts' k'. p_primary n ts k = Inr (e, ts', k') \<Longrightarrow> parsed (Suc 0) (Suc 0) ts k e ts' k'"
    by simp_all
  show ?case
    by (intro conjI allI impI)
      (auto simp: rbind_Inr_iff split: if_splits option.splits token.splits dest!: IH
        intro: parsed_then_rest rest_refl rest_step [where lr = "Or _ _"] rest_step [where lr = "And _ _"]
          parsed_not parsed_comparison parsed_weaken [where d = "Suc 0"] parsed_parens parsed_leaf)
qed simp

lemmas parser_parsed_or = parser_parsed [THEN conjunct1, rule_format]

lemma parser_shrinks:
  "p_or n ts k = Inr (e, ts', k') \<Longrightarrow> length ts' < length ts"
  "p_or_rest n l ts k = Inr (e, ts', k') \<Longrightarrow> length ts' \<le> length ts"
  "p_and n ts k = Inr (e, ts', k') \<Longrightarrow> length ts' < length ts"
  "p_and_rest n l ts k = Inr (e, ts', k') \<Longrightarrow> length ts' \<le> length ts"
  "p_not n ts k = Inr (e, ts', k') \<Longrightarrow> length ts' < length ts"
  "p_comparison n ts k = Inr (e, ts', k') \<Longrightarrow> length ts' < length ts"
  "p_primary n ts k = Inr (e, ts', k') \<Longrightarrow> length ts' < length ts"
  using parser_parsed [of n] by (auto simp: parsed_def parsed_rest_def Suc_le_eq)

lemma accept_nots_fuel [simp]: "accept_nots c ts \<noteq> Inl OutOfFuel"
  by (induction c ts rule: accept_nots.induct) auto

lemma peek_nonempty: "peek ts \<noteq> TokEof \<Longrightarrow> ts \<noteq> []"
  by (auto simp: peek_def)

lemma tl_fuel: "peek ts = t \<Longrightarrow> t \<noteq> TokEof \<Longrightarrow> Suc (length (tl ts)) = length ts"
  by (cases ts) (auto simp: peek_def)

lemma cmp_of_token_Some: "cmp_of_token t = Some c \<Longrightarrow> t \<noteq> TokEof"
  by (auto simp: cmp_of_token_def)

lemma parser_enough_fuel:
  "(\<forall>ts k. 7 * length ts + 5 \<le> n \<longrightarrow> p_or n ts k \<noteq> Inl OutOfFuel) \<and>
   (\<forall>l ts k. 7 * length ts + 1 \<le> n \<longrightarrow> p_or_rest n l ts k \<noteq> Inl OutOfFuel) \<and>
   (\<forall>ts k. 7 * length ts + 4 \<le> n \<longrightarrow> p_and n ts k \<noteq> Inl OutOfFuel) \<and>
   (\<forall>l ts k. 7 * length ts + 1 \<le> n \<longrightarrow> p_and_rest n l ts k \<noteq> Inl OutOfFuel) \<and>
   (\<forall>ts k. 7 * length ts + 3 \<le> n \<longrightarrow> p_not n ts k \<noteq> Inl OutOfFuel) \<and>
   (\<forall>ts k. 7 * length ts + 2 \<le> n \<longrightarrow> p_comparison n ts k \<noteq> Inl OutOfFuel) \<and>
   (\<forall>ts k. 7 * length ts + 1 \<le> n \<longrightarrow> p_primary n ts k \<noteq> Inl OutOfFuel)"
proof (induction n)
  case (Suc n)
  then have IH:
    "\<And>ts k. p_or n ts k = Inl OutOfFuel \<Longrightarrow> n < 7 * length ts + 5"
    "\<And>l ts k. p_or_rest n l ts k = Inl OutOfFuel \<Longrightarrow> n < 7 * length ts + 1"
    "\<And>ts k. p_and n ts k = Inl OutOfFuel \<Longrightarrow> n < 7 * length ts + 4"
    "\<And>l ts k. p_and_rest n l ts k = Inl OutOfFuel \<Longrightarrow> n < 7 * length ts + 1"
    "\<And>ts k. p_not n ts k = Inl OutOfFuel \<Longrightarrow> n < 7 * length ts + 3"
    "\<And>ts k. p_comparison n ts k = Inl OutOfFuel \<Longrightarrow> n < 7 * length ts + 2"
    "\<And>ts k. p_primary n ts k = Inl OutOfFuel \<Longrightarrow> n < 7 * length ts + 1"
    by (meson not_le)+
  show ?case
    by (intro conjI allI impI notI)
      (fastforce simp: rbind_Inl_iff split: if_splits option.splits token.splits dest!: IH
        dest: parser_shrinks accept_nots_shrinks tl_fuel cmp_of_token_Some)+
qed simp
section \<open>Literals and limits\<close>

lemma dec_value_bound: "list_all is_digit ds \<Longrightarrow> dec_value ds < 10 ^ length ds"
proof (induction ds rule: rev_induct)
  case (snoc c ds)
  then show ?case by (auto simp: dec_value_snoc is_digit_def)
qed (simp add: dec_value_def)

lemma lexeme_int_digits: "next_lexeme t = (LexInt ds, rest) \<Longrightarrow> list_all is_digit ds"
  by (auto simp: next_lexeme_def lexeme_at_def list_all_iff Let_def
      split: list.splits if_splits option.splits prod.splits dest: set_takeWhileD)

definition when_literal :: "wval \<Rightarrow> bool" where
  "when_literal v = (case v of WInt i \<Rightarrow> 0 \<le> i \<and> i < 10 ^ 18 | WStr _ \<Rightarrow> True | WBool _ \<Rightarrow> False)"

lemma token_lits_Cons [simp]:
  "token_lits (TokLiteral v # ts) = insert v (token_lits ts)"
  "token_lits (TokSym x # ts) = token_lits ts"
  "token_lits (TokIdent x # ts) = token_lits ts"
  "token_lits (TokEof # ts) = token_lits ts"
  "token_lits [] = {}"
  by (auto simp: token_lits_def)

lemma tokens_from_literals: "tokens_from d t = Inr ts \<Longrightarrow> \<forall>v\<in>token_lits ts. when_literal v"
proof (induction d t arbitrary: ts rule: tokens_from.induct)
  case (1 d t)
  have int_bound: "int (dec_value ds) < 10 ^ 18"
    if "list_all is_digit ds" "length ds \<le> MAX_WHEN_INTEGER_DIGITS" for ds
  proof -
    have "dec_value ds < 10 ^ length ds" using that(1) by (rule dec_value_bound)
    also have "(10::nat) ^ length ds \<le> 10 ^ 18"
      using that(2) by (intro power_increasing) (simp_all add: MAX_WHEN_INTEGER_DIGITS_def)
    finally show ?thesis by (metis of_nat_less_iff of_nat_numeral of_nat_power)
  qed
  obtain lx rest where lx: "next_lexeme t = (lx, rest)" by fastforce
  show ?case
  proof (cases "t = []")
    case True
    with "1.prems" show ?thesis by auto
  next
    case False
    note IH = "1.IH" [OF False lx [symmetric]]
    show ?thesis
      using "1.prems" False IH int_bound lexeme_int_digits [of t]
      by (subst (asm) tokens_from.simps)
        (cases lx; auto simp: lx rbind_Inr_iff when_literal_def Let_def split: if_splits option.splits)
  qed
qed

lemma tokens_from_fuel: "tokens_from d t \<noteq> Inl OutOfFuel"
proof (induction d t rule: tokens_from.induct)
  case (1 d t)
  obtain lx rest where lx: "next_lexeme t = (lx, rest)" by fastforce
  show ?case
  proof (cases "t = []")
    case True
    then show ?thesis by simp
  next
    case False
    note IH = "1.IH" [OF False lx [symmetric]]
    show ?thesis
      using False IH
      by (subst tokens_from.simps)
        (cases lx; auto simp: lx rbind_Inl_iff Let_def split: option.splits)
  qed
qed

lemma when_parse_Inr:
  assumes "when_parse t = Inr e"
  obtains ts where "tokens_from 0 t = Inr ts" "ast_lits e \<subseteq> token_lits ts"
    "ast_leaves e \<le> 2 * MAX_WHEN_TERMS"
proof -
  from assms obtain ts ts' k where ts: "tokens_from 0 t = Inr ts"
    and p: "p_or (7 * length ts + 8) ts 0 = Inr (e, ts', k)"
    by (auto simp: when_parse_def parse_tokens_def rbind_Inr_iff split: if_splits)
  from parser_parsed_or [OF p] have "ast_lits e \<subseteq> token_lits ts" "ast_leaves e \<le> 2 * MAX_WHEN_TERMS"
    by (auto simp: parsed_def)
  with ts that show ?thesis by blast
qed

section \<open>Properties\<close>

text \<open>
  The predicate parser always returns: whatever the text, \<open>_WhenParser(text).parse()\<close>
  yields a syntax tree or one of its own syntax errors; the model's recursion budget is never the
  reason it stops.
\<close>

theorem when_parse_total: "when_parse t \<noteq> Inl OutOfFuel"
proof
  assume "when_parse t = Inl OutOfFuel"
  then obtain ts where "tokens_from 0 t = Inr ts" "parse_tokens ts = Inl OutOfFuel"
    by (auto simp: when_parse_def rbind_Inl_iff tokens_from_fuel)
  then have "p_or (7 * length ts + 8) ts 0 = Inl OutOfFuel"
    by (auto simp: parse_tokens_def rbind_Inl_iff split: if_splits)
  moreover have "7 * length ts + 5 \<le> 7 * length ts + 8" by simp
  ultimately show False
    using parser_enough_fuel [THEN conjunct1, rule_format] by blast
qed

text \<open>
  C39: the evaluator is right: the iterative evaluation of the code (a parity loop over
  \<open>not\<close> chains, a stack that flattens \<open>and\<close> and \<open>or\<close> chains, short circuits)
  gives the value and the warnings, in the same order, of the direct recursive reading of the tree.
\<close>

theorem eval_when_ast_meaning: "eval_when_ast w vs e = eval_ref w vs e"
  by (rule eval_eq_ref_all)

text \<open>
  A parsed predicate is bounded: at most two leaves for each of the 256 terms the parser
  allows, every integer literal below ten to the eighteenth, and no literal that is neither an
  integer nor a string.
\<close>

theorem when_parse_bounded:
  assumes "when_parse t = Inr e"
  shows "ast_leaves e \<le> 512 \<and> (\<forall>v\<in>ast_lits e. when_literal v)"
proof -
  obtain ts where "tokens_from 0 t = Inr ts" "ast_lits e \<subseteq> token_lits ts"
    "ast_leaves e \<le> 2 * MAX_WHEN_TERMS"
    by (rule when_parse_Inr [OF assms])
  then show ?thesis
    using tokens_from_literals [of 0 t ts] by (auto simp: MAX_WHEN_TERMS_def)
qed

theorem when_parse_bounded_witness:
  "when_parse ''not (count >= 3) or b'' = Inr (Or (Neg (Cmp CGe (Var ''count'') (Lit (WInt 3)))) (Var ''b'')) \<and>
   ast_leaves (Or (Neg (Cmp CGe (Var ''count'') (Lit (WInt 3)))) (Var ''b'')) \<le> 512"
proof -
  have p: "when_parse ''not (count >= 3) or b'' =
     Inr (Or (Neg (Cmp CGe (Var ''count'') (Lit (WInt 3)))) (Var ''b''))"
    by code_simp
  from p when_parse_bounded [OF p] show ?thesis by blast
qed

section \<open>What the static check guarantees\<close>

text \<open>
  A state that conforms to the registry (every declared check holds a value of its declared type)
  and comparisons between identifiers and literals only.
\<close>

definition typed_values :: "check_registry \<Rightarrow> check_values \<Rightarrow> bool" where
  "typed_values registry vs \<longleftrightarrow>
     (\<forall>name. (registry name = Some ''counter'' \<longrightarrow> (\<exists>i. vs name = Some (WInt i))) \<and>
             (registry name = Some ''text'' \<longrightarrow> (\<exists>s. vs name = Some (WStr s))))"

definition registry_types :: "check_registry \<Rightarrow> bool" where
  "registry_types registry \<longleftrightarrow> ran registry \<subseteq> {''counter'', ''text''}"

fun is_leaf :: "ast \<Rightarrow> bool" where
  "is_leaf (Lit v) = True"
| "is_leaf (Var name) = True"
| "is_leaf _ = False"

definition flat_comparisons :: "ast \<Rightarrow> bool" where
  "flat_comparisons e \<longleftrightarrow> (\<forall>(l, r)\<in>ast_cmps e. is_leaf l \<and> is_leaf r)"

fun value_type :: "wval \<Rightarrow> string" where
  "value_type (WInt i) = ''counter''"
| "value_type (WStr s) = ''text''"
| "value_type (WBool b) = ''flag''"

lemma same_type_iff: "same_type x y \<longleftrightarrow> value_type x = value_type y"
  by (cases x; cases y) simp_all

lemma leaf_type:
  assumes "is_leaf e" "ast_vars e \<subseteq> dom registry" "\<forall>v\<in>ast_lits e. when_literal v"
    "typed_values registry vs" "registry_types registry"
  shows "when_operand_type registry e = Some (value_type (fst (eval_ref w vs e))) \<and> snd (eval_ref w vs e) = []"
proof (cases e)
  case (Lit v)
  with assms(3) show ?thesis
    by (cases v) (simp_all add: when_operand_type_def when_literal_def)
next
  case (Var name)
  with assms(2) obtain ty where ty: "registry name = Some ty" by auto
  with assms(5) have "ty = ''counter'' \<or> ty = ''text''"
    by (auto simp: registry_types_def ran_def)
  with ty assms(4) Var show ?thesis
    by (auto simp: typed_values_def when_operand_type_def lookup_check_def)
qed (use assms(1) in simp_all)

lemma ast_cmps_sub:
  "(l, r) \<in> ast_cmps e \<Longrightarrow>
   ast_vars l \<subseteq> ast_vars e \<and> ast_vars r \<subseteq> ast_vars e \<and> ast_lits l \<subseteq> ast_lits e \<and> ast_lits r \<subseteq> ast_lits e"
  by (induction e) auto

lemma eval_ref_silent:
  assumes "typed_values registry vs" "registry_types registry"
  shows "ast_vars e \<subseteq> dom registry \<Longrightarrow> \<forall>v\<in>ast_lits e. when_literal v \<Longrightarrow> flat_comparisons e \<Longrightarrow>
    \<forall>(l, r)\<in>ast_cmps e. when_operand_type registry l = when_operand_type registry r \<Longrightarrow>
    snd (eval_ref w vs e) = []"
proof (induction e)
  case (Cmp c l r)
  then have "is_leaf l" "is_leaf r" by (auto simp: flat_comparisons_def)
  with Cmp.prems leaf_type [of l registry vs w] leaf_type [of r registry vs w] assms
  show ?case by (auto simp: Let_def same_type_iff split: prod.splits)
qed (auto simp: Let_def flat_comparisons_def split: prod.splits)

lemma static_errors_none:
  assumes "when_static_errors (Some t) registry True = []" "when_parse t = Inr e" "py_strip t \<noteq> []"
  shows "ast_vars e \<subseteq> dom registry"
    and "\<And>l r. (l, r) \<in> ast_cmps e \<Longrightarrow> when_operand_type registry l = Some a \<Longrightarrow>
      when_operand_type registry r = Some b \<Longrightarrow> a = b"
proof -
  let ?bad = "filter (\<lambda>i. registry i = None) (sorted_list_of_set (when_identifiers e))"
  have none: "?bad = []"
    using assms by (auto simp: when_static_errors_def Let_def split: if_splits)
  then show "ast_vars e \<subseteq> dom registry"
    by (auto simp: filter_empty_conv when_identifiers_eq)
  show "a = b" if "(l, r) \<in> ast_cmps e" "when_operand_type registry l = Some a"
    "when_operand_type registry r = Some b" for l r
  proof -
    have "(Some a, Some b) \<in> set (when_comparison_type_pairs e registry)"
      using that by (force simp: set_type_pairs)
    then show ?thesis
      using assms none by (fastforce simp: when_static_errors_def Let_def split: if_splits)
  qed
qed

lemma static_check_silent:
  assumes "when_static_errors (Some t) registry True = []" "py_strip t = t"
    and "typed_values registry vs" "registry_types registry"
    and "when_parse t = Inr e" "flat_comparisons e"
  shows "\<exists>b. evaluate_when (Some t) vs node edge_index = Inr (b, [])"
proof (cases "t = []")
  case True
  then show ?thesis by (auto simp: evaluate_when_def py_strip_def py_lstrip_def py_rstrip_def)
next
  case False
  let ?w = "\<lparr>ws_node = node, ws_edge_index = edge_index, ws_predicate = t\<rparr>"
  have ne: "py_strip t \<noteq> []" using False assms(2) by simp
  note st = static_errors_none [OF assms(1,5) ne]
  have lits: "\<forall>v\<in>ast_lits e. when_literal v"
    using assms(5) tokens_from_literals by (elim when_parse_Inr) blast
  have "when_operand_type registry l = when_operand_type registry r" if lr: "(l, r) \<in> ast_cmps e" for l r
  proof -
    have "is_leaf l" "is_leaf r" using lr assms(6) by (auto simp: flat_comparisons_def)
    then have "when_operand_type registry l \<noteq> None" "when_operand_type registry r \<noteq> None"
      using leaf_type [OF _ _ _ assms(3,4)] ast_cmps_sub [OF lr] st(1) lits
      by (metis option.distinct(1) subset_trans subsetD)+
    with st(2) [OF lr] show ?thesis by auto
  qed
  then have "snd (eval_ref ?w vs e) = []"
    using eval_ref_silent [OF assms(3,4) st(1) lits assms(6)] by blast
  then show ?thesis
    using assms(2,5) False
    by (auto simp: evaluate_when_def Let_def eval_eq_ref_all split: prod.splits)
qed

text \<open>
  The static check does its work on comparisons between identifiers and literals: where
  \<open>_when_static_errors\<close> reports nothing and the state has the declared types, evaluating the
  predicate appends no warning.
\<close>

theorem static_check_silences_warnings:
  assumes "when_static_errors (Some t) registry True = []" "py_strip t = t"
    and "typed_values registry vs" "registry_types registry"
    and "when_parse t = Inr e" "flat_comparisons e"
  shows "\<exists>b. evaluate_when (Some t) vs node edge_index = Inr (b, [])"
  using assms by (rule static_check_silent)

theorem static_check_silences_warnings_witness:
  "evaluate_when (Some ''a < 3 and b == c'') [''a'' \<mapsto> WInt 1, ''b'' \<mapsto> WStr ''x'', ''c'' \<mapsto> WStr ''y''] ''root'' (Some 0) =
     Inr (False, []) \<and>
   (\<exists>v. evaluate_when (Some ''a < 3 and b == c'') [''a'' \<mapsto> WInt 1, ''b'' \<mapsto> WStr ''x'', ''c'' \<mapsto> WStr ''y''] ''root'' (Some 0) =
     Inr (v, []))"
proof
  show "evaluate_when (Some ''a < 3 and b == c'') [''a'' \<mapsto> WInt 1, ''b'' \<mapsto> WStr ''x'', ''c'' \<mapsto> WStr ''y''] ''root'' (Some 0) =
     Inr (False, [])"
    by code_simp
  have st: "when_static_errors (Some ''a < 3 and b == c'') [''a'' \<mapsto> ''counter'', ''b'' \<mapsto> ''text'', ''c'' \<mapsto> ''text''] True = []"
    by code_simp
  have p: "when_parse ''a < 3 and b == c'' = Inr (And (Cmp CLt (Var ''a'') (Lit (WInt 3))) (Cmp CEq (Var ''b'') (Var ''c'')))"
    by code_simp
  have ty: "typed_values [''a'' \<mapsto> ''counter'', ''b'' \<mapsto> ''text'', ''c'' \<mapsto> ''text'']
      [''a'' \<mapsto> WInt 1, ''b'' \<mapsto> WStr ''x'', ''c'' \<mapsto> WStr ''y'']"
    by (auto simp: typed_values_def)
  have rg: "registry_types [''a'' \<mapsto> ''counter'', ''b'' \<mapsto> ''text'', ''c'' \<mapsto> ''text'']"
    by (auto simp: registry_types_def ran_def split: if_splits)
  have fl: "flat_comparisons (And (Cmp CLt (Var ''a'') (Lit (WInt 3))) (Cmp CEq (Var ''b'') (Var ''c'')))"
    by (simp add: flat_comparisons_def)
  have str: "py_strip ''a < 3 and b == c'' = ''a < 3 and b == c''" by code_simp
  show "\<exists>v. evaluate_when (Some ''a < 3 and b == c'') [''a'' \<mapsto> WInt 1, ''b'' \<mapsto> WStr ''x'', ''c'' \<mapsto> WStr ''y''] ''root'' (Some 0) =
     Inr (v, [])"
    by (rule static_check_silences_warnings [OF st str ty rg p fl])
qed

text \<open>
  The guarantee does not extend to comparisons of comparisons: a predicate that compares the
  result of a comparison with an integer passes the static check, and evaluating it on a state of
  the declared types still takes the mixed-type branch that the code's comment calls unreachable
  for gate-validated trees: the value is False and a warning is appended.
\<close>

theorem static_check_admits_mixed_comparison:
  "when_static_errors (Some ''(a == 1) == 1'') [''a'' \<mapsto> ''counter''] True = [] \<and>
   typed_values [''a'' \<mapsto> ''counter''] [''a'' \<mapsto> WInt 1] \<and>
   evaluate_when (Some ''(a == 1) == 1'') [''a'' \<mapsto> WInt 1] ''root'' None =
     Inr (False, [TypeWarning ''root'' ''(a == 1) == 1'' None])"
proof (intro conjI)
  show "when_static_errors (Some ''(a == 1) == 1'') [''a'' \<mapsto> ''counter''] True = []"
    by code_simp
  show "typed_values [''a'' \<mapsto> ''counter''] [''a'' \<mapsto> WInt 1]"
    by (auto simp: typed_values_def)
  show "evaluate_when (Some ''(a == 1) == 1'') [''a'' \<mapsto> WInt 1] ''root'' None =
     Inr (False, [TypeWarning ''root'' ''(a == 1) == 1'' None])"
    by code_simp
qed

section \<open>The interface the edge gate relies on\<close>

text \<open>
  The gate evaluates an edge's predicate at different call sites, which pass different node and
  index arguments; those may only reach the warnings.
\<close>

locale predicate_language =
  fixes evaluate :: "string option \<Rightarrow> 'v \<Rightarrow> string \<Rightarrow> nat option \<Rightarrow> 'e + bool \<times> 'w list"
  assumes absent: "evaluate None vs node idx = Inr (True, [])"
    and site_Inr: "evaluate p vs node idx = Inr (b, ws) \<Longrightarrow> \<exists>ws'. evaluate p vs node' idx' = Inr (b, ws')"
    and site_Inl: "evaluate p vs node idx = Inl e \<Longrightarrow> evaluate p vs node' idx' = Inl e"
begin

definition holds :: "string option \<Rightarrow> 'v \<Rightarrow> bool" where
  "holds p vs = (case evaluate p vs [] None of Inl e \<Rightarrow> False | Inr (b, ws) \<Rightarrow> b)"

lemma holds_None [simp]: "holds None vs"
  by (simp add: holds_def absent)

lemma holds_site: "(case evaluate p vs node idx of Inl e \<Rightarrow> False | Inr (b, ws) \<Rightarrow> b) = holds p vs"
proof (cases "evaluate p vs node idx")
  case (Inl e)
  with site_Inl [OF Inl, of "[]" None] show ?thesis by (simp add: holds_def)
next
  case (Inr bw)
  then obtain b ws where bw: "evaluate p vs node idx = Inr (b, ws)" by (cases bw) auto
  with site_Inr [OF bw, of "[]" None] show ?thesis by (auto simp: holds_def)
qed

end

lemma eval_ref_site: "fst (eval_ref w vs e) = fst (eval_ref w' vs e)"
  by (induction e) (auto simp: Let_def split: prod.splits)

definition ast_value :: "check_values \<Rightarrow> ast \<Rightarrow> wval" where
  "ast_value vs e = fst (eval_ref \<lparr>ws_node = [], ws_edge_index = None, ws_predicate = []\<rparr> vs e)"

lemma fst_eval_when_ast: "fst (eval_when_ast w vs e) = ast_value vs e"
  by (simp add: eval_eq_ref_all ast_value_def eval_ref_site [of w])

lemma evaluate_when_unfold:
  "evaluate_when p vs node idx =
     (let t = py_strip (case p of None \<Rightarrow> [] | Some x \<Rightarrow> x) in
      if t = [] then Inr (True, [])
      else rbind (when_parse t) (\<lambda>e.
        Inr (wtruthy (ast_value vs e),
             snd (eval_when_ast \<lparr>ws_node = node, ws_edge_index = idx, ws_predicate = t\<rparr> vs e))))"
  by (simp add: evaluate_when_def Let_def case_prod_unfold fst_eval_when_ast cong: rbind_cong)

lemma evaluate_when_site:
  "evaluate_when p vs node idx = Inr (b, ws) \<Longrightarrow> \<exists>ws'. evaluate_when p vs node' idx' = Inr (b, ws')"
  "evaluate_when p vs node idx = Inl e \<Longrightarrow> evaluate_when p vs node' idx' = Inl e"
  unfolding evaluate_when_unfold Let_def by (auto simp: rbind_Inr_iff rbind_Inl_iff split: if_splits)

lemma evaluate_when_None: "evaluate_when None vs node idx = Inr (True, [])"
  by (simp add: evaluate_when_def py_strip_def py_lstrip_def py_rstrip_def)

interpretation wl: predicate_language evaluate_when
  by (unfold_locales, rule evaluate_when_None, erule evaluate_when_site(1), erule evaluate_when_site(2))

end
