(* ===== verification/EdgeGate.thy ===== *)
theory EdgeGate
  imports WhenLang
begin

text \<open>
  The deterministic edge gate of \<open>src/ai_org/patchwork_queue/patch_series_gate.py\<close>: edge
  normalization, lifecycle canonicalization, which edges are active, when an edge's target is
  satisfied, eligibility, the computed edge facts shown to authors, the dependency pairs, the
  exclusion check and the manifest edge validation.

  A network is an ordered dict of node key to manifest. Edges normalized by
  \<open>_normalize_edges\<close> are the record \<open>edge\<close>; the check state is a map from names to values.
\<close>

named_theorems gate_simps \<open>unfolding rules of the gate's operations\<close>

section \<open>Lifecycle\<close>

definition LIFECYCLE_STATES :: "string list" where
  "LIFECYCLE_STATES =
     [''posted_to_mailing_list'', ''ready_for_patch_authoring'', ''claimed_by_patch_author'',
      ''submitted_for_maintainer_review'', ''merged_into_subsystem_tree'']"

definition LEGACY_ACTIVE_STATES :: "(string \<times> string) list" where
  "LEGACY_ACTIVE_STATES =
     [(''active'', ''ready_for_patch_authoring''),
      (''request-only'', ''posted_to_mailing_list''),
      (''requested'', ''posted_to_mailing_list''),
      (''elaborated'', ''ready_for_patch_authoring''),
      (''claimed'', ''claimed_by_patch_author''),
      (''delivered'', ''submitted_for_maintainer_review''),
      (''accepted'', ''merged_into_subsystem_tree''),
      (''work_request_submitted'', ''posted_to_mailing_list''),
      (''ready_for_claim'', ''ready_for_patch_authoring''),
      (''claimed_by_contributor'', ''claimed_by_patch_author''),
      (''submitted_for_acceptance'', ''submitted_for_maintainer_review''),
      (''acceptance_criteria_passed'', ''merged_into_subsystem_tree'')]"

definition legacy_state :: "string \<Rightarrow> string" where
  "legacy_state raw = (case map_of LEGACY_ACTIVE_STATES raw of Some s \<Rightarrow> s | None \<Rightarrow> raw)"

fun list_index :: "'a list \<Rightarrow> 'a \<Rightarrow> nat" where
  "list_index [] x = 0"
| "list_index (y # ys) x = (if y = x then 0 else Suc (list_index ys x))"

definition lifecycle_rank :: "string \<Rightarrow> nat" where
  "lifecycle_rank s = list_index LIFECYCLE_STATES s"

definition canonical_lifecycle :: "pydict \<Rightarrow> string" where
  "canonical_lifecycle manifest =
     (let raw = legacy_state (str_or_empty (py_get manifest ''lifecycle_status'')) in
      if raw \<in> set LIFECYCLE_STATES then raw
      else if startswith raw ''blocked:'' \<or> raw = ''stale'' then raw
      else if py_get manifest ''node_kind'' = PStr ''coarse'' then ''posted_to_mailing_list''
      else if py_get manifest ''node_kind'' = PStr ''leaf'' then ''ready_for_patch_authoring''
      else ''posted_to_mailing_list'')"

section \<open>Edges\<close>

record edge =
  e_type :: string
  e_to :: "string option"
  e_with :: "string option"
  e_state :: "string option"
  e_or_group :: "string option"
  e_when :: "string option"
  e_reason :: "string option"

definition blank_to_none :: "pyval \<Rightarrow> string option" where
  "blank_to_none v =
     (if v = PNone then None
      else let t = py_strip (py_str v) in if t = [] then None else Some t)"

definition normalize_edge :: "pydict \<Rightarrow> edge" where
  "normalize_edge d =
     (let ty = str_or_empty (py_get d ''type'');
          state = blank_to_none (py_get d ''state'')
      in \<lparr>e_type = ty,
          e_to = blank_to_none (py_get d ''to''),
          e_with = blank_to_none (py_get d ''with''),
          e_state = (if ty = ''depends'' \<and> state = None then Some ''merged_into_subsystem_tree'' else state),
          e_or_group = blank_to_none (py_get d ''or_group''),
          e_when = blank_to_none (py_get d ''when''),
          e_reason = blank_to_none (py_get d ''reason'')\<rparr>)"

definition normalize_edges :: "pyval \<Rightarrow> edge list" where
  "normalize_edges v =
     (case v of
        PList xs \<Rightarrow> concat (map (\<lambda>x. case as_dict x of Some d \<Rightarrow> [normalize_edge d] | None \<Rightarrow> []) xs)
      | _ \<Rightarrow> [])"

definition manifest_edges :: "pydict \<Rightarrow> edge list" where
  "manifest_edges manifest = normalize_edges (py_get_default manifest ''edges'' (PList []))"

definition opt_str :: "string option \<Rightarrow> string" where
  "opt_str x = (case x of Some s \<Rightarrow> s | None \<Rightarrow> [])"

definition edge_target :: "edge \<Rightarrow> string" where
  "edge_target e = opt_str (e_to e)"

definition edge_group :: "edge \<Rightarrow> string option" where
  "edge_group e = (case e_or_group e of Some g \<Rightarrow> (if g = [] then None else Some g) | None \<Rightarrow> None)"

text \<open>
  \<open>_active_edges\<close>: an edge without predicate is active, an edge whose predicate is malformed
  is not. The second component is what is appended to \<open>warnings\<close>.
\<close>

fun active_edges_from ::
  "nat \<Rightarrow> edge list \<Rightarrow> check_values \<Rightarrow> string \<Rightarrow> edge list \<times> when_warning list" where
  "active_edges_from idx [] vs node = ([], [])"
| "active_edges_from idx (e # es) vs node =
     (let (rest, ws') = active_edges_from (Suc idx) es vs node in
      case (if e_when e = None then Inr (True, []) else evaluate_when (e_when e) vs node (Some idx)) of
        Inl err \<Rightarrow> (rest, SyntaxWarning node idx (opt_str (e_when e)) err # ws')
      | Inr (b, ws) \<Rightarrow> (if b then e # rest else rest, ws @ ws'))"

definition active_edges :: "pydict \<Rightarrow> check_values \<Rightarrow> string \<Rightarrow> edge list \<times> when_warning list" where
  "active_edges manifest vs node = active_edges_from 0 (manifest_edges manifest) vs node"

section \<open>Targets\<close>

type_synonym nodes = pydict

fun find_serial :: "string \<Rightarrow> (string \<times> pyval) list \<Rightarrow> pydict option" where
  "find_serial target [] = None"
| "find_serial target ((k, v) # rest) =
     (case v of
        PDict m \<Rightarrow> if target \<noteq> [] \<and> py_get m ''serial_id'' = PStr target then Some m
                  else find_serial target rest
      | _ \<Rightarrow> find_serial target rest)"

definition resolve_node :: "string \<Rightarrow> nodes \<Rightarrow> pydict option" where
  "resolve_node target nodes =
     (case map_of nodes target of
        Some (PDict m) \<Rightarrow> Some m
      | _ \<Rightarrow> find_serial target nodes)"

definition milestone_state_value :: "string \<Rightarrow> string \<Rightarrow> check_values \<Rightarrow> wval option" where
  "milestone_state_value target required vs =
     (case vs (target @ ''_'' @ required) of
        Some v \<Rightarrow> Some v
      | None \<Rightarrow> vs (target @ ''.'' @ required))"

definition milestone_done :: "wval option \<Rightarrow> bool" where
  "milestone_done v \<longleftrightarrow>
     v \<in> {Some (WBool True), Some (WInt 1), Some (WStr ''true''), Some (WStr ''set''),
          Some (WStr ''done''), Some (WStr ''merged_into_subsystem_tree'')}"

definition declares_in_milestones :: "pydict \<Rightarrow> string \<Rightarrow> bool" where
  "declares_in_milestones m required \<longleftrightarrow>
     (case py_get m ''milestones'' of PDict d \<Rightarrow> has_key d required | _ \<Rightarrow> False)"

definition declares_in_list :: "pydict \<Rightarrow> string \<Rightarrow> bool" where
  "declares_in_list m required \<longleftrightarrow>
     (case py_get m ''declared_milestones'' of PList xs \<Rightarrow> PStr required \<in> set xs | _ \<Rightarrow> False)"

definition required_state :: "edge \<Rightarrow> string" where
  "required_state e =
     legacy_state (if opt_str (e_state e) = [] then ''merged_into_subsystem_tree'' else opt_str (e_state e))"

definition manifest_reaches :: "pydict \<Rightarrow> string \<Rightarrow> string \<Rightarrow> check_values \<Rightarrow> bool" where
  "manifest_reaches m target required vs =
     (if required \<in> set LIFECYCLE_STATES then
        (let current = canonical_lifecycle m in
         current \<in> set LIFECYCLE_STATES \<and> lifecycle_rank required \<le> lifecycle_rank current)
      else if declares_in_milestones m required then
        milestone_done (milestone_state_value target required vs)
      else if declares_in_list m required then
        milestone_done (milestone_state_value target required vs)
      else False)"

definition edge_target_satisfied :: "edge \<Rightarrow> nodes \<Rightarrow> check_values \<Rightarrow> bool" where
  "edge_target_satisfied e nodes vs =
     (case resolve_node (edge_target e) nodes of
        None \<Rightarrow> False
      | Some m \<Rightarrow> if m = [] then False
                  else manifest_reaches m (edge_target e) (required_state e) vs)"

section \<open>Or-groups\<close>

text \<open>\<open>groups.setdefault(group, []).append(item)\<close>.\<close>

fun group_append :: "string \<Rightarrow> 'a \<Rightarrow> (string \<times> 'a list) list \<Rightarrow> (string \<times> 'a list) list" where
  "group_append g x [] = [(g, [x])]"
| "group_append g x ((h, xs) # rest) = (if h = g then (h, xs @ [x]) # rest else (h, xs) # group_append g x rest)"

definition group_by :: "('a \<Rightarrow> string option) \<Rightarrow> 'a list \<Rightarrow> (string \<times> 'a list) list" where
  "group_by f xs =
     foldl (\<lambda>gs x. case f x of None \<Rightarrow> gs | Some g \<Rightarrow> group_append g x gs) [] xs"

definition is_depends :: "edge \<Rightarrow> bool" where
  "is_depends e \<longleftrightarrow> e_type e = ''depends''"

section \<open>Eligibility\<close>

record gate_graph =
  g_nodes :: nodes
  g_registry :: "(string \<times> string) list"

text \<open>
  \<open>_state_defaults\<close>, then \<open>state.update(values)\<close>. A registry type other than the two
  of \<open>PATCHWORK_CHECK_TYPES\<close> cannot occur: \<open>_parse_declared_patchwork_checks\<close> admits
  no other.
\<close>

definition state_defaults :: "(string \<times> string) list \<Rightarrow> check_values" where
  "state_defaults registry =
     (\<lambda>name. map_option (\<lambda>ty. if ty = ''counter'' then WInt 0 else WStr []) (map_of registry name))"

definition gate_state :: "gate_graph \<Rightarrow> check_values \<Rightarrow> check_values" where
  "gate_state g vs = state_defaults (g_registry g) ++ vs"

definition edges_satisfied :: "edge list \<Rightarrow> nodes \<Rightarrow> check_values \<Rightarrow> bool" where
  "edges_satisfied depends nodes vs \<longleftrightarrow>
     list_all (\<lambda>e. edge_target_satisfied e nodes vs) (filter (\<lambda>e. edge_group e = None) depends) \<and>
     list_all (\<lambda>(g, members). members \<noteq> [] \<and> list_ex (\<lambda>e. edge_target_satisfied e nodes vs) members)
       (group_by edge_group depends)"

definition eligible :: "string \<Rightarrow> check_values \<Rightarrow> gate_graph \<Rightarrow> bool" where
  "eligible node_key vs g =
     (case map_of (g_nodes g) node_key of
        Some (PDict manifest) \<Rightarrow>
          (let state = gate_state g vs;
               depends = filter is_depends (fst (active_edges manifest state node_key))
           in edges_satisfied depends (g_nodes g) state)
      | _ \<Rightarrow> False)"

definition readiness_rollup :: "gate_graph \<Rightarrow> check_values \<Rightarrow> (string \<times> bool) list" where
  "readiness_rollup g vs =
     map (\<lambda>k. (k, eligible k (gate_state g vs) g)) (sort (map fst (g_nodes g)))"

section \<open>Computed edge facts\<close>

datatype currently = NotApplicable | Currently bool

record edge_fact =
  f_to :: string
  f_state :: string
  f_reason :: string
  f_when :: string
  f_when_currently :: currently

definition computed_edge_fact :: "edge \<Rightarrow> check_values \<Rightarrow> string \<Rightarrow> nat \<Rightarrow> edge_fact \<times> bool" where
  "computed_edge_fact e vs node_key idx =
     (let (cur, active) =
            (case e_when e of
               Some w \<Rightarrow>
                 if w \<noteq> [] then
                   (let b = (case evaluate_when (Some w) vs node_key (Some idx) of Inl _ \<Rightarrow> False | Inr (b, _) \<Rightarrow> b)
                    in (Currently b, b))
                 else (NotApplicable, True)
             | None \<Rightarrow> (NotApplicable, True))
      in (\<lparr>f_to = edge_target e,
           f_state = (if opt_str (e_state e) = [] then ''merged_into_subsystem_tree'' else opt_str (e_state e)),
           f_reason = opt_str (e_reason e),
           f_when = opt_str (e_when e),
           f_when_currently = cur\<rparr>, active))"

record fact_entry =
  fe_edge :: edge
  fe_fact :: edge_fact
  fe_active :: bool
  fe_satisfied :: bool

definition fact_entries :: "string \<Rightarrow> pydict \<Rightarrow> nodes \<Rightarrow> check_values \<Rightarrow> fact_entry list" where
  "fact_entries node_key manifest nodes vs =
     map (\<lambda>(idx, e).
            let (fact, active) = computed_edge_fact e vs node_key idx
            in \<lparr>fe_edge = e, fe_fact = fact, fe_active = active,
                fe_satisfied = edge_target_satisfied e nodes vs\<rparr>)
       (enumerate 0 (filter is_depends (manifest_edges manifest)))"

definition entry_group :: "fact_entry \<Rightarrow> string option" where
  "entry_group en = edge_group (fe_edge en)"

definition computed_edge_facts ::
  "string \<Rightarrow> pydict \<Rightarrow> nodes \<Rightarrow> check_values \<Rightarrow> edge_fact list \<times> edge_fact list" where
  "computed_edge_facts node_key manifest nodes vs =
     (let entries = fact_entries node_key manifest nodes vs;
          and_edges = filter (\<lambda>en. entry_group en = None) entries;
          groups = group_by entry_group entries;
          step1 = foldl (\<lambda>(blocking, satisfied) en.
                    if \<not> fe_active en \<or> fe_satisfied en then (blocking, satisfied @ [fe_fact en])
                    else (blocking @ [fe_fact en], satisfied)) ([], []) and_edges
      in foldl (\<lambda>acc (g, members).
            let group_satisfied = list_ex (\<lambda>m. fe_active m \<and> fe_satisfied m) members
            in foldl (\<lambda>(blocking, satisfied) m.
                 if \<not> fe_active m \<or> group_satisfied then (blocking, satisfied @ [fe_fact m])
                 else (blocking @ [fe_fact m], satisfied)) acc members)
          step1 groups)"

section \<open>Dependency pairs and exclusions\<close>

text \<open>Pairs are (prerequisite, dependent). Entries that are not manifests are skipped.\<close>

definition node_manifests :: "nodes \<Rightarrow> (string \<times> pydict) list" where
  "node_manifests nodes =
     concat (map (\<lambda>(k, v). case v of PDict m \<Rightarrow> [(k, m)] | _ \<Rightarrow> []) nodes)"

definition active_dependency_pairs :: "nodes \<Rightarrow> check_values \<Rightarrow> (string \<times> string) list" where
  "active_dependency_pairs nodes vs =
     concat (map (\<lambda>(key, m).
        map (\<lambda>e. (edge_target e, key))
          (filter (\<lambda>e. is_depends e \<and> has_key nodes (edge_target e)) (fst (active_edges m vs key))))
       (node_manifests nodes))"

definition blocking_pairs_of :: "string \<Rightarrow> pydict \<Rightarrow> nodes \<Rightarrow> check_values \<Rightarrow> (string \<times> string) list" where
  "blocking_pairs_of key m nodes vs =
     (let depends = filter is_depends (fst (active_edges m vs key));
          and_pairs = map (\<lambda>e. (edge_target e, key))
             (filter (\<lambda>e. edge_group e = None \<and> has_key nodes (edge_target e) \<and>
                          \<not> edge_target_satisfied e nodes vs) depends);
          group_pairs = concat (map (\<lambda>(g, members).
             if members \<noteq> [] \<and> \<not> list_ex (\<lambda>e. edge_target_satisfied e nodes vs) members
             then map (\<lambda>e. (edge_target e, key)) (filter (\<lambda>e. has_key nodes (edge_target e)) members)
             else []) (group_by edge_group depends))
      in and_pairs @ group_pairs)"

definition blocking_dependency_pairs ::
  "nodes \<Rightarrow> check_values \<Rightarrow> (string \<times> string) list \<times> when_warning list" where
  "blocking_dependency_pairs nodes vs =
     (concat (map (\<lambda>(key, m). blocking_pairs_of key m nodes vs) (node_manifests nodes)),
      concat (map (\<lambda>(key, m). snd (active_edges m vs key)) (node_manifests nodes)))"

section \<open>Lemmas on grouping\<close>

lemma group_append_keys:
  "map fst (group_append g x gs) = (if g \<in> fst ` set gs then map fst gs else map fst gs @ [g])"
  by (induction g x gs rule: group_append.induct) auto

lemma distinct_group_append: "distinct (map fst gs) \<Longrightarrow> distinct (map fst (group_append g x gs))"
  by (simp add: group_append_keys)

lemma map_of_group_append:
  "map_of (group_append g x gs) h =
     (if h = g then Some ((case map_of gs g of Some xs \<Rightarrow> xs | None \<Rightarrow> []) @ [x]) else map_of gs h)"
  by (induction g x gs rule: group_append.induct) auto

lemma group_by_snoc:
  "group_by f (xs @ [x]) = (case f x of None \<Rightarrow> group_by f xs | Some g \<Rightarrow> group_append g x (group_by f xs))"
  by (simp add: group_by_def split: option.split)

lemma group_by_Nil [simp]: "group_by f [] = []"
  by (simp add: group_by_def)

lemma distinct_group_by: "distinct (map fst (group_by f xs))"
  by (induction xs rule: rev_induct) (auto simp: group_by_snoc distinct_group_append split: option.splits)

lemma map_of_group_by:
  "map_of (group_by f xs) g =
     (let ms = filter (\<lambda>x. f x = Some g) xs in if ms = [] then None else Some ms)"
  by (induction xs rule: rev_induct)
    (auto simp: group_by_snoc map_of_group_append Let_def split: option.splits)

lemma group_by_iff:
  "(g, ms) \<in> set (group_by f xs) \<longleftrightarrow> ms = filter (\<lambda>x. f x = Some g) xs \<and> ms \<noteq> []"
proof -
  have "(g, ms) \<in> set (group_by f xs) \<longleftrightarrow> map_of (group_by f xs) g = Some ms"
    by (simp only: map_of_eq_Some_iff [OF distinct_group_by])
  then show ?thesis by (auto simp: map_of_group_by Let_def)
qed

lemma list_all_group_by:
  "list_all (\<lambda>(g, ms). P g ms) (group_by f xs) \<longleftrightarrow>
     (\<forall>x\<in>set xs. \<forall>g. f x = Some g \<longrightarrow> P g (filter (\<lambda>x. f x = Some g) xs))"
  by (fastforce simp: list_all_iff group_by_iff filter_empty_conv)

section \<open>Lemmas on active edges and facts\<close>

definition edge_active :: "check_values \<Rightarrow> edge \<Rightarrow> bool" where
  "edge_active vs e = wl.holds (e_when e) vs"

lemma active_edges_from_eq: "fst (active_edges_from idx es vs node) = filter (edge_active vs) es"
proof (induction idx es vs node rule: active_edges_from.induct)
  case (2 idx e es vs node)
  have "(case (if e_when e = None then Inr (True, []) else evaluate_when (e_when e) vs node (Some idx)) of
          Inl err \<Rightarrow> False | Inr (b, ws) \<Rightarrow> b) = edge_active vs e"
    using wl.holds_site [of "e_when e" vs node "Some idx"]
    by (cases "e_when e") (simp_all add: edge_active_def)
  with 2 show ?case
    by (auto simp: Let_def split: sum.splits prod.splits)
qed simp

lemma active_edges_eq: "fst (active_edges m vs node) = filter (edge_active vs) (manifest_edges m)"
  by (simp add: active_edges_def active_edges_from_eq)

definition active_depends :: "pydict \<Rightarrow> check_values \<Rightarrow> edge list" where
  "active_depends m vs = filter (\<lambda>e. is_depends e \<and> edge_active vs e) (manifest_edges m)"

lemma filter_active_depends:
  "filter is_depends (fst (active_edges m vs node)) = active_depends m vs"
  by (simp add: active_edges_eq active_depends_def conj_commute)

lemma edges_satisfied_iff:
  "edges_satisfied depends nodes vs \<longleftrightarrow>
     (\<forall>e\<in>set depends. case edge_group e of
         None \<Rightarrow> edge_target_satisfied e nodes vs
       | Some g \<Rightarrow> \<exists>e'\<in>set depends. edge_group e' = Some g \<and> edge_target_satisfied e' nodes vs)"
  unfolding edges_satisfied_def list_all_group_by
  by (fastforce simp: list_all_iff list_ex_iff filter_empty_conv split: option.splits)

lemma computed_edge_fact_active: "snd (computed_edge_fact e vs node idx) = edge_active vs e"
proof (cases "e_when e")
  case (Some w)
  have "wl.holds (Some []) vs"
    using wl.holds_site [of "Some []" vs "[]" None]
    by (simp add: evaluate_when_def py_strip_def py_lstrip_def py_rstrip_def)
  with Some wl.holds_site [of "Some w" vs node "Some idx"] show ?thesis
    by (simp add: computed_edge_fact_def edge_active_def Let_def)
qed (simp add: computed_edge_fact_def edge_active_def)

lemma fact_entries_edges:
  "map fe_edge (fact_entries k m nodes vs) = filter is_depends (manifest_edges m)"
  by (simp add: fact_entries_def Let_def case_prod_unfold comp_def map_snd_enumerate)

lemma fact_entries_entry:
  "en \<in> set (fact_entries k m nodes vs) \<Longrightarrow>
     fe_active en = edge_active vs (fe_edge en) \<and>
     fe_satisfied en = edge_target_satisfied (fe_edge en) nodes vs \<and>
     fe_edge en \<in> set (manifest_edges m) \<and> is_depends (fe_edge en)"
  using computed_edge_fact_active
  by (auto simp: fact_entries_def Let_def case_prod_unfold dest!: in_set_enumerate_eq [THEN iffD1] nth_mem)

lemma fold_and_facts:
  "foldl (\<lambda>(blocking, satisfied) en.
      if P en then (blocking, satisfied @ [f en]) else (blocking @ [f en], satisfied)) (bs, ss) ens =
   (bs @ map f (filter (\<lambda>en. \<not> P en) ens), ss @ map f (filter P ens))"
  by (induction ens arbitrary: bs ss) auto

lemma fold_group_facts:
  "foldl (\<lambda>acc (g, members).
      foldl (\<lambda>(blocking, satisfied) m.
         if P members m then (blocking, satisfied @ [f m]) else (blocking @ [f m], satisfied)) acc members) (bs, ss) gs =
   (bs @ concat (map (\<lambda>(g, ms). map f (filter (\<lambda>m. \<not> P ms m) ms)) gs),
    ss @ concat (map (\<lambda>(g, ms). map f (filter (P ms) ms)) gs))"
  by (induction gs arbitrary: bs ss) (auto simp: fold_and_facts)

lemma computed_edge_facts_eq:
  "computed_edge_facts k m nodes vs =
     (let entries = fact_entries k m nodes vs;
          singles = filter (\<lambda>en. entry_group en = None) entries;
          groups = group_by entry_group entries;
          open_group = (\<lambda>ms. \<not> list_ex (\<lambda>x. fe_active x \<and> fe_satisfied x) ms)
      in (map fe_fact (filter (\<lambda>en. fe_active en \<and> \<not> fe_satisfied en) singles) @
          concat (map (\<lambda>(g, ms). map fe_fact (filter (\<lambda>x. fe_active x \<and> open_group ms) ms)) groups),
          map fe_fact (filter (\<lambda>en. \<not> fe_active en \<or> fe_satisfied en) singles) @
          concat (map (\<lambda>(g, ms). map fe_fact (filter (\<lambda>x. \<not> fe_active x \<or> \<not> open_group ms) ms)) groups)))"
  by (simp add: computed_edge_facts_def Let_def fold_and_facts fold_group_facts)

lemma mset_group_append:
  "mset (concat (map snd (group_append g x gs))) = mset (concat (map snd gs)) + {#x#}"
  by (induction g x gs rule: group_append.induct) auto

lemma mset_group_by:
  "mset xs = mset (filter (\<lambda>x. f x = None) xs) + mset (concat (map snd (group_by f xs)))"
  by (induction xs rule: rev_induct) (auto simp: group_by_snoc mset_group_append split: option.splits)

lemma mset_filter_split:
  "mset (map h (filter P xs)) + mset (map h (filter (\<lambda>x. \<not> P x) xs)) = mset (map h xs)"
  by (induction xs) auto

lemma mset_concat_split:
  "mset (concat (map (\<lambda>(g, ms). map h (filter (P ms) ms)) gs)) +
   mset (concat (map (\<lambda>(g, ms). map h (filter (\<lambda>x. \<not> P ms x) ms)) gs)) =
   mset (map h (concat (map snd gs)))"
proof (induction gs)
  case (Cons a gs)
  obtain g ms where a: "a = (g, ms)" by fastforce
  show ?case
    using arg_cong2 [where f = "(+)", OF mset_filter_split [of h "P ms" ms] Cons.IH]
    by (simp add: a ac_simps)
qed simp

lemma blocking_facts_empty_iff:
  "fst (computed_edge_facts k m nodes vs) = [] \<longleftrightarrow>
     (\<forall>en\<in>set (fact_entries k m nodes vs). fe_active en \<longrightarrow>
        (case entry_group en of
           None \<Rightarrow> fe_satisfied en
         | Some g \<Rightarrow> \<exists>x\<in>set (fact_entries k m nodes vs). entry_group x = Some g \<and> fe_active x \<and> fe_satisfied x))"
  (is "?l \<longleftrightarrow> ?r")
proof -
  let ?es = "fact_entries k m nodes vs"
  have "?l \<longleftrightarrow>
    (\<forall>en\<in>set ?es. entry_group en = None \<longrightarrow> fe_active en \<longrightarrow> fe_satisfied en) \<and>
    list_all (\<lambda>(g, ms). \<forall>x\<in>set ms. fe_active x \<longrightarrow> list_ex (\<lambda>x. fe_active x \<and> fe_satisfied x) ms)
      (group_by entry_group ?es)"
    unfolding computed_edge_facts_eq Let_def fst_conv append_is_Nil_conv
    by (intro arg_cong2 [where f = "(\<and>)"])
      (force simp: filter_empty_conv list_all_iff concat_eq_Nil_conv)+
  also have "\<dots> \<longleftrightarrow> ?r"
    unfolding list_all_group_by by (fastforce simp: list_ex_iff split: option.splits)
  finally show ?thesis .
qed

lemma eligible_iff:
  assumes "map_of (g_nodes g) key = Some (PDict m)"
  shows "eligible key vs g \<longleftrightarrow> edges_satisfied (active_depends m (gate_state g vs)) (g_nodes g) (gate_state g vs)"
  using assms by (simp add: eligible_def Let_def filter_active_depends)

section \<open>Properties of eligibility\<close>

text \<open>
  C38: the two code paths agree: a node is eligible (\<open>eligible\<close>, which the scheduler asks)
  exactly when the facts computed for its author (\<open>_computed_edge_facts\<close>) name no blocking
  edge. Both are evaluated on the same check state.
\<close>

theorem eligible_iff_no_blocking_fact:
  assumes "map_of (g_nodes g) key = Some (PDict m)"
  shows "eligible key vs g \<longleftrightarrow>
    fst (computed_edge_facts key m (g_nodes g) (gate_state g vs)) = []"
proof -
  let ?st = "gate_state g vs" and ?n = "g_nodes g"
  let ?es = "fact_entries key m ?n ?st"
  have dep: "set (active_depends m ?st) = fe_edge ` {en \<in> set ?es. fe_active en}"
  proof -
    have es: "set (filter is_depends (manifest_edges m)) = fe_edge ` set ?es"
      by (metis fact_entries_edges list.set_map)
    have act: "fe_active en = edge_active ?st (fe_edge en)" if "en \<in> set ?es" for en
      using fact_entries_entry [OF that] by blast
    have "set (active_depends m ?st) = {e \<in> fe_edge ` set ?es. edge_active ?st e}"
      unfolding es [symmetric] by (auto simp: active_depends_def)
    also have "\<dots> = fe_edge ` {en \<in> set ?es. fe_active en}"
      using act by auto
    finally show ?thesis .
  qed
  have entry: "edge_target_satisfied (fe_edge en) ?n ?st = fe_satisfied en" if "en \<in> set ?es" for en
    using fact_entries_entry [OF that] by blast
  have "edges_satisfied (active_depends m ?st) ?n ?st \<longleftrightarrow>
    (\<forall>en\<in>set ?es. fe_active en \<longrightarrow>
        (case entry_group en of
           None \<Rightarrow> fe_satisfied en
         | Some g \<Rightarrow> \<exists>x\<in>set ?es. entry_group x = Some g \<and> fe_active x \<and> fe_satisfied x))"
    unfolding edges_satisfied_iff dep entry_group_def
    by (fastforce simp: entry split: option.splits)
  then show ?thesis
    by (simp add: eligible_iff [OF assms] blocking_facts_empty_iff)
qed

text \<open>
  No dependency is lost or reported twice: the blocking and the satisfied facts of a node
  are together exactly the facts of its normalized depends edges, one for each.
\<close>

theorem computed_edge_facts_partition:
  "mset (fst (computed_edge_facts key m nodes vs)) + mset (snd (computed_edge_facts key m nodes vs)) =
   mset (map (\<lambda>(idx, e). fst (computed_edge_fact e vs key idx))
     (enumerate 0 (filter is_depends (manifest_edges m))))"
proof -
  let ?es = "fact_entries key m nodes vs"
  let ?open = "\<lambda>ms. \<not> list_ex (\<lambda>x. fe_active x \<and> fe_satisfied x) ms"
  have facts: "map (\<lambda>(idx, e). fst (computed_edge_fact e vs key idx))
      (enumerate 0 (filter is_depends (manifest_edges m))) = map fe_fact ?es"
    by (simp add: fact_entries_def Let_def case_prod_unfold comp_def)
  have split: "mset (map fe_fact ?es) =
      mset (map fe_fact (filter (\<lambda>en. entry_group en = None) ?es)) +
      mset (map fe_fact (concat (map snd (group_by entry_group ?es))))"
    using arg_cong [OF mset_group_by [of ?es entry_group], of "image_mset fe_fact"] by simp
  show ?thesis
    unfolding facts split
      mset_concat_split [of fe_fact "\<lambda>ms x. fe_active x \<and> ?open ms" "group_by entry_group ?es", symmetric]
      mset_filter_split [of fe_fact "\<lambda>en. fe_active en \<and> \<not> fe_satisfied en"
        "filter (\<lambda>en. entry_group en = None) ?es", symmetric]
    by (simp only: computed_edge_facts_eq Let_def fst_conv snd_conv mset_append
        de_Morgan_conj not_not) (simp add: ac_simps)
qed

section \<open>Progress of the network\<close>

text \<open>A manifest whose lifecycle moved forward: everything the gate reads of it as a target is kept.\<close>

definition manifest_advances :: "pydict \<Rightarrow> pydict \<Rightarrow> bool" where
  "manifest_advances m m' \<longleftrightarrow>
     m' \<noteq> [] \<and> map_of m' ''edges'' = map_of m ''edges'' \<and>
     py_get m' ''serial_id'' = py_get m ''serial_id'' \<and>
     py_get m' ''milestones'' = py_get m ''milestones'' \<and>
     py_get m' ''declared_milestones'' = py_get m ''declared_milestones'' \<and>
     (canonical_lifecycle m \<in> set LIFECYCLE_STATES \<longrightarrow>
        canonical_lifecycle m' \<in> set LIFECYCLE_STATES \<and>
        lifecycle_rank (canonical_lifecycle m) \<le> lifecycle_rank (canonical_lifecycle m'))"

fun value_advances :: "pyval \<Rightarrow> pyval \<Rightarrow> bool" where
  "value_advances (PDict m) (PDict m') = manifest_advances m m'"
| "value_advances v v' = (v = v')"

fun_cases value_advances_dictE: "value_advances (PDict m) v"

lemma value_advances_cases:
  "value_advances v v' \<Longrightarrow> (\<exists>m m'. v = PDict m \<and> v' = PDict m' \<and> manifest_advances m m') \<or> (v' = v \<and> as_dict v = None)"
  by (cases v; cases v') auto

definition nodes_advance :: "nodes \<Rightarrow> nodes \<Rightarrow> bool" where
  "nodes_advance ns ns' \<longleftrightarrow>
     list_all2 (\<lambda>(k, v) (k', v'). k = k' \<and> value_advances v v') ns ns'"

lemma nodes_advance_map_of:
  assumes "nodes_advance ns ns'"
  shows "rel_option value_advances (map_of ns k) (map_of ns' k)"
  using assms unfolding nodes_advance_def by (induction rule: list_all2_induct) auto

lemma nodes_advance_find_serial:
  assumes "nodes_advance ns ns'"
  shows "rel_option manifest_advances (find_serial t ns) (find_serial t ns')"
  using assms unfolding nodes_advance_def
proof (induction rule: list_all2_induct)
  case (Cons x xs y ys)
  obtain k v v' where x: "x = (k, v)" "y = (k, v')" "value_advances v v'"
    using Cons.hyps by (auto split: prod.splits)
  then show ?case
    using Cons.IH value_advances_cases [OF x(3)]
    by (auto simp: manifest_advances_def split: pyval.splits)
qed simp

lemma nodes_advance_resolve:
  assumes "nodes_advance ns ns'"
  shows "rel_option manifest_advances (resolve_node t ns) (resolve_node t ns')"
proof (cases "map_of ns t")
  case None
  then show ?thesis
    using nodes_advance_map_of [OF assms, of t] nodes_advance_find_serial [OF assms, of t]
    by (simp add: resolve_node_def)
next
  case (Some v)
  then obtain v' where v': "map_of ns' t = Some v'" and adv: "value_advances v v'"
    using nodes_advance_map_of [OF assms, of t] by (auto simp: option_rel_Some1)
  show ?thesis
    using value_advances_cases [OF adv] nodes_advance_find_serial [OF assms, of t] Some v'
    by (auto simp: resolve_node_def split: pyval.splits)
qed

lemma manifest_reaches_advances:
  assumes "manifest_advances m m'" "manifest_reaches m t r vs"
  shows "manifest_reaches m' t r vs"
  using assms
  by (auto simp: manifest_reaches_def manifest_advances_def Let_def declares_in_milestones_def
      declares_in_list_def split: if_splits)

lemma edge_target_satisfied_advances:
  assumes "nodes_advance ns ns'" "edge_target_satisfied e ns vs"
  shows "edge_target_satisfied e ns' vs"
proof -
  obtain m where m: "resolve_node (edge_target e) ns = Some m" "manifest_reaches m (edge_target e) (required_state e) vs"
    using assms(2) by (auto simp: edge_target_satisfied_def split: option.splits if_splits)
  then obtain m' where "resolve_node (edge_target e) ns' = Some m'" "manifest_advances m m'"
    using nodes_advance_resolve [OF assms(1), of "edge_target e"] by (auto simp: option_rel_Some1)
  with m(2) show ?thesis
    by (simp add: edge_target_satisfied_def manifest_reaches_advances)
      (simp add: manifest_advances_def)
qed

lemma manifest_advances_edges: "manifest_advances m m' \<Longrightarrow> manifest_edges m' = manifest_edges m"
  by (simp add: manifest_advances_def manifest_edges_def py_get_default_def)

text \<open>
  Progress never takes eligibility away: when lifecycle states of nodes only move forward
  and the rest of what the gate reads is kept, a node that was eligible stays eligible.
\<close>

theorem eligible_monotone:
  assumes "nodes_advance (g_nodes g) (g_nodes g')" "g_registry g' = g_registry g"
    and "eligible key vs g"
  shows "eligible key vs g'"
proof -
  from assms(3) obtain m where m: "map_of (g_nodes g) key = Some (PDict m)"
    by (auto simp: eligible_def split: option.splits pyval.splits)
  with nodes_advance_map_of [OF assms(1), of key]
  obtain m' where m': "map_of (g_nodes g') key = Some (PDict m')" and adv: "manifest_advances m m'"
    by (auto simp: option_rel_Some1 elim: value_advances_dictE)
  have "gate_state g' vs = gate_state g vs" by (simp add: gate_state_def assms(2))
  moreover have "active_depends m' st = active_depends m st" for st
    by (simp add: active_depends_def manifest_advances_edges [OF adv])
  ultimately show ?thesis
    using assms(3) edge_target_satisfied_advances [OF assms(1)]
    by (fastforce simp: eligible_iff [OF m] eligible_iff [OF m'] edges_satisfied_iff split: option.splits)
qed

lemma blocking_pairs_of_empty_iff:
  assumes "\<forall>e\<in>set (active_depends m vs). has_key nodes (edge_target e)"
  shows "blocking_pairs_of key m nodes vs = [] \<longleftrightarrow> edges_satisfied (active_depends m vs) nodes vs"
proof -
  have sub: "(g, ms) \<in> set (group_by edge_group (active_depends m vs)) \<Longrightarrow> x \<in> set ms \<Longrightarrow> has_key nodes (edge_target x)" for g ms x
    using assms by (auto simp: group_by_iff)
  have ne: "(g, ms) \<in> set (group_by edge_group (active_depends m vs)) \<Longrightarrow> ms \<noteq> []" for g ms
    by (metis group_by_iff)
  have "(if ms \<noteq> [] \<and> \<not> list_ex S ms then map f (filter (\<lambda>e. has_key nodes (edge_target e)) ms) else []) = []
      \<longleftrightarrow> ms \<noteq> [] \<and> list_ex S ms"
    if "(g, ms) \<in> set (group_by edge_group (active_depends m vs))" for g ms S and f :: "edge \<Rightarrow> string \<times> string"
    using sub [OF that] ne [OF that] by (simp add: filter_True)
  then have groups: "concat (map (\<lambda>(g, ms). if ms \<noteq> [] \<and> \<not> list_ex S ms
      then map f (filter (\<lambda>e. has_key nodes (edge_target e)) ms) else [])
      (group_by edge_group (active_depends m vs))) = []
    \<longleftrightarrow> list_all (\<lambda>(g, ms). ms \<noteq> [] \<and> list_ex S ms) (group_by edge_group (active_depends m vs))"
    for S and f :: "edge \<Rightarrow> string \<times> string"
    unfolding list_all_iff concat_eq_Nil_conv set_map ball_simps by (intro ball_cong refl) auto
  show ?thesis
    unfolding blocking_pairs_of_def Let_def filter_active_depends edges_satisfied_def append_is_Nil_conv groups
    using assms by (intro arg_cong2 [where f = "(\<and>)"] refl) (force simp: filter_empty_conv list_all_iff)
qed

text \<open>
  The blocking pairs that the cycle check works on are exact for one node: when every
  active depends edge of the node names a node key, the node contributes no blocking pair
  if and only if it is eligible.
\<close>

theorem eligible_iff_unblocked:
  assumes "map_of (g_nodes g) key = Some (PDict m)"
    and "\<forall>e\<in>set (manifest_edges m). is_depends e \<longrightarrow> has_key (g_nodes g) (edge_target e)"
  shows "eligible key vs g \<longleftrightarrow> blocking_pairs_of key m (g_nodes g) (gate_state g vs) = []"
  using assms by (simp add: eligible_iff blocking_pairs_of_empty_iff active_depends_def)

section \<open>Concrete instances\<close>

definition b_manifest :: pydict where
  "b_manifest = [(''edges'', PList [PDict [(''type'', PStr ''depends''), (''to'', PStr ''a''),
         (''reason'', PStr ''needs a'')]])]"

definition chain_graph :: "string \<Rightarrow> gate_graph" where
  "chain_graph status =
     \<lparr>g_nodes = [(''a'', PDict [(''lifecycle_status'', PStr status)]), (''b'', PDict b_manifest)], g_registry = []\<rparr>"

lemma chain_graph_b: "map_of (g_nodes (chain_graph s)) ''b'' = Some (PDict b_manifest)"
  by (simp add: chain_graph_def)

theorem eligible_iff_no_blocking_fact_witness:
  "\<not> eligible ''b'' Map.empty (chain_graph ''active'') \<and>
   fst (computed_edge_facts ''b'' b_manifest (g_nodes (chain_graph ''active'')) (gate_state (chain_graph ''active'') Map.empty)) \<noteq> []"
proof -
  have "\<not> eligible ''b'' Map.empty (chain_graph ''active'')" by code_simp
  with eligible_iff_no_blocking_fact [OF chain_graph_b, of Map.empty "''active''"] show ?thesis by simp
qed

theorem eligible_monotone_witness:
  "eligible ''b'' Map.empty (chain_graph ''merged_into_subsystem_tree'') \<and> eligible ''b'' Map.empty (chain_graph ''accepted'')"
proof -
  have e: "eligible ''b'' Map.empty (chain_graph ''accepted'')" by code_simp
  have "manifest_advances [(''lifecycle_status'', PStr ''accepted'')] [(''lifecycle_status'', PStr ''merged_into_subsystem_tree'')]"
    "manifest_advances b_manifest b_manifest"
    by code_simp+
  then have n: "nodes_advance (g_nodes (chain_graph ''accepted'')) (g_nodes (chain_graph ''merged_into_subsystem_tree''))"
    by (simp add: nodes_advance_def chain_graph_def)
  have "g_registry (chain_graph ''merged_into_subsystem_tree'') = g_registry (chain_graph ''accepted'')"
    by (simp add: chain_graph_def)
  from eligible_monotone [OF n this e] e show ?thesis by blast
qed

theorem eligible_iff_unblocked_witness:
  "blocking_pairs_of ''b'' b_manifest (g_nodes (chain_graph ''accepted'')) (gate_state (chain_graph ''accepted'') Map.empty) = []"
proof -
  have e: "eligible ''b'' Map.empty (chain_graph ''accepted'')" by code_simp
  have k: "\<forall>e\<in>set (manifest_edges b_manifest). is_depends e \<longrightarrow> has_key (g_nodes (chain_graph ''accepted'')) (edge_target e)"
    by code_simp
  from eligible_iff_unblocked [OF chain_graph_b k, of Map.empty] e show ?thesis by simp
qed

end
