(* ===== verification/EdgeValidation.thy ===== *)
theory EdgeValidation
  imports EdgeGate "HOL-Library.Product_Lexorder"
begin

text \<open>
  Manifest validation of \<open>src/ai_org/patchwork_queue/patch_series_gate.py\<close>: the form of an edge,
  the edge checks of one manifest, the exclusion check of the network, the registry of declared
  patchwork checks and the projection of check events onto it.
\<close>

section \<open>The form of an edge\<close>

datatype form_error =
    NotAnObject
  | EdgeTypeInvalid
  | ToNotString
  | WithNotString
  | OptionalNotString string
  | ReasonRequired
  | WhenMalformed when_error

text \<open>Membership in a set of strings hashes the value: a list or a dict raises.\<close>

fun hashable :: "pyval \<Rightarrow> bool" where
  "hashable (PList _) = False"
| "hashable (PDict _) = False"
| "hashable _ = True"

definition in_str_set :: "pyval \<Rightarrow> string list \<Rightarrow> py_exc + bool" where
  "in_str_set v names = (if hashable v then Inr (case as_str v of Some s \<Rightarrow> s \<in> set names | None \<Rightarrow> False) else Inl TypeError)"

definition optional_fields :: "string list" where
  "optional_fields = [''state'', ''or_group'', ''when'', ''reason'']"

definition not_str_or_none :: "pydict \<Rightarrow> string \<Rightarrow> bool" where
  "not_str_or_none d k \<longleftrightarrow> py_get d k \<noteq> PNone \<and> as_str (py_get d k) = None"

definition edge_field_error :: "pydict \<Rightarrow> form_error option" where
  "edge_field_error d =
     (let ty = py_get d ''type'' in
      if ty \<in> {PStr ''depends'', PStr ''part_of''} \<and> as_str (py_get d ''to'') = None
        then Some ToNotString
      else if ty = PStr ''excludes'' \<and> as_str (py_get d ''with'') = None
        then Some WithNotString
      else (case filter (not_str_or_none d) optional_fields of
        field # _ \<Rightarrow> Some (OptionalNotString field)
      | [] \<Rightarrow>
          if ty \<in> {PStr ''depends'', PStr ''excludes''} \<and> py_strip (str_or_empty (py_get d ''reason'')) = []
          then Some ReasonRequired
          else (case py_get d ''when'' of
            PStr w \<Rightarrow>
              if py_strip w \<noteq> [] then
                (case when_parse w of Inl err \<Rightarrow> Some (WhenMalformed err) | Inr _ \<Rightarrow> None)
              else None
          | _ \<Rightarrow> None)))"

definition edge_form_error :: "pyval \<Rightarrow> py_exc + form_error option" where
  "edge_form_error edge =
     (case as_dict edge of
        None \<Rightarrow> Inr (Some NotAnObject)
      | Some d \<Rightarrow>
          rbind (in_str_set (py_get d ''type'') [''depends'', ''excludes'', ''part_of''])
            (\<lambda>known. Inr (if known then edge_field_error d else Some EdgeTypeInvalid)))"

text \<open>The dict that \<open>_normalize_edges\<close> builds for an edge.\<close>

definition opt_py :: "string option \<Rightarrow> pyval" where
  "opt_py x = (case x of None \<Rightarrow> PNone | Some s \<Rightarrow> PStr s)"

definition edge_dict :: "edge \<Rightarrow> pydict" where
  "edge_dict e =
     [(''type'', PStr (e_type e)), (''to'', opt_py (e_to e)), (''with'', opt_py (e_with e)),
      (''state'', opt_py (e_state e)), (''or_group'', opt_py (e_or_group e)),
      (''when'', opt_py (e_when e)), (''reason'', opt_py (e_reason e))]"

section \<open>The edges of one manifest\<close>

datatype gate_issue =
    ChildKeyInvalid string string
  | EdgesNotArray string
  | EdgeSchema string pyval form_error
  | WhenIssue string when_static_error
  | TargetMissing string string
  | StateMissing string string string
  | OrGroupSingleton string string
  | OrGroupSameTarget string string string
  | ExclusionAsymmetry string string
  | ExclusionConflict string string

definition valid_child_key :: "string \<Rightarrow> bool" where
  "valid_child_key s \<longleftrightarrow> s \<noteq> [] \<and> list_all (\<lambda>c. is_lower c \<or> is_digit c \<or> c = CHR ''_'') s"

definition target_declares_milestone :: "pydict \<Rightarrow> string \<Rightarrow> bool" where
  "target_declares_milestone m milestone \<longleftrightarrow> declares_in_list m milestone \<or> declares_in_milestones m milestone"

fun manifest_edge_form_errors_from ::
  "string \<Rightarrow> check_registry \<Rightarrow> bool \<Rightarrow> pyval list \<Rightarrow> py_exc + gate_issue list" where
  "manifest_edge_form_errors_from key registry present [] = Inr []"
| "manifest_edge_form_errors_from key registry present (edge # rest) =
     rbind (edge_form_error edge) (\<lambda>form_error.
     rbind (manifest_edge_form_errors_from key registry present rest) (\<lambda>errors.
       Inr ((case form_error of
               Some fe \<Rightarrow> [EdgeSchema key edge fe]
             | None \<Rightarrow> (case as_dict edge of
                   Some d \<Rightarrow> map (WhenIssue key) (when_static_errors (as_str (py_get d ''when'')) registry present)
                 | None \<Rightarrow> [])) @ errors)))"

definition manifest_edge_form_errors ::
  "string \<Rightarrow> pydict \<Rightarrow> check_registry \<Rightarrow> bool \<Rightarrow> py_exc + gate_issue list" where
  "manifest_edge_form_errors key manifest registry present =
     (case py_get_default manifest ''edges'' (PList []) of
        PList xs \<Rightarrow> manifest_edge_form_errors_from key registry present xs
      | _ \<Rightarrow> Inr [EdgesNotArray key])"

definition edge_issues ::
  "string \<Rightarrow> edge \<Rightarrow> nodes \<Rightarrow> string set \<Rightarrow> string set \<Rightarrow> check_registry \<Rightarrow> bool \<Rightarrow> gate_issue list" where
  "edge_issues key e nodes key_set serial_set registry present =
     (case edge_form_error (PDict (edge_dict e)) of
        Inl _ \<Rightarrow> []
      | Inr (Some fe) \<Rightarrow> [EdgeSchema key (PDict (edge_dict e)) fe]
      | Inr None \<Rightarrow>
          map (WhenIssue key) (when_static_errors (e_when e) registry present) @
          (if e_type e \<in> {''depends'', ''part_of''} \<and> edge_target e \<noteq> ''root'' \<and>
              edge_target e \<notin> key_set \<and> edge_target e \<notin> serial_set
           then [TargetMissing key (edge_target e)] else []) @
          (if e_type e = ''excludes'' \<and> opt_str (e_with e) \<notin> key_set \<and> opt_str (e_with e) \<notin> serial_set
           then [TargetMissing key (opt_str (e_with e))] else []) @
          (if e_type e = ''depends'' then
             (case resolve_node (edge_target e) nodes of
                Some m \<Rightarrow>
                  if m \<noteq> [] \<and> required_state e \<notin> set LIFECYCLE_STATES \<and>
                     \<not> target_declares_milestone m (required_state e)
                  then [StateMissing key (edge_target e) (required_state e)] else []
              | None \<Rightarrow> [])
           else []))"

definition group_warnings :: "string \<Rightarrow> edge list \<Rightarrow> gate_issue list" where
  "group_warnings key edges =
     concat (map (\<lambda>(group, members).
        let targets = remdups (map edge_target members) in
        (if length members = 1 then [OrGroupSingleton key group] else []) @
        (if length members > 1 \<and> length targets = 1 then [OrGroupSameTarget key group (hd targets)] else []))
       (sort_key fst (group_by edge_group (filter is_depends edges))))"

definition validate_manifest_edges ::
  "string \<Rightarrow> pydict \<Rightarrow> nodes \<Rightarrow> string set \<Rightarrow> string set \<Rightarrow> check_registry \<Rightarrow> bool \<Rightarrow>
   gate_issue list \<times> gate_issue list" where
  "validate_manifest_edges key manifest nodes key_set serial_set registry present =
     (let key_errors =
            (case py_get manifest ''child_key'' of
               PStr dk \<Rightarrow> if dk \<noteq> [] \<and> key \<noteq> ''root'' \<and> \<not> valid_child_key dk
                          then [ChildKeyInvalid key dk] else []
             | _ \<Rightarrow> [])
      in case py_get_default manifest ''edges'' (PList []) of
           PList _ \<Rightarrow>
             (let edges = manifest_edges manifest in
              (key_errors @ concat (map (\<lambda>e. edge_issues key e nodes key_set serial_set registry present) edges),
               group_warnings key edges))
         | _ \<Rightarrow> (key_errors @ [EdgesNotArray key], []))"

section \<open>Exclusions\<close>

definition exclusion_pairs :: "nodes \<Rightarrow> (string \<times> string) set" where
  "exclusion_pairs nodes =
     set (concat (map (\<lambda>(key, m).
        concat (map (\<lambda>e. case e_with e of
             Some w \<Rightarrow> if e_type e = ''excludes'' \<and> w \<noteq> [] then [(key, w)] else []
           | None \<Rightarrow> []) (manifest_edges m))) (node_manifests nodes)))"

definition holds_claim_or_acceptance :: "pyval \<Rightarrow> bool" where
  "holds_claim_or_acceptance v =
     (case as_dict v of
        None \<Rightarrow> False
      | Some m \<Rightarrow> canonical_lifecycle m \<in>
          {''claimed_by_patch_author'', ''submitted_for_maintainer_review'', ''merged_into_subsystem_tree''})"

definition exclusion_consistency_errors :: "nodes \<Rightarrow> gate_issue list" where
  "exclusion_consistency_errors nodes =
     (let exclusions = exclusion_pairs nodes in
      concat (map (\<lambda>(left, right).
        (if (right, left) \<notin> exclusions then [ExclusionAsymmetry left right] else []) @
        (if holds_claim_or_acceptance (py_get_default nodes left (PDict [])) \<and>
            holds_claim_or_acceptance (py_get_default nodes right (PDict []))
         then [ExclusionConflict left right] else []))
       (sorted_list_of_set exclusions)))"

section \<open>The registry of declared checks\<close>

datatype registry_error =
    RegistryNotArray
  | EntryNotObject nat
  | EntryNameInvalid nat
  | EntryTypeInvalid nat string
  | EntryDuplicate nat string

definition PATCHWORK_CHECK_TYPES :: "string list" where
  "PATCHWORK_CHECK_TYPES = [''counter'', ''text'']"

definition registry_entry ::
  "nat \<Rightarrow> pyval \<Rightarrow> (string \<times> string) list \<Rightarrow> registry_error + string \<times> string" where
  "registry_entry index entry registry =
     (case as_dict entry of
        None \<Rightarrow> Inl (EntryNotObject index)
      | Some d \<Rightarrow>
          (case as_str (py_get d ''name'') of
             None \<Rightarrow> Inl (EntryNameInvalid index)
           | Some name \<Rightarrow>
               if \<not> valid_child_key name then Inl (EntryNameInvalid index)
               else (case as_str (py_get d ''type'') of
                 None \<Rightarrow> Inl (EntryTypeInvalid index name)
               | Some ty \<Rightarrow>
                   if ty \<notin> set PATCHWORK_CHECK_TYPES then Inl (EntryTypeInvalid index name)
                   else if name \<in> fst ` set registry then Inl (EntryDuplicate index name)
                   else Inr (name, ty))))"

fun parse_entries ::
  "nat \<Rightarrow> pyval list \<Rightarrow> (string \<times> string) list \<Rightarrow> (string \<times> string) list \<times> registry_error list" where
  "parse_entries index [] registry = (registry, [])"
| "parse_entries index (entry # rest) registry =
     (case registry_entry index entry registry of
        Inl err \<Rightarrow> (let (r, es) = parse_entries (Suc index) rest registry in (r, err # es))
      | Inr nt \<Rightarrow> parse_entries (Suc index) rest (registry @ [nt]))"

definition parse_declared_patchwork_checks ::
  "pyval \<Rightarrow> bool \<Rightarrow> (string \<times> string) list \<times> registry_error list" where
  "parse_declared_patchwork_checks value present =
     (if \<not> present then ([], [])
      else case value of
        PList xs \<Rightarrow> parse_entries 0 xs []
      | _ \<Rightarrow> ([], [RegistryNotArray]))"

section \<open>Check events\<close>

datatype event_error =
    EventNotObject nat
  | InvalidVar nat
  | WritesUndeclared nat string
  | SetValueInvalid nat
  | SetCounterNotInteger nat string
  | SetTextNotString nat string
  | NonCounterVar nat string
  | NonIntegerVar nat string
  | DeltaNotInteger nat
  | OpInvalid nat
  | OpUnhashable

definition apply_patchwork_check_event ::
  "check_values \<Rightarrow> pyval \<Rightarrow> nat \<Rightarrow> check_registry option \<Rightarrow> event_error + check_values" where
  "apply_patchwork_check_event state event index registry =
     (case as_dict event of
        None \<Rightarrow> Inl (EventNotObject index)
      | Some d \<Rightarrow>
          (case as_str (py_get d ''var'') of
             None \<Rightarrow> Inl (InvalidVar index)
           | Some var \<Rightarrow>
               if var = [] then Inl (InvalidVar index)
               else
                 (let declared = (case registry of None \<Rightarrow> None | Some r \<Rightarrow> r var);
                      oper = py_get d ''op'' in
                  if registry \<noteq> None \<and> declared = None then Inl (WritesUndeclared index var)
                  else if oper = PStr ''set'' then
                    (case py_get d ''value'' of
                       PInt i \<Rightarrow> if declared = Some ''text'' then Inl (SetTextNotString index var)
                                 else Inr (state(var \<mapsto> WInt i))
                     | PStr s \<Rightarrow> if declared = Some ''counter'' then Inl (SetCounterNotInteger index var)
                                 else Inr (state(var \<mapsto> WStr s))
                     | _ \<Rightarrow> Inl (SetValueInvalid index))
                  else if \<not> hashable oper then Inl OpUnhashable
                  else if oper \<in> {PStr ''inc'', PStr ''dec''} then
                    (if declared \<noteq> None \<and> declared \<noteq> Some ''counter'' then Inl (NonCounterVar index var)
                     else (case state var of
                         Some (WStr _) \<Rightarrow> Inl (NonIntegerVar index var)
                       | Some (WBool _) \<Rightarrow> Inl (NonIntegerVar index var)
                       | current \<Rightarrow>
                           (let n = (case current of Some (WInt i) \<Rightarrow> i | _ \<Rightarrow> 0) in
                            case py_get_default d ''value'' (PInt 1) of
                              PInt delta \<Rightarrow> Inr (state(var \<mapsto> WInt (if oper = PStr ''inc'' then n + delta else n - delta)))
                            | _ \<Rightarrow> Inl (DeltaNotInteger index))))
                  else Inl (OpInvalid index))))"

fun apply_events ::
  "nat \<Rightarrow> pyval list \<Rightarrow> check_registry option \<Rightarrow> check_values \<Rightarrow> event_error + check_values" where
  "apply_events index [] registry state = Inr state"
| "apply_events index (event # rest) registry state =
     rbind (apply_patchwork_check_event state event index registry) (apply_events (Suc index) rest registry)"

definition project_patchwork_check_events ::
  "pyval list \<Rightarrow> (string \<times> string) list option \<Rightarrow> event_error + check_values" where
  "project_patchwork_check_events events registry =
     apply_events 0 events (map_option map_of registry)
       (state_defaults (case registry of Some r \<Rightarrow> r | None \<Rightarrow> []))"

section \<open>Lemmas on the form check\<close>

lemma in_str_set_PStr [simp]: "in_str_set (PStr s) names = Inr (s \<in> set names)"
  by (simp add: in_str_set_def)

lemma in_str_set_Inl [simp]: "in_str_set v names = Inl x \<longleftrightarrow> x = TypeError \<and> \<not> hashable v"
  by (auto simp: in_str_set_def)

lemma edge_form_error_raises:
  "edge_form_error v = Inl x \<longleftrightarrow> x = TypeError \<and> (\<exists>d. v = PDict d \<and> \<not> hashable (py_get d ''type''))"
proof (cases v)
  case (PDict d)
  then show ?thesis
    by (cases "in_str_set (py_get d ''type'') [''depends'', ''excludes'', ''part_of'']")
      (auto simp: edge_form_error_def in_str_set_def split: if_splits)
qed (auto simp: edge_form_error_def)

lemma edge_dict_get [simp]:
  "py_get (edge_dict e) ''type'' = PStr (e_type e)"
  "py_get (edge_dict e) ''to'' = opt_py (e_to e)"
  "py_get (edge_dict e) ''with'' = opt_py (e_with e)"
  "py_get (edge_dict e) ''state'' = opt_py (e_state e)"
  "py_get (edge_dict e) ''or_group'' = opt_py (e_or_group e)"
  "py_get (edge_dict e) ''when'' = opt_py (e_when e)"
  "py_get (edge_dict e) ''reason'' = opt_py (e_reason e)"
  by (simp_all add: edge_dict_def py_get_def)

lemma edge_form_error_edge_dict: "edge_form_error (PDict (edge_dict e)) \<noteq> Inl x"
  by (simp add: edge_form_error_raises)

lemma manifest_edge_form_errors_from_raises:
  "manifest_edge_form_errors_from key registry present xs = Inl x \<longleftrightarrow>
     x = TypeError \<and> (\<exists>d. PDict d \<in> set xs \<and> \<not> hashable (py_get d ''type''))"
proof (induction xs)
  case (Cons v xs)
  show ?case
  proof (cases "edge_form_error v")
    case (Inl y)
    have "manifest_edge_form_errors_from key registry present (v # xs) = Inl y" by (simp add: Inl)
    moreover from Inl have "y = TypeError" "\<exists>d. v = PDict d \<and> \<not> hashable (py_get d ''type'')"
      by (simp_all add: edge_form_error_raises)
    ultimately show ?thesis
      by (metis list.set_intros(1) sum.inject(1))
  next
    case (Inr fe)
    then have "\<not> (\<exists>d. v = PDict d \<and> \<not> hashable (py_get d ''type''))"
      using edge_form_error_raises by (metis sum.distinct(1))
    then show ?thesis
      using Inr Cons by (cases "manifest_edge_form_errors_from key registry present xs") auto
  qed
qed simp

text \<open>
  The check of raw edges raises instead of reporting exactly when some edge object has a list
  or an object as its \<open>type\<close>, and the exception is a TypeError; every other edges value, however
  malformed, gives a list of reports.
\<close>

theorem manifest_edge_form_errors_raises:
  "manifest_edge_form_errors key manifest registry present = Inl x \<longleftrightarrow>
     x = TypeError \<and>
     (\<exists>xs d. py_get_default manifest ''edges'' (PList []) = PList xs \<and> PDict d \<in> set xs \<and>
        \<not> hashable (py_get d ''type''))"
  by (auto simp: manifest_edge_form_errors_def manifest_edge_form_errors_from_raises split: pyval.splits)

section \<open>Lemmas on validated edges\<close>

lemma edge_issues_Nil:
  assumes "edge_issues key e nodes key_set serial_set registry present = []"
  shows "edge_form_error (PDict (edge_dict e)) = Inr None"
    and "when_static_errors (e_when e) registry present = []"
    and "e_type e \<in> {''depends'', ''part_of''} \<Longrightarrow>
           edge_target e = ''root'' \<or> edge_target e \<in> key_set \<or> edge_target e \<in> serial_set"
    and "is_depends e \<Longrightarrow> resolve_node (edge_target e) nodes = Some m \<Longrightarrow> m \<noteq> [] \<Longrightarrow>
           required_state e \<in> set LIFECYCLE_STATES \<or> target_declares_milestone m (required_state e)"
  using assms edge_form_error_edge_dict [of e]
  by (auto simp: edge_issues_def is_depends_def split: sum.splits option.splits if_splits)

lemma validated_edges:
  assumes "fst (validate_manifest_edges key m nodes ks ss registry present) = []" "e \<in> set (manifest_edges m)"
  shows "edge_issues key e nodes ks ss registry present = []"
  using assms by (auto simp: validate_manifest_edges_def Let_def split: pyval.splits)

text \<open>A manifest moved to the last lifecycle state.\<close>

definition merged :: "pydict \<Rightarrow> pydict" where
  "merged m = (''lifecycle_status'', PStr ''merged_into_subsystem_tree'') # m"

lemma canonical_merged: "canonical_lifecycle (merged m) = ''merged_into_subsystem_tree''"
  by (simp add: canonical_lifecycle_def merged_def py_get_def legacy_state_def LEGACY_ACTIVE_STATES_def
      LIFECYCLE_STATES_def)

lemma lifecycle_rank_bound: "s \<in> set LIFECYCLE_STATES \<Longrightarrow> lifecycle_rank s \<le> lifecycle_rank ''merged_into_subsystem_tree''"
  by (auto simp: LIFECYCLE_STATES_def lifecycle_rank_def)

text \<open>
  A validated depends edge can be satisfied: for every depends edge of a manifest that
  \<open>_validate_manifest_edges\<close> accepts, whose target resolves to a nonempty manifest, merging the
  target and completing the named milestone reaches the required state. The validation therefore
  admits no edge that waits for a state its target can never have.
\<close>

theorem validated_edge_satisfiable:
  assumes "fst (validate_manifest_edges key m nodes ks ss registry present) = []"
    and "e \<in> set (manifest_edges m)" "is_depends e"
    and "resolve_node (edge_target e) nodes = Some tm" "tm \<noteq> []"
  shows "manifest_reaches (merged tm) (edge_target e) (required_state e)
     (vs(edge_target e @ ''_'' @ required_state e \<mapsto> WStr ''done''))"
proof -
  have "required_state e \<in> set LIFECYCLE_STATES \<or> target_declares_milestone tm (required_state e)"
    using edge_issues_Nil(4) [OF validated_edges [OF assms(1,2)] assms(3,4,5)] .
  moreover have "declares_in_milestones (merged tm) s = declares_in_milestones tm s"
    "declares_in_list (merged tm) s = declares_in_list tm s" for s
    by (simp_all add: declares_in_milestones_def declares_in_list_def merged_def py_get_def)
  moreover have "''merged_into_subsystem_tree'' \<in> set LIFECYCLE_STATES"
    by (simp add: LIFECYCLE_STATES_def)
  ultimately show ?thesis
    using lifecycle_rank_bound
    by (auto simp: manifest_reaches_def canonical_merged Let_def milestone_done_def
        milestone_state_value_def target_declares_milestone_def)
qed

section \<open>Exclusions\<close>

lemma finite_exclusion_pairs [simp]: "finite (exclusion_pairs nodes)"
  by (simp only: exclusion_pairs_def List.finite_set)

text \<open>
  The exclusion check is exact: it reports nothing if and only if the declared exclusions are
  symmetric and no two mutually exclusive nodes both hold a claim or an acceptance.
\<close>

theorem exclusion_consistency_exact:
  "exclusion_consistency_errors nodes = [] \<longleftrightarrow>
     sym (exclusion_pairs nodes) \<and>
     \<not> (\<exists>(l, r)\<in>exclusion_pairs nodes.
         holds_claim_or_acceptance (py_get_default nodes l (PDict [])) \<and>
         holds_claim_or_acceptance (py_get_default nodes r (PDict [])))"
proof -
  let ?E = "exclusion_pairs nodes"
  let ?h = "\<lambda>n. holds_claim_or_acceptance (py_get_default nodes n (PDict []))"
  have "exclusion_consistency_errors nodes = [] \<longleftrightarrow> (\<forall>(l, r)\<in>?E. (r, l) \<in> ?E \<and> \<not> (?h l \<and> ?h r))"
    unfolding exclusion_consistency_errors_def Let_def concat_eq_Nil_conv set_map ball_simps
      set_sorted_list_of_set [OF finite_exclusion_pairs]
    by (intro ball_cong refl) (simp split: prod.split)
  then show ?thesis by (auto simp: sym_def)
qed

section \<open>Typed projection of events\<close>

lemma registry_entry_Inr:
  "registry_entry i v registry = Inr (name, ty) \<Longrightarrow>
     valid_child_key name \<and> ty \<in> {''counter'', ''text''} \<and> name \<notin> fst ` set registry"
  by (auto simp: registry_entry_def PATCHWORK_CHECK_TYPES_def split: option.splits if_splits)

definition wf_registry :: "(string \<times> string) list \<Rightarrow> bool" where
  "wf_registry registry \<longleftrightarrow>
     distinct (map fst registry) \<and>
     (\<forall>(name, ty)\<in>set registry. valid_child_key name \<and> ty \<in> {''counter'', ''text''})"

lemma parse_entries_wf:
  "wf_registry registry \<Longrightarrow> wf_registry (fst (parse_entries i xs registry))"
proof (induction i xs registry rule: parse_entries.induct)
  case (2 index entry rest registry)
  show ?case
  proof (cases "registry_entry index entry registry")
    case (Inl err)
    then show ?thesis using 2 by (simp add: Let_def case_prod_unfold)
  next
    case (Inr nt)
    obtain name ty where nt: "nt = (name, ty)" by fastforce
    have "wf_registry (registry @ [nt])"
      using registry_entry_Inr [of index entry registry name ty] Inr 2(3)
      by (auto simp: nt wf_registry_def)
    then show ?thesis using 2(2) [OF Inr] Inr by simp
  qed
qed simp

lemma parse_declared_wf: "wf_registry (fst (parse_declared_patchwork_checks value present))"
  by (auto simp: parse_declared_patchwork_checks_def parse_entries_wf wf_registry_def [of "[]"] split: pyval.splits)

text \<open>
  Whatever is declared, the registry that is used has distinct names of the form
  \<open>[a-z0-9_]+\<close> and only the types counter and text.
\<close>

theorem parse_declared_patchwork_checks_wf:
  "wf_registry (fst (parse_declared_patchwork_checks value present))"
  by (rule parse_declared_wf)

lemma wf_registry_types: "wf_registry registry \<Longrightarrow> registry_types (map_of registry)"
  by (auto simp: wf_registry_def registry_types_def ran_def dest!: map_of_SomeD)

lemma state_defaults_typed: "wf_registry registry \<Longrightarrow> typed_values (map_of registry) (state_defaults registry)"
  by (auto simp: typed_values_def state_defaults_def)

lemma apply_event_typed:
  assumes "apply_patchwork_check_event state event i (Some registry) = Inr state'"
    and "typed_values registry state" "registry_types registry"
  shows "typed_values registry state' \<and> dom state' \<subseteq> dom state \<union> dom registry \<and> dom state \<subseteq> dom state'"
proof -
  have ty: "registry v = Some t \<Longrightarrow> t = ''counter'' \<or> t = ''text''" for v t
    using assms(3) by (auto simp: registry_types_def ran_def)
  show ?thesis
    using assms(1,2)
    by (auto simp: apply_patchwork_check_event_def Let_def typed_values_def
        split: option.splits pyval.splits if_splits wval.splits dest: ty)
qed

lemma apply_events_typed:
  assumes "registry_types registry"
  shows "apply_events i es (Some registry) state = Inr state' \<Longrightarrow> typed_values registry state \<Longrightarrow>
     dom state = dom registry \<Longrightarrow> typed_values registry state' \<and> dom state' = dom registry"
proof (induction i es "Some registry" state rule: apply_events.induct)
  case (2 i e es state)
  from 2(2) obtain st where st: "apply_patchwork_check_event state e i (Some registry) = Inr st"
    and rest: "apply_events (Suc i) es (Some registry) st = Inr state'"
    by (cases "apply_patchwork_check_event state e i (Some registry)") auto
  have "typed_values registry st" "dom st = dom registry"
    using apply_event_typed [OF st 2(3) assms] 2(4) by auto
  then show ?case using 2(1) [OF st rest] by blast
qed simp

text \<open>
  The projection of events is typed: whatever events are applied under a well-formed registry,
  if the projection returns, its variables are exactly the declared ones and each holds a value
  of its declared type.
\<close>

theorem project_events_typed:
  assumes "wf_registry registry"
    and "project_patchwork_check_events events (Some registry) = Inr state"
  shows "typed_values (map_of registry) state \<and> dom state = fst ` set registry"
proof -
  have "dom (state_defaults registry) = dom (map_of registry)"
    by (auto simp: state_defaults_def)
  then have "typed_values (map_of registry) state \<and> dom state = dom (map_of registry)"
    using apply_events_typed [OF wf_registry_types [OF assms(1)] _ state_defaults_typed [OF assms(1)]]
      assms(2) by (simp add: project_patchwork_check_events_def)
  then show ?thesis by (simp add: dom_map_of_conv_image_fst)
qed

text \<open>
  From declaration to evaluation: for a registry that the parser of declarations produced,
  a state projected from any accepted events, and an edge predicate that passes the static check
  and compares only identifiers and literals, the evaluation returns a value and no warning.
\<close>

theorem declared_checks_evaluate_silently:
  assumes "parse_declared_patchwork_checks value True = (registry, errors)"
    and "project_patchwork_check_events events (Some registry) = Inr state"
    and "when_static_errors (Some t) (map_of registry) True = []" "py_strip t = t"
    and "when_parse t = Inr e" "flat_comparisons e"
  shows "\<exists>b. evaluate_when (Some t) state node edge_index = Inr (b, [])"
proof -
  have wf: "wf_registry registry"
    using parse_declared_wf [of "value" True] assms(1) by simp
  have "typed_values (map_of registry) state"
    using apply_events_typed [OF wf_registry_types [OF wf] _ state_defaults_typed [OF wf]] assms(2)
    by (auto simp: project_patchwork_check_events_def state_defaults_def dom_def)
  with assms wf_registry_types [OF wf] show ?thesis
    by (intro static_check_silent)
qed

section \<open>Dependencies named by serial id\<close>

definition serial_cycle_nodes :: nodes where
  "serial_cycle_nodes =
     [(''a'', PDict [(''serial_id'', PStr ''S1''),
        (''edges'', PList [PDict [(''type'', PStr ''depends''), (''to'', PStr ''S2''), (''reason'', PStr ''r'')]])]),
      (''b'', PDict [(''serial_id'', PStr ''S2''),
        (''edges'', PList [PDict [(''type'', PStr ''depends''), (''to'', PStr ''S1''), (''reason'', PStr ''r'')]])])]"

section \<open>Concrete instances\<close>

theorem validated_edge_satisfiable_witness:
  "manifest_reaches (merged [(''lifecycle_status'', PStr ''stale'')]) ''a'' ''merged_into_subsystem_tree''
     (Map.empty(''a_merged_into_subsystem_tree'' \<mapsto> WStr ''done''))"
proof -
  let ?e = "hd (manifest_edges b_manifest)"
  let ?ns = "[(''a'', PDict [(''lifecycle_status'', PStr ''stale'')])]"
  have v: "fst (validate_manifest_edges ''b'' b_manifest ?ns {''a''} {} Map.empty False) = []" by code_simp
  have e: "?e \<in> set (manifest_edges b_manifest)" by code_simp
  have d: "is_depends ?e" by code_simp
  have r: "resolve_node (edge_target ?e) ?ns = Some [(''lifecycle_status'', PStr ''stale'')]" by code_simp
  have t: "edge_target ?e = ''a''" "required_state ?e = ''merged_into_subsystem_tree''" by code_simp+
  show ?thesis
    using validated_edge_satisfiable [OF v e d r, of Map.empty] by (simp add: t)
qed

theorem project_events_typed_witness:
  "\<exists>state. project_patchwork_check_events
       [PDict [(''var'', PStr ''n''), (''op'', PStr ''inc'')], PDict [(''var'', PStr ''t''), (''op'', PStr ''set''), (''value'', PStr ''x'')]]
       (Some [(''n'', ''counter''), (''t'', ''text'')]) = Inr state \<and>
     state ''n'' = Some (WInt 1) \<and> dom state = {''n'', ''t''}"
proof -
  let ?es = "[PDict [(''var'', PStr ''n''), (''op'', PStr ''inc'')], PDict [(''var'', PStr ''t''), (''op'', PStr ''set''), (''value'', PStr ''x'')]]"
  let ?r = "[(''n'', ''counter''), (''t'', ''text'')]"
  have p: "project_patchwork_check_events ?es (Some ?r) = Inr ((state_defaults ?r)(''n'' \<mapsto> WInt 1, ''t'' \<mapsto> WStr ''x''))"
    by (simp add: project_patchwork_check_events_def apply_patchwork_check_event_def Let_def py_get_def
        py_get_default_def state_defaults_def)
  have wf: "wf_registry ?r"
    by code_simp
  show ?thesis
    using project_events_typed [OF wf p] p by auto
qed

theorem declared_checks_evaluate_silently_witness:
  "\<exists>b. evaluate_when (Some ''n > 0'') (state_defaults [(''n'', ''counter'')]) ''root'' (Some 0) = Inr (b, [])"
proof (rule declared_checks_evaluate_silently)
  show "parse_declared_patchwork_checks (PList [PDict [(''name'', PStr ''n''), (''type'', PStr ''counter'')]]) True =
      ([(''n'', ''counter'')], [])"
    by code_simp
  show "project_patchwork_check_events [] (Some [(''n'', ''counter'')]) = Inr (state_defaults [(''n'', ''counter'')])"
    by (simp add: project_patchwork_check_events_def)
  show "when_static_errors (Some ''n > 0'') (map_of [(''n'', ''counter'')]) True = []" by code_simp
  show "py_strip ''n > 0'' = ''n > 0''" by code_simp
  show "when_parse ''n > 0'' = Inr (Cmp CGt (Var ''n'') (Lit (WInt 0)))" by code_simp
  show "flat_comparisons (Cmp CGt (Var ''n'') (Lit (WInt 0)))" by (simp add: flat_comparisons_def)
qed

end
