(* ===== verification/DepCycle.thy ===== *)
theory DepCycle
  imports EdgeValidation "HOL-Library.While_Combinator"
begin

text \<open>
  The cycle search \<open>_cycle\<close> of \<open>src/ai_org/patchwork_queue/patch_series_gate.py\<close> and the
  instant-cycle check built on it. The search is an iterative depth-first search over a stack of
  frames (node, neighbours, index); its state is the record \<open>dfs\<close>, one loop iteration is
  \<open>cycle_step\<close>, and the loop is a \<open>while_option\<close>, so that not returning would be \<open>None\<close>.
  The search always returns, what it returns is a cycle, and it returns the empty list exactly
  on acyclic dependency pairs.
\<close>

section \<open>The search\<close>

type_synonym dep_pairs = "(string \<times> string) list"

definition successor_graph :: "dep_pairs \<Rightarrow> (string \<times> string list) list" where
  "successor_graph edges = foldl (\<lambda>g (p, d). group_append p d g) [] edges"

definition successors :: "(string \<times> string list) list \<Rightarrow> string \<Rightarrow> string list" where
  "successors g n = sort (case map_of g n of Some ds \<Rightarrow> ds | None \<Rightarrow> [])"

record dfs =
  visiting :: "string set"
  visited :: "string set"
  dpath :: "string list"
  positions :: "string \<Rightarrow> nat option"
  frames :: "(string \<times> string list \<times> nat) list"
  found :: "string list option"

definition dfs_mark :: "string \<Rightarrow> dfs \<Rightarrow> dfs" where
  "dfs_mark current s =
     (if current \<notin> visiting s \<and> current \<notin> visited s
      then s\<lparr>visiting := insert current (visiting s),
             positions := (positions s)(current \<mapsto> length (dpath s)),
             dpath := dpath s @ [current]\<rparr>
      else s)"

definition dfs_leave :: "string \<Rightarrow> dfs \<Rightarrow> dfs" where
  "dfs_leave current s =
     (if current \<in> visiting s
      then s\<lparr>visiting := visiting s - {current},
             visited := insert current (visited s),
             positions := (positions s)(current := None),
             dpath := (if dpath s \<noteq> [] \<and> last (dpath s) = current then butlast (dpath s) else dpath s)\<rparr>
      else s)"

definition cycle_step :: "(string \<times> string list) list \<Rightarrow> dfs \<Rightarrow> dfs" where
  "cycle_step g s =
     (case frames s of
        [] \<Rightarrow> s
      | (current, neighbors, index) # rest \<Rightarrow>
          (let s1 = dfs_mark current s in
           if length neighbors \<le> index then dfs_leave current (s1\<lparr>frames := rest\<rparr>)
           else
             (let next_node = neighbors ! index;
                  s2 = s1\<lparr>frames := (current, neighbors, Suc index) # rest\<rparr>
              in if next_node \<in> visiting s2 then
                   s2\<lparr>found := Some (drop (the (positions s2 next_node)) (dpath s2) @ [next_node])\<rparr>
                 else if next_node \<notin> visited s2 then
                   s2\<lparr>frames := (next_node, successors g next_node, 0) # frames s2\<rparr>
                 else s2)))"

definition dfs_run :: "(string \<times> string list) list \<Rightarrow> dfs \<Rightarrow> dfs option" where
  "dfs_run g s = while_option (\<lambda>s. frames s \<noteq> [] \<and> found s = None) (cycle_step g) s"

fun cycle_from :: "(string \<times> string list) list \<Rightarrow> string list \<Rightarrow> dfs \<Rightarrow> string list option" where
  "cycle_from g [] s = Some []"
| "cycle_from g (node # nodes) s =
     (if node \<in> visited s then cycle_from g nodes s
      else (case dfs_run g (s\<lparr>frames := [(node, successors g node, 0)]\<rparr>) of
              None \<Rightarrow> None
            | Some s' \<Rightarrow> (case found s' of Some c \<Rightarrow> Some c | None \<Rightarrow> cycle_from g nodes s')))"

definition dfs_start :: dfs where
  "dfs_start = \<lparr>visiting = {}, visited = {}, dpath = [], positions = Map.empty, frames = [], found = None\<rparr>"

definition find_cycle :: "dep_pairs \<Rightarrow> string list option" where
  "find_cycle edges =
     (let g = successor_graph edges in cycle_from g (sort (map fst g)) dfs_start)"

definition instant_cycle :: "nodes \<Rightarrow> check_values \<Rightarrow> string list option" where
  "instant_cycle nodes vs = find_cycle (fst (blocking_dependency_pairs nodes vs))"

section \<open>The invariant of the search\<close>

lemma map_of_successor_graph:
  "map_of (successor_graph es) n =
     (let ds = map snd (filter (\<lambda>e. fst e = n) es) in if ds = [] then None else Some ds)"
  by (induction es rule: rev_induct)
    (auto simp: successor_graph_def map_of_group_append Let_def split: option.splits)

lemma set_successors: "set (successors (successor_graph es) n) = set es `` {n}"
proof -
  have "set (successors (successor_graph es) n) = set (map snd (filter (\<lambda>e. fst e = n) es))"
    by (auto simp: successors_def map_of_successor_graph Let_def filter_empty_conv)
  then show ?thesis by force
qed

lemma successor_graph_keys: "set (map fst (successor_graph es)) = fst ` set es"
proof -
  have "set (map fst (successor_graph es)) = dom (map_of (successor_graph es))"
    by (simp add: dom_map_of_conv_image_fst)
  also have "\<dots> = fst ` set es"
    by (force simp: dom_def map_of_successor_graph Let_def filter_empty_conv)
  finally show ?thesis .
qed

text \<open>
  The nodes on the stack, bottom first, are the current path, with the top frame's node not yet
  marked right after a push. What a frame has scanned is finished, except the node of the
  frame above it.
\<close>

definition stack_nodes :: "dfs \<Rightarrow> string list" where
  "stack_nodes s = rev (map fst (frames s))"

fun frames_ok :: "(string \<times> string) set \<Rightarrow> string set \<Rightarrow> string set \<Rightarrow> (string \<times> string list \<times> nat) list \<Rightarrow> bool" where
  "frames_ok E fin up [] = True"
| "frames_ok E fin up ((n, nb, i) # rest) \<longleftrightarrow>
     set nb = E `` {n} \<and> i \<le> length nb \<and> set (take i nb) \<subseteq> fin \<union> up \<and> up \<subseteq> E `` {n} \<and>
     frames_ok E fin {n} rest"

definition index_map :: "'a list \<Rightarrow> 'a \<Rightarrow> nat option" where
  "index_map p = map_of (zip p [0..<length p])"

definition dfs_inv :: "(string \<times> string) set \<Rightarrow> dfs \<Rightarrow> bool" where
  "dfs_inv E s \<longleftrightarrow>
     distinct (dpath s) \<and> visiting s = set (dpath s) \<and> positions s = index_map (dpath s) \<and>
     visiting s \<inter> visited s = {} \<and>
     E `` visited s \<subseteq> visited s \<and> acyclic (E \<inter> visited s \<times> visited s) \<and>
     frames_ok E (visited s) {} (frames s) \<and>
     (stack_nodes s = dpath s \<or>
      (\<exists>n nb rest. frames s = (n, nb, 0) # rest \<and> stack_nodes s = dpath s @ [n] \<and>
        n \<notin> visiting s \<and> n \<notin> visited s))"

definition is_cycle :: "('a \<times> 'a) set \<Rightarrow> 'a list \<Rightarrow> bool" where
  "is_cycle E c \<longleftrightarrow>
     2 \<le> length c \<and> hd c = last c \<and> distinct (butlast c) \<and>
     successively (\<lambda>a b. (a, b) \<in> E) c"

lemma index_map_outside: "x \<notin> set p \<Longrightarrow> index_map p x = None"
  by (auto simp: index_map_def map_of_eq_None_iff dest: set_zip_leftD)

lemma index_map_snoc: "x \<notin> set p \<Longrightarrow> index_map (p @ [x]) = (index_map p)(x \<mapsto> length p)"
proof -
  assume x: "x \<notin> set p"
  have "index_map (p @ [x]) = [x \<mapsto> length p] ++ index_map p"
    by (simp add: index_map_def)
  then show ?thesis
    using index_map_outside [OF x] by (auto simp: map_add_def fun_eq_iff split: option.split)
qed

lemma index_map_snoc_None: "x \<notin> set p \<Longrightarrow> (index_map (p @ [x]))(x := None) = index_map p"
  by (rule ext) (simp add: index_map_snoc index_map_outside)

lemma index_map_nth: "distinct p \<Longrightarrow> i < length p \<Longrightarrow> index_map p (p ! i) = Some i"
  by (simp add: index_map_def map_of_zip_nth)

lemma frames_ok_mono:
  "frames_ok E fin up fs \<Longrightarrow> fin \<subseteq> fin' \<Longrightarrow> up \<subseteq> fin' \<union> up' \<Longrightarrow> up' \<subseteq> up \<Longrightarrow> frames_ok E fin' up' fs"
proof (induction fs arbitrary: up up')
  case (Cons f fs)
  obtain n nb i where f: "f = (n, nb, i)" by (cases f) auto
  show ?case using Cons.prems Cons.IH [of "{n}" "{n}"] by (auto simp: f)
qed simp

lemma frames_ok_path:
  "frames_ok E fin up fs \<Longrightarrow> successively (\<lambda>a b. (a, b) \<in> E) (rev (map fst fs)) \<and>
     (fs \<noteq> [] \<longrightarrow> up \<subseteq> E `` {fst (hd fs)})"
proof (induction fs arbitrary: up)
  case (Cons f fs)
  obtain n nb i where f: "f = (n, nb, i)" by (cases f) auto
  have ok: "frames_ok E fin {n} fs" using Cons.prems by (simp add: f)
  from Cons.IH [OF ok] Cons.prems show ?case
    by (cases fs) (auto simp: f successively_append_iff last_rev)
qed simp

lemma acyclic_extend:
  assumes "acyclic (E \<inter> V \<times> V)" "E `` V \<subseteq> V" "c \<notin> V" "E `` {c} \<subseteq> V"
  shows "acyclic (E \<inter> insert c V \<times> insert c V)"
proof (rule acyclicI, rule allI, rule notI)
  fix x
  assume x: "(x, x) \<in> (E \<inter> insert c V \<times> insert c V)\<^sup>+"
  have "x \<in> V" using tranclD2 [OF x] assms by blast
  moreover have "(a, b) \<in> (E \<inter> insert c V \<times> insert c V)\<^sup>+ \<Longrightarrow> a \<in> V \<Longrightarrow> b \<in> V \<and> (a, b) \<in> (E \<inter> V \<times> V)\<^sup>+" for a b
  proof (induction rule: trancl_induct)
    case (base y)
    then show ?case using assms(2) by (auto intro!: r_into_trancl)
  next
    case (step y z)
    then have "(y, z) \<in> E \<inter> V \<times> V" using assms(2) by blast
    with step show ?case by (auto intro: trancl_into_trancl)
  qed
  ultimately show False using x assms(1) by (auto simp: acyclic_def)
qed

lemma dfs_mark_inv:
  assumes "dfs_inv E s" "frames s = (cur, nb, i) # rest"
  shows "dfs_inv E (dfs_mark cur s) \<and> frames (dfs_mark cur s) = frames s \<and> found (dfs_mark cur s) = found s \<and>
    visited (dfs_mark cur s) = visited s \<and> dpath (dfs_mark cur s) = rev (map fst rest) @ [cur]"
proof (cases "stack_nodes s = dpath s")
  case True
  then have "dpath s = rev (map fst rest) @ [cur]" using assms(2) by (simp add: stack_nodes_def)
  then have "cur \<in> visiting s" using assms(1) by (simp add: dfs_inv_def)
  with True assms show ?thesis by (simp add: dfs_mark_def stack_nodes_def)
next
  case False
  then have new: "cur \<notin> visiting s" "cur \<notin> visited s" and st: "stack_nodes s = dpath s @ [cur]"
    using assms by (auto simp: dfs_inv_def)
  have "dpath s = rev (map fst rest)" using st assms(2) by (simp add: stack_nodes_def)
  moreover have "positions s = index_map (dpath s)" "visiting s = set (dpath s)" using assms(1) by (simp_all add: dfs_inv_def)
  ultimately show ?thesis
    using assms new by (auto simp: dfs_mark_def dfs_inv_def index_map_snoc stack_nodes_def)
qed

lemma dfs_leave_inv:
  assumes inv: "dfs_inv E s" and fr: "frames s = (cur, nb, i) # rest" and p: "dpath s = rev (map fst rest) @ [cur]"
    and i: "length nb \<le> i"
  shows "dfs_inv E (dfs_leave cur (s\<lparr>frames := rest\<rparr>))"
proof -
  have cur: "cur \<in> visiting s" "cur \<notin> visited s" "cur \<notin> set (map fst rest)"
    using inv p by (auto simp: dfs_inv_def)
  have nb: "E `` {cur} \<subseteq> visited s" "frames_ok E (visited s) {cur} rest"
    using inv fr i by (auto simp: dfs_inv_def)
  have "frames_ok E (insert cur (visited s)) {} rest"
    by (rule frames_ok_mono [OF nb(2)]) auto
  moreover have "acyclic (E \<inter> insert cur (visited s) \<times> insert cur (visited s))"
    using acyclic_extend [OF _ _ cur(2) nb(1)] inv by (simp add: dfs_inv_def)
  moreover have "positions s = index_map (rev (map fst rest) @ [cur])"
    using inv p by (simp add: dfs_inv_def)
  ultimately show ?thesis
    using inv cur nb(1) p
    by (auto simp: dfs_leave_def dfs_inv_def stack_nodes_def index_map_snoc_None)
qed

definition search_ok :: "(string \<times> string) set \<Rightarrow> dfs \<Rightarrow> bool" where
  "search_ok E s \<longleftrightarrow> (case found s of None \<Rightarrow> dfs_inv E s | Some c \<Rightarrow> is_cycle E c)"

lemma is_cycle_of_path:
  assumes "successively (\<lambda>a b. (a, b) \<in> E) p" "distinct p" "k < length p" "(last p, p ! k) \<in> E"
  shows "is_cycle E (drop k p @ [p ! k])"
proof -
  have "successively (\<lambda>a b. (a, b) \<in> E) (take k p @ drop k p)" using assms(1) by simp
  then have "successively (\<lambda>a b. (a, b) \<in> E) (drop k p)"
    unfolding successively_append_iff by blast
  then show ?thesis
    using assms(2-4) by (simp add: is_cycle_def successively_append_iff hd_drop_conv_nth)
qed

lemma cycle_step_ok:
  assumes "search_ok (set es) s" "frames s \<noteq> []" "found s = None"
  shows "search_ok (set es) (cycle_step (successor_graph es) s)"
proof -
  let ?E = "set es"
  obtain cur nb i rest where fr: "frames s = (cur, nb, i) # rest"
    using assms(2) by (cases "frames s") auto
  have inv: "dfs_inv ?E s" using assms by (simp add: search_ok_def)
  define s1 where "s1 = dfs_mark cur s"
  note mark = dfs_mark_inv [OF inv fr, folded s1_def]
  then have inv1: "dfs_inv ?E s1" and fr1: "frames s1 = (cur, nb, i) # rest" and p1: "dpath s1 = rev (map fst rest) @ [cur]"
    and none: "found s1 = None" using fr assms(3) by simp_all
  show ?thesis
  proof (cases "length nb \<le> i")
    case True
    have "found (dfs_leave cur (s1\<lparr>frames := rest\<rparr>)) = None" using none by (simp add: dfs_leave_def)
    then show ?thesis
      using dfs_leave_inv [OF inv1 fr1 p1 True] True
      by (simp add: cycle_step_def fr search_ok_def Let_def s1_def [symmetric])
  next
    case False
    define next_node where "next_node = nb ! i"
    have E: "set nb = ?E `` {cur}" and ok: "frames_ok ?E (visited s1) {cur} rest" and tk: "set (take i nb) \<subseteq> visited s1"
      using inv1 fr1 by (auto simp: dfs_inv_def)
    have edge: "(cur, next_node) \<in> ?E" using E False by (metis Image_singleton_iff next_node_def not_le nth_mem)
    have take: "set (take (Suc i) nb) = insert next_node (set (take i nb))"
      using False by (simp add: take_Suc_conv_app_nth next_node_def)
    let ?s2 = "s1\<lparr>frames := (cur, nb, Suc i) # rest\<rparr>"
    have path: "visiting s1 = set (dpath s1)" "distinct (dpath s1)" "positions s1 = index_map (dpath s1)"
      using inv1 by (simp_all add: dfs_inv_def)
    consider (cyc) "next_node \<in> visiting s1" | (push) "next_node \<notin> visiting s1" "next_node \<notin> visited s1"
      | (skip) "next_node \<notin> visiting s1" "next_node \<in> visited s1" by blast
    then show ?thesis
    proof cases
      case cyc
      then obtain k where k: "k < length (dpath s1)" "next_node = dpath s1 ! k"
        by (metis path(1) in_set_conv_nth)
      have succ: "successively (\<lambda>a b. (a, b) \<in> ?E) (dpath s1)"
        using frames_ok_path [of ?E "visited s1" "{}" "frames s1"] inv1 by (simp add: dfs_inv_def fr1 p1)
      have "is_cycle ?E (drop k (dpath s1) @ [next_node])"
        using is_cycle_of_path [OF succ path(2) k(1)] edge k(2) p1 by simp
      then show ?thesis
        using False cyc k index_map_nth [OF path(2) k(1)] path(3)
        by (simp add: cycle_step_def fr search_ok_def Let_def s1_def [symmetric] next_node_def [symmetric])
    next
      case push
      have "dfs_inv ?E (?s2\<lparr>frames := (next_node, successors (successor_graph es) next_node, 0) # frames ?s2\<rparr>)"
        using inv1 push ok E tk edge take False p1 by (auto simp: dfs_inv_def set_successors stack_nodes_def)
      then show ?thesis
        using False push none
        by (simp add: cycle_step_def fr search_ok_def Let_def s1_def [symmetric] next_node_def [symmetric])
    next
      case skip
      have "dfs_inv ?E ?s2"
        using inv1 skip ok E tk take False p1 by (auto simp: dfs_inv_def stack_nodes_def)
      then show ?thesis
        using False skip none
        by (simp add: cycle_step_def fr search_ok_def Let_def s1_def [symmetric] next_node_def [symmetric])
    qed
  qed
qed

section \<open>The search returns\<close>

definition frame_cost :: "(string \<times> string list \<times> nat) list \<Rightarrow> nat" where
  "frame_cost fs = sum_list (map (\<lambda>(n, nb, i). Suc (length nb) - i) fs)"

definition unseen :: "(string \<times> string) set \<Rightarrow> dfs \<Rightarrow> string set" where
  "unseen E s = (fst ` E \<union> snd ` E) - visiting s - visited s - set (stack_nodes s)"

definition search_cost :: "dep_pairs \<Rightarrow> dfs \<Rightarrow> nat" where
  "search_cost es s =
     (\<Sum>n\<in>unseen (set es) s. length (successors (successor_graph es) n) + 2) + frame_cost (frames s)"

lemma finite_unseen [simp]: "finite (unseen (set es) s)"
  by (simp add: unseen_def)

lemma unseen_mark: "frames s = (cur, nb, i) # rest \<Longrightarrow> unseen E (dfs_mark cur s) = unseen E s"
  by (auto simp: unseen_def dfs_mark_def stack_nodes_def)

lemma unseen_leave:
  "frames s = (cur, nb, i) # rest \<Longrightarrow> cur \<in> visiting s \<Longrightarrow>
     unseen E (dfs_leave cur (s\<lparr>frames := rest\<rparr>)) = unseen E s"
  by (auto simp: unseen_def dfs_leave_def stack_nodes_def)

lemma cycle_step_cost:
  assumes "search_ok (set es) s" "frames s \<noteq> []" "found s = None"
  shows "search_cost es (cycle_step (successor_graph es) s) < search_cost es s"
proof -
  let ?E = "set es"
  obtain cur nb i rest where fr: "frames s = (cur, nb, i) # rest"
    using assms(2) by (cases "frames s") auto
  have inv: "dfs_inv ?E s" using assms by (simp add: search_ok_def)
  define s1 where "s1 = dfs_mark cur s"
  note mark = dfs_mark_inv [OF inv fr, folded s1_def]
  then have fr1: "frames s1 = (cur, nb, i) # rest" and p1: "dpath s1 = rev (map fst rest) @ [cur]"
    and v1: "visiting s1 = set (dpath s1)"
    using fr by (simp_all add: dfs_inv_def)
  have nb: "set nb = ?E `` {cur}" using inv fr by (simp add: dfs_inv_def)
  have un: "unseen ?E s1 = unseen ?E s" using unseen_mark [OF fr] by (simp add: s1_def)
  show ?thesis
  proof (cases "length nb \<le> i")
    case True
    have "cur \<in> visiting s1" using p1 v1 by simp
    moreover have "i \<le> length nb" using inv fr by (simp add: dfs_inv_def)
    ultimately show ?thesis
      using unseen_leave [OF fr1] un True
      by (simp add: search_cost_def cycle_step_def fr Let_def s1_def [symmetric] frame_cost_def dfs_leave_def)
  next
    case False
    let ?n = "nb ! i" and ?s2 = "s1\<lparr>frames := (cur, nb, Suc i) # rest\<rparr>"
    have un2: "unseen ?E ?s2 = unseen ?E s" using un fr1 by (simp add: unseen_def stack_nodes_def)
    have cost2: "frame_cost (frames ?s2) < frame_cost (frames s)"
      using False by (simp add: frame_cost_def fr)
    show ?thesis
    proof (cases "?n \<notin> visiting ?s2 \<and> ?n \<notin> visited ?s2")
      case True
      let ?s3 = "?s2\<lparr>frames := (?n, successors (successor_graph es) ?n, 0) # frames ?s2\<rparr>"
      have "?n \<in> set nb" using False by simp
      then have "?n \<in> snd ` ?E" unfolding nb by force
      moreover have "stack_nodes ?s2 = dpath s1" using p1 by (simp add: stack_nodes_def)
      ultimately have n: "?n \<in> unseen ?E ?s2"
        using True v1 by (simp add: unseen_def)
      have "unseen ?E ?s3 = unseen ?E ?s2 - {?n}" by (auto simp: unseen_def stack_nodes_def)
      then have "(\<Sum>n\<in>unseen ?E ?s3. length (successors (successor_graph es) n) + 2) +
          (length (successors (successor_graph es) ?n) + 2) =
          (\<Sum>n\<in>unseen ?E s. length (successors (successor_graph es) n) + 2)"
        using sum.remove [OF finite_unseen n, of "\<lambda>n. length (successors (successor_graph es) n) + 2"]
        by (simp add: un2)
      then have "search_cost es ?s3 < search_cost es s"
        using False by (simp add: search_cost_def frame_cost_def fr)
      then show ?thesis using True False
        by (simp add: cycle_step_def fr Let_def s1_def [symmetric])
    next
      case stay: False
      then show ?thesis
        using False un2 cost2 un
        by (auto simp: cycle_step_def fr Let_def s1_def [symmetric] search_cost_def unseen_def stack_nodes_def)
    qed
  qed
qed

lemma dfs_run_ok:
  assumes "search_ok (set es) s"
  shows "\<exists>t. dfs_run (successor_graph es) s = Some t \<and> search_ok (set es) t \<and> (frames t = [] \<or> found t \<noteq> None)"
proof -
  have "\<exists>t. dfs_run (successor_graph es) s = Some t"
    unfolding dfs_run_def
    by (rule measure_while_option_Some [where P = "search_ok (set es)" and f = "search_cost es", OF _ assms])
      (simp add: cycle_step_ok cycle_step_cost)
  then obtain t where t: "dfs_run (successor_graph es) s = Some t" by blast
  have "search_ok (set es) t"
    by (rule while_option_rule [where P = "search_ok (set es)", OF _ t [unfolded dfs_run_def] assms])
      (simp add: cycle_step_ok)
  with while_option_stop [OF t [unfolded dfs_run_def]] t show ?thesis by auto
qed

text \<open>Between two roots the stack is empty, so only what was visited is remembered.\<close>

definition between_roots :: "(string \<times> string) set \<Rightarrow> dfs \<Rightarrow> bool" where
  "between_roots E s \<longleftrightarrow> dfs_inv E (s\<lparr>frames := []\<rparr>) \<and> found s = None"

lemma between_rootsD: "between_roots E s \<Longrightarrow> dpath s = [] \<and> visiting s = {}"
  by (auto simp: between_roots_def dfs_inv_def stack_nodes_def)

lemma start_root:
  assumes "between_roots (set es) s" "n \<notin> visited s"
  shows "search_ok (set es) (s\<lparr>frames := [(n, successors (successor_graph es) n, 0)]\<rparr>)"
proof -
  let ?t = "s\<lparr>frames := [(n, successors (successor_graph es) n, 0)]\<rparr>"
  have empty: "dpath s = []" "visiting s = {}" using between_rootsD [OF assms(1)] by blast+
  have fo: "frames_ok (set es) (visited s) {} (frames ?t)" by (simp add: set_successors)
  have "dfs_inv (set es) ?t"
    unfolding dfs_inv_def
  proof (intro conjI)
    show "frames_ok (set es) (visited ?t) {} (frames ?t)" using fo by simp
    show "stack_nodes ?t = dpath ?t \<or>
      (\<exists>n' nb rest. frames ?t = (n', nb, 0) # rest \<and> stack_nodes ?t = dpath ?t @ [n'] \<and> n' \<notin> visiting ?t \<and> n' \<notin> visited ?t)"
      using empty assms(2) by (simp add: stack_nodes_def)
  qed (use assms(1) empty in \<open>simp_all add: between_roots_def dfs_inv_def\<close>)
  then show ?thesis using assms(1) by (simp add: search_ok_def between_roots_def)
qed

lemma stacked_stays:
  "frames s \<noteq> [] \<Longrightarrow> n \<in> visited s \<union> set (stack_nodes s) \<Longrightarrow> search_ok E s \<Longrightarrow> found s = None \<Longrightarrow>
     n \<in> visited (cycle_step g s) \<union> set (stack_nodes (cycle_step g s))"
proof -
  assume a: "frames s \<noteq> []" "n \<in> visited s \<union> set (stack_nodes s)" "search_ok E s" "found s = None"
  then obtain cur nb i rest where fr: "frames s = (cur, nb, i) # rest" by (cases "frames s") auto
  have "dfs_inv E s" using a by (simp add: search_ok_def)
  from dfs_mark_inv [OF this fr] have m: "cur \<in> visiting (dfs_mark cur s)" "visited (dfs_mark cur s) = visited s"
    "frames (dfs_mark cur s) = frames s" by (auto simp: dfs_inv_def)
  then have "visited (dfs_leave cur ((dfs_mark cur s)\<lparr>frames := rest\<rparr>)) = insert cur (visited s)"
    "frames (dfs_leave cur ((dfs_mark cur s)\<lparr>frames := rest\<rparr>)) = rest"
    by (simp_all add: dfs_leave_def)
  then show ?thesis
    using a(2) m(2,3) by (auto simp: cycle_step_def Let_def fr stack_nodes_def)
qed

lemma dfs_run_visits:
  assumes "search_ok (set es) s" "dfs_run (successor_graph es) s = Some t" "found t = None"
    "n \<in> visited s \<union> set (stack_nodes s)"
  shows "n \<in> visited t"
proof -
  let ?P = "\<lambda>s. search_ok (set es) s \<and> n \<in> visited s \<union> set (stack_nodes s)"
  have "?P t"
    by (rule while_option_rule [where P = ?P, OF _ assms(2) [unfolded dfs_run_def]])
      (use assms(1,4) stacked_stays cycle_step_ok in auto)
  moreover have "frames t = []"
    using while_option_stop [OF assms(2) [unfolded dfs_run_def]] assms(3) by simp
  ultimately show ?thesis by (simp add: stack_nodes_def)
qed

text \<open>No cycle is reachable from a set of nodes: some superset is closed and acyclic.\<close>

definition sealed :: "('a \<times> 'a) set \<Rightarrow> 'a set \<Rightarrow> bool" where
  "sealed E X \<longleftrightarrow> (\<exists>V. X \<subseteq> V \<and> E `` V \<subseteq> V \<and> acyclic (E \<inter> V \<times> V))"

lemma sealed_mono: "sealed E Y \<Longrightarrow> X \<subseteq> Y \<Longrightarrow> sealed E X"
  unfolding sealed_def by (meson subset_trans)

lemma sealed_sources: "sealed E (fst ` E) \<Longrightarrow> acyclic E"
proof -
  assume "sealed E (fst ` E)"
  then obtain V where V: "fst ` E \<subseteq> V" "E `` V \<subseteq> V" "acyclic (E \<inter> V \<times> V)"
    by (auto simp: sealed_def)
  then have "E \<inter> V \<times> V = E" by fastforce
  with V(3) show ?thesis by simp
qed

lemma cycle_from_ok:
  assumes "between_roots (set es) s"
  shows "\<exists>c. cycle_from (successor_graph es) ns s = Some c \<and>
    (if c = [] then sealed (set es) (set ns \<union> visited s) else is_cycle (set es) c)"
  using assms
proof (induction ns arbitrary: s)
  case Nil
  then show ?case
    by (auto simp: between_roots_def dfs_inv_def sealed_def)
next
  case (Cons n ns)
  show ?case
  proof (cases "n \<in> visited s")
    case True
    then have eq: "set (n # ns) \<union> visited s = set ns \<union> visited s" by auto
    show ?thesis unfolding eq using Cons.IH [OF Cons.prems] True by simp
  next
    case False
    let ?s0 = "s\<lparr>frames := [(n, successors (successor_graph es) n, 0)]\<rparr>"
    have ok0: "search_ok (set es) ?s0" by (rule start_root [OF Cons.prems False])
    obtain t where t: "dfs_run (successor_graph es) ?s0 = Some t" "search_ok (set es) t" "frames t = [] \<or> found t \<noteq> None"
      using dfs_run_ok [OF ok0] by blast
    show ?thesis
    proof (cases "found t")
      case None
      have seen: "insert n (visited s) \<subseteq> visited t"
        using dfs_run_visits [OF ok0 t(1) None] by (auto simp: stack_nodes_def)
      have "t\<lparr>frames := []\<rparr> = t" using t(3) None by simp
      then have "between_roots (set es) t"
        unfolding between_roots_def using t(2) None by (simp add: search_ok_def)
      from Cons.IH [OF this] obtain c where "cycle_from (successor_graph es) ns t = Some c"
        "if c = [] then sealed (set es) (set ns \<union> visited t) else is_cycle (set es) c"
        by blast
      moreover have "set (n # ns) \<union> visited s \<subseteq> set ns \<union> visited t" using seen by auto
      ultimately show ?thesis using False t(1) None sealed_mono by fastforce
    next
      case (Some c)
      then have "is_cycle (set es) c" using t(2) by (simp add: search_ok_def)
      moreover from this have "c \<noteq> []" by (auto simp: is_cycle_def)
      ultimately show ?thesis using False t(1) Some by simp
    qed
  qed
qed

lemma is_cycle_trancl: "is_cycle E c \<Longrightarrow> (hd c, hd c) \<in> E\<^sup>+"
proof -
  have path: "successively (\<lambda>a b. (a, b) \<in> E) c \<Longrightarrow> 2 \<le> length c \<Longrightarrow> (hd c, last c) \<in> E\<^sup>+" for c
  proof (induction c)
    case (Cons a c)
    then show ?case by (cases c; cases "tl c") (auto intro: trancl_into_trancl2)
  qed simp
  assume "is_cycle E c"
  then show ?thesis using path [of c] by (simp add: is_cycle_def)
qed

lemma find_cycle_result:
  "\<exists>c. find_cycle es = Some c \<and> (if c = [] then acyclic (set es) else is_cycle (set es) c)"
proof -
  have "between_roots (set es) dfs_start"
    by (simp add: between_roots_def dfs_inv_def dfs_start_def stack_nodes_def index_map_def acyclic_def fun_eq_iff)
  from cycle_from_ok [OF this, of "sort (map fst (successor_graph es))"]
  obtain c where c: "find_cycle es = Some c"
    "if c = [] then sealed (set es) (set (sort (map fst (successor_graph es))) \<union> visited dfs_start) else is_cycle (set es) c"
    by (auto simp: find_cycle_def Let_def)
  moreover have "set (sort (map fst (successor_graph es))) \<union> visited dfs_start = fst ` set es"
    using successor_graph_keys [of es] by (simp add: dfs_start_def)
  ultimately have "if c = [] then sealed (set es) (fst ` set es) else is_cycle (set es) c" by metis
  with c(1) sealed_sources show ?thesis by (auto split: if_splits)
qed

section \<open>Properties of the search\<close>

text \<open>
  C19: the cycle search returns on every list of dependency pairs, and it returns the empty list
  exactly when the pairs are acyclic: no cycle is missed and none is invented.
\<close>

theorem find_cycle_complete:
  "find_cycle es \<noteq> None \<and> (find_cycle es = Some [] \<longleftrightarrow> acyclic (set es))"
  using find_cycle_result [of es] is_cycle_trancl [of "set es"]
  by (auto simp: acyclic_def is_cycle_def split: if_splits)

text \<open>
  What the cycle search reports is a simple cycle of the given pairs: it starts and ends with
  the same node, repeats no other, and each step is one of the pairs.
\<close>

theorem find_cycle_sound:
  assumes "find_cycle es = Some c" "c \<noteq> []"
  shows "is_cycle (set es) c"
  using find_cycle_result [of es] assms by simp

theorem find_cycle_sound_witness:
  "is_cycle {(''a'', ''b''), (''b'', ''c''), (''c'', ''b'')} [''b'', ''c'', ''b'']"
proof -
  have "find_cycle [(''a'', ''b''), (''b'', ''c''), (''c'', ''b'')] = Some [''b'', ''c'', ''b'']"
    by code_simp
  from find_cycle_sound [OF this] show ?thesis by simp
qed

section \<open>No deadlock\<close>

lemma blocking_pairs_of_member:
  assumes "(t, k) \<in> set (blocking_pairs_of key m nodes vs)"
  shows "k = key \<and> has_key nodes t \<and>
    (\<exists>e\<in>set (active_depends m vs). t = edge_target e \<and> \<not> edge_target_satisfied e nodes vs)"
  using assms unfolding blocking_pairs_of_def Let_def filter_active_depends
  by (auto simp: group_by_iff list_ex_iff split: if_splits)

lemma node_manifests_iff: "(k, m) \<in> set (node_manifests ns) \<longleftrightarrow> (k, PDict m) \<in> set ns"
  by (force simp: node_manifests_def split: pyval.splits)

lemma merged_target_satisfied:
  assumes "map_of ns (edge_target e) = Some (PDict tm)" "canonical_lifecycle tm = ''merged_into_subsystem_tree''"
    and "required_state e \<in> set LIFECYCLE_STATES"
  shows "edge_target_satisfied e ns vs"
proof -
  have "tm \<noteq> []"
    using assms(2) by (auto simp: canonical_lifecycle_def py_get_def legacy_state_def LEGACY_ACTIVE_STATES_def
        LIFECYCLE_STATES_def)
  moreover have "''merged_into_subsystem_tree'' \<in> set LIFECYCLE_STATES" by (simp add: LIFECYCLE_STATES_def)
  ultimately show ?thesis
    using assms lifecycle_rank_bound
    by (simp add: edge_target_satisfied_def resolve_node_def manifest_reaches_def Let_def)
qed

definition unmerged :: "nodes \<Rightarrow> string set" where
  "unmerged ns = {k. \<exists>m. map_of ns k = Some (PDict m) \<and> canonical_lifecycle m \<noteq> ''merged_into_subsystem_tree''}"

text \<open>Networks whose depends edges name node keys and wait for lifecycle states.\<close>

definition lifecycle_network :: "nodes \<Rightarrow> bool" where
  "lifecycle_network ns \<longleftrightarrow>
     distinct (map fst ns) \<and> list_all (\<lambda>(k, v). as_dict v \<noteq> None) ns \<and>
     list_all (\<lambda>(k, m). list_all (\<lambda>e. is_depends e \<longrightarrow>
        has_key ns (edge_target e) \<and> required_state e \<in> set LIFECYCLE_STATES) (manifest_edges m)) (node_manifests ns)"

lemma lifecycle_network_node:
  assumes "lifecycle_network ns" "has_key ns k"
  obtains m where "map_of ns k = Some (PDict m)"
proof -
  obtain v where v: "map_of ns k = Some v" using assms(2) by (auto simp: has_key_iff)
  then have "as_dict v \<noteq> None"
    using assms(1) map_of_SomeD [OF v] by (auto simp: lifecycle_network_def list_all_iff)
  with v that show ?thesis by auto
qed

lemma unblocked_when_minimal:
  assumes net: "lifecycle_network ns" and k: "map_of ns k = Some (PDict m)"
    and min: "\<And>t. (t, k) \<in> set (fst (blocking_dependency_pairs ns vs)) \<Longrightarrow> t \<notin> unmerged ns"
  shows "edges_satisfied (active_depends m vs) ns vs"
proof -
  have km: "(k, m) \<in> set (node_manifests ns)" using k by (simp add: node_manifests_iff map_of_SomeD)
  have dep: "has_key ns (edge_target e)" "required_state e \<in> set LIFECYCLE_STATES"
    if "e \<in> set (active_depends m vs)" for e
    using net km that by (auto simp: lifecycle_network_def list_all_iff active_depends_def)
  have "blocking_pairs_of k m ns vs = []"
  proof (rule ccontr)
    assume "blocking_pairs_of k m ns vs \<noteq> []"
    then obtain t k' where tk: "(t, k') \<in> set (blocking_pairs_of k m ns vs)" by (metis list.set_intros(1) neq_Nil_conv surj_pair)
    from blocking_pairs_of_member [OF tk] obtain e where e: "k' = k" "e \<in> set (active_depends m vs)" "t = edge_target e"
      "\<not> edge_target_satisfied e ns vs" by blast
    obtain tm where tm: "map_of ns t = Some (PDict tm)"
      using lifecycle_network_node [OF net] dep(1) [OF e(2)] e(3) by blast
    have "t \<in> unmerged ns"
      using merged_target_satisfied tm e dep(2) [OF e(2)] by (auto simp: unmerged_def)
    moreover have "(t, k) \<in> set (fst (blocking_dependency_pairs ns vs))"
      using tk km e(1) by (force simp: blocking_dependency_pairs_def)
    ultimately show False using min by blast
  qed
  then show ?thesis
    using blocking_pairs_of_empty_iff [of m vs ns k] dep(1) by simp
qed

text \<open>
  C1: no deadlock: in a network whose depends edges name node keys and wait for lifecycle states,
  when the instant-cycle check reports no cycle and some node is not merged yet, some
  unmerged node is eligible. The check is what keeps the work moving.
\<close>

theorem work_remains_eligible:
  assumes "lifecycle_network (g_nodes g)"
    and "instant_cycle (g_nodes g) (gate_state g vs) = Some []"
    and "unmerged (g_nodes g) \<noteq> {}"
  shows "\<exists>k\<in>unmerged (g_nodes g). eligible k vs g"
proof -
  let ?E = "set (fst (blocking_dependency_pairs (g_nodes g) (gate_state g vs)))"
  have "acyclic ?E"
    using find_cycle_result [of "fst (blocking_dependency_pairs (g_nodes g) (gate_state g vs))"] assms(2)
    by (auto simp: instant_cycle_def split: if_splits)
  then have "wf ?E" by (simp add: finite_acyclic_wf)
  then obtain k where k: "k \<in> unmerged (g_nodes g)" "\<And>t. (t, k) \<in> ?E \<Longrightarrow> t \<notin> unmerged (g_nodes g)"
    using assms(3) by (metis wf_eq_minimal ex_in_conv)
  then obtain m where m: "map_of (g_nodes g) k = Some (PDict m)" by (auto simp: unmerged_def)
  have "eligible k vs g"
    using unblocked_when_minimal [OF assms(1) m k(2)] by (simp add: eligible_iff [OF m])
  with k(1) show ?thesis by blast
qed

theorem work_remains_eligible_witness:
  "\<exists>k\<in>unmerged (g_nodes (chain_graph ''active'')). eligible k Map.empty (chain_graph ''active'')"
proof (rule work_remains_eligible)
  show "lifecycle_network (g_nodes (chain_graph ''active''))" by code_simp
  show "instant_cycle (g_nodes (chain_graph ''active'')) (gate_state (chain_graph ''active'') Map.empty) = Some []"
    by code_simp
  have "''b'' \<in> unmerged (g_nodes (chain_graph ''active''))"
    by (simp add: unmerged_def chain_graph_b) code_simp
  then show "unmerged (g_nodes (chain_graph ''active'')) \<noteq> {}" by blast
qed

text \<open>
  The check misses deadlocks through serial ids: two nodes that depend on each other by serial
  id pass the edge validation, and the instant-cycle check calls the network well founded in
  every check state, because only targets that are node keys are collected; yet neither
  node can ever be eligible.
\<close>

theorem serial_cycle_called_well_founded:
  "map (\<lambda>(k, v). validate_manifest_edges k (the (as_dict v)) serial_cycle_nodes {''a'', ''b''} {''S1'', ''S2''} Map.empty False)
      serial_cycle_nodes = [([], []), ([], [])] \<and>
   instant_cycle serial_cycle_nodes vs = Some [] \<and>
   \<not> eligible ''a'' vs \<lparr>g_nodes = serial_cycle_nodes, g_registry = []\<rparr> \<and>
   \<not> eligible ''b'' vs \<lparr>g_nodes = serial_cycle_nodes, g_registry = []\<rparr>"
proof (intro conjI)
  show "map (\<lambda>(k, v). validate_manifest_edges k (the (as_dict v)) serial_cycle_nodes {''a'', ''b''} {''S1'', ''S2''} Map.empty False)
      serial_cycle_nodes = [([], []), ([], [])]"
    by code_simp
  show "instant_cycle serial_cycle_nodes vs = Some []" by code_simp
  show "\<not> eligible ''a'' vs \<lparr>g_nodes = serial_cycle_nodes, g_registry = []\<rparr>" by code_simp
  show "\<not> eligible ''b'' vs \<lparr>g_nodes = serial_cycle_nodes, g_registry = []\<rparr>" by code_simp
qed

end
