(* ===== verification/DepOrder.thy ===== *)
theory DepOrder
  imports DepCycle
begin

text \<open>
  Dependency order in \<open>src/ai_org/patchwork_queue/patch_series_gate.py\<close>: the ready-list loop that
  \<open>topological_order\<close>, \<open>_topological_children\<close> and \<open>_child_depths\<close> share, and the longest
  dependency path \<open>critical_path\<close>. The loop is a \<open>while_option\<close> over the pending counts,
  the sorted ready list, the order so far and an accumulator that each relaxed pair updates.
\<close>

section \<open>The ready-list loop\<close>

definition guarded_pairs :: "string list \<Rightarrow> dep_pairs \<Rightarrow> dep_pairs" where
  "guarded_pairs keys pairs = filter (\<lambda>(p, d). p \<in> set keys \<and> d \<in> set keys) pairs"

definition pending_counts :: "dep_pairs \<Rightarrow> string \<Rightarrow> int" where
  "pending_counts pairs = foldl (\<lambda>inc (p, d). inc(d := inc d + 1)) (\<lambda>_. 0) pairs"

definition outgoing_lists :: "dep_pairs \<Rightarrow> string \<Rightarrow> string list" where
  "outgoing_lists pairs = foldl (\<lambda>out (p, d). out(p := out p @ [d])) (\<lambda>_. []) pairs"

record 'a kahn =
  k_incoming :: "string \<Rightarrow> int"
  k_ready :: "string list"
  k_ordered :: "string list"
  k_acc :: 'a

fun relax :: "(string \<Rightarrow> 'a \<Rightarrow> 'a) \<Rightarrow> string list \<Rightarrow> 'a kahn \<Rightarrow> 'a kahn" where
  "relax upd [] s = s"
| "relax upd (d # ds) s =
     (let n = k_incoming s d - 1;
          s1 = s\<lparr>k_incoming := (k_incoming s)(d := n), k_acc := upd d (k_acc s)\<rparr>
      in relax upd ds (if n = 0 then s1\<lparr>k_ready := sort (k_ready s1 @ [d])\<rparr> else s1))"

definition kahn_step :: "(string \<Rightarrow> string \<Rightarrow> 'a \<Rightarrow> 'a) \<Rightarrow> (string \<Rightarrow> string list) \<Rightarrow> 'a kahn \<Rightarrow> 'a kahn" where
  "kahn_step upd out s =
     (case k_ready s of
        [] \<Rightarrow> s
      | key # rest \<Rightarrow>
          relax (upd key) (sort (out key)) (s\<lparr>k_ready := rest, k_ordered := k_ordered s @ [key]\<rparr>))"

definition kahn_start :: "string list \<Rightarrow> dep_pairs \<Rightarrow> 'a \<Rightarrow> 'a kahn" where
  "kahn_start keys pairs a =
     (let inc = pending_counts pairs in
      \<lparr>k_incoming = inc, k_ready = sort (filter (\<lambda>k. inc k = 0) keys), k_ordered = [], k_acc = a\<rparr>)"

definition kahn_run ::
  "(string \<Rightarrow> string \<Rightarrow> 'a \<Rightarrow> 'a) \<Rightarrow> string list \<Rightarrow> dep_pairs \<Rightarrow> 'a \<Rightarrow> 'a kahn option" where
  "kahn_run upd keys pairs a =
     while_option (\<lambda>s. k_ready s \<noteq> []) (kahn_step upd (outgoing_lists pairs)) (kahn_start keys pairs a)"

definition topological_order :: "gate_graph \<Rightarrow> check_values \<Rightarrow> string list option" where
  "topological_order g vs =
     (let keys = map fst (g_nodes g);
          pairs = guarded_pairs keys (active_dependency_pairs (g_nodes g) (gate_state g vs))
      in map_option k_ordered (kahn_run (\<lambda>_ _ a. a) keys pairs ()))"

section \<open>Children of a split\<close>

text \<open>
  The children are the raw objects of a split; \<open>child_key\<close> is \<open>str(child.get("child_key", ""))\<close>.
  \<open>_child_depths\<close> and \<open>_topological_children\<close> index by \<open>child["child_key"]\<close>, which is modelled
  for children that hold a string there; \<open>None\<close> stands for the exception otherwise.
\<close>

definition child_key :: "pydict \<Rightarrow> string" where
  "child_key c = py_str (py_get_default c ''child_key'' (PStr []))"

definition depends_edges :: "pydict \<Rightarrow> pydict list" where
  "depends_edges child =
     (case py_get_default child ''edges'' (PList []) of
        PList xs \<Rightarrow> concat (map (\<lambda>x. case as_dict x of
            Some e \<Rightarrow> (if py_get e ''type'' = PStr ''depends'' then [e] else [])
          | None \<Rightarrow> []) xs)
      | _ \<Rightarrow> [])"

definition mappings :: "pyval list \<Rightarrow> pydict list" where
  "mappings xs = concat (map (\<lambda>x. case as_dict x of Some d \<Rightarrow> [d] | None \<Rightarrow> []) xs)"

datatype dep_error = UnknownChild string string | SelfDependency string

definition dependency_errors :: "pyval list \<Rightarrow> string set \<Rightarrow> dep_error set" where
  "dependency_errors children child_keys =
     set (concat (map (\<lambda>c. concat (map (\<lambda>e.
        let dep = str_or_empty (py_get e ''to'') in
        (if dep \<notin> child_keys then [UnknownChild (child_key c) dep] else []) @
        (if dep = child_key c then [SelfDependency (child_key c)] else [])) (depends_edges c)))
       (mappings children)))"

definition dependency_edges :: "pyval list \<Rightarrow> dep_pairs" where
  "dependency_edges children =
     concat (map (\<lambda>c. concat (map (\<lambda>e.
        let dep = str_or_empty (py_get e ''to'') in if dep \<noteq> [] then [(dep, child_key c)] else [])
        (depends_edges c))) (mappings children))"

fun string_keys :: "pyval list \<Rightarrow> string list option" where
  "string_keys [] = Some []"
| "string_keys (c # cs) =
     (case as_dict c of
        None \<Rightarrow> None
      | Some d \<Rightarrow> (case as_str (py_get d ''child_key'') of
          None \<Rightarrow> None
        | Some k \<Rightarrow> map_option ((#) k) (string_keys cs)))"

definition child_depths :: "pyval list \<Rightarrow> (string \<Rightarrow> nat) option" where
  "child_depths children =
     (case string_keys children of
        None \<Rightarrow> None
      | Some keys \<Rightarrow>
          (let pairs = guarded_pairs keys (dependency_edges children) in
           map_option k_acc
             (kahn_run (\<lambda>key d depths. depths(d := max (depths d) (depths key + 1))) (remdups keys) pairs (\<lambda>_. 0))))"

definition topological_children :: "pyval list \<Rightarrow> string list option" where
  "topological_children children =
     (case string_keys children of
        None \<Rightarrow> None
      | Some keys \<Rightarrow>
          if list_all (\<lambda>(p, d). p \<in> set keys \<and> d \<in> set keys) (dependency_edges children)
          then map_option k_ordered (kahn_run (\<lambda>_ _ a. a) (remdups keys) (dependency_edges children) ())
          else None)"

section \<open>The longest path\<close>

fun max_list :: "'a::linorder list \<Rightarrow> 'a \<Rightarrow> 'a" where
  "max_list [] x = x"
| "max_list (y # ys) x = max_list ys (max x y)"

record best_paths =
  best_len :: "string \<Rightarrow> nat option"
  previous :: "string \<Rightarrow> string option"

definition path_options :: "dep_pairs \<Rightarrow> string \<Rightarrow> best_paths \<Rightarrow> (nat \<times> string) list" where
  "path_options pairs key s =
     map (\<lambda>(p, d). ((case best_len s p of Some n \<Rightarrow> n | None \<Rightarrow> 0) + 1, p)) (filter (\<lambda>(p, d). d = key) pairs)"

definition best_update :: "dep_pairs \<Rightarrow> string \<Rightarrow> best_paths \<Rightarrow> best_paths" where
  "best_update pairs key s =
     (case path_options pairs key s of
        [] \<Rightarrow> s\<lparr>best_len := (best_len s)(key \<mapsto> 1)\<rparr>
      | x # xs \<Rightarrow>
          (let (len, pred) = max_list xs x
           in \<lparr>best_len = (best_len s)(key \<mapsto> len), previous = (previous s)(key \<mapsto> pred)\<rparr>))"

definition best_all :: "dep_pairs \<Rightarrow> string list \<Rightarrow> best_paths" where
  "best_all pairs order =
     foldl (\<lambda>s key. best_update pairs key s) \<lparr>best_len = Map.empty, previous = Map.empty\<rparr> order"

definition walk_back :: "(string \<Rightarrow> string option) \<Rightarrow> string \<Rightarrow> string list option" where
  "walk_back prev end_key =
     map_option (\<lambda>(e, path). rev path)
       (while_option (\<lambda>(e, path). prev e \<noteq> None)
          (\<lambda>(e, path). (the (prev e), path @ [the (prev e)])) (end_key, [end_key]))"

definition critical_path :: "gate_graph \<Rightarrow> check_values \<Rightarrow> string list option" where
  "critical_path g vs =
     (let keys = map fst (g_nodes g);
          pairs = guarded_pairs keys (active_dependency_pairs (g_nodes g) (gate_state g vs))
      in case topological_order g vs of
           None \<Rightarrow> None
         | Some order \<Rightarrow>
             if length order \<noteq> length (g_nodes g) then Some []
             else (case order of
               [] \<Rightarrow> Some []
             | k # ks \<Rightarrow>
                 (let s = best_all pairs order;
                      score = (\<lambda>k. (the (best_len s k), k))
                  in walk_back (previous s) (snd (max_list (map score ks) (score k))))))"

section \<open>The loop is a topological sort\<close>

lemma pending_counts_eq: "pending_counts pairs d = int (length (filter (\<lambda>(p, d'). d' = d) pairs))"
  by (induction pairs rule: rev_induct) (auto simp: pending_counts_def)

lemma outgoing_lists_eq: "outgoing_lists pairs p = map snd (filter (\<lambda>(p', d). p' = p) pairs)"
  by (induction pairs rule: rev_induct) (auto simp: outgoing_lists_def)

lemma relax_result:
  assumes "\<And>d. int (count_list ds d) \<le> k_incoming s d" "distinct (k_ready s)" "set (k_ready s) \<inter> set ds = {}"
  shows "k_incoming (relax upd ds s) = (\<lambda>d. k_incoming s d - int (count_list ds d)) \<and>
    distinct (k_ready (relax upd ds s)) \<and>
    set (k_ready (relax upd ds s)) = set (k_ready s) \<union> {d \<in> set ds. k_incoming s d = int (count_list ds d)} \<and>
    k_ordered (relax upd ds s) = k_ordered s \<and>
    k_acc (relax upd ds s) = fold upd ds (k_acc s)"
  using assms
proof (induction upd ds s rule: relax.induct)
  case (2 upd d ds s)
  define n where "n = k_incoming s d - 1"
  define s1 where "s1 = s\<lparr>k_incoming := (k_incoming s)(d := n), k_acc := upd d (k_acc s)\<rparr>"
  define s2 where "s2 = (if n = 0 then s1\<lparr>k_ready := sort (k_ready s1 @ [d])\<rparr> else s1)"
  have step: "relax upd (d # ds) s = relax upd ds s2"
    by (simp add: Let_def n_def s1_def s2_def)
  have inc2: "k_incoming s2 = (k_incoming s)(d := n)" "k_acc s2 = upd d (k_acc s)" "k_ordered s2 = k_ordered s"
    and ready2: "set (k_ready s2) = (if n = 0 then insert d (set (k_ready s)) else set (k_ready s))"
    by (simp_all add: s1_def s2_def)
  have le: "int (count_list ds d') \<le> k_incoming s2 d'" for d'
    using "2.prems"(1) [of d'] by (auto simp: inc2 n_def split: if_splits)
  have zero: "n = 0 \<Longrightarrow> d \<notin> set ds"
    using le [of d] by (simp add: inc2 count_list_0_iff)
  have "distinct (k_ready s2)" "set (k_ready s2) \<inter> set ds = {}"
    using "2.prems"(2,3) zero by (auto simp: s2_def s1_def)
  note IH = "2.IH" [OF n_def s1_def, folded s2_def, OF le this]
  show ?case
    unfolding step using IH zero
    by (auto simp: inc2 ready2 n_def fun_eq_iff split: if_splits)
qed simp

definition kahn_inv :: "string list \<Rightarrow> dep_pairs \<Rightarrow> 'a kahn \<Rightarrow> bool" where
  "kahn_inv keys pairs s \<longleftrightarrow>
     k_incoming s = (\<lambda>d. int (length (filter (\<lambda>(p, d'). d' = d \<and> p \<notin> set (k_ordered s)) pairs))) \<and>
     distinct (k_ordered s) \<and> set (k_ordered s) \<subseteq> set keys \<and>
     distinct (k_ready s) \<and>
     set (k_ready s) = {k \<in> set keys. k_incoming s k = 0} - set (k_ordered s) \<and>
     (\<forall>i<length (k_ordered s). \<forall>p. (p, k_ordered s ! i) \<in> set pairs \<longrightarrow> p \<in> set (take i (k_ordered s)))"

lemma count_list_outgoing:
  "count_list (map snd (filter (\<lambda>(p', d). p' = p) pairs)) d = length (filter (\<lambda>(p', d'). d' = d \<and> p' = p) pairs)"
  by (induction pairs) auto

lemma count_list_sort [simp]: "count_list (sort xs) x = count_list xs x"
  for xs :: "'a::linorder list"
  by (metis count_mset mset_sort)

lemma filter_length_split:
  "length (filter (\<lambda>x. P x \<and> \<not> Q x) xs) + length (filter (\<lambda>x. P x \<and> Q x) xs) = length (filter P xs)"
  by (induction xs) auto

lemma pending_after:
  assumes "key \<notin> done"
  shows "length (filter (\<lambda>(p, d'). d' = d \<and> p \<notin> insert key done) pairs) +
    length (filter (\<lambda>(p, d'). d' = d \<and> p = key) pairs) =
    length (filter (\<lambda>(p, d'). d' = d \<and> p \<notin> done) pairs)"
  using assms by (induction pairs) auto

lemma kahn_successor_new:
  assumes inv: "kahn_inv keys pairs s" and r: "k_ready s = key # rest" and e: "(key, d) \<in> set pairs"
  shows "d \<notin> set (k_ordered s) \<and> d \<noteq> key"
proof -
  have key: "k_incoming s key = 0" "key \<notin> set (k_ordered s)" using inv r by (auto simp: kahn_inv_def)
  have "d \<notin> set (k_ordered s)"
  proof
    assume "d \<in> set (k_ordered s)"
    then obtain i where "i < length (k_ordered s)" "d = k_ordered s ! i" by (metis in_set_conv_nth)
    with inv e have "key \<in> set (take i (k_ordered s))" by (auto simp: kahn_inv_def)
    with key(2) show False by (meson in_set_takeD)
  qed
  moreover have "d \<noteq> key"
  proof
    assume "d = key"
    then have "(key, key) \<in> set (filter (\<lambda>(p, d'). d' = key \<and> p \<notin> set (k_ordered s)) pairs)" using e key(2) by simp
    moreover have "length (filter (\<lambda>(p, d'). d' = key \<and> p \<notin> set (k_ordered s)) pairs) = 0"
      using inv key(1) by (simp add: kahn_inv_def)
    ultimately show False by (simp only: length_0_conv) simp
  qed
  ultimately show ?thesis by blast
qed

lemma kahn_step_inv:
  assumes inv: "kahn_inv keys pairs s" and ne: "k_ready s \<noteq> []"
    and sub: "set pairs \<subseteq> set keys \<times> set keys"
  shows "kahn_inv keys pairs (kahn_step upd (outgoing_lists pairs) s) \<and>
    k_ordered (kahn_step upd (outgoing_lists pairs) s) = k_ordered s @ [hd (k_ready s)] \<and>
    k_acc (kahn_step upd (outgoing_lists pairs) s) =
      fold (upd (hd (k_ready s))) (sort (outgoing_lists pairs (hd (k_ready s)))) (k_acc s)"
proof -
  obtain key rest where r: "k_ready s = key # rest" using ne by (cases "k_ready s") auto
  let ?out = "sort (outgoing_lists pairs key)"
  let ?s1 = "s\<lparr>k_ready := rest, k_ordered := k_ordered s @ [key]\<rparr>"
  let ?t = "relax (upd key) ?out ?s1"
  have key: "key \<in> set keys" "k_incoming s key = 0" "key \<notin> set (k_ordered s)" "key \<notin> set rest"
    using inv r by (auto simp: kahn_inv_def)
  have cnt: "count_list ?out d = length (filter (\<lambda>(p, d'). d' = d \<and> p = key) pairs)" for d
    by (simp add: outgoing_lists_eq count_list_outgoing)
  have inc: "k_incoming s d = int (length (filter (\<lambda>(p, d'). d' = d \<and> p \<notin> set (k_ordered s)) pairs))" for d
    using inv by (simp add: kahn_inv_def)
  have split: "k_incoming s d = int (length (filter (\<lambda>(p, d'). d' = d \<and> p \<notin> insert key (set (k_ordered s))) pairs)) +
      int (count_list ?out d)" for d
    unfolding inc cnt using pending_after [OF key(3), of d pairs] by simp
  have out_keys: "set ?out \<subseteq> set keys" using sub by (auto simp: outgoing_lists_eq)
  have pos: "d \<in> set ?out \<Longrightarrow> 0 < count_list ?out d" for d
    by (metis count_list_0_iff neq0_conv)
  have disj: "set rest \<inter> set ?out = {}"
  proof -
    have "k_incoming s d = 0" if "d \<in> set rest" for d using inv r that by (auto simp: kahn_inv_def)
    then show ?thesis using split pos by fastforce
  qed
  have "int (count_list ?out d) \<le> k_incoming ?s1 d" for d using split [of d] by simp
  from relax_result [OF this, of "upd key"] disj inv r
  have res: "k_incoming ?t = (\<lambda>d. k_incoming s d - int (count_list ?out d))" "distinct (k_ready ?t)"
    "set (k_ready ?t) = set rest \<union> {d \<in> set ?out. k_incoming s d = int (count_list ?out d)}"
    "k_ordered ?t = k_ordered s @ [key]" "k_acc ?t = fold (upd key) ?out (k_acc s)"
    by (auto simp: kahn_inv_def)
  have step: "kahn_step upd (outgoing_lists pairs) s = ?t" by (simp add: kahn_step_def r)
  have inc': "k_incoming ?t d = int (length (filter (\<lambda>(p, d'). d' = d \<and> p \<notin> insert key (set (k_ordered s))) pairs))" for d
    unfolding res(1) split by simp
  have ready: "set (k_ready ?t) = {k \<in> set keys. k_incoming ?t k = 0} - set (k_ordered ?t)"
  proof -
    have old: "set (key # rest) = {k \<in> set keys. k_incoming s k = 0} - set (k_ordered s)"
      using inv r by (simp add: kahn_inv_def)
    have out_new: "d \<notin> set (k_ordered s) \<and> d \<noteq> key" if "d \<in> set ?out" for d
      using kahn_successor_new [OF inv r] that by (auto simp: outgoing_lists_eq)
    show ?thesis
    proof (rule set_eqI)
      fix d
      show "d \<in> set (k_ready ?t) \<longleftrightarrow> d \<in> {k \<in> set keys. k_incoming ?t k = 0} - set (k_ordered ?t)"
      proof (cases "d \<in> set ?out")
        case True
        with disj have "d \<notin> set rest" by blast
        with True out_new [OF True] out_keys show ?thesis by (auto simp: res(1,3,4))
      next
        case False
        then have "count_list ?out d = 0" by (simp add: count_list_0_iff)
        then have t: "k_incoming ?t d = k_incoming s d" by (simp add: res(1))
        have "d \<in> set (key # rest) \<longleftrightarrow> d \<in> set keys \<and> k_incoming s d = 0 \<and> d \<notin> set (k_ordered s)"
          unfolding old by blast
        with False key(4) show ?thesis unfolding res(3,4) using t by auto
      qed
    qed
  qed
  have "kahn_inv keys pairs ?t"
    unfolding kahn_inv_def
  proof (intro conjI)
    show "k_incoming ?t = (\<lambda>d. int (length (filter (\<lambda>(p, d'). d' = d \<and> p \<notin> set (k_ordered ?t)) pairs)))"
      using inc' by (auto simp: res(4))
    show "\<forall>i<length (k_ordered ?t). \<forall>p. (p, k_ordered ?t ! i) \<in> set pairs \<longrightarrow> p \<in> set (take i (k_ordered ?t))"
    proof (intro allI impI)
      fix i p
      assume i: "i < length (k_ordered ?t)" and e: "(p, k_ordered ?t ! i) \<in> set pairs"
      show "p \<in> set (take i (k_ordered ?t))"
      proof (cases "i < length (k_ordered s)")
        case True
        then show ?thesis using inv e by (auto simp: res(4) kahn_inv_def nth_append)
      next
        case False
        then have "(p, key) \<in> set pairs" "i = length (k_ordered s)" using i e by (auto simp: res(4) nth_append)
        moreover have "filter (\<lambda>(p, d'). d' = key \<and> p \<notin> set (k_ordered s)) pairs = []"
          using key(2) inc [of key] by simp
        ultimately show ?thesis by (auto simp: res(4) filter_empty_conv)
      qed
    qed
  qed (use inv key res ready in \<open>auto simp: kahn_inv_def\<close>)
  then show ?thesis using step res r by simp
qed

definition order_respects :: "('a \<times> 'a) set \<Rightarrow> 'a list \<Rightarrow> bool" where
  "order_respects E ord \<longleftrightarrow> (\<forall>i<length ord. \<forall>p. (p, ord ! i) \<in> E \<longrightarrow> p \<in> set (take i ord))"

lemma list_index_nth: "distinct xs \<Longrightarrow> i < length xs \<Longrightarrow> list_index xs (xs ! i) = i"
  by (induction xs arbitrary: i) (auto simp: nth_Cons split: nat.split)

lemma list_index_take: "x \<in> set (take i xs) \<Longrightarrow> list_index xs x < i"
proof (induction xs arbitrary: i)
  case (Cons y xs)
  then show ?case by (cases i) auto
qed simp

lemma order_respects_acyclic:
  assumes "order_respects E ord" "distinct ord" "snd ` E \<subseteq> set ord"
  shows "acyclic E"
proof -
  have "E \<subseteq> measure (list_index ord)"
  proof
    fix e
    assume "e \<in> E"
    obtain p d where e: "e = (p, d)" by fastforce
    with \<open>e \<in> E\<close> assms(3) have "d \<in> set ord" by force
    then obtain i where i: "i < length ord" "d = ord ! i" by (metis in_set_conv_nth)
    then have "p \<in> set (take i ord)" using assms(1) \<open>e \<in> E\<close> e by (auto simp: order_respects_def)
    then show "e \<in> measure (list_index ord)"
      using list_index_take list_index_nth [OF assms(2) i(1)] i(2) e by fastforce
  qed
  then show ?thesis using acyclic_subset wf_acyclic wf_measure by blast
qed

lemma kahn_start_inv:
  assumes "distinct keys"
  shows "kahn_inv keys pairs (kahn_start keys pairs a)"
  using assms by (auto simp: kahn_inv_def kahn_start_def Let_def pending_counts_eq fun_eq_iff)

lemma kahn_run_result:
  assumes "distinct keys" "set pairs \<subseteq> set keys \<times> set keys"
    and "I (kahn_start keys pairs a)"
    and "\<And>s. kahn_inv keys pairs s \<Longrightarrow> I s \<Longrightarrow> k_ready s \<noteq> [] \<Longrightarrow> I (kahn_step upd (outgoing_lists pairs) s)"
  shows "\<exists>t. kahn_run upd keys pairs a = Some t \<and> kahn_inv keys pairs t \<and> k_ready t = [] \<and> I t"
proof -
  let ?P = "\<lambda>s. kahn_inv keys pairs s \<and> I s" and ?f = "\<lambda>s. card (set keys) - length (k_ordered s)"
  have start: "?P (kahn_start keys pairs a)" using kahn_start_inv [OF assms(1), of pairs a] assms(3) by blast
  have step: "?P (kahn_step upd (outgoing_lists pairs) s) \<and> ?f (kahn_step upd (outgoing_lists pairs) s) < ?f s"
    if P: "?P s" "k_ready s \<noteq> []" for s
  proof -
    note st = kahn_step_inv [OF conjunct1 [OF P(1)] P(2) assms(2), of upd]
    then have "distinct (k_ordered s @ [hd (k_ready s)])" "set (k_ordered s @ [hd (k_ready s)]) \<subseteq> set keys"
      by (auto simp: kahn_inv_def)
    then have "length (k_ordered s @ [hd (k_ready s)]) \<le> card (set keys)"
      by (metis List.finite_set card_mono distinct_card)
    with st P assms(4) show ?thesis by simp
  qed
  obtain t where t: "kahn_run upd keys pairs a = Some t"
    unfolding kahn_run_def
    using measure_while_option_Some [where P = ?P and f = ?f and b = "\<lambda>s. k_ready s \<noteq> []"
        and c = "kahn_step upd (outgoing_lists pairs)", OF step start] by blast
  have "?P t"
    by (rule while_option_rule [where P = ?P, OF _ t [unfolded kahn_run_def] start]) (use step in blast)
  with while_option_stop [OF t [unfolded kahn_run_def]] t show ?thesis by blast
qed

lemma kahn_final:
  assumes inv: "kahn_inv keys pairs t" and stop: "k_ready t = []" and sub: "set pairs \<subseteq> set keys \<times> set keys"
  shows "order_respects (set pairs) (k_ordered t)" "distinct (k_ordered t)" "set (k_ordered t) \<subseteq> set keys"
    "set (k_ordered t) = set keys \<longleftrightarrow> acyclic (set pairs)"
proof -
  show resp: "order_respects (set pairs) (k_ordered t)" and dist: "distinct (k_ordered t)" and "set (k_ordered t) \<subseteq> set keys"
    using inv by (auto simp: kahn_inv_def order_respects_def)
  show "set (k_ordered t) = set keys \<longleftrightarrow> acyclic (set pairs)"
  proof
    assume "set (k_ordered t) = set keys"
    then show "acyclic (set pairs)"
      using order_respects_acyclic [OF resp dist] sub by force
  next
    assume "acyclic (set pairs)"
    then have wf: "wf (set pairs)" by (simp add: finite_acyclic_wf)
    show "set (k_ordered t) = set keys"
    proof (rule ccontr)
      assume "set (k_ordered t) \<noteq> set keys"
      then have "set keys - set (k_ordered t) \<noteq> {}" using inv by (auto simp: kahn_inv_def)
      then obtain k where k: "k \<in> set keys - set (k_ordered t)" "\<And>p. (p, k) \<in> set pairs \<Longrightarrow> p \<notin> set keys - set (k_ordered t)"
        using wf by (metis wf_eq_minimal ex_in_conv)
      have "k_incoming t k \<noteq> 0" using inv stop k(1) by (auto simp: kahn_inv_def)
      then have "filter (\<lambda>(p, d'). d' = k \<and> p \<notin> set (k_ordered t)) pairs \<noteq> []"
        using inv by (auto simp: kahn_inv_def)
      then obtain p where "(p, k) \<in> set pairs" "p \<notin> set (k_ordered t)" by (auto simp: filter_empty_conv)
      with k(2) sub show False by auto
    qed
  qed
qed

lemma guarded_pairs_sub: "set (guarded_pairs keys pairs) \<subseteq> set keys \<times> set keys"
  by (auto simp: guarded_pairs_def)

text \<open>The active dependency relation of a graph.\<close>

definition active_dependency :: "gate_graph \<Rightarrow> check_values \<Rightarrow> (string \<times> string) set" where
  "active_dependency g vs =
     set (guarded_pairs (map fst (g_nodes g)) (active_dependency_pairs (g_nodes g) (gate_state g vs)))"

lemma topological_order_result:
  assumes "distinct (map fst (g_nodes g))"
  shows "\<exists>ord. topological_order g vs = Some ord \<and> distinct ord \<and> set ord \<subseteq> fst ` set (g_nodes g) \<and>
    order_respects (active_dependency g vs) ord \<and>
    (set ord = fst ` set (g_nodes g) \<longleftrightarrow> acyclic (active_dependency g vs))"
proof -
  let ?keys = "map fst (g_nodes g)" and ?pairs = "guarded_pairs (map fst (g_nodes g)) (active_dependency_pairs (g_nodes g) (gate_state g vs))"
  obtain t where t: "kahn_run (\<lambda>_ _ a. a) ?keys ?pairs () = Some t" "kahn_inv ?keys ?pairs t" "k_ready t = []"
    using kahn_run_result [OF assms guarded_pairs_sub, where I = "\<lambda>_. True" and a = "()" and upd = "\<lambda>_ _ a. a"]
    by blast
  show ?thesis
    using t(1) kahn_final [OF t(2,3) guarded_pairs_sub]
    by (auto simp: topological_order_def Let_def active_dependency_def)
qed

text \<open>
  C25: \<open>topological_order\<close> returns, and returns distinct node keys in which every node comes after
  all the prerequisites of its active depends edges; the order holds every node exactly
  when the active dependencies are acyclic.
\<close>

theorem topological_order_correct:
  assumes "distinct (map fst (g_nodes g))"
  shows "\<exists>ord. topological_order g vs = Some ord \<and> distinct ord \<and> set ord \<subseteq> fst ` set (g_nodes g) \<and>
    order_respects (active_dependency g vs) ord \<and>
    (set ord = fst ` set (g_nodes g) \<longleftrightarrow> acyclic (active_dependency g vs))"
  by (rule topological_order_result [OF assms])

theorem topological_order_correct_witness:
  "topological_order (chain_graph ''active'') Map.empty = Some [''a'', ''b''] \<and>
   acyclic (active_dependency (chain_graph ''active'') Map.empty)"
proof -
  have "distinct (map fst (g_nodes (chain_graph ''active'')))" by (simp add: chain_graph_def)
  moreover have t: "topological_order (chain_graph ''active'') Map.empty = Some [''a'', ''b'']" by code_simp
  ultimately show ?thesis
    using topological_order_correct [of "chain_graph ''active''" Map.empty] by (auto simp: chain_graph_def)
qed

section \<open>Depths\<close>

definition depth_update :: "string \<Rightarrow> string \<Rightarrow> (string \<Rightarrow> nat) \<Rightarrow> string \<Rightarrow> nat" where
  "depth_update key d depths = depths(d := max (depths d) (depths key + 1))"

lemma fold_depth_update:
  "key \<notin> set ds \<Longrightarrow> fold (depth_update key) ds D = (\<lambda>d. if d \<in> set ds then max (D d) (D key + 1) else D d)"
  by (induction ds arbitrary: D) (auto simp: depth_update_def fun_eq_iff)

definition depths_exact :: "(string \<times> string) set \<Rightarrow> string set \<Rightarrow> (string \<Rightarrow> nat) \<Rightarrow> bool" where
  "depths_exact E done D \<longleftrightarrow>
     (\<forall>(p, d)\<in>E. p \<in> done \<longrightarrow> D p < D d) \<and>
     (\<forall>d. D d = 0 \<or> (\<exists>p\<in>done. (p, d) \<in> E \<and> D d = D p + 1))"

lemma depths_step:
  assumes inv: "kahn_inv keys pairs s" and r: "k_ready s \<noteq> []" and sub: "set pairs \<subseteq> set keys \<times> set keys"
    and D: "depths_exact (set pairs) (set (k_ordered s)) (k_acc s)"
  shows "depths_exact (set pairs) (set (k_ordered (kahn_step depth_update (outgoing_lists pairs) s)))
    (k_acc (kahn_step depth_update (outgoing_lists pairs) s))"
proof -
  obtain key rest where kr: "k_ready s = key # rest" using r by (cases "k_ready s") auto
  let ?ds = "sort (outgoing_lists pairs key)" and ?o = "set (k_ordered s)"
  note st = kahn_step_inv [OF inv r sub, of depth_update]
  note new = kahn_successor_new [OF inv kr]
  have ds: "d \<in> set ?ds \<longleftrightarrow> (key, d) \<in> set pairs" for d by (force simp: outgoing_lists_eq)
  have "key \<notin> set ?ds" using new ds by blast
  then have acc: "k_acc (kahn_step depth_update (outgoing_lists pairs) s) =
      (\<lambda>d. if (key, d) \<in> set pairs then max (k_acc s d) (k_acc s key + 1) else k_acc s d)" (is "_ = ?D")
    using st kr ds by (simp add: fold_depth_update)
  have old: "?D p = k_acc s p" if "p \<in> ?o \<or> p = key" for p using new that by auto
  have "depths_exact (set pairs) (insert key ?o) ?D"
    unfolding depths_exact_def
  proof (intro conjI allI ballI, clarify)
    fix p d
    assume e: "(p, d) \<in> set pairs" and p: "p \<in> insert key ?o"
    then have "?D p = k_acc s p" using old by blast
    moreover have "k_acc s p < ?D d"
    proof (cases "p = key")
      case True
      then show ?thesis using e by simp
    next
      case False
      then have "k_acc s p < k_acc s d" using p e D by (auto simp: depths_exact_def)
      then show ?thesis by (simp add: less_max_iff_disj)
    qed
    ultimately show "?D p < ?D d" by simp
  next
    fix d
    show "?D d = 0 \<or> (\<exists>p\<in>insert key ?o. (p, d) \<in> set pairs \<and> ?D d = ?D p + 1)"
    proof (cases "(key, d) \<in> set pairs \<and> k_acc s d < k_acc s key + 1")
      case True
      then have "?D d = k_acc s key + 1" by simp
      moreover have "?D key = k_acc s key" using old by blast
      ultimately show ?thesis using True by (intro disjI2 bexI [of _ key]) simp_all
    next
      case False
      then have "?D d = k_acc s d" by auto
      moreover have "k_acc s d = 0 \<or> (\<exists>p\<in>?o. (p, d) \<in> set pairs \<and> k_acc s d = k_acc s p + 1)"
        using D by (simp add: depths_exact_def)
      ultimately show ?thesis
      proof (elim disjE bexE conjE)
        fix p assume "p \<in> ?o" "(p, d) \<in> set pairs" "k_acc s d = k_acc s p + 1"
        with \<open>?D d = k_acc s d\<close> old [of p] show ?thesis by (intro disjI2 bexI [of _ p]) simp_all
      qed simp
    qed
  qed
  with st kr acc show ?thesis by simp
qed

lemma child_depths_eq:
  "child_depths children = (case string_keys children of None \<Rightarrow> None
    | Some keys \<Rightarrow> map_option k_acc (kahn_run depth_update (remdups keys) (guarded_pairs keys (dependency_edges children)) (\<lambda>_. 0)))"
proof -
  have "(\<lambda>key d (depths :: string \<Rightarrow> nat). depths(d := max (depths d) (depths key + 1))) = depth_update"
    by (auto simp: depth_update_def fun_eq_iff)
  then show ?thesis by (simp add: child_depths_def Let_def split: option.split)
qed

text \<open>
  On children whose dependencies are acyclic, the computed depths are the levels of the
  dependency graph: a child lies above each of its prerequisites, and exactly one level
  above some prerequisite unless it has depth 0.
\<close>

theorem child_depths_levels:
  assumes "string_keys children = Some keys"
    and "acyclic (set (guarded_pairs keys (dependency_edges children)))"
  shows "\<exists>D. child_depths children = Some D \<and>
    (\<forall>(p, d)\<in>set (guarded_pairs keys (dependency_edges children)). D p < D d) \<and>
    (\<forall>d. D d = 0 \<or> (\<exists>p. (p, d) \<in> set (guarded_pairs keys (dependency_edges children)) \<and> D d = D p + 1))"
proof -
  let ?pairs = "guarded_pairs keys (dependency_edges children)"
  have sub: "set ?pairs \<subseteq> set (remdups keys) \<times> set (remdups keys)" using guarded_pairs_sub [of keys] by simp
  let ?I = "\<lambda>s. depths_exact (set ?pairs) (set (k_ordered s)) (k_acc s)"
  have start: "?I (kahn_start (remdups keys) ?pairs (\<lambda>_. 0))"
    by (auto simp: depths_exact_def kahn_start_def Let_def)
  have step: "?I (kahn_step depth_update (outgoing_lists ?pairs) s)"
    if "kahn_inv (remdups keys) ?pairs s" "?I s" "k_ready s \<noteq> []" for s
    using depths_step [OF that(1,3) sub that(2)] .
  obtain t where t: "kahn_run depth_update (remdups keys) ?pairs (\<lambda>_. 0) = Some t"
    "kahn_inv (remdups keys) ?pairs t" "k_ready t = []" "?I t"
    using kahn_run_result [where I = ?I and upd = depth_update, OF distinct_remdups sub start step] by blast
  have "set (k_ordered t) = set keys"
    using kahn_final(4) [OF t(2,3) sub] assms(2) by simp
  then have "p \<in> set (k_ordered t)" if "(p, d) \<in> set ?pairs" for p d
    using that guarded_pairs_sub [of keys "dependency_edges children"] by blast
  with t(4) have "\<forall>(p, d)\<in>set ?pairs. k_acc t p < k_acc t d"
    "\<forall>d. k_acc t d = 0 \<or> (\<exists>p. (p, d) \<in> set ?pairs \<and> k_acc t d = k_acc t p + 1)"
    unfolding depths_exact_def by blast+
  moreover have "child_depths children = Some (k_acc t)" using assms(1) t(1) by (simp add: child_depths_eq)
  ultimately show ?thesis by blast
qed

section \<open>The longest path\<close>

lemma max_list_ge: "y \<in> insert x (set xs) \<Longrightarrow> y \<le> max_list xs x"
proof (induction xs arbitrary: x y)
  case (Cons z zs)
  have le: "max x z \<le> max_list zs (max x z)" by (rule Cons.IH) simp
  have "y \<in> set zs \<Longrightarrow> y \<le> max_list zs (max x z)" by (rule Cons.IH) simp
  with Cons.prems order_trans [OF max.cobounded1 le] order_trans [OF max.cobounded2 le]
  show ?case by auto
qed simp

lemma max_list_mem: "max_list xs x \<in> insert x (set xs)"
proof (induction xs arbitrary: x)
  case (Cons z zs)
  have "max_list zs (max x z) \<in> insert (max x z) (set zs)" by (rule Cons.IH)
  then show ?case by (auto simp: max_def split: if_splits)
qed simp

definition dep_path :: "('a \<times> 'a) set \<Rightarrow> 'a list \<Rightarrow> bool" where
  "dep_path E q \<longleftrightarrow> q \<noteq> [] \<and> successively (\<lambda>a b. (a, b) \<in> E) q"

definition best_ok :: "dep_pairs \<Rightarrow> string set \<Rightarrow> best_paths \<Rightarrow> bool" where
  "best_ok pairs S s \<longleftrightarrow>
     dom (best_len s) = S \<and>
     (\<forall>k\<in>S. case previous s k of
         None \<Rightarrow> best_len s k = Some 1
       | Some p \<Rightarrow> (p, k) \<in> set pairs \<and> p \<in> S \<and> the (best_len s k) = the (best_len s p) + 1) \<and>
     (\<forall>(p, k)\<in>set pairs. k \<in> S \<longrightarrow> p \<in> S \<and> the (best_len s p) < the (best_len s k)) \<and>
     dom (previous s) \<subseteq> S"

lemma best_ok_insert:
  assumes ok: "best_ok pairs S s" and key: "key \<notin> S" and pre: "\<And>p. (p, key) \<in> set pairs \<Longrightarrow> p \<in> S"
    and len: "best_len s' = (best_len s)(key \<mapsto> n)" and prv: "previous s' = (previous s)(key := q)"
    and q: "case q of None \<Rightarrow> n = 1 | Some p \<Rightarrow> (p, key) \<in> set pairs \<and> n = the (best_len s p) + 1"
    and ub: "\<And>p. (p, key) \<in> set pairs \<Longrightarrow> the (best_len s p) < n"
  shows "best_ok pairs (insert key S) s'"
proof -
  have same: "best_len s' k = best_len s k" "previous s' k = previous s k" if "k \<in> S" for k
    using key that by (auto simp: len prv)
  have at_key: "best_len s' key = Some n" "previous s' key = q" by (simp_all add: len prv)
  have prevs: "case previous s' k of None \<Rightarrow> best_len s' k = Some 1
      | Some p \<Rightarrow> (p, k) \<in> set pairs \<and> p \<in> insert key S \<and> the (best_len s' k) = the (best_len s' p) + 1"
    if "k \<in> insert key S" for k
  proof (cases "k = key")
    case True
    then show ?thesis using q at_key pre same by (auto split: option.splits)
  next
    case False
    with that have k: "k \<in> S" by simp
    then have "case previous s k of None \<Rightarrow> best_len s k = Some 1
      | Some p \<Rightarrow> (p, k) \<in> set pairs \<and> p \<in> S \<and> the (best_len s k) = the (best_len s p) + 1"
      using ok by (simp add: best_ok_def)
    then show ?thesis using same [OF k] same by (cases "previous s k") auto
  qed
  have mono: "p \<in> insert key S \<and> the (best_len s' p) < the (best_len s' k)"
    if "(p, k) \<in> set pairs" "k \<in> insert key S" for p k
  proof (cases "k = key")
    case True
    then show ?thesis using that(1) pre ub same at_key by auto
  next
    case False
    with that have "k \<in> S" by simp
    moreover from this have "p \<in> S" "the (best_len s p) < the (best_len s k)"
      using ok that(1) unfolding best_ok_def by blast+
    ultimately show ?thesis using same by auto
  qed
  have "dom (best_len s') = insert key S" "dom (previous s') \<subseteq> insert key S"
    using ok by (auto simp: best_ok_def len prv split: if_splits)
  with prevs mono show ?thesis unfolding best_ok_def by blast
qed

lemma best_update_ok:
  assumes ok: "best_ok pairs S s" and key: "key \<notin> S" and pre: "\<And>p. (p, key) \<in> set pairs \<Longrightarrow> p \<in> S"
  shows "best_ok pairs (insert key S) (best_update pairs key s)"
proof -
  have dom: "p \<in> S \<Longrightarrow> \<exists>n. best_len s p = Some n" for p using ok by (auto simp: best_ok_def dom_def)
  have "(n, p) \<in> set (path_options pairs key s) \<longleftrightarrow>
      (p, key) \<in> set pairs \<and> n = (case best_len s p of Some n \<Rightarrow> n | None \<Rightarrow> 0) + 1" for n p
    unfolding path_options_def set_map set_filter image_iff by (simp add: case_prod_unfold)
  then have opts: "(n, p) \<in> set (path_options pairs key s) \<longleftrightarrow> (p, key) \<in> set pairs \<and> n = the (best_len s p) + 1" for n p
    using dom [OF pre, of p] by (cases "(p, key) \<in> set pairs") auto
  have "key \<notin> dom (previous s)" using ok key unfolding best_ok_def by blast
  then have prev: "(previous s)(key := None) = previous s" by (auto simp: fun_eq_iff domIff)
  show ?thesis
  proof (cases "path_options pairs key s")
    case Nil
    then have none: "(p, key) \<notin> set pairs" for p using opts by auto
    show ?thesis
      by (rule best_ok_insert [OF ok key pre, where n = 1 and q = None])
        (use none prev in \<open>simp_all add: best_update_def Nil\<close>)
  next
    case (Cons x xs)
    obtain len pred where m: "max_list xs x = (len, pred)" by fastforce
    have "(len, pred) \<in> set (path_options pairs key s)" using max_list_mem [of xs x] m Cons by simp
    then have lp: "(pred, key) \<in> set pairs" "len = the (best_len s pred) + 1" using opts by auto
    have ub: "the (best_len s p) < len" if "(p, key) \<in> set pairs" for p
    proof -
      have "(the (best_len s p) + 1, p) \<in> insert x (set xs)" using opts that Cons by auto
      then have "(the (best_len s p) + 1, p) \<le> (len, pred)" using max_list_ge m by metis
      then show ?thesis by (auto simp: less_eq_prod_def)
    qed
    show ?thesis
      by (rule best_ok_insert [OF ok key pre, where n = len and q = "Some pred"])
        (use lp ub in \<open>simp_all add: best_update_def Cons m\<close>)
  qed
qed

lemma best_okD:
  assumes "best_ok pairs S s" "k \<in> S"
  shows "previous s k = None \<Longrightarrow> best_len s k = Some 1"
    and "previous s k = Some p \<Longrightarrow> (p, k) \<in> set pairs \<and> p \<in> S \<and> the (best_len s k) = the (best_len s p) + 1"
proof -
  have "case previous s k of None \<Rightarrow> best_len s k = Some 1
      | Some p \<Rightarrow> (p, k) \<in> set pairs \<and> p \<in> S \<and> the (best_len s k) = the (best_len s p) + 1"
    using assms unfolding best_ok_def by blast
  then show "previous s k = None \<Longrightarrow> best_len s k = Some 1"
    and "previous s k = Some p \<Longrightarrow> (p, k) \<in> set pairs \<and> p \<in> S \<and> the (best_len s k) = the (best_len s p) + 1"
    by simp_all
qed

lemma best_all_ok:
  assumes "order_respects (set pairs) order" "distinct order"
  shows "best_ok pairs (set order) (best_all pairs order)"
  using assms
proof (induction order rule: rev_induct)
  case Nil
  show ?case by (simp add: best_all_def best_ok_def)
next
  case (snoc k ks)
  have resp: "order_respects (set pairs) ks"
    unfolding order_respects_def
  proof (intro allI impI)
    fix i p
    assume i: "i < length ks" and e: "(p, ks ! i) \<in> set pairs"
    then have "p \<in> set (take i (ks @ [k]))"
      using snoc.prems(1) unfolding order_respects_def by (metis length_append_singleton less_SucI nth_append)
    with i show "p \<in> set (take i ks)" by simp
  qed
  have pre: "p \<in> set ks" if "(p, k) \<in> set pairs" for p
    using snoc.prems(1) that unfolding order_respects_def
    by (metis append_eq_conv_conj length_append_singleton lessI nth_append_length)
  have "best_all pairs (ks @ [k]) = best_update pairs k (best_all pairs ks)" by (simp add: best_all_def)
  with best_update_ok [OF snoc.IH [OF resp] _ pre] snoc.prems(2) show ?case by simp
qed

lemma dep_path_nodes: "dep_path E p \<Longrightarrow> set p \<subseteq> insert (last p) (fst ` E)"
proof (induction p)
  case (Cons a p)
  show ?case
  proof (cases p)
    case (Cons b q)
    then have "(a, b) \<in> E" "dep_path E p" using Cons.prems by (auto simp: dep_path_def)
    with Cons.IH Cons show ?thesis by force
  qed simp
qed simp

lemma best_bound:
  assumes ok: "best_ok pairs S s"
  shows "dep_path (set pairs) q \<Longrightarrow> last q \<in> S \<Longrightarrow> length q \<le> the (best_len s (last q))"
proof (induction q rule: rev_induct)
  case (snoc k ks)
  show ?case
  proof (cases ks rule: rev_cases)
    case Nil
    then have "k \<in> S" using snoc.prems by simp
    then show ?thesis using Nil best_okD [OF ok] by (cases "previous s k") auto
  next
    case (snoc ls l)
    have e: "(l, k) \<in> set pairs" and dp: "dep_path (set pairs) ks"
      using snoc.prems(1) by (auto simp: dep_path_def snoc successively_append_iff)
    have "k \<in> S" using snoc.prems(2) by simp
    with e ok have "l \<in> S" "the (best_len s l) < the (best_len s k)" unfolding best_ok_def by blast+
    with snoc.IH [OF dp] show ?thesis by (simp add: snoc)
  qed
qed (simp add: dep_path_def)

lemma walk_back_path:
  assumes ok: "best_ok pairs S s" and e: "e \<in> S"
  shows "\<exists>p. walk_back (previous s) e = Some p \<and> dep_path (set pairs) p \<and> last p = e \<and>
    length p = the (best_len s e)"
proof -
  let ?b = "\<lambda>(c, path). previous s c \<noteq> None" and ?c = "\<lambda>(c, path). (the (previous s c), path @ [the (previous s c)])"
  let ?P = "\<lambda>(c, path). c \<in> S \<and> path \<noteq> [] \<and> last path = c \<and> hd path = e \<and>
    successively (\<lambda>a b. (b, a) \<in> set pairs) path \<and> length path + the (best_len s c) = the (best_len s e) + 1"
  let ?f = "\<lambda>(c, path :: string list). the (best_len s c)"
  have step: "?P (?c st) \<and> ?f (?c st) < ?f st" if "?P st" "?b st" for st
  proof -
    obtain c path where st: "st = (c, path)" by fastforce
    from that(2) obtain p where p: "previous s c = Some p" by (auto simp: st)
    have c: "c \<in> S" using that(1) by (simp add: st)
    have "(p, c) \<in> set pairs" "p \<in> S" "the (best_len s c) = the (best_len s p) + 1"
      using best_okD(2) [OF ok c p] by blast+
    with that(1) show ?thesis by (auto simp: st p successively_append_iff)
  qed
  have start: "?P (e, [e])" using e by simp
  obtain t where t: "while_option ?b ?c (e, [e]) = Some t"
    using measure_while_option_Some [where P = ?P and f = ?f, OF step start] by blast
  obtain c path where cp: "t = (c, path)" by fastforce
  have P: "?P t" by (rule while_option_rule [where P = ?P, OF _ t start]) (rule conjunct1 [OF step])
  have "previous s c = None" using while_option_stop [OF t] by (simp add: cp)
  then have "best_len s c = Some 1" using P best_okD(1) [OF ok] by (simp add: cp)
  with P have "length path = the (best_len s e)" by (simp add: cp)
  moreover have "walk_back (previous s) e = Some (rev path)" using t by (simp add: walk_back_def cp)
  moreover have "dep_path (set pairs) (rev path)" using P by (simp add: cp dep_path_def)
  ultimately show ?thesis using P by (auto simp: cp last_rev)
qed

lemma critical_path_result:
  assumes "distinct (map fst (g_nodes g))"
  shows "\<exists>p. critical_path g vs = Some p \<and>
    (if acyclic (active_dependency g vs) \<and> g_nodes g \<noteq> []
     then dep_path (active_dependency g vs) p \<and> set p \<subseteq> fst ` set (g_nodes g) \<and>
       (\<forall>q. dep_path (active_dependency g vs) q \<and> set q \<subseteq> fst ` set (g_nodes g) \<longrightarrow> length q \<le> length p)
     else p = [])"
proof -
  let ?pairs = "guarded_pairs (map fst (g_nodes g)) (active_dependency_pairs (g_nodes g) (gate_state g vs))"
  let ?N = "fst ` set (g_nodes g)"
  have E: "active_dependency g vs = set ?pairs" by (simp add: active_dependency_def)
  obtain ord where ord: "topological_order g vs = Some ord" "distinct ord" "set ord \<subseteq> ?N"
    "order_respects (set ?pairs) ord" "set ord = ?N \<longleftrightarrow> acyclic (set ?pairs)"
    using topological_order_result [OF assms, of vs] E by auto
  have cardN: "card ?N = length (g_nodes g)" using distinct_card [OF assms] by simp
  have len: "length ord = length (g_nodes g) \<longleftrightarrow> set ord = ?N"
    using distinct_card [OF ord(2)] cardN card_subset_eq [OF _ ord(3)] by auto
  show ?thesis
  proof (cases "acyclic (set ?pairs) \<and> g_nodes g \<noteq> []")
    case False
    then have "length ord \<noteq> length (g_nodes g) \<or> ord = []"
      using len ord(5) by auto
    then have "critical_path g vs = Some []"
      by (auto simp: critical_path_def ord(1) Let_def split: list.split)
    then show ?thesis unfolding E using False by (intro exI [of _ "[]"]) auto
  next
    case True
    then have full: "set ord = ?N" "length ord = length (g_nodes g)" using len ord(5) by auto
    then obtain k ks where kks: "ord = k # ks" using True by (cases ord) auto
    define s where "s = best_all ?pairs ord"
    define score where "score = (\<lambda>k. (the (best_len s k), k))"
    define e where "e = snd (max_list (map score ks) (score k))"
    have ok: "best_ok ?pairs ?N s" using best_all_ok [OF ord(4,2)] full(1) by (simp add: s_def)
    have "max_list (map score ks) (score k) \<in> score ` set ord"
      using max_list_mem [of "map score ks" "score k"] by (auto simp: kks)
    then obtain x where x: "x \<in> set ord" "max_list (map score ks) (score k) = score x" by blast
    then have "e = x" by (simp add: e_def score_def)
    with x full(1) have e: "e \<in> ?N" "max_list (map score ks) (score k) = score e" by simp_all
    obtain p where p: "walk_back (previous s) e = Some p" "dep_path (set ?pairs) p" "last p = e" "length p = the (best_len s e)"
      using walk_back_path [OF ok e(1)] by blast
    have "critical_path g vs = Some p"
      using p(1) full(2) by (simp add: critical_path_def ord(1) kks Let_def s_def e_def score_def)
    moreover have "length q \<le> length p" if q: "dep_path (set ?pairs) q" "set q \<subseteq> ?N" for q
    proof -
      have lq: "last q \<in> set ord" using q full(1) by (auto simp: dep_path_def)
      then have "score (last q) \<le> score e"
        using max_list_ge [of "score (last q)" "score k" "map score ks"] e(2) by (auto simp: kks)
      then have "the (best_len s (last q)) \<le> the (best_len s e)" by (auto simp: score_def less_eq_prod_def)
      then show ?thesis using best_bound [OF ok q(1)] lq full(1) p(4) by simp
    qed
    moreover have "set p \<subseteq> ?N"
    proof -
      have "set p \<subseteq> insert (last p) (fst ` set ?pairs)" by (rule dep_path_nodes [OF p(2)])
      with p guarded_pairs_sub [of "map fst (g_nodes g)"] e(1) show ?thesis by fastforce
    qed
    ultimately show ?thesis using True E p(2) by auto
  qed
qed

text \<open>
  C24: \<open>critical_path\<close> returns a longest path: on a nonempty network whose active dependencies are
  acyclic it is a path of active dependencies through the nodes and no such path is longer;
  on a cyclic or empty network it is empty.
\<close>

theorem critical_path_longest:
  assumes "distinct (map fst (g_nodes g))"
  shows "\<exists>p. critical_path g vs = Some p \<and>
    (if acyclic (active_dependency g vs) \<and> g_nodes g \<noteq> []
     then dep_path (active_dependency g vs) p \<and> set p \<subseteq> fst ` set (g_nodes g) \<and>
       (\<forall>q. dep_path (active_dependency g vs) q \<and> set q \<subseteq> fst ` set (g_nodes g) \<longrightarrow> length q \<le> length p)
     else p = [])"
  by (rule critical_path_result [OF assms])

theorem critical_path_longest_witness:
  "critical_path (chain_graph ''active'') Map.empty = Some [''a'', ''b''] \<and>
   \<not> (\<exists>q. dep_path (active_dependency (chain_graph ''active'') Map.empty) q \<and> set q \<subseteq> {''a'', ''b''} \<and> 2 < length q)"
proof -
  have d: "distinct (map fst (g_nodes (chain_graph ''active'')))" by (simp add: chain_graph_def)
  have c: "critical_path (chain_graph ''active'') Map.empty = Some [''a'', ''b'']" by code_simp
  then have "acyclic (active_dependency (chain_graph ''active'') Map.empty)"
    using critical_path_result [OF d, of Map.empty] by (auto split: if_splits)
  then show ?thesis
    using critical_path_longest [OF d, of Map.empty] c by (simp add: chain_graph_def numeral_2_eq_2) (meson not_le)
qed

theorem child_depths_levels_witness:
  "\<exists>D. child_depths [PDict [(''child_key'', PStr ''a'')],
       PDict [(''child_key'', PStr ''b''), (''edges'', PList [PDict [(''type'', PStr ''depends''), (''to'', PStr ''a'')]])]] = Some D \<and>
     D ''a'' < D ''b''"
proof -
  let ?cs = "[PDict [(''child_key'', PStr ''a'')],
       PDict [(''child_key'', PStr ''b''), (''edges'', PList [PDict [(''type'', PStr ''depends''), (''to'', PStr ''a'')]])]]"
  have k: "string_keys ?cs = Some [''a'', ''b'']" by code_simp
  have p: "guarded_pairs [''a'', ''b''] (dependency_edges ?cs) = [(''a'', ''b'')]" by code_simp
  have "acyclic (set (guarded_pairs [''a'', ''b''] (dependency_edges ?cs)))"
    unfolding p using find_cycle_result [of "[(''a'', ''b'')]"] by (auto simp: acyclic_def trancl_insert)
  from child_depths_levels [OF k this] show ?thesis by (auto simp: p)
qed

end
