(* ===== verification/CheckStream.thy ===== *)
theory CheckStream imports DepOrder begin

text \<open>
  The typed event streams of \<open>src/ai_org/patchwork_check_stream.py\<close>: the durable body of a
  stream (Base64 of its exact bytes), the physical records of the bytes, the replay of the
  records onto the typed check state, and the append of one record.

  Bytes are \<open>8 word\<close>. Text inside a record is a list of code points. \<open>json.loads\<close> is an
  argument of the definitions that use it (\<open>loads\<close>): it receives the hook for object
  pairs and the code points, and returns a value or no value; nothing is assumed of it.
\<close>

type_synonym byte = "8 word"
type_synonym bytes = "byte list"
type_synonym code_points = "nat list"

section \<open>Base64\<close>

definition b64_alphabet :: string where
  "b64_alphabet = ''ABCDEFGHIJKLMNOPQRSTUVWXYZabcdefghijklmnopqrstuvwxyz0123456789+/''"

definition b64_char :: "nat \<Rightarrow> char" where
  "b64_char n = b64_alphabet ! n"

definition b64_value :: "char \<Rightarrow> nat option" where
  "b64_value c =
     (let n = char_code c in
      if is_upper c then Some (n - 65)
      else if is_lower c then Some (n - 71)
      else if is_digit c then Some (n + 4)
      else if c = CHR ''+'' then Some 62
      else if c = CHR ''/'' then Some 63
      else None)"

fun b64_encode :: "bytes \<Rightarrow> string" where
  "b64_encode [] = []"
| "b64_encode [a] =
     [b64_char (unat a div 4), b64_char ((unat a mod 4) * 16), CHR ''='', CHR ''='']"
| "b64_encode [a, b] =
     [b64_char (unat a div 4), b64_char ((unat a mod 4) * 16 + unat b div 16),
      b64_char ((unat b mod 16) * 4), CHR ''='']"
| "b64_encode (a # b # c # rest) =
     [b64_char (unat a div 4), b64_char ((unat a mod 4) * 16 + unat b div 16),
      b64_char ((unat b mod 16) * 4 + unat c div 64), b64_char (unat c mod 64)] @ b64_encode rest"

definition byte_of :: "nat \<Rightarrow> byte" where
  "byte_of n = word_of_nat n"

text \<open>\<open>base64.b64decode(encoded, validate=True)\<close> on text that the pattern \<open>_BASE64\<close> matched.\<close>

fun b64_decode :: "string \<Rightarrow> bytes option" where
  "b64_decode [] = Some []"
| "b64_decode (w # x # y # z # rest) =
     (case (b64_value w, b64_value x) of
        (Some w', Some x') \<Rightarrow>
          if y = CHR ''='' \<and> z = CHR ''='' \<and> rest = [] then Some [byte_of (w' * 4 + x' div 16)]
          else (case b64_value y of
              None \<Rightarrow> None
            | Some y' \<Rightarrow>
                if z = CHR ''='' \<and> rest = [] then
                  Some [byte_of (w' * 4 + x' div 16), byte_of ((x' mod 16) * 16 + y' div 4)]
                else (case b64_value z of
                    None \<Rightarrow> None
                  | Some z' \<Rightarrow>
                      map_option (\<lambda>bs. byte_of (w' * 4 + x' div 16) #
                          byte_of ((x' mod 16) * 16 + y' div 4) #
                          byte_of ((y' mod 4) * 64 + z') # bs) (b64_decode rest)))
      | _ \<Rightarrow> None)"
| "b64_decode _ = None"

text \<open>The pattern \<open>_BASE64\<close>.\<close>

fun b64_shape :: "string \<Rightarrow> bool" where
  "b64_shape [] = True"
| "b64_shape (w # x # y # z # rest) \<longleftrightarrow>
     b64_value w \<noteq> None \<and> b64_value x \<noteq> None \<and>
     (if rest = [] \<and> z = CHR ''='' then y = CHR ''='' \<or> b64_value y \<noteq> None
      else b64_value y \<noteq> None \<and> b64_value z \<noteq> None \<and> b64_shape rest)"
| "b64_shape _ = False"

section \<open>The durable body\<close>

definition MAX_RAW_STREAM_BYTES :: nat where "MAX_RAW_STREAM_BYTES = 4194304"
definition MAX_RECORD_DEPTH :: nat where "MAX_RECORD_DEPTH = 64"
definition STREAM_PATH :: string where "STREAM_PATH = ''patchwork-check-event-stream.cue''"
definition LEGACY_STREAM_PATH :: string where "LEGACY_STREAM_PATH = ''patchwork-check-events.jsonl''"

text \<open>\<open>StreamFailure(code, location, rule)\<close>; \<open>StreamRaises\<close> is an exception of another kind.\<close>

datatype stream_error =
    StreamFailure string string string
  | StreamRaises py_exc

definition is_oid :: "string \<Rightarrow> bool" where
  "is_oid s \<longleftrightarrow> length s \<in> {40, 64} \<and> list_all is_hex_lower s"

definition is_check_name :: "string \<Rightarrow> bool" where
  "is_check_name s \<longleftrightarrow> s \<noteq> [] \<and> list_all (\<lambda>c. is_lower c \<or> is_digit c \<or> c = CHR ''_'') s"

definition is_child_node_path :: "string \<Rightarrow> bool" where
  "is_child_node_path s \<longleftrightarrow> startswith s ''sub/'' \<and> is_check_name (removeprefix s ''sub/'')"

text \<open>The pattern \<open>_SOURCE_PATH\<close>: an optional child directory, then one of the two file names.\<close>

definition permitted_source_path :: "string \<Rightarrow> bool" where
  "permitted_source_path s \<longleftrightarrow>
     list_ex (\<lambda>name. s = name \<or>
        (endswith s (''/'' @ name) \<and> is_child_node_path (take (length s - length name - 1) s)))
       [STREAM_PATH, LEGACY_STREAM_PATH]"

definition is_permitted_source_path :: "pyval \<Rightarrow> bool" where
  "is_permitted_source_path v \<longleftrightarrow> (case as_str v of Some s \<Rightarrow> permitted_source_path s | None \<Rightarrow> False)"

definition validate_anchor :: "pyval \<Rightarrow> pyval \<Rightarrow> stream_error + unit" where
  "validate_anchor source_oid source_path =
     (if \<not> (case as_str source_oid of Some s \<Rightarrow> is_oid s | None \<Rightarrow> False)
        then Inl (StreamFailure ''GIT_IDENTITY'' ''/body/source_oid'' ''source-oid'')
      else if \<not> is_permitted_source_path source_path
        then Inl (StreamFailure ''GIT_IDENTITY'' ''/body/source_path'' ''stream-source-path'')
      else Inr ())"

definition body_from_raw_stream :: "bytes \<Rightarrow> pyval \<Rightarrow> pyval \<Rightarrow> stream_error + pydict" where
  "body_from_raw_stream raw source_oid source_path =
     rbind (validate_anchor source_oid source_path) (\<lambda>_.
     if length raw > MAX_RAW_STREAM_BYTES
       then Inl (StreamFailure ''INPUT_LIMIT'' ''/body/raw_stream_base64'' ''decoded-stream-4-mib'')
     else Inr [(''raw_stream_base64'', PStr (b64_encode raw)), (''source_oid'', source_oid),
               (''source_path'', source_path)])"

definition import_legacy_jsonl :: "bytes \<Rightarrow> pyval \<Rightarrow> pyval \<Rightarrow> stream_error + pydict" where
  "import_legacy_jsonl raw source_oid source_path = body_from_raw_stream raw source_oid source_path"

definition b64_failure :: stream_error where
  "b64_failure = StreamFailure ''ENCODING'' ''/body/raw_stream_base64'' ''rfc4648-base64''"

definition decode_raw_stream :: "pyval \<Rightarrow> stream_error + bytes" where
  "decode_raw_stream body =
     (case as_dict body of
        None \<Rightarrow> Inl (StreamFailure ''SCHEMA_VALIDATION'' ''/body'' ''closed-stream-body'')
      | Some d \<Rightarrow>
          if fst ` set d \<noteq> {''raw_stream_base64'', ''source_oid'', ''source_path''}
          then Inl (StreamFailure ''SCHEMA_VALIDATION'' ''/body'' ''closed-stream-body'')
          else rbind (validate_anchor (py_get d ''source_oid'') (py_get d ''source_path'')) (\<lambda>_.
            case as_str (py_get d ''raw_stream_base64'') of
              None \<Rightarrow> Inl b64_failure
            | Some encoded \<Rightarrow>
                if \<not> list_all (\<lambda>c. char_code c < 128) encoded \<or> \<not> b64_shape encoded then Inl b64_failure
                else
                  (let padding = length encoded - length (py_rstrip_char (CHR ''='') encoded);
                       decoded_size = length encoded div 4 * 3 - padding
                   in if decoded_size > MAX_RAW_STREAM_BYTES
                        then Inl (StreamFailure ''INPUT_LIMIT'' ''/body/raw_stream_base64'' ''decoded-stream-4-mib'')
                      else (case b64_decode encoded of
                          None \<Rightarrow> Inl b64_failure
                        | Some decoded \<Rightarrow>
                            if b64_encode decoded \<noteq> encoded
                              then Inl (StreamFailure ''NON_CANONICAL'' ''/body/raw_stream_base64'' ''rfc4648-base64'')
                            else if length decoded \<noteq> decoded_size then Inl b64_failure
                            else Inr decoded))))"

section \<open>Physical records\<close>

text \<open>\<open>_physical_records\<close>: the index loop; a generator is the list it yields.\<close>

function physical_records_from :: "bytes \<Rightarrow> nat \<Rightarrow> nat \<Rightarrow> bytes list" where
  "physical_records_from raw start cursor =
     (if cursor < length raw then
        (let b = raw ! cursor; record = take (cursor - start) (drop start raw) in
         if b = 0x0A then record # physical_records_from raw (cursor + 1) (cursor + 1)
         else if b = 0x0D then
           (let next = (if cursor + 1 < length raw \<and> raw ! (cursor + 1) = 0x0A then cursor + 2 else cursor + 1)
            in record # physical_records_from raw next next)
         else physical_records_from raw start (cursor + 1))
      else if start < length raw then [drop start raw] else [])"
  by pat_completeness auto
termination by (relation "measure (\<lambda>(raw, start, cursor). length raw - cursor)") auto

declare physical_records_from.simps [simp del]

definition physical_records :: "bytes \<Rightarrow> bytes list" where
  "physical_records raw = physical_records_from raw 0 0"

definition record_is_blank :: "bytes \<Rightarrow> bool" where
  "record_is_blank record \<longleftrightarrow> list_all (\<lambda>b. b = 0x09 \<or> b = 0x20) record"

text \<open>\<open>_json_depth_exceeds\<close>: one step of the scan per byte; the depth never goes below 0.\<close>

fun depth_scan :: "bytes \<Rightarrow> nat \<Rightarrow> nat \<Rightarrow> bool \<Rightarrow> bool \<Rightarrow> bool" where
  "depth_scan [] limit depth in_string escaped = False"
| "depth_scan (b # rest) limit depth in_string escaped =
     (if in_string then
        (if escaped then depth_scan rest limit depth True False
         else if b = 0x5C then depth_scan rest limit depth True True
         else if b = 0x22 then depth_scan rest limit depth False False
         else depth_scan rest limit depth True False)
      else if b = 0x22 then depth_scan rest limit depth True escaped
      else if b = 0x7B \<or> b = 0x5B then
        (if depth + 1 > limit then True else depth_scan rest limit (depth + 1) False escaped)
      else if b = 0x7D \<or> b = 0x5D then depth_scan rest limit (depth - 1) False escaped
      else depth_scan rest limit depth False escaped)"

definition json_depth_exceeds :: "bytes \<Rightarrow> nat \<Rightarrow> bool" where
  "json_depth_exceeds record limit = depth_scan record limit 0 False False"

text \<open>Strict UTF-8: no overlong forms, no surrogates, nothing above 0x10FFFF.\<close>

definition continuation :: "byte \<Rightarrow> nat option" where
  "continuation b = (if unat b div 64 = 2 then Some (unat b mod 64) else None)"

fun utf8_decode :: "bytes \<Rightarrow> code_points option" where
  "utf8_decode [] = Some []"
| "utf8_decode (a # rest) =
     (let n = unat a in
      if n < 128 then map_option ((#) n) (utf8_decode rest)
      else if 194 \<le> n \<and> n < 224 then
        (case rest of
           b # rest1 \<Rightarrow> (case continuation b of
               Some x \<Rightarrow> map_option ((#) ((n - 192) * 64 + x)) (utf8_decode rest1)
             | None \<Rightarrow> None)
         | _ \<Rightarrow> None)
      else if 224 \<le> n \<and> n < 240 then
        (case rest of
           b # c # rest2 \<Rightarrow> (case (continuation b, continuation c) of
               (Some x, Some y) \<Rightarrow>
                 (let p = (n - 224) * 4096 + x * 64 + y in
                  if p < 2048 \<or> (55296 \<le> p \<and> p < 57344) then None
                  else map_option ((#) p) (utf8_decode rest2))
             | _ \<Rightarrow> None)
         | _ \<Rightarrow> None)
      else if 240 \<le> n \<and> n < 245 then
        (case rest of
           b # c # d # rest3 \<Rightarrow> (case (continuation b, continuation c, continuation d) of
               (Some x, Some y, Some z) \<Rightarrow>
                 (let p = (n - 240) * 262144 + x * 4096 + y * 64 + z in
                  if p < 65536 \<or> 1114112 \<le> p then None
                  else map_option ((#) p) (utf8_decode rest3))
             | _ \<Rightarrow> None)
         | _ \<Rightarrow> None)
      else None)"

section \<open>Decoding one record\<close>

record diagnostic =
  d_code :: string
  d_path :: string
  d_line :: nat
  d_rule :: string

definition event_invalid :: "string \<Rightarrow> nat \<Rightarrow> string \<Rightarrow> diagnostic" where
  "event_invalid path line rule =
     \<lparr>d_code = ''patchwork_check_event_invalid'', d_path = path, d_line = line, d_rule = rule\<rparr>"

definition ingestion_invalid :: "string \<Rightarrow> nat \<Rightarrow> string \<Rightarrow> diagnostic" where
  "ingestion_invalid path line rule =
     \<lparr>d_code = ''ingestion_invalid'', d_path = path, d_line = line, d_rule = rule\<rparr>"

text \<open>The hooks handed to \<open>json.loads\<close>: duplicate keys and non-standard constants are refused.\<close>

fun unique_object_from :: "(string \<times> pyval) list \<Rightarrow> pydict \<Rightarrow> py_exc + pydict" where
  "unique_object_from [] result = Inr result"
| "unique_object_from ((key, v) # pairs) result =
     (if has_key result key then Inl ValueError else unique_object_from pairs (result @ [(key, v)]))"

definition unique_object :: "(string \<times> pyval) list \<Rightarrow> py_exc + pydict" where
  "unique_object pairs = unique_object_from pairs []"

definition reject_json_constant :: "string \<Rightarrow> py_exc + pyval" where
  "reject_json_constant name = Inl ValueError"

type_synonym json_loads =
  "((string \<times> pyval) list \<Rightarrow> py_exc + pydict) \<Rightarrow> (string \<Rightarrow> py_exc + pyval) \<Rightarrow> code_points \<Rightarrow> pyval option"

definition decode_record :: "json_loads \<Rightarrow> bytes \<Rightarrow> string \<Rightarrow> nat \<Rightarrow> diagnostic + pydict" where
  "decode_record loads record path line =
     (if json_depth_exceeds record MAX_RECORD_DEPTH then Inl (event_invalid path line ''record-depth-64'')
      else (case utf8_decode record of
          None \<Rightarrow> Inl (ingestion_invalid path line ''utf8'')
        | Some cs \<Rightarrow>
            (case loads unique_object reject_json_constant cs of
               None \<Rightarrow> Inl (ingestion_invalid path line ''json-record'')
             | Some v \<Rightarrow> (case as_dict v of
                 None \<Rightarrow> Inl (event_invalid path line ''record-object'')
               | Some event \<Rightarrow> Inr event))))"

section \<open>Applying one event\<close>

text \<open>\<open>int(value)\<close> of a value of the state.\<close>

fun int_of_wval :: "wval \<Rightarrow> py_exc + int" where
  "int_of_wval (WInt i) = Inr i"
| "int_of_wval (WBool b) = Inr (if b then 1 else 0)"
| "int_of_wval (WStr s) = (case py_int_text s of Some i \<Rightarrow> Inr i | None \<Rightarrow> Inl ValueError)"

text \<open>The three outcomes of \<open>_apply_event\<close>: an exception, a diagnostic, or the new state.\<close>

datatype applied = Raised py_exc | Rejected diagnostic | Applied check_values

definition apply_event ::
  "check_values \<Rightarrow> pydict \<Rightarrow> check_registry \<Rightarrow> string \<Rightarrow> nat \<Rightarrow> applied" where
  "apply_event state event registry path line =
     (case as_str (py_get event ''var'') of
        None \<Rightarrow> Rejected (event_invalid path line ''declared-variable'')
      | Some var \<Rightarrow>
          if var = [] then Rejected (event_invalid path line ''declared-variable'')
          else (case registry var of
            None \<Rightarrow> Rejected (event_invalid path line ''declared-variable'')
          | Some declared \<Rightarrow>
              (let oper = py_get event ''op'' in
               if oper = PStr ''set'' then
                 (case py_get event ''value'' of
                    PInt i \<Rightarrow> if declared = ''text'' then Rejected (event_invalid path line ''text-string'')
                              else Applied (state(var \<mapsto> WInt i))
                  | PStr s \<Rightarrow> if declared = ''counter'' then Rejected (event_invalid path line ''counter-integer'')
                              else Applied (state(var \<mapsto> WStr s))
                  | _ \<Rightarrow> Rejected (event_invalid path line ''event-value''))
               else if \<not> hashable oper then Raised TypeError
               else if oper \<in> {PStr ''inc'', PStr ''dec''} then
                 (if declared \<noteq> ''counter'' then Rejected (event_invalid path line ''counter-delta'')
                  else (case py_get_default event ''value'' (PInt 1) of
                      PInt delta \<Rightarrow>
                        (case state var of
                           None \<Rightarrow> Raised KeyError
                         | Some v \<Rightarrow> (case int_of_wval v of
                             Inl e \<Rightarrow> Raised e
                           | Inr n \<Rightarrow> Applied (state(var \<mapsto> WInt (n + (if oper = PStr ''inc'' then delta else - delta))))))
                    | _ \<Rightarrow> Rejected (event_invalid path line ''counter-delta'')))
               else Rejected (event_invalid path line ''event-operation''))))"

section \<open>Registry and initial state\<close>

definition registry_failure :: "string \<Rightarrow> stream_error" where
  "registry_failure rule = StreamFailure ''SCHEMA_VALIDATION'' ''/manifest/declared_patchwork_checks'' rule"

fun validated_entries :: "pydict \<Rightarrow> stream_error + (string \<times> string) list" where
  "validated_entries [] = Inr []"
| "validated_entries ((name, ty) # rest) =
     (if \<not> is_check_name name then Inl (registry_failure ''check-name'')
      else if \<not> hashable ty then Inl (StreamRaises TypeError)
      else if ty \<notin> {PStr ''counter'', PStr ''text''} then Inl (registry_failure ''check-type'')
      else rbind (validated_entries rest) (\<lambda>r. Inr ((name, py_str ty) # r)))"

definition validated_registry :: "pyval \<Rightarrow> stream_error + (string \<times> string) list" where
  "validated_registry registry =
     (case as_dict registry of
        None \<Rightarrow> Inl (registry_failure ''typed-check-registry'')
      | Some d \<Rightarrow> validated_entries d)"

definition state_failure :: "string \<Rightarrow> stream_error" where
  "state_failure rule = StreamFailure ''SCHEMA_VALIDATION'' ''/initial_state'' rule"

fun merge_initial :: "check_registry \<Rightarrow> pydict \<Rightarrow> check_values \<Rightarrow> stream_error + check_values" where
  "merge_initial registry [] state = Inr state"
| "merge_initial registry ((name, v) # rest) state =
     (case registry name of
        None \<Rightarrow> Inl (state_failure ''declared-variable'')
      | Some declared \<Rightarrow>
          (case v of
             PInt i \<Rightarrow> if declared = ''text'' then Inl (state_failure ''text-string'')
                       else merge_initial registry rest (state(name \<mapsto> WInt i))
           | PStr s \<Rightarrow> if declared = ''counter'' then Inl (state_failure ''counter-integer'')
                       else merge_initial registry rest (state(name \<mapsto> WStr s))
           | _ \<Rightarrow> Inl (state_failure (if declared = ''counter'' then ''counter-integer'' else ''text-string''))))"

definition validated_initial_state ::
  "(string \<times> string) list \<Rightarrow> pyval \<Rightarrow> stream_error + check_values" where
  "validated_initial_state registry initial_state =
     (if initial_state = PNone then Inr (state_defaults registry)
      else (case as_dict initial_state of
          None \<Rightarrow> Inl (state_failure ''typed-check-state'')
        | Some d \<Rightarrow> merge_initial (map_of registry) d (state_defaults registry)))"

section \<open>Replay\<close>

record projection =
  p_state :: check_values
  p_last :: "string \<Rightarrow> (string \<times> nat) option"
  p_diags :: "diagnostic list"

definition replay_record ::
  "json_loads \<Rightarrow> check_registry \<Rightarrow> string \<Rightarrow> nat \<Rightarrow> bytes \<Rightarrow> projection \<Rightarrow> py_exc + projection" where
  "replay_record loads registry path line record p =
     (if record_is_blank record then Inr p
      else (case decode_record loads record path line of
          Inl diag \<Rightarrow> Inr (p\<lparr>p_diags := p_diags p @ [diag]\<rparr>)
        | Inr event \<Rightarrow>
            (case apply_event (p_state p) event registry path line of
               Raised e \<Rightarrow> Inl e
             | Rejected diag \<Rightarrow> Inr (p\<lparr>p_diags := p_diags p @ [diag]\<rparr>)
             | Applied state \<Rightarrow>
                 Inr (p\<lparr>p_state := state,
                        p_last := (p_last p)(py_str (py_get event ''var'') \<mapsto> (path, line))\<rparr>))))"

fun replay_records ::
  "json_loads \<Rightarrow> check_registry \<Rightarrow> string \<Rightarrow> nat \<Rightarrow> bytes list \<Rightarrow> projection \<Rightarrow> py_exc + projection" where
  "replay_records loads registry path line [] p = Inr p"
| "replay_records loads registry path line (record # rest) p =
     rbind (replay_record loads registry path line record p) (replay_records loads registry path (Suc line) rest)"

definition lift_exc :: "py_exc + 'a \<Rightarrow> stream_error + 'a" where
  "lift_exc r = (case r of Inl e \<Rightarrow> Inl (StreamRaises e) | Inr x \<Rightarrow> Inr x)"

definition body_text :: "pyval \<Rightarrow> string \<Rightarrow> string" where
  "body_text body k = (case as_dict body of Some d \<Rightarrow> py_str (py_get d k) | None \<Rightarrow> [])"

definition replay :: "json_loads \<Rightarrow> pyval \<Rightarrow> pyval \<Rightarrow> pyval \<Rightarrow> stream_error + projection" where
  "replay loads body registry initial_state =
     rbind (decode_raw_stream body) (\<lambda>raw.
     rbind (validated_registry registry) (\<lambda>declared.
     rbind (validated_initial_state declared initial_state) (\<lambda>state.
       lift_exc (replay_records loads (map_of declared) (body_text body ''source_path'') 1 (physical_records raw)
         \<lparr>p_state = state, p_last = Map.empty, p_diags = []\<rparr>))))"

section \<open>Append\<close>

record prepared_append =
  pa_body :: pydict
  pa_raw :: bytes
  pa_prior :: bytes

definition append_separator :: "bytes \<Rightarrow> bytes" where
  "append_separator prior = (if prior = [] \<or> last prior \<in> {0x0A, 0x0D} then [] else [0x0A])"

definition record_failure :: "string \<Rightarrow> stream_error" where
  "record_failure rule = StreamFailure ''SCHEMA_VALIDATION'' ''/record'' rule"

definition limit_failure :: stream_error where
  "limit_failure = StreamFailure ''INPUT_LIMIT'' ''/body/raw_stream_base64'' ''decoded-stream-4-mib''"

text \<open>The loop over the framed records: one record, and not a blank one.\<close>

fun single_record :: "bytes list \<Rightarrow> bytes option \<Rightarrow> stream_error + bytes option" where
  "single_record [] clean = Inr clean"
| "single_record (r # rest) clean =
     (if record_is_blank r \<or> clean \<noteq> None then Inl (record_failure ''one-nonblank-record'')
      else single_record rest (Some r))"

definition prepare_append :: "json_loads \<Rightarrow> pyval \<Rightarrow> bytes \<Rightarrow> pyval \<Rightarrow> stream_error + prepared_append" where
  "prepare_append loads body record registry =
     rbind (decode_raw_stream body) (\<lambda>prior.
     rbind (validated_registry registry) (\<lambda>declared.
       let separator = append_separator prior in
       if int (length record) > int MAX_RAW_STREAM_BYTES - int (length prior) - int (length separator) - 1 + 2
         then Inl limit_failure
       else rbind (single_record (physical_records record) None) (\<lambda>framed.
         case framed of
           None \<Rightarrow> Inl (record_failure ''one-nonblank-record'')
         | Some clean \<Rightarrow>
             if length prior + length separator + length clean + 1 > MAX_RAW_STREAM_BYTES then Inl limit_failure
             else (case decode_record loads clean (body_text body ''source_path'') 1 of
                 Inl diag \<Rightarrow> Inl (StreamFailure (ascii_upper (d_code diag)) ''/record'' (d_rule diag))
               | Inr event \<Rightarrow>
                   (case apply_event (state_defaults declared) event (map_of declared) (body_text body ''source_path'') 1 of
                      Raised e \<Rightarrow> Inl (StreamRaises e)
                    | Rejected diag \<Rightarrow> Inl (record_failure (d_rule diag))
                    | Applied _ \<Rightarrow>
                        (let appended = prior @ separator @ clean @ [0x0A] in
                         rbind (body_from_raw_stream appended (PStr (body_text body ''source_oid''))
                                  (PStr (body_text body ''source_path''))) (\<lambda>updated.
                           Inr \<lparr>pa_body = updated, pa_raw = appended, pa_prior = prior\<rparr>)))))))"

text \<open>
  \<open>append_and_publish\<close>: one publication of the prepared body. The digest of the prior bytes
  (\<open>prior_sha256\<close>) is kept as the bytes themselves.
\<close>

definition append_and_publish ::
  "json_loads \<Rightarrow> (pydict \<Rightarrow> string \<Rightarrow> 'r) \<Rightarrow> pyval \<Rightarrow> bytes \<Rightarrow> pyval \<Rightarrow> string \<Rightarrow> stream_error + 'r" where
  "append_and_publish loads publish body record registry expected_oid =
     (if \<not> is_oid expected_oid then Inl (StreamFailure ''GIT_IDENTITY'' ''expected_oid'' ''source-oid'')
      else rbind (prepare_append loads body record registry) (\<lambda>p. Inr (publish (pa_body p) expected_oid)))"

definition node_relative_dir :: "pyval \<Rightarrow> stream_error + string" where
  "node_relative_dir v =
     (case as_str v of
        None \<Rightarrow> Inl (StreamFailure ''GIT_IDENTITY'' ''node_path'' ''network-node-path'')
      | Some s \<Rightarrow>
          if s \<in> {'''', ''.''} then Inr []
          else if \<not> is_child_node_path s then Inl (StreamFailure ''GIT_IDENTITY'' ''node_path'' ''network-node-path'')
          else Inr (s @ ''/''))"

definition validate_node_source_path :: "pyval \<Rightarrow> string \<Rightarrow> stream_error + unit" where
  "validate_node_source_path source_path relative_dir =
     (if \<not> hashable source_path then Inl (StreamRaises TypeError)
      else if source_path \<notin> {PStr (relative_dir @ STREAM_PATH), PStr (relative_dir @ LEGACY_STREAM_PATH)}
      then Inl (StreamFailure ''GIT_IDENTITY'' ''/body/source_path'' ''stream-node-coordinate'')
      else Inr ())"

section \<open>Base64 round trip\<close>

lemma b64_alphabet_value:
  assumes "n < 64"
  shows "b64_value (b64_char n) = Some n" "b64_char n \<noteq> CHR ''=''" "char_code (b64_char n) < 128"
proof -
  have len: "length b64_alphabet = 64" by (simp add: b64_alphabet_def)
  have vals: "map b64_value b64_alphabet = map Some [0..<64]" by code_simp
  have safe: "list_all (\<lambda>c. c \<noteq> CHR ''='' \<and> char_code c < 128) b64_alphabet" by code_simp
  have n: "n < length b64_alphabet" using assms len by simp
  have "map b64_value b64_alphabet ! n = Some n" using assms by (simp only: vals nth_map length_upt nth_upt) simp
  then show "b64_value (b64_char n) = Some n" using n by (simp add: b64_char_def)
  from n have "b64_char n \<in> set b64_alphabet" by (simp add: b64_char_def)
  with safe show "b64_char n \<noteq> CHR ''=''" "char_code (b64_char n) < 128" by (auto simp: list_all_iff)
qed

lemma byte_of_unat [simp]: "byte_of (unat b) = b"
  by (simp add: byte_of_def)

lemma byte_lt: "unat (b :: byte) < 256"
  using unsigned_less [of b] by simp

lemma sextets:
  fixes a b c :: byte
  shows "unat a div 4 < 64" "(unat a mod 4) * 16 < 64" "(unat a mod 4) * 16 + unat b div 16 < 64"
    "(unat b mod 16) * 4 < 64" "(unat b mod 16) * 4 + unat c div 64 < 64" "unat c mod 64 < 64"
    "(unat a div 4) * 4 + ((unat a mod 4) * 16) div 16 = unat a"
    "(unat a div 4) * 4 + ((unat a mod 4) * 16 + unat b div 16) div 16 = unat a"
    "(((unat a mod 4) * 16 + unat b div 16) mod 16) * 16 + ((unat b mod 16) * 4) div 4 = unat b"
    "(((unat a mod 4) * 16 + unat b div 16) mod 16) * 16 + ((unat b mod 16) * 4 + unat c div 64) div 4 = unat b"
    "(((unat b mod 16) * 4 + unat c div 64) mod 4) * 64 + unat c mod 64 = unat c"
proof -
  have lt: "unat a div 4 < 64" "unat b div 16 < 16" "unat c div 64 < 4"
    using byte_lt [of a] byte_lt [of b] byte_lt [of c] by linarith+
  have md: "unat a mod 4 < 4" "unat b mod 16 < 16" "unat c mod 64 < 64" by simp_all
  have dv: "(m * k + q) div k = m" "(m * k + q) mod k = q" if "q < k" for m q k :: nat using that by simp_all
  show "unat a div 4 < 64" "(unat a mod 4) * 16 < 64" "(unat a mod 4) * 16 + unat b div 16 < 64"
    "(unat b mod 16) * 4 < 64" "(unat b mod 16) * 4 + unat c div 64 < 64" "unat c mod 64 < 64"
    using lt md by linarith+
  show "(unat a div 4) * 4 + ((unat a mod 4) * 16) div 16 = unat a"
    "(unat a div 4) * 4 + ((unat a mod 4) * 16 + unat b div 16) div 16 = unat a"
    "(((unat a mod 4) * 16 + unat b div 16) mod 16) * 16 + ((unat b mod 16) * 4) div 4 = unat b"
    "(((unat a mod 4) * 16 + unat b div 16) mod 16) * 16 + ((unat b mod 16) * 4 + unat c div 64) div 4 = unat b"
    "(((unat b mod 16) * 4 + unat c div 64) mod 4) * 64 + unat c mod 64 = unat c"
    using lt(2,3) by (simp_all add: dv)
qed

lemma byte_parts [simp]:
  fixes b c :: byte
  shows "unat b div 16 div 16 = 0" "unat b div 16 mod 16 = unat b div 16"
    "unat c div 64 div 4 = 0" "unat c div 64 mod 4 = unat c div 64"
  using byte_lt [of b] byte_lt [of c] by simp_all

lemma char_code_pad [simp]: "char_code (CHR ''='') < 128"
  by code_simp

lemmas b64_sextet = sextets(1-6) [THEN b64_alphabet_value(1)] sextets(1-6) [THEN b64_alphabet_value(2)]
lemmas b64_ascii = sextets(1-6) [THEN b64_alphabet_value(3)]

locale codec =
  fixes enc :: "'a \<Rightarrow> 'b" and dec :: "'b \<Rightarrow> 'a option"
  assumes dec_enc: "dec (enc x) = Some x"
begin

lemma enc_inj: "enc x = enc y \<longleftrightarrow> x = y"
  using dec_enc by (metis option.inject)

lemma enc_unique: "dec e = Some x \<Longrightarrow> dec e = dec (enc y) \<Longrightarrow> x = y"
  by (simp add: dec_enc)

end

lemma b64_decode_encode: "b64_decode (b64_encode bs) = Some bs"
proof (induction bs rule: b64_encode.induct)
  case (4 a b c rest)
  then show ?case by (simp add: b64_sextet sextets)
next
  case (2 a)
  then show ?case by (simp add: b64_sextet sextets)
next
  case (3 a b)
  then show ?case by (simp add: b64_sextet sextets)
qed simp

interpretation b64: codec b64_encode b64_decode
  by unfold_locales (rule b64_decode_encode)

lemma b64_encode_Nil_iff [simp]: "b64_encode bs = [] \<longleftrightarrow> bs = []"
  by (cases bs rule: b64_encode.cases) auto

lemma b64_encode_shape: "b64_shape (b64_encode bs)"
proof (induction bs rule: b64_encode.induct)
  case (4 a b c rest)
  then show ?case by (simp add: b64_sextet)
next
  case (2 a)
  then show ?case by (simp add: b64_sextet)
next
  case (3 a b)
  then show ?case by (simp add: b64_sextet)
qed simp

lemma b64_encode_ascii: "list_all (\<lambda>c. char_code c < 128) (b64_encode bs)"
proof (induction bs rule: b64_encode.induct)
  case (4 a b c rest)
  then show ?case by (simp add: b64_ascii)
next
  case (2 a)
  then show ?case by (simp add: b64_ascii)
next
  case (3 a b)
  then show ?case by (simp add: b64_ascii)
qed simp

lemma rstrip_append:
  "x \<in> set ys \<Longrightarrow> x \<noteq> c \<Longrightarrow> py_rstrip_char c (xs @ ys) = xs @ py_rstrip_char c ys"
  by (simp add: py_rstrip_char_def dropWhile_append1)

lemma b64_encode_head: "bs \<noteq> [] \<Longrightarrow> \<exists>x\<in>set (b64_encode bs). x \<noteq> CHR ''=''"
  using b64_sextet by (cases bs rule: b64_encode.cases) auto

lemma b64_padding:
  "length (b64_encode bs) div 4 * 3 - (length (b64_encode bs) - length (py_rstrip_char (CHR ''='') (b64_encode bs))) = length bs \<and>
   length (b64_encode bs) mod 4 = 0 \<and>
   length (b64_encode bs) - length (py_rstrip_char (CHR ''='') (b64_encode bs)) \<le> length (b64_encode bs) div 4 * 3"
proof (induction bs rule: b64_encode.induct)
  case (4 a b c rest)
  show ?case
  proof (cases "rest = []")
    case True
    then show ?thesis by (simp add: b64_sextet py_rstrip_char_def)
  next
    case False
    then obtain x where "x \<in> set (b64_encode rest)" "x \<noteq> CHR ''=''" using b64_encode_head by blast
    note strip = rstrip_append [OF this]
    define P where "P = [b64_char (unat a div 4), b64_char ((unat a mod 4) * 16 + unat b div 16),
      b64_char ((unat b mod 16) * 4 + unat c div 64), b64_char (unat c mod 64)]"
    have "b64_encode (a # b # c # rest) = P @ b64_encode rest" "length P = 4" by (simp_all add: P_def)
    moreover define L where "L = length (b64_encode rest)"
    moreover define r where "r = length (py_rstrip_char (CHR ''='') (b64_encode rest))"
    moreover have "(4 + L) div 4 * 3 = 3 + L div 4 * 3" "(4 + L) mod 4 = L mod 4" by presburger+
    moreover have "L div 4 * 3 - (L - r) = length rest" "L mod 4 = 0" "L - r \<le> L div 4 * 3"
      using 4 by (simp_all add: L_def r_def)
    moreover from this(1,3) have "3 + L div 4 * 3 - (L - r) = Suc (Suc (Suc (length rest)))" by linarith
    ultimately show ?thesis by (simp only: length_append strip) simp
  qed
next
  case (2 a)
  then show ?case by (simp add: b64_sextet py_rstrip_char_def)
next
  case (3 a b)
  then show ?case by (simp add: b64_sextet py_rstrip_char_def)
qed (simp add: py_rstrip_char_def)

lemma body_from_raw_stream_Inr:
  "body_from_raw_stream raw oid path = Inr d \<longleftrightarrow>
     validate_anchor oid path = Inr () \<and> length raw \<le> MAX_RAW_STREAM_BYTES \<and>
     d = [(''raw_stream_base64'', PStr (b64_encode raw)), (''source_oid'', oid), (''source_path'', path)]"
  by (cases "validate_anchor oid path") (auto simp: body_from_raw_stream_def)

lemma decode_body:
  assumes "body_from_raw_stream raw oid path = Inr d"
  shows "decode_raw_stream (PDict d) = Inr raw"
  using assms b64_encode_shape [of raw] b64_encode_ascii [of raw] b64_padding [of raw] b64_decode_encode [of raw]
  by (auto simp: body_from_raw_stream_Inr decode_raw_stream_def py_get_def Let_def)

text \<open>
  C26: what the durable body stores is the stream: decoding the body made from any bytes gives
  exactly these bytes back, whatever they contain.
\<close>

theorem stream_body_roundtrip:
  assumes "body_from_raw_stream raw oid path = Inr d"
  shows "decode_raw_stream (PDict d) = Inr raw"
  using assms by (rule decode_body)

theorem stream_body_roundtrip_witness:
  "\<exists>d. body_from_raw_stream [0, 255, 10, 65] (PStr (replicate 40 (CHR ''a''))) (PStr STREAM_PATH) = Inr d \<and>
     decode_raw_stream (PDict d) = Inr [0, 255, 10, 65]"
proof -
  have "validate_anchor (PStr (replicate 40 (CHR ''a''))) (PStr STREAM_PATH) = Inr ()" by code_simp
  then obtain d where d: "body_from_raw_stream [0, 255, 10, 65] (PStr (replicate 40 (CHR ''a''))) (PStr STREAM_PATH) = Inr d"
    by (simp add: body_from_raw_stream_Inr MAX_RAW_STREAM_BYTES_def)
  from stream_body_roundtrip [OF d] d show ?thesis by blast
qed

section \<open>Framing\<close>

text \<open>The records of a byte sequence by structural recursion; the first argument is the open record.\<close>

fun records_of :: "bytes \<Rightarrow> bytes \<Rightarrow> bytes list" where
  "records_of acc [] = (if acc = [] then [] else [acc])"
| "records_of acc (b # bs) =
     (if b = 0x0A then acc # records_of [] bs
      else if b = 0x0D then acc # (case bs of c # cs \<Rightarrow> (if c = 0x0A then records_of [] cs else records_of [] bs) | [] \<Rightarrow> [])
      else records_of (acc @ [b]) bs)"

lemma physical_records_from_eq:
  "start \<le> cursor \<Longrightarrow> cursor \<le> length raw \<Longrightarrow>
     physical_records_from raw start cursor = records_of (take (cursor - start) (drop start raw)) (drop cursor raw)"
proof (induction raw start cursor rule: physical_records_from.induct)
  case (1 raw start cursor)
  show ?case
  proof (cases "cursor < length raw")
    case False
    then show ?thesis using "1.prems" by (subst physical_records_from.simps) auto
  next
    case True
    then have d: "drop cursor raw = raw ! cursor # drop (Suc cursor) raw" by (rule Cons_nth_drop_Suc [symmetric])
    have grow: "take (Suc cursor - start) (drop start raw) = take (cursor - start) (drop start raw) @ [raw ! cursor]"
      using True "1.prems"(1) by (simp add: Suc_diff_le take_Suc_conv_app_nth)
    consider (lf) "raw ! cursor = 0x0A" | (cr) "raw ! cursor = 0x0D" | (other) "raw ! cursor \<noteq> 0x0A" "raw ! cursor \<noteq> 0x0D" by blast
    then show ?thesis
    proof cases
      case lf
      then show ?thesis
        using True 1(1) [OF True refl refl lf] by (subst physical_records_from.simps) (simp add: d)
    next
      case cr
      have ne: "raw ! cursor \<noteq> 0x0A" using cr by simp
      show ?thesis
      proof (cases "cursor + 1 < length raw \<and> raw ! (cursor + 1) = 0x0A")
        case t: True
        then have d2: "drop (Suc cursor) raw = raw ! Suc cursor # drop (Suc (Suc cursor)) raw"
          using Cons_nth_drop_Suc [of "Suc cursor" raw] by simp
        show ?thesis
          using True cr t 1(2) [OF True refl refl ne cr] by (subst physical_records_from.simps) (simp add: d d2)
      next
        case f: False
        have "records_of [] (drop (Suc cursor) raw) =
            (case drop (Suc cursor) raw of [] \<Rightarrow> [] | c # cs \<Rightarrow> if c = 0x0A then records_of [] cs else records_of [] (drop (Suc cursor) raw))"
          using f by (cases "Suc cursor < length raw") (auto simp: Cons_nth_drop_Suc [symmetric])
        then show ?thesis
          using True cr f 1(2) [OF True refl refl ne cr] by (subst physical_records_from.simps) (auto simp: d)
      qed
    next
      case other
      then show ?thesis
        using True 1(3) [OF True refl refl other] "1.prems"(1) by (subst physical_records_from.simps) (simp add: d grow)
    qed
  qed
qed

lemma physical_records_eq: "physical_records raw = records_of [] raw"
  by (simp add: physical_records_def physical_records_from_eq)

lemma records_of_plain:
  "list_all (\<lambda>b. b \<noteq> 0x0A \<and> b \<noteq> 0x0D) clean \<Longrightarrow> records_of acc (clean @ [0x0A]) = [acc @ clean]"
  by (induction clean arbitrary: acc) auto

lemma records_of_no_breaks:
  "r \<in> set (records_of acc bs) \<Longrightarrow> list_all (\<lambda>b. b \<noteq> 0x0A \<and> b \<noteq> 0x0D) acc \<Longrightarrow>
     list_all (\<lambda>b. b \<noteq> 0x0A \<and> b \<noteq> 0x0D) r"
  by (induction acc bs rule: records_of.induct) (auto split: if_splits list.splits)

lemma records_of_terminated:
  "bs \<noteq> [] \<Longrightarrow> last bs \<in> {0x0A, 0x0D} \<Longrightarrow> x \<noteq> [] \<Longrightarrow> hd x \<noteq> 0x0A \<Longrightarrow>
     records_of acc (bs @ x) = records_of acc bs @ records_of [] x"
proof (induction acc bs rule: records_of.induct)
  case (2 acc b bs)
  show ?case
  proof (cases "bs = []")
    case True
    then show ?thesis using "2.prems" by (cases x) auto
  next
    case False
    then have "last bs \<in> {0x0A, 0x0D}" using "2.prems"(2) by simp
    with 2 False show ?thesis by (cases bs) (auto split: if_splits)
  qed
qed simp

lemma records_of_open:
  "bs \<noteq> [] \<Longrightarrow> last bs \<notin> {0x0A, 0x0D} \<Longrightarrow>
     records_of acc (bs @ 0x0A # x) = records_of acc bs @ records_of [] x"
proof (induction acc bs rule: records_of.induct)
  case (2 acc b bs)
  show ?case
  proof (cases "bs = []")
    case True
    then show ?thesis using "2.prems" by auto
  next
    case False
    then have "last bs \<notin> {0x0A, 0x0D}" using "2.prems"(2) by simp
    with 2 False show ?thesis by (cases bs) (auto split: if_splits)
  qed
qed simp

lemma records_append:
  assumes "clean \<noteq> []" "list_all (\<lambda>b. b \<noteq> 0x0A \<and> b \<noteq> 0x0D) clean"
  shows "physical_records (prior @ append_separator prior @ clean @ [0x0A]) = physical_records prior @ [clean]"
proof -
  have clean: "records_of [] (clean @ [0x0A]) = [clean]" using records_of_plain [OF assms(2), of "[]"] by simp
  have hd: "hd (clean @ [0x0A]) \<noteq> 0x0A" using assms by (cases clean) auto
  consider "prior = []" | "prior \<noteq> []" "last prior \<in> {0x0A, 0x0D}" | "prior \<noteq> []" "last prior \<notin> {0x0A, 0x0D}" by blast
  then show ?thesis
    using records_of_terminated [of prior "clean @ [0x0A]" "[]"] records_of_open [of prior "[]" "clean @ [0x0A]"] hd clean
    by cases (auto simp: physical_records_eq append_separator_def)
qed

section \<open>Replay on typed states\<close>

definition typed_state :: "(string \<times> string) list \<Rightarrow> check_values \<Rightarrow> bool" where
  "typed_state declared st \<longleftrightarrow> typed_values (map_of declared) st \<and> dom st = fst ` set declared"

definition two_types :: "(string \<times> string) list \<Rightarrow> bool" where
  "two_types declared \<longleftrightarrow> (\<forall>(name, ty)\<in>set declared. ty = ''counter'' \<or> ty = ''text'')"

lemma validated_entries_types: "validated_entries d = Inr declared \<Longrightarrow> two_types declared \<and> map fst declared = map fst d"
proof (induction d arbitrary: declared rule: validated_entries.induct)
  case (2 name ty rest)
  then show ?case
    by (cases "validated_entries rest") (auto simp: two_types_def split: if_splits)
qed (simp add: two_types_def)

lemma validated_registry_types: "validated_registry registry = Inr declared \<Longrightarrow> two_types declared"
  using validated_entries_types by (auto simp: validated_registry_def split: option.splits)

lemma two_types_lookup: "two_types declared \<Longrightarrow> map_of declared name = Some ty \<Longrightarrow> ty = ''counter'' \<or> ty = ''text''"
  by (auto simp: two_types_def dest!: map_of_SomeD)

lemma state_defaults_typed_state: "two_types declared \<Longrightarrow> typed_state declared (state_defaults declared)"
proof -
  assume two: "two_types declared"
  have "dom (state_defaults declared) = dom (map_of declared)" by (auto simp: state_defaults_def)
  then show ?thesis
    using two_types_lookup [OF two]
    by (auto simp: typed_state_def typed_values_def state_defaults_def dom_map_of_conv_image_fst)
qed

lemma merge_initial_typed:
  assumes "two_types declared"
  shows "merge_initial (map_of declared) d st = Inr st' \<Longrightarrow> typed_state declared st \<Longrightarrow> typed_state declared st'"
proof (induction "map_of declared" d st rule: merge_initial.induct)
  case (2 name v rest st)
  obtain ty where ty: "map_of declared name = Some ty" using "2.prems"(1) by (auto split: option.splits)
  then have mem: "name \<in> fst ` set declared" by (metis map_of_eq_None_iff option.distinct(1))
  have two: "ty = ''counter'' \<or> ty = ''text''" using two_types_lookup [OF assms ty] .
  have upd: "typed_state declared (st(name \<mapsto> w))" if "ty = ''counter'' \<and> (\<exists>i. w = WInt i) \<or> ty = ''text'' \<and> (\<exists>s. w = WStr s)" for w
    using that "2.prems"(2) ty mem by (auto simp: typed_state_def typed_values_def)
  show ?case
    using "2.prems"(1) ty two 2(1,2) upd by (auto split: pyval.splits if_splits)
qed simp

lemma validated_initial_state_typed:
  assumes "two_types declared" "validated_initial_state declared v = Inr st"
  shows "typed_state declared st"
  using assms merge_initial_typed [OF assms(1)] state_defaults_typed_state [OF assms(1)]
  by (auto simp: validated_initial_state_def split: if_splits option.splits)

text \<open>On typed states, whether an event is applied does not depend on the state.\<close>

definition event_accepted :: "(string \<times> string) list \<Rightarrow> pydict \<Rightarrow> bool" where
  "event_accepted declared event \<longleftrightarrow> (\<exists>st. apply_event (state_defaults declared) event (map_of declared) [] 0 = Applied st)"

lemma typed_counter: "typed_state declared st \<Longrightarrow> map_of declared name = Some ''counter'' \<Longrightarrow> \<exists>i. st name = Some (WInt i)"
  by (simp add: typed_state_def typed_values_def)

lemma apply_event_uniform:
  assumes "typed_state declared s" "typed_state declared t"
  shows "(\<exists>st. apply_event s event (map_of declared) path line = Applied st) \<longleftrightarrow>
    (\<exists>st. apply_event t event (map_of declared) path' line' = Applied st)"
proof (cases "as_str (py_get event ''var'')")
  case (Some var)
  show ?thesis
  proof (cases "map_of declared var")
    case (Some ty)
    then show ?thesis
      using \<open>as_str (py_get event ''var'') = Some var\<close> typed_counter [OF assms(1), of var] typed_counter [OF assms(2), of var]
      by (auto simp: apply_event_def Let_def split: pyval.split option.splits sum.splits)
  qed (simp add: apply_event_def \<open>as_str (py_get event ''var'') = Some var\<close>)
qed (simp add: apply_event_def)

lemma apply_event_typed_state:
  assumes "two_types declared" "typed_state declared s" "apply_event s event (map_of declared) path line = Applied st"
  shows "typed_state declared st"
proof -
  obtain var where var: "py_get event ''var'' = PStr var" "var \<noteq> []"
    using assms(3) by (auto simp: apply_event_def split: option.splits if_splits)
  then obtain ty where ty: "map_of declared var = Some ty"
    using assms(3) by (auto simp: apply_event_def split: option.splits)
  then have mem: "var \<in> fst ` set declared" by (metis map_of_eq_None_iff option.distinct(1))
  have upd: "typed_state declared (s(var \<mapsto> w))" if "ty = ''counter'' \<and> (\<exists>i. w = WInt i) \<or> ty = ''text'' \<and> (\<exists>x. w = WStr x)" for w
    using that assms(2) ty mem by (auto simp: typed_state_def typed_values_def)
  show ?thesis
    using assms(3) var ty two_types_lookup [OF assms(1) ty] upd
    by (auto simp: apply_event_def Let_def split: pyval.splits if_splits option.splits sum.splits)
qed

text \<open>An event that names a declared variable and whose operation is a list or an object.\<close>

definition unhashable_op_event :: "check_registry \<Rightarrow> pydict \<Rightarrow> bool" where
  "unhashable_op_event registry event \<longleftrightarrow>
     (\<exists>var. py_get event ''var'' = PStr var \<and> var \<noteq> [] \<and> registry var \<noteq> None) \<and> \<not> hashable (py_get event ''op'')"

lemma apply_event_raises:
  assumes "typed_state declared s" "two_types declared"
  shows "(\<exists>e. apply_event s event (map_of declared) path line = Raised e) \<longleftrightarrow> unhashable_op_event (map_of declared) event"
proof (cases "as_str (py_get event ''var'')")
  case None
  then show ?thesis by (auto simp: apply_event_def unhashable_op_event_def)
next
  case (Some var)
  then have v: "py_get event ''var'' = PStr var" by simp
  show ?thesis
  proof (cases "map_of declared var")
    case None
    then show ?thesis by (auto simp: apply_event_def unhashable_op_event_def v)
  next
    case (Some ty)
    then show ?thesis
      using typed_counter [OF assms(1), of var]
      by (auto simp: apply_event_def unhashable_op_event_def v Let_def split: pyval.split option.splits sum.splits)
  qed
qed

lemma decode_record_position:
  "decode_record loads r path line = Inr event \<Longrightarrow> decode_record loads r path' line' = Inr event"
  by (auto simp: decode_record_def split: if_splits option.splits)

lemma replay_record_typed:
  assumes "two_types declared" "typed_state declared (p_state p)"
    and "replay_record loads (map_of declared) path line r p = Inr q"
  shows "typed_state declared (p_state q)"
  using assms(3) apply_event_typed_state [OF assms(1,2)] assms(2)
  by (auto simp: replay_record_def split: if_splits sum.splits applied.splits)

lemma replay_records_append:
  "replay_records loads R path line (rs @ [r]) p =
     rbind (replay_records loads R path line rs p) (replay_record loads R path (line + length rs) r)"
proof (induction rs arbitrary: line p)
  case Nil
  then show ?case by (cases "replay_record loads R path line r p") simp_all
next
  case (Cons a rs)
  then show ?case by (cases "replay_record loads R path line a p") simp_all
qed

lemma replay_records_typed:
  assumes "two_types declared"
  shows "replay_records loads (map_of declared) path line rs p = Inr q \<Longrightarrow> typed_state declared (p_state p) \<Longrightarrow>
     typed_state declared (p_state q)"
proof (induction rs arbitrary: line p)
  case (Cons r rs)
  from Cons.prems(1) obtain m where m: "replay_record loads (map_of declared) path line r p = Inr m"
    "replay_records loads (map_of declared) path (Suc line) rs m = Inr q"
    by (cases "replay_record loads (map_of declared) path line r p") auto
  show ?case
    using Cons.IH [OF m(2)] replay_record_typed [OF assms Cons.prems(2) m(1)] by blast
qed simp

lemma replay_record_raises:
  assumes "two_types declared" "typed_state declared (p_state p)"
  shows "(\<exists>e. replay_record loads (map_of declared) path line r p = Inl e) \<longleftrightarrow>
    \<not> record_is_blank r \<and> (\<exists>event. decode_record loads r path 1 = Inr event \<and> unhashable_op_event (map_of declared) event)"
proof (cases "record_is_blank r")
  case False
  show ?thesis
  proof (cases "decode_record loads r path line")
    case (Inl diag)
    then have "decode_record loads r path 1 \<noteq> Inr event" for event
      using decode_record_position by (metis sum.distinct(1))
    then show ?thesis using False Inl by (simp add: replay_record_def)
  next
    case (Inr event)
    then have "decode_record loads r path 1 = Inr event" by (rule decode_record_position)
    then show ?thesis
      using False Inr apply_event_raises [OF assms(2,1), of event path line]
      by (auto simp: replay_record_def split: applied.split)
  qed
qed (simp add: replay_record_def)

lemma replay_records_raises:
  assumes "two_types declared"
  shows "typed_state declared (p_state p) \<Longrightarrow>
    (\<exists>e. replay_records loads (map_of declared) path line rs p = Inl e) \<longleftrightarrow>
    (\<exists>r\<in>set rs. \<not> record_is_blank r \<and>
       (\<exists>event. decode_record loads r path 1 = Inr event \<and> unhashable_op_event (map_of declared) event))"
proof (induction rs arbitrary: line p)
  case (Cons r rs)
  show ?case
  proof (cases "replay_record loads (map_of declared) path line r p")
    case (Inl e)
    then show ?thesis using replay_record_raises [OF assms Cons.prems, of loads path line r] by auto
  next
    case (Inr q)
    then have "typed_state declared (p_state q)" using replay_record_typed [OF assms Cons.prems] by blast
    from Cons.IH [OF this, of "Suc line"] show ?thesis
      using Inr replay_record_raises [OF assms Cons.prems, of loads path line r] by auto
  qed
qed simp

section \<open>Properties of replay and append\<close>

text \<open>
  C40: replay is typed: when it returns, the state holds exactly the declared checks, each with a
  value of its declared type, whatever bytes the stream contains.
\<close>

theorem replay_typed:
  assumes "replay loads body registry initial = Inr p" "validated_registry registry = Inr declared"
  shows "typed_state declared (p_state p)"
proof -
  have two: "two_types declared" by (rule validated_registry_types [OF assms(2)])
  obtain raw st where "decode_raw_stream body = Inr raw" and st: "validated_initial_state declared initial = Inr st"
    and "lift_exc (replay_records loads (map_of declared) (body_text body ''source_path'') 1 (physical_records raw)
         \<lparr>p_state = st, p_last = Map.empty, p_diags = []\<rparr>) = Inr p"
    using assms
    by (cases "decode_raw_stream body"; cases "validated_initial_state declared initial") (auto simp: replay_def)
  then show ?thesis
    using replay_records_typed [OF two] validated_initial_state_typed [OF two st]
    by (fastforce simp: lift_exc_def split: sum.splits)
qed

text \<open>
  Replay answers every malformed record with a diagnostic, with one exception: it raises
  exactly when some record that is not blank decodes to an event that names a declared check and
  has a list or an object as its operation. Such a record hides the whole stream.
\<close>

theorem replay_raises_iff:
  assumes "decode_raw_stream body = Inr raw" "validated_registry registry = Inr declared"
    and "validated_initial_state declared initial = Inr st"
  shows "(\<exists>e. replay loads body registry initial = Inl e) \<longleftrightarrow>
    (\<exists>r\<in>set (physical_records raw). \<not> record_is_blank r \<and>
       (\<exists>event. decode_record loads r (body_text body ''source_path'') 1 = Inr event \<and>
          unhashable_op_event (map_of declared) event))"
proof -
  have two: "two_types declared" by (rule validated_registry_types [OF assms(2)])
  let ?p = "\<lparr>p_state = st, p_last = Map.empty, p_diags = []\<rparr>"
  have "(\<exists>e. replay loads body registry initial = Inl e) \<longleftrightarrow>
      (\<exists>e. replay_records loads (map_of declared) (body_text body ''source_path'') 1 (physical_records raw) ?p = Inl e)"
    using assms by (auto simp: replay_def lift_exc_def split: sum.splits)
  then show ?thesis
    using replay_records_raises [OF two, of ?p] validated_initial_state_typed [OF two assms(3)] by simp
qed

lemma single_record_Some:
  "single_record rs clean = Inr (Some r) \<Longrightarrow> clean = None \<Longrightarrow> rs = [r] \<and> \<not> record_is_blank r"
  by (cases rs; cases "tl rs") (auto split: if_splits)

lemma prepare_append_Inr:
  assumes "prepare_append loads body record registry = Inr pa"
  obtains prior declared clean event st where
    "decode_raw_stream body = Inr prior" "validated_registry registry = Inr declared"
    "physical_records record = [clean]" "\<not> record_is_blank clean"
    "decode_record loads clean (body_text body ''source_path'') 1 = Inr event"
    "apply_event (state_defaults declared) event (map_of declared) (body_text body ''source_path'') 1 = Applied st"
    "pa_prior pa = prior" "pa_raw pa = prior @ append_separator prior @ clean @ [0x0A]"
    "body_from_raw_stream (pa_raw pa) (PStr (body_text body ''source_oid'')) (PStr (body_text body ''source_path'')) = Inr (pa_body pa)"
proof -
  obtain prior declared where d: "decode_raw_stream body = Inr prior" "validated_registry registry = Inr declared"
    using assms by (cases "decode_raw_stream body"; cases "validated_registry registry") (auto simp: prepare_append_def)
  obtain clean where sr: "single_record (physical_records record) None = Inr (Some clean)"
    using assms d
    by (cases "single_record (physical_records record) None") (auto simp: prepare_append_def Let_def split: if_splits option.splits)
  obtain event where e: "decode_record loads clean (body_text body ''source_path'') 1 = Inr event"
    using assms d sr by (auto simp: prepare_append_def Let_def split: if_splits sum.splits)
  obtain st where st: "apply_event (state_defaults declared) event (map_of declared) (body_text body ''source_path'') 1 = Applied st"
    using assms d sr e by (auto simp: prepare_append_def Let_def split: if_splits applied.splits)
  obtain updated where u: "body_from_raw_stream (prior @ append_separator prior @ clean @ [0x0A])
      (PStr (body_text body ''source_oid'')) (PStr (body_text body ''source_path'')) = Inr updated"
    and pa: "pa = \<lparr>pa_body = updated, pa_raw = prior @ append_separator prior @ clean @ [0x0A], pa_prior = prior\<rparr>"
    using assms d sr e st
    by (cases "body_from_raw_stream (prior @ append_separator prior @ clean @ [0x0A])
      (PStr (body_text body ''source_oid'')) (PStr (body_text body ''source_path''))")
      (auto simp: prepare_append_def Let_def split: if_splits)
  show ?thesis using that [OF d _ _ e st] single_record_Some [OF sr] u pa by simp
qed

text \<open>
  C27: an append is one event: when an append is prepared for a stream that replays, the new stream
  replays too, to the same projection except that exactly the appended event has been applied
  and its check is anchored at the new last line; no earlier record changes its meaning.
\<close>

theorem append_then_replay:
  assumes "prepare_append loads body record registry = Inr pa"
    and "replay loads body registry initial = Inr p"
  shows "\<exists>declared event st. validated_registry registry = Inr declared \<and>
    apply_event (p_state p) event (map_of declared) (body_text body ''source_path'') (Suc (length (physical_records (pa_prior pa)))) = Applied st \<and>
    replay loads (PDict (pa_body pa)) registry initial =
      Inr (p\<lparr>p_state := st,
            p_last := (p_last p)(py_str (py_get event ''var'') \<mapsto>
              (body_text body ''source_path'', Suc (length (physical_records (pa_prior pa)))))\<rparr>)"
proof -
  obtain prior declared clean event st0 where pa: "decode_raw_stream body = Inr prior" "validated_registry registry = Inr declared"
    "physical_records record = [clean]" "\<not> record_is_blank clean"
    "decode_record loads clean (body_text body ''source_path'') 1 = Inr event"
    "apply_event (state_defaults declared) event (map_of declared) (body_text body ''source_path'') 1 = Applied st0"
    "pa_prior pa = prior" "pa_raw pa = prior @ append_separator prior @ clean @ [0x0A]"
    "body_from_raw_stream (pa_raw pa) (PStr (body_text body ''source_oid'')) (PStr (body_text body ''source_path'')) = Inr (pa_body pa)"
    by (rule prepare_append_Inr [OF assms(1)])
  let ?path = "body_text body ''source_path''" and ?line = "Suc (length (physical_records prior))"
  have two: "two_types declared" by (rule validated_registry_types [OF pa(2)])
  obtain st1 where st1: "validated_initial_state declared initial = Inr st1"
    and run: "replay_records loads (map_of declared) ?path 1 (physical_records prior) \<lparr>p_state = st1, p_last = Map.empty, p_diags = []\<rparr> = Inr p"
    using assms(2) pa(1,2)
    by (cases "validated_initial_state declared initial") (auto simp: replay_def lift_exc_def split: sum.splits)
  have typed: "typed_state declared (p_state p)"
    using replay_records_typed [OF two run] validated_initial_state_typed [OF two st1] by simp
  then obtain st where st: "apply_event (p_state p) event (map_of declared) ?path ?line = Applied st"
    using apply_event_uniform [OF state_defaults_typed_state [OF two] typed] pa(6) by blast
  have clean: "clean \<noteq> []" "list_all (\<lambda>b. b \<noteq> 0x0A \<and> b \<noteq> 0x0D) clean"
    using pa(3,4) records_of_no_breaks [of clean "[]" "record"] by (auto simp: record_is_blank_def physical_records_eq)
  have recs: "physical_records (pa_raw pa) = physical_records prior @ [clean]"
    unfolding pa(8) by (rule records_append [OF clean])
  have dec: "decode_raw_stream (PDict (pa_body pa)) = Inr (pa_raw pa)" by (rule decode_body [OF pa(9)])
  have path: "body_text (PDict (pa_body pa)) ''source_path'' = ?path"
    using pa(9) by (auto simp: body_from_raw_stream_Inr body_text_def py_get_def)
  have "replay loads (PDict (pa_body pa)) registry initial =
      lift_exc (rbind (Inr p) (replay_record loads (map_of declared) ?path ?line clean))"
    using run by (simp add: replay_def dec pa(2) st1 path recs replay_records_append)
  also have "\<dots> = Inr (p\<lparr>p_state := st, p_last := (p_last p)(py_str (py_get event ''var'') \<mapsto> (?path, ?line))\<rparr>)"
    using pa(4) decode_record_position [OF pa(5)] st by (simp add: replay_record_def lift_exc_def)
  finally show ?thesis using pa(2,7) st by auto
qed

section \<open>Concrete instances\<close>

text \<open>The records \<open>{"var":"n","op":"inc"}\<close> and \<open>{"var":"n","op":[]}\<close>, and what a JSON reader makes of them.\<close>

definition inc_text :: code_points where
  "inc_text = [123, 34, 118, 97, 114, 34, 58, 34, 110, 34, 44, 34, 111, 112, 34, 58, 34, 105, 110, 99, 34, 125]"

definition bad_text :: code_points where
  "bad_text = [123, 34, 118, 97, 114, 34, 58, 34, 110, 34, 44, 34, 111, 112, 34, 58, 91, 93, 125]"

definition example_loads :: json_loads where
  "example_loads obj const cs =
     (if cs = inc_text then Some (PDict [(''var'', PStr ''n''), (''op'', PStr ''inc'')])
      else if cs = bad_text then Some (PDict [(''var'', PStr ''n''), (''op'', PList [])])
      else None)"

definition example_dict :: "bytes \<Rightarrow> pydict" where
  "example_dict raw = [(''raw_stream_base64'', PStr (b64_encode raw)),
     (''source_oid'', PStr (replicate 40 (CHR ''a''))), (''source_path'', PStr STREAM_PATH)]"

abbreviation example_body :: "bytes \<Rightarrow> pyval" where
  "example_body raw \<equiv> PDict (example_dict raw)"

definition example_registry :: pyval where
  "example_registry = PDict [(''n'', PStr ''counter'')]"

lemma example_decode: "length raw \<le> MAX_RAW_STREAM_BYTES \<Longrightarrow> decode_raw_stream (example_body raw) = Inr raw"
proof -
  assume "length raw \<le> MAX_RAW_STREAM_BYTES"
  moreover have "validate_anchor (PStr (replicate 40 (CHR ''a''))) (PStr STREAM_PATH) = Inr ()" by code_simp
  ultimately have "body_from_raw_stream raw (PStr (replicate 40 (CHR ''a''))) (PStr STREAM_PATH) =
      Inr [(''raw_stream_base64'', PStr (b64_encode raw)), (''source_oid'', PStr (replicate 40 (CHR ''a''))), (''source_path'', PStr STREAM_PATH)]"
    by (simp add: body_from_raw_stream_Inr)
  then show ?thesis unfolding example_dict_def by (rule decode_body)
qed

lemma example_validated: "validated_registry example_registry = Inr [(''n'', ''counter'')]"
  by code_simp

definition inc_bytes :: bytes where "inc_bytes = map word_of_nat inc_text"
definition bad_bytes :: bytes where "bad_bytes = map word_of_nat bad_text"

lemma inc_record: "decode_record example_loads inc_bytes path line = Inr [(''var'', PStr ''n''), (''op'', PStr ''inc'')]"
proof -
  have "json_depth_exceeds inc_bytes MAX_RECORD_DEPTH = False" by code_simp
  moreover have "utf8_decode inc_bytes = Some inc_text" by code_simp
  ultimately show ?thesis by (simp add: decode_record_def example_loads_def)
qed

lemma bad_record: "decode_record example_loads bad_bytes path line = Inr [(''var'', PStr ''n''), (''op'', PList [])]"
proof -
  have "json_depth_exceeds bad_bytes MAX_RECORD_DEPTH = False" by code_simp
  moreover have "utf8_decode bad_bytes = Some bad_text" by code_simp
  moreover have "bad_text \<noteq> inc_text" by code_simp
  ultimately show ?thesis by (simp add: decode_record_def example_loads_def)
qed

lemma inc_framed: "physical_records inc_bytes = [inc_bytes]" "physical_records bad_bytes = [bad_bytes]"
  "\<not> record_is_blank inc_bytes" "\<not> record_is_blank bad_bytes" "length inc_bytes = 22" "length bad_bytes = 19"
  unfolding physical_records_eq by code_simp+

lemma example_apply:
  "apply_event (state_defaults [(''n'', ''counter'')]) [(''var'', PStr ''n''), (''op'', PStr ''inc'')] (map_of [(''n'', ''counter'')]) path line =
     Applied ((state_defaults [(''n'', ''counter'')])(''n'' \<mapsto> WInt 1))"
  by (simp add: apply_event_def py_get_def py_get_default_def state_defaults_def)

lemma example_replay_empty:
  "replay example_loads (example_body []) example_registry PNone =
     Inr \<lparr>p_state = state_defaults [(''n'', ''counter'')], p_last = Map.empty, p_diags = []\<rparr>"
  by (simp add: replay_def example_decode example_validated validated_initial_state_def lift_exc_def physical_records_eq)

lemma example_append:
  "\<exists>pa. prepare_append example_loads (example_body []) inc_bytes example_registry = Inr pa \<and> pa_prior pa = [] \<and>
     pa_body pa = example_dict (inc_bytes @ [0x0A])"
proof -
  have "validate_anchor (PStr (replicate 40 (CHR ''a''))) (PStr STREAM_PATH) = Inr ()" by code_simp
  moreover have "body_text (example_body []) ''source_oid'' = replicate 40 (CHR ''a'')"
    "body_text (example_body []) ''source_path'' = STREAM_PATH" by code_simp+
  ultimately show ?thesis
    by (simp add: prepare_append_def example_decode example_validated Let_def append_separator_def inc_framed inc_record
        example_apply [simplified] body_from_raw_stream_def example_dict_def [of "inc_bytes @ [0x0A]"] MAX_RAW_STREAM_BYTES_def)
qed

theorem replay_typed_witness:
  "typed_state [(''n'', ''counter'')] (state_defaults [(''n'', ''counter'')])"
  using replay_typed [OF example_replay_empty example_validated] by simp

theorem replay_raises_iff_witness:
  "\<exists>e. replay example_loads (example_body bad_bytes) example_registry PNone = Inl e"
proof -
  have d: "decode_raw_stream (example_body bad_bytes) = Inr bad_bytes"
    by (rule example_decode) (simp add: inc_framed MAX_RAW_STREAM_BYTES_def)
  have i: "validated_initial_state [(''n'', ''counter'')] PNone = Inr (state_defaults [(''n'', ''counter'')])"
    by (simp add: validated_initial_state_def)
  have "unhashable_op_event (map_of [(''n'', ''counter'')]) [(''var'', PStr ''n''), (''op'', PList [])]"
    by (simp add: unhashable_op_event_def py_get_def)
  with replay_raises_iff [OF d example_validated i, of example_loads] show ?thesis
    by (simp add: inc_framed bad_record)
qed

theorem append_then_replay_witness:
  "\<exists>pa st. prepare_append example_loads (example_body []) inc_bytes example_registry = Inr pa \<and>
     replay example_loads (PDict (pa_body pa)) example_registry PNone =
       Inr \<lparr>p_state = st, p_last = [''n'' \<mapsto> (STREAM_PATH, 1)], p_diags = []\<rparr>"
proof -
  obtain pa where pa: "prepare_append example_loads (example_body []) inc_bytes example_registry = Inr pa" "pa_prior pa = []"
    using example_append by blast
  have path: "body_text (example_body []) ''source_path'' = STREAM_PATH" by code_simp
  from append_then_replay [OF pa(1) example_replay_empty] obtain event st where
    ev: "apply_event (state_defaults [(''n'', ''counter'')]) event (map_of [(''n'', ''counter'')]) STREAM_PATH 1 = Applied st"
    and rep: "replay example_loads (PDict (pa_body pa)) example_registry PNone =
      Inr \<lparr>p_state = st, p_last = [py_str (py_get event ''var'') \<mapsto> (STREAM_PATH, 1)], p_diags = []\<rparr>"
    by (auto simp: example_validated pa(2) path physical_records_eq)
  have "py_str (py_get event ''var'') = ''n''"
    using ev by (auto simp: apply_event_def split: option.splits if_splits)
  with pa(1) rep show ?thesis by auto
qed

section \<open>Publication through git\<close>

text \<open>
  The git repository, the body codec and the reader of network bodies are arguments. The branch
  head is read twice (\<open>sg_head\<close> takes the number of the read), since it may move in between;
  \<open>sg_commit\<close> is the commit of the temporary index: the tree of the expected commit with one
  path set and, when it exists, the legacy path removed.
\<close>

record stream_git =
  sg_head :: "nat \<Rightarrow> string \<Rightarrow> string option"
  sg_show :: "string \<Rightarrow> string \<Rightarrow> bytes option"
  sg_exists :: "string \<Rightarrow> string \<Rightarrow> bool"
  sg_commit :: "string \<Rightarrow> string \<Rightarrow> bytes \<Rightarrow> string option \<Rightarrow> string"
  sg_update_ref :: "string \<Rightarrow> string \<Rightarrow> string \<Rightarrow> bool"
  sg_read_manifest :: "string \<Rightarrow> pyval option"

record stream_codec =
  sc_parse :: "bytes \<Rightarrow> pydict option"
  sc_prepare :: "pydict \<Rightarrow> bytes option"

datatype append_error = FromStream stream_error | GitBodyFailure string string string

datatype publication =
    PubRejected string string append_error
  | PubUpdated string string string

definition branch_ref :: "string \<Rightarrow> string" where
  "branch_ref branch = (if startswith branch ''refs/heads/'' then branch else ''refs/heads/'' @ branch)"

definition parse_canonical_body :: "stream_codec \<Rightarrow> bytes \<Rightarrow> pydict option" where
  "parse_canonical_body client raw =
     (case sc_parse client raw of
        None \<Rightarrow> None
      | Some body \<Rightarrow> (case sc_prepare client body of
          None \<Rightarrow> None
        | Some canonical \<Rightarrow> if canonical = raw then Some body else None))"

definition from_stream :: "stream_error + 'a \<Rightarrow> append_error + 'a" where
  "from_stream r = (case r of Inl e \<Rightarrow> Inl (FromStream e) | Inr x \<Rightarrow> Inr x)"

definition manifest_failure :: "string \<Rightarrow> append_error" where
  "manifest_failure rule = GitBodyFailure ''BODY_VALIDATION'' ''patch-series-manifest.json'' rule"

definition declaration_entry :: "pyval \<Rightarrow> (string \<times> string) option" where
  "declaration_entry x =
     (case as_dict x of
        None \<Rightarrow> None
      | Some d \<Rightarrow>
          if fst ` set d \<noteq> {''name'', ''type''} then None
          else (case as_str (py_get d ''name'') of
              None \<Rightarrow> None
            | Some name \<Rightarrow> map_option (\<lambda>ty. (name, ty)) (as_str (py_get d ''type''))))"

primrec declared_registry :: "pyval list \<Rightarrow> pydict \<Rightarrow> append_error + pydict" where
  "declared_registry [] registry = Inr registry"
| "declared_registry (x # rest) registry =
     (case declaration_entry x of
        None \<Rightarrow> Inl (manifest_failure ''declared-patchwork-checks-invalid'')
      | Some (name, ty) \<Rightarrow>
          if has_key registry name then Inl (manifest_failure ''declared-patchwork-checks-invalid'')
          else declared_registry rest (registry @ [(name, PStr ty)]))"

definition registry_from_git_manifest ::
  "json_loads \<Rightarrow> stream_git \<Rightarrow> string \<Rightarrow> append_error + (string \<times> string) list" where
  "registry_from_git_manifest loads git oid =
     (let canonical = sg_show git oid ''patch-series-manifest.cue'';
          historical = sg_show git oid ''patch-series-manifest.json''
      in if canonical \<noteq> None \<and> historical \<noteq> None then Inl (manifest_failure ''manifest-ambiguous-coordinate'')
         else if canonical = None \<and> historical = None then Inl (manifest_failure ''declared-patchwork-checks-missing'')
         else (case (if canonical \<noteq> None then sg_read_manifest git oid
                     else (case utf8_decode (the historical) of
                         None \<Rightarrow> None | Some cs \<Rightarrow> loads unique_object (\<lambda>c. Inr (PFloat c)) cs)) of
             None \<Rightarrow> Inl (manifest_failure ''manifest-json'')
           | Some manifest \<Rightarrow>
               (case (case as_dict manifest of Some m \<Rightarrow> py_get m ''declared_patchwork_checks'' | None \<Rightarrow> PNone) of
                  PList ds \<Rightarrow>
                    rbind (declared_registry ds []) (\<lambda>registry.
                    case validated_registry (PDict registry) of
                      Inl (StreamRaises e) \<Rightarrow> Inl (FromStream (StreamRaises e))
                    | Inl _ \<Rightarrow> Inl (manifest_failure ''declared-patchwork-checks-invalid'')
                    | Inr declared \<Rightarrow> Inr declared)
                | _ \<Rightarrow> Inl (manifest_failure ''declared-patchwork-checks-missing''))))"

text \<open>The prepared publication: the reference, the commit, and the bytes it stores.\<close>

record prepared_publication =
  pp_ref :: string
  pp_expected :: string
  pp_commit :: string
  pp_path :: string
  pp_canonical :: bytes

definition prepare_git_publication ::
  "stream_git \<Rightarrow> stream_codec \<Rightarrow> string \<Rightarrow> pyval \<Rightarrow> pydict \<Rightarrow> string \<Rightarrow> append_error + prepared_publication" where
  "prepare_git_publication git client branch node_path body expected_oid =
     rbind (from_stream (node_relative_dir node_path)) (\<lambda>relative_dir.
     let ref = branch_ref branch; path = relative_dir @ STREAM_PATH; legacy_path = relative_dir @ LEGACY_STREAM_PATH;
         failure = GitBodyFailure ''BODY_VALIDATION'' path ''patchwork-check-stream''
     in if sg_head git 1 ref \<noteq> Some expected_oid then Inl (GitBodyFailure ''GIT_CAS'' ref ''expected-branch-oid'')
        else (case (decode_raw_stream (PDict body), validate_node_source_path (py_get body ''source_path'') relative_dir,
                    sc_prepare client body) of
            (Inr _, Inr _, Some canonical) \<Rightarrow>
              (case parse_canonical_body client canonical of
                 None \<Rightarrow> Inl failure
               | Some reparsed \<Rightarrow>
                   if map_of reparsed \<noteq> map_of body
                   then Inl (GitBodyFailure ''BODY_VALIDATION'' path ''prepared-body-round-trip'')
                   else Inr \<lparr>pp_ref = ref, pp_expected = expected_oid,
                             pp_commit = sg_commit git expected_oid path canonical
                               (if sg_exists git expected_oid legacy_path then Some legacy_path else None),
                             pp_path = path, pp_canonical = canonical\<rparr>)
          | _ \<Rightarrow> Inl failure))"

definition publish_git :: "stream_git \<Rightarrow> prepared_publication \<Rightarrow> bool \<Rightarrow> publication" where
  "publish_git git prepared inject_failure =
     (if inject_failure then
        PubRejected (pp_ref prepared) (pp_expected prepared)
          (GitBodyFailure ''GIT_PUBLICATION'' (pp_ref prepared) ''injected-publication-failure'')
      else if \<not> sg_update_ref git (pp_ref prepared) (pp_commit prepared) (pp_expected prepared) then
        PubRejected (pp_ref prepared) (pp_expected prepared)
          (GitBodyFailure ''GIT_CAS'' (pp_ref prepared) ''compare-and-swap'')
      else PubUpdated (pp_ref prepared) (pp_expected prepared) (pp_commit prepared))"

text \<open>The stream that an append extends: the canonical body, or an import of the legacy file.\<close>

definition stream_authority ::
  "stream_git \<Rightarrow> stream_codec \<Rightarrow> string \<Rightarrow> string \<Rightarrow> append_error + pydict" where
  "stream_authority git client relative_dir expected_oid =
     (let canonical_path = relative_dir @ STREAM_PATH; legacy_path = relative_dir @ LEGACY_STREAM_PATH;
          failure = Inl (GitBodyFailure ''BODY_VALIDATION'' canonical_path ''patchwork-check-stream'');
          mismatch = Inl (GitBodyFailure ''BODY_VALIDATION'' canonical_path ''stream-source-path-mismatch'')
      in case (sg_show git expected_oid canonical_path, sg_show git expected_oid legacy_path) of
           (Some _, Some _) \<Rightarrow> Inl (GitBodyFailure ''BODY_VALIDATION'' canonical_path ''ambiguous-stream-coordinate'')
         | (Some canonical, None) \<Rightarrow>
             (case sc_parse client canonical of
                None \<Rightarrow> failure
              | Some held \<Rightarrow>
                  (case validate_node_source_path (py_get held ''source_path'') relative_dir of
                     Inl (StreamFailure _ _ _) \<Rightarrow> mismatch
                   | Inl (StreamRaises _) \<Rightarrow> failure
                   | Inr _ \<Rightarrow> (case parse_canonical_body client canonical of
                       None \<Rightarrow> failure
                     | Some body \<Rightarrow> Inr body)))
         | (None, legacy) \<Rightarrow>
             from_stream (import_legacy_jsonl (case legacy of Some b \<Rightarrow> b | None \<Rightarrow> []) (PStr expected_oid) (PStr legacy_path)))"

definition append_to_git ::
  "json_loads \<Rightarrow> stream_git \<Rightarrow> stream_codec \<Rightarrow> string \<Rightarrow> pyval \<Rightarrow> bytes \<Rightarrow> pyval \<Rightarrow> string \<Rightarrow> bool \<Rightarrow>
   append_error + publication" where
  "append_to_git loads git client branch node_path record registry expected_oid inject_failure =
     (let ref = branch_ref branch in
      rbind (from_stream (node_relative_dir node_path)) (\<lambda>relative_dir.
      if sg_head git 0 ref \<noteq> Some expected_oid
        then Inr (PubRejected ref expected_oid (GitBodyFailure ''GIT_CAS'' ref ''expected-branch-oid''))
      else
        rbind (stream_authority git client relative_dir expected_oid) (\<lambda>body.
        rbind (case validate_node_source_path (py_get body ''source_path'') relative_dir of
                 Inl (StreamFailure _ _ _) \<Rightarrow>
                   Inl (GitBodyFailure ''BODY_VALIDATION'' (relative_dir @ STREAM_PATH) ''stream-source-path-mismatch'')
               | Inl e \<Rightarrow> Inl (FromStream e)
               | Inr u \<Rightarrow> Inr u) (\<lambda>_.
        rbind (registry_from_git_manifest loads git expected_oid) (\<lambda>manifest_registry.
        rbind (from_stream (validated_registry registry)) (\<lambda>supplied.
        if map_of supplied \<noteq> map_of manifest_registry
          then Inl (manifest_failure ''patchwork-check-registry-mismatch'')
        else
          rbind (from_stream (prepare_append loads (PDict body) record
                   (PDict (map (\<lambda>(name, ty). (name, PStr ty)) manifest_registry)))) (\<lambda>appended.
          case prepare_git_publication git client branch node_path (pa_body appended) expected_oid of
            Inl (GitBodyFailure code location rule) \<Rightarrow>
              if code = ''GIT_CAS'' then Inr (PubRejected ref expected_oid (GitBodyFailure code location rule))
              else Inl (GitBodyFailure code location rule)
          | Inl e \<Rightarrow> Inl e
          | Inr prepared \<Rightarrow> Inr (publish_git git prepared inject_failure))))))))"

lemma decode_raw_stream_map_of:
  assumes "map_of d = map_of d'"
  shows "decode_raw_stream (PDict d) = decode_raw_stream (PDict d')"
proof -
  have "fst ` set d = fst ` set d'" using assms by (metis dom_map_of_conv_image_fst)
  moreover have "py_get d k = py_get d' k" for k using assms by (simp add: py_get_def)
  ultimately show ?thesis by (simp add: decode_raw_stream_def)
qed

text \<open>
  C28: a published append is one compare-and-swap from the expected commit: when the branch is
  updated, it stood at the expected commit at both reads, the swap from that commit succeeded,
  and the commit stores at the path of the node's stream (removing the legacy file when the expected commit
  has one) a canonical body that decodes to the stream held at the expected commit, extended by exactly the
  one record that was given, terminated by a line feed.
\<close>

theorem append_to_git_cas:
  assumes "append_to_git loads git client branch node_path rec registry expected_oid inject = Inr (PubUpdated ref old commit)"
  shows "ref = branch_ref branch \<and> old = expected_oid \<and> \<not> inject \<and>
    sg_head git 0 ref = Some expected_oid \<and> sg_head git 1 ref = Some expected_oid \<and>
    sg_update_ref git ref commit expected_oid \<and>
    (\<exists>dir held prior clean canonical body.
       node_relative_dir node_path = Inr dir \<and>
       stream_authority git client dir expected_oid = Inr held \<and> decode_raw_stream (PDict held) = Inr prior \<and>
       physical_records rec = [clean] \<and> \<not> record_is_blank clean \<and>
       commit = sg_commit git expected_oid (dir @ STREAM_PATH) canonical
         (if sg_exists git expected_oid (dir @ LEGACY_STREAM_PATH) then Some (dir @ LEGACY_STREAM_PATH) else None) \<and>
       parse_canonical_body client canonical = Some body \<and>
       decode_raw_stream (PDict body) = Inr (prior @ append_separator prior @ clean @ [0x0A]))"
proof -
  obtain dir where dir: "node_relative_dir node_path = Inr dir"
    using assms by (cases "node_relative_dir node_path") (auto simp: append_to_git_def Let_def from_stream_def)
  have head0: "sg_head git 0 (branch_ref branch) = Some expected_oid"
    using assms dir by (auto simp: append_to_git_def Let_def from_stream_def split: if_splits)
  obtain body where body: "stream_authority git client dir expected_oid = Inr body"
    using assms dir head0 by (cases "stream_authority git client dir expected_oid") (auto simp: append_to_git_def Let_def from_stream_def)
  obtain u where vp: "validate_node_source_path (py_get body ''source_path'') dir = Inr u"
    using assms dir head0 body
    by (cases "validate_node_source_path (py_get body ''source_path'') dir")
      (auto simp: append_to_git_def Let_def from_stream_def split: stream_error.splits)
  obtain mreg where mreg: "registry_from_git_manifest loads git expected_oid = Inr mreg"
    using assms dir head0 body vp
    by (cases "registry_from_git_manifest loads git expected_oid") (auto simp: append_to_git_def Let_def from_stream_def)
  obtain sup where sup: "validated_registry registry = Inr sup" "map_of sup = map_of mreg"
    using assms dir head0 body vp mreg
    by (cases "validated_registry registry") (auto simp: append_to_git_def Let_def from_stream_def split: if_splits)
  let ?R = "PDict (map (\<lambda>(name, ty). (name, PStr ty)) mreg)"
  obtain pa where pa: "prepare_append loads (PDict body) rec ?R = Inr pa"
    using assms dir head0 body vp mreg sup
    by (cases "prepare_append loads (PDict body) rec ?R") (auto simp: append_to_git_def Let_def from_stream_def)
  obtain pp where pp: "prepare_git_publication git client branch node_path (pa_body pa) expected_oid = Inr pp"
    and pub: "publish_git git pp inject = PubUpdated ref old commit"
    using assms dir head0 body vp mreg sup pa
    by (cases "prepare_git_publication git client branch node_path (pa_body pa) expected_oid")
      (auto simp: append_to_git_def Let_def from_stream_def split: append_error.splits if_splits)
  obtain canonical reparsed where c: "sg_head git 1 (branch_ref branch) = Some expected_oid"
    "parse_canonical_body client canonical = Some reparsed" "map_of reparsed = map_of (pa_body pa)"
    "pp_ref pp = branch_ref branch" "pp_expected pp = expected_oid"
    "pp_commit pp = sg_commit git expected_oid (dir @ STREAM_PATH) canonical
       (if sg_exists git expected_oid (dir @ LEGACY_STREAM_PATH) then Some (dir @ LEGACY_STREAM_PATH) else None)"
    using pp dir
    by (auto simp: prepare_git_publication_def Let_def from_stream_def split: if_splits sum.splits option.splits)
  obtain clean prior where pr0: "decode_raw_stream (PDict body) = Inr prior" "physical_records rec = [clean]"
    and pr: "\<not> record_is_blank clean" "pa_raw pa = prior @ append_separator prior @ clean @ [0x0A]"
    "body_from_raw_stream (pa_raw pa) (PStr (body_text (PDict body) ''source_oid'')) (PStr (body_text (PDict body) ''source_path'')) = Inr (pa_body pa)"
    by (rule prepare_append_Inr [OF pa]) blast
  have "decode_raw_stream (PDict reparsed) = decode_raw_stream (PDict (pa_body pa))"
    using decode_raw_stream_map_of [OF c(3)] .
  then have "decode_raw_stream (PDict reparsed) = Inr (prior @ append_separator prior @ clean @ [0x0A])"
    using decode_body [OF pr(3)] pr(2) by simp
  moreover have "\<not> inject \<and> sg_update_ref git (branch_ref branch) (pp_commit pp) expected_oid \<and>
      ref = branch_ref branch \<and> old = expected_oid \<and> commit = pp_commit pp"
    using pub c(4,5) by (auto simp: publish_git_def split: if_splits)
  ultimately show ?thesis using c(1,2,6) head0 pr(1) pr0 dir body
    by (intro conjI exI [of _ dir] exI [of _ body] exI [of _ prior] exI [of _ clean] exI [of _ canonical] exI [of _ reparsed]) simp_all
qed

text \<open>
  A repository at one commit whose manifest declares the counter \<open>n\<close> and whose stream is empty,
  with a codec that stores the stream bytes themselves.
\<close>

definition example_oid :: string where "example_oid = replicate 40 (CHR ''a'')"

definition example_git :: stream_git where
  "example_git = \<lparr>sg_head = (\<lambda>n ref. Some example_oid),
     sg_show = (\<lambda>oid path. if path = ''patch-series-manifest.json'' \<or> path = LEGACY_STREAM_PATH then None else Some []),
     sg_exists = (\<lambda>oid path. False),
     sg_commit = (\<lambda>oid path canonical legacy. replicate 40 (CHR ''b'')),
     sg_update_ref = (\<lambda>ref new old. True),
     sg_read_manifest = (\<lambda>oid. Some (PDict [(''declared_patchwork_checks'',
       PList [PDict [(''name'', PStr ''n''), (''type'', PStr ''counter'')]])]))\<rparr>"

definition example_codec :: stream_codec where
  "example_codec = \<lparr>sc_parse = (\<lambda>raw. Some (example_dict raw)),
     sc_prepare = (\<lambda>body. case decode_raw_stream (PDict body) of Inr raw \<Rightarrow> Some raw | Inl _ \<Rightarrow> None)\<rparr>"

lemma example_canonical:
  "length raw \<le> MAX_RAW_STREAM_BYTES \<Longrightarrow> parse_canonical_body example_codec raw = Some (example_dict raw)"
  by (simp add: parse_canonical_body_def example_codec_def example_decode)

lemma example_source: "validate_node_source_path (py_get (example_dict raw) ''source_path'') '''' = Inr ()"
  by (simp add: validate_node_source_path_def example_dict_def py_get_def)

lemma example_git_registry: "registry_from_git_manifest loads example_git example_oid = Inr [(''n'', ''counter'')]"
  by (simp add: registry_from_git_manifest_def example_git_def STREAM_PATH_def LEGACY_STREAM_PATH_def) code_simp

lemma example_authority: "stream_authority example_git example_codec '''' example_oid = Inr (example_dict [])"
  using example_canonical [of "[]"] example_source [of "[]"]
  by (simp add: stream_authority_def example_git_def example_codec_def STREAM_PATH_def LEGACY_STREAM_PATH_def)

lemma example_to_git:
  "append_to_git example_loads example_git example_codec ''main'' (PStr '''') inc_bytes example_registry example_oid False =
     Inr (PubUpdated ''refs/heads/main'' example_oid (replicate 40 (CHR ''b'')))"
proof -
  have dir: "node_relative_dir (PStr '''') = Inr ''''" by code_simp
  have ref: "branch_ref ''main'' = ''refs/heads/main''" by code_simp
  have head: "sg_head example_git n r = Some example_oid" "sg_update_ref example_git r c old"
    "sg_commit example_git oid path canonical legacy = replicate 40 (CHR ''b'')" for n r c old oid path canonical legacy
    by (simp_all add: example_git_def)
  obtain pa where pa: "prepare_append example_loads (example_body []) inc_bytes example_registry = Inr pa"
    and body: "pa_body pa = example_dict (inc_bytes @ [0x0A])"
    using example_append by blast
  have len: "length (inc_bytes @ [0x0A]) \<le> MAX_RAW_STREAM_BYTES" by (simp add: inc_framed MAX_RAW_STREAM_BYTES_def)
  have prepare: "sc_prepare example_codec (example_dict (inc_bytes @ [0x0A])) = Some (inc_bytes @ [0x0A])"
    by (simp add: example_codec_def example_decode [OF len])
  have "prepare_git_publication example_git example_codec ''main'' (PStr '''') (pa_body pa) example_oid =
     Inr \<lparr>pp_ref = ''refs/heads/main'', pp_expected = example_oid, pp_commit = replicate 40 (CHR ''b''),
          pp_path = STREAM_PATH, pp_canonical = inc_bytes @ [0x0A]\<rparr>"
    by (simp add: prepare_git_publication_def dir from_stream_def Let_def ref head body example_decode [OF len] example_source
        prepare example_canonical [OF len])
  then show ?thesis
    using pa example_validated
    by (simp add: append_to_git_def dir from_stream_def ref head Let_def example_authority example_source example_git_registry
        publish_git_def example_registry_def)
qed

theorem append_to_git_cas_witness:
  "\<exists>canonical body prior clean. parse_canonical_body example_codec canonical = Some body \<and>
     sg_head example_git 1 ''refs/heads/main'' = Some example_oid \<and> physical_records inc_bytes = [clean] \<and>
     decode_raw_stream (PDict body) = Inr (prior @ append_separator prior @ clean @ [0x0A])"
  using append_to_git_cas [OF example_to_git] by blast

end
