(* ===== verification/PyText.thy ===== *)
theory PyText imports PyPrelude begin

text \<open>
  Facts about the text operations of \<open>PyPrelude\<close> that the parsers and printers share: the
  first and the last occurrence of a separator, lines and their joining, stripping, and the
  update of a dict.
\<close>

section \<open>Dicts\<close>

text \<open>\<open>d[k] = v\<close>: in place when the key is there, at the end otherwise.\<close>

fun py_set :: "pydict \<Rightarrow> string \<Rightarrow> pyval \<Rightarrow> pydict" where
  "py_set [] k v = [(k, v)]"
| "py_set (e # d) k v = (if fst e = k then (k, v) # d else e # py_set d k v)"

lemma map_of_py_set [simp]: "map_of (py_set d k v) = (map_of d)(k \<mapsto> v)"
  by (induction d k v rule: py_set.induct) auto

lemma py_get_py_set: "py_get (py_set d k v) x = (if x = k then v else py_get d x)"
  by (simp add: py_get_def)

text \<open>The format \<open>{n:0wd}\<close>.\<close>

definition pad_nat :: "nat \<Rightarrow> nat \<Rightarrow> string" where
  "pad_nat w n = replicate (w - length (nat_str n)) (CHR ''0'') @ nat_str n"

text \<open>\<open>str.lower\<close> on the code points 0 to 255.\<close>

definition lower_char :: "char \<Rightarrow> char" where
  "lower_char c = (let n = char_code c in
     if (65 \<le> n \<and> n \<le> 90) \<or> (192 \<le> n \<and> n \<le> 222 \<and> n \<noteq> 215) then char_of (n + 32) else c)"

definition py_lower :: "string \<Rightarrow> string" where
  "py_lower s = map lower_char s"

section \<open>Occurrences\<close>

lemma startswith_prefix_append:
  "startswith (xs @ ys) p \<Longrightarrow> length p \<le> length xs \<Longrightarrow> startswith xs p"
  by (auto simp: startswith_iff append_eq_append_conv2)

lemma py_find_SomeI:
  assumes "startswith (drop i s) p" "i \<le> length s" "\<And>j. j < i \<Longrightarrow> \<not> startswith (drop j s) p"
  shows "py_find p s = Some i"
  using assms
proof (induction s arbitrary: i)
  case Nil
  then show ?case by (cases p) auto
next
  case (Cons x s)
  show ?case
  proof (cases i)
    case 0
    with Cons.prems show ?thesis by simp
  next
    case (Suc k)
    have "py_find p s = Some k"
    proof (rule Cons.IH)
      show "\<not> startswith (drop j s) p" if "j < k" for j using Cons.prems(3) [of "Suc j"] that Suc by simp
    qed (use Cons.prems Suc in simp_all)
    with Cons.prems(3) [of 0] Suc show ?thesis by simp
  qed
qed

lemma py_find_append:
  "p \<noteq> [] \<Longrightarrow> hd p \<notin> set xs \<Longrightarrow> py_find p (xs @ p @ ys) = Some (length xs)"
proof (rule py_find_SomeI)
  fix j assume p: "p \<noteq> []" "hd p \<notin> set xs" and j: "j < length xs"
  then have "drop j (xs @ p @ ys) = xs ! j # drop (Suc j) (xs @ p @ ys)"
    by (simp add: Cons_nth_drop_Suc [symmetric] nth_append)
  moreover have "xs ! j \<noteq> hd p" using p j by (metis nth_mem)
  ultimately show "\<not> startswith (drop j (xs @ p @ ys)) p" using p by (cases p) auto
qed simp_all

lemma py_partition_append:
  "p \<noteq> [] \<Longrightarrow> hd p \<notin> set xs \<Longrightarrow> py_partition p (xs @ p @ ys) = (xs, True, ys)"
  by (simp add: py_partition_def py_find_append)

lemma py_find_None_hd: "p \<noteq> [] \<Longrightarrow> hd p \<notin> set xs \<Longrightarrow> py_find p xs = None"
proof (induction xs)
  case (Cons x xs)
  then show ?case by (cases p) auto
qed simp

lemma py_rfind_NoneI:
  "p \<noteq> [] \<Longrightarrow> (\<And>j. \<not> startswith (drop j s) p) \<Longrightarrow> py_rfind p s = None"
proof (induction s)
  case (Cons x s)
  have "py_rfind p s = None"
    using Cons.prems(2) [of "Suc j" for j] by (intro Cons.IH) (use Cons.prems(1) in auto)
  with Cons.prems(2) [of 0] show ?case by simp
qed simp

lemma py_rfind_SomeI:
  assumes "p \<noteq> []" "startswith (drop i s) p" "\<And>j. i < j \<Longrightarrow> \<not> startswith (drop j s) p"
  shows "py_rfind p s = Some i"
  using assms
proof (induction s arbitrary: i)
  case Nil
  then show ?case by (cases p) auto
next
  case (Cons x s)
  show ?case
  proof (cases i)
    case 0
    have "py_rfind p s = None"
      using Cons.prems(3) [of "Suc j" for j] 0 by (intro py_rfind_NoneI) (use Cons.prems(1) in auto)
    with Cons.prems(2) 0 show ?thesis by simp
  next
    case (Suc k)
    have "py_rfind p s = Some k"
      using Cons.prems Cons.prems(3) [of "Suc j" for j] Suc by (intro Cons.IH) auto
    then show ?thesis using Suc by simp
  qed
qed

section \<open>Lines\<close>

text \<open>A line without a line break, and a nonempty one.\<close>

definition plain_line :: "string \<Rightarrow> bool" where
  "plain_line s \<longleftrightarrow> list_all (\<lambda>c. \<not> is_line_break c) s"

definition newline :: char where "newline = char_of (10 :: nat)"

lemma newline_break [simp]: "is_line_break newline" "char_code newline = 10"
  by (simp_all add: newline_def is_line_break_def char_code_def)

lemma newline_chars [simp]:
  "newline \<noteq> CHR '':''" "newline \<noteq> CHR '' ''" "newline \<noteq> CHR ''K''" "newline \<noteq> CHR ''_''" "newline \<noteq> CHR ''-''"
  "newline \<noteq> CHR ''=''"
  by code_simp+

lemma line_break_13: "char_code c = 13 \<Longrightarrow> is_line_break c"
  by (simp add: is_line_break_def)

lemma plain_line_simps [simp]:
  "plain_line []" "plain_line (c # s) \<longleftrightarrow> \<not> is_line_break c \<and> plain_line s"
  "plain_line (s @ t) \<longleftrightarrow> plain_line s \<and> plain_line t"
  by (auto simp: plain_line_def)

lemma plain_line_newline: "plain_line s \<Longrightarrow> newline \<notin> set s"
  by (auto simp: plain_line_def list_all_iff)

lemma splitlines_acc_plain: "plain_line s \<Longrightarrow> splitlines_acc cur s = (if cur = [] \<and> s = [] then [] else [rev cur @ s])"
proof (induction s arbitrary: cur)
  case (Cons c s)
  then have "char_code c \<noteq> 13" "\<not> is_line_break c" using line_break_13 by auto
  with Cons show ?case by simp
qed simp

lemma splitlines_acc_line:
  "plain_line s \<Longrightarrow> splitlines_acc cur (s @ newline # rest) = (rev cur @ s) # splitlines_acc [] rest"
proof (induction s arbitrary: cur)
  case (Cons c s)
  then have "char_code c \<noteq> 13" "\<not> is_line_break c" using line_break_13 by auto
  with Cons show ?case by simp
qed simp

lemma splitlines_join:
  "list_all (\<lambda>l. plain_line l \<and> l \<noteq> []) ls \<Longrightarrow> py_splitlines (py_join [newline] ls) = ls"
  unfolding py_splitlines_def
  by (induction "[newline]" ls rule: py_join.induct) (auto simp: splitlines_acc_plain splitlines_acc_line)

lemma py_rstrip_char_snoc:
  "py_rstrip_char c (s @ [c]) = py_rstrip_char c s"
  by (simp add: py_rstrip_char_def)

lemma py_rstrip_char_id: "s = [] \<or> last s \<noteq> c \<Longrightarrow> py_rstrip_char c s = s"
proof (induction s rule: rev_induct)
  case (snoc x s)
  then show ?case by (simp add: py_rstrip_char_def)
qed (simp add: py_rstrip_char_def)

lemma py_join_Cons: "ls \<noteq> [] \<Longrightarrow> py_join sep (l # ls) = l @ sep @ py_join sep ls"
  by (cases ls) auto

lemma py_join_snoc_last: "ls \<noteq> [] \<Longrightarrow> last ls \<noteq> [] \<Longrightarrow> last (py_join sep ls) = last (last ls) \<and> py_join sep ls \<noteq> []"
  by (induction sep ls rule: py_join.induct) auto

lemma py_join_nonempty: "ls \<noteq> [] \<Longrightarrow> hd ls \<noteq> [] \<Longrightarrow> py_join sep ls \<noteq> []"
  by (cases ls; cases "tl ls") auto

text \<open>In lines joined by a newline no two newlines are adjacent.\<close>

lemma join_no_blank_line:
  "list_all (\<lambda>l. plain_line l \<and> l \<noteq> []) ls \<Longrightarrow> \<not> startswith (drop j (py_join [newline] ls)) [newline, newline]"
proof (induction "[newline]" ls arbitrary: j rule: py_join.induct)
  case (2 x)
  have "newline \<notin> set (drop j x)" using 2 plain_line_newline [of x] by (auto dest: in_set_dropD)
  then show ?case by (cases "drop j x") auto
next
  case (3 x y ys)
  have x: "newline \<notin> set x" using 3 plain_line_newline by auto
  let ?r = "py_join [newline] (y # ys)"
  obtain c cs where r: "?r = c # cs" "c \<noteq> newline"
    using 3(2) plain_line_newline [of y] by (cases y; cases ys) auto
  show ?case
  proof (cases "j \<le> length x")
    case True
    have "newline \<notin> set (drop j x)" using x by (auto dest: in_set_dropD)
    then show ?thesis using True r by (cases "drop j x") auto
  next
    case False
    then obtain k where "j = length x + Suc k" by (metis add_Suc_right less_imp_Suc_add not_le)
    then have "drop j (py_join [newline] (x # y # ys)) = drop k ?r" by simp
    then show ?thesis using 3 by simp
  qed
qed (auto)

end
