(* ===== verification/MailingList.thy ===== *)
theory MailingList imports PyText "HOL-Library.List_Lexorder" "HOL-Library.Char_ord" begin

text \<open>
  The messages of the shared mailing list, \<open>src/ai_org/mailing_list.py\<close>: the validation of a
  post, its message id, the commit message that carries it, and the parser that reads the
  message back. Text is restricted to the code points 0 to 255.
\<close>

datatype mail_error = MailValueError string | MailTypeError string | MailRuntimeError string

section \<open>Validation\<close>

definition is_kind_token :: "string \<Rightarrow> bool" where
  "is_kind_token s \<longleftrightarrow> s \<noteq> [] \<and> length s \<le> 64 \<and> is_lower (hd s) \<and>
     list_all (\<lambda>c. is_lower c \<or> is_digit c \<or> c = CHR ''_'' \<or> c = CHR ''-'') (tl s)"

definition carriage_return :: char where "carriage_return = char_of (13 :: nat)"

definition has_line_end :: "string \<Rightarrow> bool" where
  "has_line_end s \<longleftrightarrow> newline \<in> set s \<or> carriage_return \<in> set s"

fun resolve_body_text :: "pyval \<Rightarrow> pyval \<Rightarrow> mail_error + string" where
  "resolve_body_text (PStr body) body_text =
     (case body_text of
        PNone \<Rightarrow> Inr body
      | PStr t \<Rightarrow> if body \<noteq> [] \<and> body \<noteq> t then Inl (MailValueError ''body and body_text must not conflict'')
                  else Inr t
      | _ \<Rightarrow> Inl (MailTypeError ''body_text must be a string''))"
| "resolve_body_text _ _ = Inl (MailTypeError ''body must be a string'')"

definition validate_coordinate :: "pyval \<Rightarrow> pyval \<Rightarrow> mail_error + string" where
  "validate_coordinate coordinate subject =
     (case (if coordinate = PNone then subject else coordinate) of
        PStr s \<Rightarrow> if s = [] \<or> has_line_end s
                  then Inl (MailValueError ''coordinate must be a non-empty single line'') else Inr s
      | _ \<Rightarrow> Inl (MailTypeError ''coordinate must be a string''))"

definition validate_in_reply_to :: "pyval \<Rightarrow> mail_error + string option" where
  "validate_in_reply_to in_reply_to =
     (case in_reply_to of
        PNone \<Rightarrow> Inr None
      | PStr s \<Rightarrow> if s = [] \<or> has_line_end s
                  then Inl (MailValueError ''in_reply_to must be a non-empty single line'') else Inr (Some s)
      | _ \<Rightarrow> Inl (MailTypeError ''in_reply_to must be a string''))"

text \<open>
  \<open>_normalize_mapping\<close>: the items sorted by name (the sort is stable), a list or tuple value
  giving one pair for each element.
\<close>

fun normalize_values :: "string \<Rightarrow> string \<Rightarrow> pyval list \<Rightarrow> mail_error + (string \<times> string) list" where
  "normalize_values field name [] = Inr []"
| "normalize_values field name (v # vs) =
     (if has_line_end (py_str v) then Inl (MailValueError (field @ '' values must be single-line strings''))
      else rbind (normalize_values field name vs) (\<lambda>rest. Inr ((name, py_str v) # rest)))"

definition raw_items :: "pyval \<Rightarrow> pyval list" where
  "raw_items v = (case v of PList xs \<Rightarrow> xs | _ \<Rightarrow> [v])"

fun normalize_entries :: "string \<Rightarrow> pydict \<Rightarrow> mail_error + (string \<times> string) list" where
  "normalize_entries field [] = Inr []"
| "normalize_entries field ((name, value) # rest) =
     (if name = [] \<or> CHR ''='' \<in> set name \<or> has_line_end name
        then Inl (MailValueError (field @ '' names must be non-empty single-line tokens without '' @ repr_str ''=''))
      else rbind (normalize_values field name (raw_items value)) (\<lambda>pairs.
           rbind (normalize_entries field rest) (\<lambda>others. Inr (pairs @ others))))"

definition normalize_mapping :: "pyval \<Rightarrow> string \<Rightarrow> mail_error + (string \<times> string) list" where
  "normalize_mapping values field =
     (case values of
        PNone \<Rightarrow> Inr []
      | PDict d \<Rightarrow> normalize_entries field (sort_key fst d)
      | _ \<Rightarrow> Inl (MailTypeError (field @ '' must be a mapping'')))"

definition validate_post :: "pyval \<Rightarrow> pyval \<Rightarrow> pyval \<Rightarrow> pyval \<Rightarrow> mail_error + (string \<times> string) list" where
  "validate_post kind subject body refs =
     (if (case kind of PStr k \<Rightarrow> \<not> is_kind_token k | _ \<Rightarrow> True)
        then Inl (MailValueError ''kind must be a short lowercase token'')
      else if (case subject of PStr s \<Rightarrow> s = [] \<or> has_line_end s | _ \<Rightarrow> True)
        then Inl (MailValueError ''subject must be a non-empty single line'')
      else if as_str body = None then Inl (MailTypeError ''body must be a string'')
      else if refs \<noteq> PNone \<and> as_dict refs = None then Inl (MailTypeError ''refs must be a mapping'')
      else normalize_mapping refs ''refs'')"

text \<open>What \<open>post\<close> holds once its arguments are validated.\<close>

record mail_request =
  mr_kind :: string
  mr_subject :: string
  mr_body :: string
  mr_refs :: "(string \<times> string) list"
  mr_coordinate :: string
  mr_links :: "(string \<times> string) list"
  mr_reply :: "string option"

definition prepare_post ::
  "pyval \<Rightarrow> pyval \<Rightarrow> pyval \<Rightarrow> pyval \<Rightarrow> pyval \<Rightarrow> pyval \<Rightarrow> pyval \<Rightarrow> pyval \<Rightarrow> mail_error + mail_request" where
  "prepare_post kind subject body refs coordinate body_text corresponds_to in_reply_to =
     rbind (resolve_body_text body body_text) (\<lambda>resolved.
     rbind (validate_post kind subject (PStr resolved) refs) (\<lambda>normalized_refs.
     rbind (validate_coordinate coordinate subject) (\<lambda>resolved_coordinate.
     rbind (normalize_mapping corresponds_to ''corresponds_to'') (\<lambda>links.
     rbind (validate_in_reply_to in_reply_to) (\<lambda>reply.
       Inr \<lparr>mr_kind = py_str kind, mr_subject = py_str subject, mr_body = resolved,
            mr_refs = normalized_refs, mr_coordinate = resolved_coordinate, mr_links = links,
            mr_reply = reply\<rparr>)))))"

section \<open>Message ids\<close>

text \<open>\<open>urllib.parse.quote\<close> with \<open>safe="-._~"\<close>: other characters as the percent-encoded bytes of UTF-8.\<close>

definition quote_safe :: "char \<Rightarrow> bool" where
  "quote_safe c \<longleftrightarrow> is_lower c \<or> is_upper c \<or> is_digit c \<or> c \<in> set ''-._~''"

definition hex_upper :: "nat \<Rightarrow> char" where
  "hex_upper d = (if d < 10 then char_of (48 + d) else char_of (55 + d))"

definition quote_byte :: "nat \<Rightarrow> string" where
  "quote_byte b = [CHR ''%'', hex_upper (b div 16), hex_upper (b mod 16)]"

definition quote_char :: "char \<Rightarrow> string" where
  "quote_char c =
     (let n = char_code c in
      if quote_safe c then [c]
      else if n < 128 then quote_byte n
      else quote_byte (192 + n div 64) @ quote_byte (128 + n mod 64))"

definition url_quote :: "string \<Rightarrow> string" where
  "url_quote s = concat (map quote_char s)"

definition message_id :: "string \<Rightarrow> string \<Rightarrow> nat \<Rightarrow> string" where
  "message_id kind coordinate sequence =
     kind @ ''.'' @ url_quote coordinate @ ''.'' @ nat_str sequence @ ''@ai-org-list''"

section \<open>Printing and parsing\<close>

definition pair_lines :: "string \<Rightarrow> (string \<times> string) list \<Rightarrow> string list" where
  "pair_lines head items = map (\<lambda>(name, value). head @ name @ ''='' @ value) items"

definition trailer_lines ::
  "string \<Rightarrow> string option \<Rightarrow> string option \<Rightarrow> (string \<times> string) list \<Rightarrow> (string \<times> string) list \<Rightarrow> string list" where
  "trailer_lines kind mid in_reply_to links refs =
     [''Kind: '' @ kind]
     @ (case mid of None \<Rightarrow> [] | Some m \<Rightarrow> [''Message-Id: '' @ m])
     @ (case in_reply_to of None \<Rightarrow> [] | Some r \<Rightarrow> [''In-Reply-To: '' @ r])
     @ pair_lines ''Link: '' links @ pair_lines ''Ref: '' refs"

definition post_message ::
  "string \<Rightarrow> string \<Rightarrow> string \<Rightarrow> (string \<times> string) list \<Rightarrow> string option \<Rightarrow> (string \<times> string) list \<Rightarrow>
   string option \<Rightarrow> string" where
  "post_message kind subject body refs mid links in_reply_to =
     ascii_upper kind @ '': '' @ subject @ [newline, newline] @ body @ [newline, newline] @
     py_join [newline] (trailer_lines kind mid in_reply_to links refs) @ [newline]"

text \<open>The parsed post; \<open>parsed_dict\<close> is the dict the code returns.\<close>

record parsed_post =
  pp_kind :: string
  pp_subject :: string
  pp_body :: string
  pp_refs :: pydict
  pp_message_id :: "string option"
  pp_links :: pydict
  pp_reply :: "string option"

definition parsed_dict :: "parsed_post \<Rightarrow> pydict" where
  "parsed_dict p =
     [(''kind'', PStr (pp_kind p)), (''subject'', PStr (pp_subject p)), (''body'', PStr (pp_body p)),
      (''refs'', PDict (pp_refs p))]
     @ (case pp_message_id p of None \<Rightarrow> [] | Some m \<Rightarrow> [(''body_text'', PStr (pp_body p)), (''message_id'', PStr m)])
     @ (if pp_links p = [] then [] else [(''corresponds_to'', PDict (pp_links p))])
     @ (case pp_reply p of None \<Rightarrow> [] | Some r \<Rightarrow> [(''in_reply_to'', PStr r)])"

definition malformed_trailers :: mail_error where
  "malformed_trailers = MailRuntimeError ''malformed mailing-list post trailers''"

definition append_parsed_value :: "pydict \<Rightarrow> string \<Rightarrow> string \<Rightarrow> mail_error + pydict" where
  "append_parsed_value values name v =
     (if name = [] then Inl malformed_trailers
      else case py_get values name of
          PNone \<Rightarrow> Inr (py_set values name (PStr v))
        | PList vs \<Rightarrow> Inr (py_set values name (PList (vs @ [PStr v])))
        | previous \<Rightarrow> Inr (py_set values name (PList [previous, PStr v])))"

text \<open>One trailer line: a field given once, or one more value of a mapping.\<close>

definition split_pair :: "string \<Rightarrow> string \<Rightarrow> string \<times> string" where
  "split_pair head line = (let (name, _, v) = py_partition ''='' (removeprefix line head) in (name, v))"

definition parse_trailer :: "parsed_post \<Rightarrow> string \<Rightarrow> mail_error + parsed_post" where
  "parse_trailer p line =
     (if startswith line ''Message-Id: '' then
        (if pp_message_id p \<noteq> None \<or> removeprefix line ''Message-Id: '' = [] then Inl malformed_trailers
         else Inr (p\<lparr>pp_message_id := Some (removeprefix line ''Message-Id: '')\<rparr>))
      else if startswith line ''In-Reply-To: '' then
        (if pp_reply p \<noteq> None \<or> removeprefix line ''In-Reply-To: '' = [] then Inl malformed_trailers
         else Inr (p\<lparr>pp_reply := Some (removeprefix line ''In-Reply-To: '')\<rparr>))
      else if startswith line ''Link: '' \<and> CHR ''='' \<in> set line then
        rbind (append_parsed_value (pp_links p) (fst (split_pair ''Link: '' line)) (snd (split_pair ''Link: '' line)))
          (\<lambda>d. Inr (p\<lparr>pp_links := d\<rparr>))
      else if startswith line ''Ref: '' \<and> CHR ''='' \<in> set line then
        rbind (append_parsed_value (pp_refs p) (fst (split_pair ''Ref: '' line)) (snd (split_pair ''Ref: '' line)))
          (\<lambda>d. Inr (p\<lparr>pp_refs := d\<rparr>))
      else Inl malformed_trailers)"

primrec parse_trailers :: "string list \<Rightarrow> parsed_post \<Rightarrow> mail_error + parsed_post" where
  "parse_trailers [] p = Inr p"
| "parse_trailers (line # rest) p = rbind (parse_trailer p line) (parse_trailers rest)"

definition parse_post_message :: "string \<Rightarrow> mail_error + parsed_post option" where
  "parse_post_message raw =
     (let message = py_rstrip_char newline raw in
      if startswith message ''list: genesis'' then Inr None
      else
        let (subject_line, separator, remainder) = py_partition [newline, newline] message in
        case py_rfind ([newline, newline] @ ''Kind: '') remainder of
          None \<Rightarrow> Inl (MailRuntimeError ''malformed mailing-list post message'')
        | Some start \<Rightarrow>
            if \<not> separator then Inl (MailRuntimeError ''malformed mailing-list post message'')
            else
              let lines = py_splitlines (drop (start + 2) remainder);
                  kind = (case lines of [] \<Rightarrow> [] | l # _ \<Rightarrow> removeprefix l ''Kind: '');
                  (prefix, colon, subject) = py_partition '': '' subject_line
              in if \<not> colon \<or> \<not> is_kind_token kind \<or> prefix \<noteq> ascii_upper kind
                   then Inl (MailRuntimeError ''malformed mailing-list post headers'')
                 else map_sum id Some (parse_trailers (tl lines)
                   \<lparr>pp_kind = kind, pp_subject = subject, pp_body = take start remainder, pp_refs = [],
                    pp_message_id = None, pp_links = [], pp_reply = None\<rparr>))"

section \<open>The round trip\<close>

text \<open>
  The mapping that the parser builds of a list of pairs: a name with one value is a string, a
  name with more is a list.
\<close>

definition add_value :: "pydict \<Rightarrow> string \<times> string \<Rightarrow> pydict" where
  "add_value d = (\<lambda>(name, v). case py_get d name of
      PNone \<Rightarrow> py_set d name (PStr v)
    | PList vs \<Rightarrow> py_set d name (PList (vs @ [PStr v]))
    | previous \<Rightarrow> py_set d name (PList [previous, PStr v]))"

definition collect_values :: "pydict \<Rightarrow> (string \<times> string) list \<Rightarrow> pydict" where
  "collect_values d pairs = foldl add_value d pairs"

definition good_pairs :: "(string \<times> string) list \<Rightarrow> bool" where
  "good_pairs ps \<longleftrightarrow> (\<forall>(name, v) \<in> set ps. name \<noteq> [] \<and> CHR ''='' \<notin> set name \<and> plain_line name \<and> plain_line v)"

lemma append_parsed_value_eq: "name \<noteq> [] \<Longrightarrow> append_parsed_value d name v = Inr (add_value d (name, v))"
  by (simp add: append_parsed_value_def add_value_def split: pyval.split)

lemma split_pair_line: "CHR ''='' \<notin> set name \<Longrightarrow> split_pair head (head @ name @ ''='' @ v) = (name, v)"
  using py_partition_append [of "''=''" name v] by (simp add: split_pair_def)

lemma parse_trailers_append:
  "parse_trailers (xs @ ys) p = rbind (parse_trailers xs p) (parse_trailers ys)"
  by (induction xs arbitrary: p) (auto simp: rbind_def split: sum.splits)

lemma parse_ref_lines:
  "good_pairs ps \<Longrightarrow> parse_trailers (pair_lines ''Ref: '' ps) p = Inr (p\<lparr>pp_refs := collect_values (pp_refs p) ps\<rparr>)"
proof (induction ps arbitrary: p)
  case (Cons e ps)
  obtain name v where e: "e = (name, v)" by force
  from Cons.prems have n: "name \<noteq> []" "CHR ''='' \<notin> set name" and ps: "good_pairs ps" by (auto simp: good_pairs_def e)
  from split_pair_line [OF n(2), of "''Ref: ''" v] n Cons.IH [OF ps] show ?case
    by (simp add: pair_lines_def e parse_trailer_def append_parsed_value_eq collect_values_def)
qed (simp add: pair_lines_def collect_values_def)

lemma parse_link_lines:
  "good_pairs ps \<Longrightarrow> parse_trailers (pair_lines ''Link: '' ps) p = Inr (p\<lparr>pp_links := collect_values (pp_links p) ps\<rparr>)"
proof (induction ps arbitrary: p)
  case (Cons e ps)
  obtain name v where e: "e = (name, v)" by force
  from Cons.prems have n: "name \<noteq> []" "CHR ''='' \<notin> set name" and ps: "good_pairs ps" by (auto simp: good_pairs_def e)
  from split_pair_line [OF n(2), of "''Link: ''" v] n Cons.IH [OF ps] show ?case
    by (simp add: pair_lines_def e parse_trailer_def append_parsed_value_eq collect_values_def)
qed (simp add: pair_lines_def collect_values_def)

lemma pair_lines_plain:
  "good_pairs ps \<Longrightarrow> plain_line head \<Longrightarrow> list_all (\<lambda>l. plain_line l \<and> l \<noteq> []) (pair_lines head ps)"
  by (auto simp: good_pairs_def pair_lines_def list_all_iff is_line_break_def char_code_def)

lemma char_classes:
  "is_lower c \<Longrightarrow> \<not> is_line_break c" "is_digit c \<Longrightarrow> \<not> is_line_break c" "is_upper c \<Longrightarrow> \<not> is_line_break c"
  by (auto simp: is_lower_def is_digit_def is_upper_def is_line_break_def Let_def)

lemma kind_token_chars:
  assumes "is_kind_token k" "c \<in> set k"
  shows "is_lower c \<or> is_digit c \<or> c = CHR ''_'' \<or> c = CHR ''-''"
  using assms by (cases k) (auto simp: is_kind_token_def list_all_iff)

lemma kind_token_plain: "is_kind_token k \<Longrightarrow> plain_line k"
proof -
  assume k: "is_kind_token k"
  have "\<not> is_line_break c" if "c \<in> set k" for c
    using kind_token_chars [OF k that] char_classes by (auto simp: is_line_break_def char_code_def Let_def)
  then show "plain_line k" by (simp add: plain_line_def list_all_iff)
qed

lemma ascii_upper_kind:
  assumes "is_kind_token k" "c \<in> set (ascii_upper k)"
  shows "is_upper c \<or> is_digit c \<or> c = CHR ''_'' \<or> c = CHR ''-''"
proof -
  from assms(2) obtain d where d: "d \<in> set k" "c = (if is_lower d then char_of (char_code d - 32) else d)"
    by (auto simp: ascii_upper_def)
  have "of_char d < (256 :: nat)" by (metis of_char_mod_256 mod_less_divisor zero_less_numeral)
  then have "is_upper (char_of (char_code d - 32))" if "is_lower d"
    using that by (auto simp: is_lower_def is_upper_def char_code_def)
  with d kind_token_chars [OF assms(1) d(1)] show ?thesis by auto
qed

text \<open>The hypotheses on a request: what validation grants, and no separator that only \<open>splitlines\<close> sees.\<close>

definition clean_request :: "mail_request \<Rightarrow> bool" where
  "clean_request r \<longleftrightarrow> is_kind_token (mr_kind r) \<and> mr_subject r \<noteq> [] \<and> newline \<notin> set (mr_subject r) \<and>
     good_pairs (mr_refs r) \<and> good_pairs (mr_links r) \<and>
     (case mr_reply r of None \<Rightarrow> True | Some s \<Rightarrow> s \<noteq> [] \<and> plain_line s)"

definition request_message :: "mail_request \<Rightarrow> string \<Rightarrow> string" where
  "request_message r mid = post_message (mr_kind r) (mr_subject r) (mr_body r) (mr_refs r) (Some mid) (mr_links r) (mr_reply r)"

definition request_parsed :: "mail_request \<Rightarrow> string \<Rightarrow> parsed_post" where
  "request_parsed r mid = \<lparr>pp_kind = mr_kind r, pp_subject = mr_subject r, pp_body = mr_body r,
     pp_refs = collect_values [] (mr_refs r), pp_message_id = Some mid,
     pp_links = collect_values [] (mr_links r), pp_reply = mr_reply r\<rparr>"

lemma trailer_lines_plain:
  assumes "clean_request r" "plain_line mid"
  shows "list_all (\<lambda>l. plain_line l \<and> l \<noteq> []) (trailer_lines (mr_kind r) (Some mid) (mr_reply r) (mr_links r) (mr_refs r))"
proof -
  have head: "plain_line ''Link: ''" "plain_line ''Ref: ''" by code_simp+
  show ?thesis
    using assms kind_token_plain [of "mr_kind r"] pair_lines_plain [OF _ head(2), of "mr_refs r"]
      pair_lines_plain [OF _ head(1), of "mr_links r"]
    unfolding clean_request_def trailer_lines_def by (auto simp: is_line_break_def char_code_def split: option.splits)
qed

lemma parse_trailer_lines:
  assumes "clean_request r" "mid \<noteq> []"
  shows "parse_trailers (tl (trailer_lines (mr_kind r) (Some mid) (mr_reply r) (mr_links r) (mr_refs r)))
     \<lparr>pp_kind = k, pp_subject = s, pp_body = b, pp_refs = [], pp_message_id = None, pp_links = [], pp_reply = None\<rparr> =
     Inr \<lparr>pp_kind = k, pp_subject = s, pp_body = b, pp_refs = collect_values [] (mr_refs r), pp_message_id = Some mid,
       pp_links = collect_values [] (mr_links r), pp_reply = mr_reply r\<rparr>"
  using assms parse_ref_lines [of "mr_refs r"] parse_link_lines [of "mr_links r"]
    removeprefix_append [of "''Message-Id: ''", simplified] removeprefix_append [of "''In-Reply-To: ''", simplified]
  by (cases "mr_reply r") (auto simp: clean_request_def trailer_lines_def parse_trailer_def parse_trailers_append)

lemma upper_not_genesis:
  assumes "is_kind_token k"
  shows "\<not> startswith (ascii_upper k @ rest) ''list: genesis''"
proof -
  obtain c cs where "ascii_upper k = c # cs" using assms by (cases k) (auto simp: is_kind_token_def ascii_upper_def)
  moreover have "c \<noteq> CHR ''l''" using ascii_upper_kind [OF assms, of c] calculation by (auto simp: is_upper_def is_digit_def char_code_def)
  ultimately show ?thesis by simp
qed

lemma parse_request_message:
  assumes r: "clean_request r" and mid: "plain_line mid" "mid \<noteq> []"
  shows "parse_post_message (request_message r mid) = Inr (Some (request_parsed r mid))"
proof -
  let ?ls = "trailer_lines (mr_kind r) (Some mid) (mr_reply r) (mr_links r) (mr_refs r)"
  let ?t = "py_join [newline] ?ls"
  let ?subj = "ascii_upper (mr_kind r) @ '': '' @ mr_subject r"
  let ?rem = "mr_body r @ [newline, newline] @ ?t"
  have kind: "is_kind_token (mr_kind r)" and subject: "newline \<notin> set (mr_subject r)" using r by (auto simp: clean_request_def)
  note plain = trailer_lines_plain [OF r mid(1)]
  have ne: "?ls \<noteq> []" by (simp add: trailer_lines_def)
  have last: "?t \<noteq> []" "last ?t \<noteq> newline"
  proof -
    have "last ?ls \<in> set ?ls" using ne by (rule last_in_set)
    then have l: "plain_line (last ?ls)" "last ?ls \<noteq> []" using plain by (auto simp: list_all_iff)
    then show "?t \<noteq> []" "last ?t \<noteq> newline"
      using py_join_snoc_last [OF ne l(2), of "[newline]"] plain_line_newline [OF l(1)] last_in_set [OF l(2)] by metis+
  qed
  have strip: "py_rstrip_char newline (request_message r mid) = ?subj @ [newline, newline] @ ?rem"
    using py_rstrip_char_snoc [of newline "?subj @ [newline, newline] @ ?rem"]
      py_rstrip_char_id [of "?subj @ [newline, newline] @ ?rem" newline] last
    by (simp add: request_message_def post_message_def)
  have nl: "newline \<notin> set ?subj"
    using subject ascii_upper_kind [OF kind, of newline] newline_chars by (auto simp: is_upper_def is_digit_def)
  have part: "py_partition [newline, newline] (?subj @ [newline, newline] @ ?rem) = (?subj, True, ?rem)"
    by (rule py_partition_append) (use nl in auto)
  have t: "?t = ''Kind: '' @ drop 6 ?t" and hd: "hd ?ls = ''Kind: '' @ mr_kind r"
    by (simp_all add: trailer_lines_def py_join_Cons)
  have rfind: "py_rfind ([newline, newline] @ ''Kind: '') ?rem = Some (length (mr_body r))"
  proof (rule py_rfind_SomeI)
    show "startswith (drop (length (mr_body r)) ?rem) ([newline, newline] @ ''Kind: '')"
      by (subst t) simp
    show "\<not> startswith (drop j ?rem) ([newline, newline] @ ''Kind: '')" if j: "length (mr_body r) < j" for j
    proof (cases "j = Suc (length (mr_body r))")
      case True
      have "drop j ?rem = newline # ''Kind: '' @ drop 6 ?t" using True by (subst t) simp
      then show ?thesis using newline_chars by auto
    next
      case False
      with j obtain k where "j = length (mr_body r) + 2 + k" by (metis add_2_eq_Suc' less_iff_Suc_add add_Suc_right add_Suc Suc_lessI)
      then have "drop j ?rem = drop k ?t" by simp
      with join_no_blank_line [OF plain, of k] show ?thesis by (auto simp: startswith_iff)
    qed
  qed simp
  have colon: "py_partition '': '' ?subj = (ascii_upper (mr_kind r), True, mr_subject r)"
  proof (rule py_partition_append)
    show "hd '': '' \<notin> set (ascii_upper (mr_kind r))"
      using ascii_upper_kind [OF kind, of "CHR '':''"] by (auto simp: is_upper_def is_digit_def char_code_def)
  qed simp
  have lines: "py_splitlines ?t = ?ls" by (rule splitlines_join [OF plain])
  have kind_line: "removeprefix (''Kind: '' @ mr_kind r) ''Kind: '' = mr_kind r" by (rule removeprefix_append)
  have genesis: "\<not> startswith (?subj @ [newline, newline] @ ?rem) ''list: genesis''"
    using upper_not_genesis [OF kind] by simp
  show ?thesis
    unfolding parse_post_message_def strip Let_def part
    using genesis rfind lines colon kind hd ne parse_trailer_lines [OF r mid(2)] kind_line
    by (cases ?ls) (auto simp: request_parsed_def)
qed

text \<open>From the arguments of \<open>post\<close>: a validated request is clean unless it hides a line separator.\<close>

definition hides_break :: "string \<Rightarrow> bool" where
  "hides_break s \<longleftrightarrow> list_ex (\<lambda>c. is_line_break c \<and> c \<noteq> newline \<and> c \<noteq> carriage_return) s"

definition request_hides_break :: "mail_request \<Rightarrow> bool" where
  "request_hides_break r \<longleftrightarrow>
     list_ex (\<lambda>(name, v). hides_break name \<or> hides_break v) (mr_refs r @ mr_links r) \<or>
     (case mr_reply r of None \<Rightarrow> False | Some s \<Rightarrow> hides_break s)"

lemma plain_line_iff: "plain_line s \<longleftrightarrow> \<not> has_line_end s \<and> \<not> hides_break s"
proof -
  have "is_line_break carriage_return" by code_simp
  then show ?thesis
    by (auto simp: plain_line_def has_line_end_def hides_break_def list_all_iff list_ex_iff)
qed

lemma normalize_values_pairs:
  "normalize_values field name vs = Inr ps \<Longrightarrow> (n, v) \<in> set ps \<Longrightarrow> n = name \<and> \<not> has_line_end v"
  by (induction vs arbitrary: ps) (auto simp: result_simps split: if_splits)

lemma normalize_entries_pairs:
  "normalize_entries field d = Inr ps \<Longrightarrow> (n, v) \<in> set ps \<Longrightarrow>
     n \<noteq> [] \<and> CHR ''='' \<notin> set n \<and> \<not> has_line_end n \<and> \<not> has_line_end v"
proof (induction d arbitrary: ps)
  case (Cons e rest)
  obtain name v' where e: "e = (name, v')" by force
  from Cons.prems(1) obtain pairs others where "name \<noteq> []" "CHR ''='' \<notin> set name" "\<not> has_line_end name"
    "normalize_values field name (raw_items v') = Inr pairs" "normalize_entries field rest = Inr others" "ps = pairs @ others"
    by (auto simp: e result_simps split: if_splits)
  with Cons.prems(2) Cons.IH [of others] normalize_values_pairs [of field name "raw_items v'" pairs n v] show ?case by auto
qed simp

lemma normalize_mapping_pairs:
  "normalize_mapping v field = Inr ps \<Longrightarrow> list_all (\<lambda>(n, v). n \<noteq> [] \<and> CHR ''='' \<notin> set n \<and> \<not> has_line_end n \<and> \<not> has_line_end v) ps"
  by (auto simp: normalize_mapping_def list_all_iff dest: normalize_entries_pairs split: pyval.splits)

lemma validate_post_Inr:
  assumes "validate_post kind subject body refs = Inr ps"
  obtains k s where "kind = PStr k" "is_kind_token k" "subject = PStr s" "s \<noteq> []" "\<not> has_line_end s"
    "normalize_mapping refs ''refs'' = Inr ps"
  using assms by (cases kind; cases subject) (auto simp: validate_post_def split: if_splits)

lemma prepare_post_Inr:
  assumes "prepare_post kind subject body refs coordinate body_text corresponds_to in_reply_to = Inr r"
  shows "is_kind_token (mr_kind r) \<and> mr_subject r \<noteq> [] \<and> \<not> has_line_end (mr_subject r) \<and>
    normalize_mapping refs ''refs'' = Inr (mr_refs r) \<and> normalize_mapping corresponds_to ''corresponds_to'' = Inr (mr_links r) \<and>
    validate_in_reply_to in_reply_to = Inr (mr_reply r)"
  using assms by (auto simp: prepare_post_def result_simps elim!: validate_post_Inr)

lemma prepare_post_clean:
  assumes "prepare_post kind subject body refs coordinate body_text corresponds_to in_reply_to = Inr r"
    and hide: "\<not> request_hides_break r"
  shows "clean_request r"
proof -
  note p = prepare_post_Inr [OF assms(1)]
  have pairs: "good_pairs ps"
    if "normalize_mapping v f = Inr ps" "\<not> list_ex (\<lambda>(name, v). hides_break name \<or> hides_break v) ps" for v f ps
    using normalize_mapping_pairs [OF that(1)] that(2)
    by (fastforce simp: good_pairs_def plain_line_iff list_all_iff list_ex_iff)
  have "good_pairs (mr_refs r)" "good_pairs (mr_links r)"
    using p hide by (auto intro!: pairs simp: request_hides_break_def)
  moreover have "case mr_reply r of None \<Rightarrow> True | Some s \<Rightarrow> s \<noteq> [] \<and> plain_line s"
    using p hide by (cases in_reply_to) (auto simp: validate_in_reply_to_def request_hides_break_def plain_line_iff split: if_splits option.splits)
  ultimately show ?thesis using p by (auto simp: clean_request_def has_line_end_def)
qed

section \<open>Message ids identify posts\<close>

lemma hex_upper_plain: "n < 16 \<Longrightarrow> \<not> is_line_break (hex_upper n)"
  by (auto simp: hex_upper_def is_line_break_def char_code_def Let_def)

lemma quote_char_plain: "plain_line (quote_char c)"
proof -
  have c: "of_char c < (256 :: nat)" by (metis of_char_mod_256 mod_less_divisor zero_less_numeral)
  have "plain_line (quote_byte n)" if "n < 256" for n
  proof -
    have "n div 16 < 16" "n mod 16 < 16" using that by auto
    then show ?thesis by (simp add: quote_byte_def hex_upper_plain is_line_break_def [of "CHR ''%''"] char_code_def)
  qed
  moreover have "\<not> is_line_break c" if "quote_safe c"
    using that by (auto simp: quote_safe_def char_classes) (simp_all add: is_line_break_def char_code_def)
  moreover have "192 + char_code c div 64 < 256" "128 + char_code c mod 64 < 256" "char_code c < 256"
  proof -
    have "char_code c < 4 * 64" using c by (simp only: char_code_def)
    from less_mult_imp_div_less [OF this] show "192 + char_code c div 64 < 256" by linarith
  qed (use c in \<open>simp_all add: char_code_def\<close>)
  ultimately show ?thesis
    by (auto simp: quote_char_def Let_def)
qed

lemma message_id_plain: "is_kind_token k \<Longrightarrow> plain_line (message_id k c n) \<and> message_id k c n \<noteq> []"
proof -
  assume k: "is_kind_token k"
  have "plain_line (url_quote c)" using quote_char_plain by (induction c) (auto simp: url_quote_def)
  moreover have "plain_line (nat_str n)"
    using nat_str_digits [of n] char_classes by (auto simp: plain_line_def list_all_iff)
  moreover have "plain_line ''@ai-org-list''" by code_simp
  ultimately show ?thesis
    using kind_token_plain [OF k] by (simp add: message_id_def is_line_break_def [of "CHR ''.''"] char_code_def)
qed

lemma split_at_last:
  "c \<notin> set ys \<Longrightarrow> c \<notin> set ys' \<Longrightarrow> xs @ c # ys = xs' @ c # ys' \<Longrightarrow> xs = xs' \<and> ys = ys'"
  by (induction xs arbitrary: xs') (auto simp: Cons_eq_append_conv append_eq_Cons_conv)

lemma split_at_first:
  "c \<notin> set xs \<Longrightarrow> c \<notin> set xs' \<Longrightarrow> xs @ c # ys = xs' @ c # ys' \<Longrightarrow> xs = xs' \<and> ys = ys'"
proof (induction xs arbitrary: xs')
  case Nil
  then show ?case by (cases xs') auto
next
  case (Cons x xs)
  then show ?case by (cases xs') auto
qed

lemma message_id_inject:
  assumes "is_kind_token k" "is_kind_token k'" "message_id k c n = message_id k' c' n'"
  shows "k = k' \<and> url_quote c = url_quote c' \<and> n = n'"
proof -
  have dot: "CHR ''.'' \<notin> set (nat_str m)" for m
    using nat_str_digits [of m] by (auto simp: list_all_iff is_digit_def char_code_def)
  have kd: "CHR ''.'' \<notin> set q" if "is_kind_token q" for q
    using kind_token_chars [OF that, of "CHR ''.''"] by (auto simp: is_lower_def is_digit_def char_code_def)
  have "(k @ CHR ''.'' # url_quote c) @ CHR ''.'' # nat_str n = (k' @ CHR ''.'' # url_quote c') @ CHR ''.'' # nat_str n'"
    using assms(3) by (simp add: message_id_def)
  from split_at_last [OF dot dot this] have "k @ CHR ''.'' # url_quote c = k' @ CHR ''.'' # url_quote c'" "n = n'" by auto
  with split_at_first [OF kd [OF assms(1)] kd [OF assms(2)]] show ?thesis by blast
qed

text \<open>
  C36: what \<open>post\<close> writes, the list reader recovers: the message of a validated request parses to
  the kind, the subject, the exact body, the id, the reply and the grouped references and links,
  unless a name or a value hides a line separator other than LF and CR.
\<close>

theorem mail_roundtrip:
  assumes "prepare_post kind subject body refs coordinate body_text corresponds_to in_reply_to = Inr r"
    and "\<not> request_hides_break r"
  shows "parse_post_message (request_message r (message_id (mr_kind r) (mr_coordinate r) n)) =
    Inr (Some (request_parsed r (message_id (mr_kind r) (mr_coordinate r) n)))"
  using parse_request_message [OF prepare_post_clean [OF assms]] message_id_plain prepare_post_Inr [OF assms(1)] by blast

definition example_refs :: pyval where
  "example_refs = PDict [(''run'', PStr ''r1''), (''item'', PList [PStr ''c0ffee'', PInt 7])]"

theorem mail_roundtrip_witness:
  "\<exists>r. prepare_post (PStr ''qa'') (PStr ''item: one'') (PStr [newline, CHR ''x'', newline]) example_refs PNone PNone PNone PNone = Inr r \<and>
     parse_post_message (request_message r (message_id ''qa'' (mr_coordinate r) 3)) =
       Inr (Some (request_parsed r (message_id ''qa'' (mr_coordinate r) 3)))"
proof -
  obtain r where r: "prepare_post (PStr ''qa'') (PStr ''item: one'') (PStr [newline, CHR ''x'', newline]) example_refs PNone PNone PNone PNone = Inr r"
    "\<not> request_hides_break r" "mr_kind r = ''qa''"
  proof -
    let ?r = "\<lparr>mr_kind = ''qa'', mr_subject = ''item: one'', mr_body = [newline, CHR ''x'', newline],
      mr_refs = [(''item'', ''c0ffee''), (''item'', ''7''), (''run'', ''r1'')], mr_coordinate = ''item: one'', mr_links = [], mr_reply = None\<rparr>"
    have "prepare_post (PStr ''qa'') (PStr ''item: one'') (PStr [newline, CHR ''x'', newline]) example_refs PNone PNone PNone PNone = Inr ?r"
      by code_simp
    moreover have "\<not> request_hides_break ?r" by code_simp
    ultimately show ?thesis using that by simp
  qed
  from mail_roundtrip [OF r(1,2), of 3] r show ?thesis by auto
qed

text \<open>
  Validation refuses only LF and CR. A reference value with a vertical tab is accepted, and
  the reader raises on the message that carries it: one such post makes the list unreadable.
\<close>

theorem hidden_break_unreadable:
  "\<exists>r. prepare_post (PStr ''note'') (PStr ''s'') (PStr '''') (PDict [(''run'', PStr [CHR ''a'', char_of (11 :: nat), CHR ''b''])])
      PNone PNone PNone PNone = Inr r \<and>
     parse_post_message (request_message r (message_id (mr_kind r) (mr_coordinate r) 1)) = Inl malformed_trailers"
proof -
  let ?r = "\<lparr>mr_kind = ''note'', mr_subject = ''s'', mr_body = [],
    mr_refs = [(''run'', [CHR ''a'', char_of (11 :: nat), CHR ''b''])], mr_coordinate = ''s'', mr_links = [], mr_reply = None\<rparr>"
  have "prepare_post (PStr ''note'') (PStr ''s'') (PStr '''') (PDict [(''run'', PStr [CHR ''a'', char_of (11 :: nat), CHR ''b''])])
      PNone PNone PNone PNone = Inr ?r" by code_simp
  moreover have "parse_post_message (request_message ?r (message_id (mr_kind ?r) (mr_coordinate ?r) 1)) = Inl malformed_trailers"
    by code_simp
  ultimately show ?thesis by blast
qed

section \<open>Genesis\<close>

definition genesis_message :: "string \<Rightarrow> string \<Rightarrow> string" where
  "genesis_message seed seed_tree =
     ''list: genesis'' @ [newline, newline] @ ''Seed: '' @ seed @ [newline] @ ''Seed-Tree: '' @ seed_tree @ [newline]"

definition tagged_values :: "string \<Rightarrow> string list \<Rightarrow> string list" where
  "tagged_values tag lines = map (\<lambda>l. removeprefix l tag) (filter (\<lambda>l. startswith l tag) lines)"

definition parse_genesis_seed :: "string \<Rightarrow> mail_error + (string \<times> string) option" where
  "parse_genesis_seed message =
     (let stripped = py_rstrip_char newline message in
      if \<not> startswith stripped ''list: genesis'' then Inr None
      else
        let seeds = tagged_values ''Seed: '' (py_splitlines stripped);
            trees = tagged_values ''Seed-Tree: '' (py_splitlines stripped)
        in if seeds = [] \<and> trees = [] then Inr None
           else (case (seeds, trees) of
               ([seed], [tree]) \<Rightarrow>
                 if seed = [] \<or> tree = [] then Inl (MailRuntimeError ''malformed mailing-list genesis seed'')
                 else Inr (Some (seed, tree))
             | _ \<Rightarrow> Inl (MailRuntimeError ''malformed mailing-list genesis seed'')))"

text \<open>A finished git command: return code, standard output, standard error.\<close>

record git_result =
  gr_code :: int
  gr_out :: string
  gr_err :: string

definition git_detail :: "git_result \<Rightarrow> string \<Rightarrow> string" where
  "git_detail r dflt =
     (if py_strip (gr_err r) \<noteq> [] then py_strip (gr_err r)
      else if py_strip (gr_out r) \<noteq> [] then py_strip (gr_out r) else dflt)"

text \<open>
  \<open>genesis_seed\<close> over the head of the list, the root commits that \<open>rev-list\<close> prints for it, and
  the message that \<open>show\<close> prints for a commit.
\<close>

definition genesis_seed ::
  "string option \<Rightarrow> (string \<Rightarrow> git_result) \<Rightarrow> (string \<Rightarrow> git_result) \<Rightarrow> mail_error + (string \<times> string) option" where
  "genesis_seed list_head roots_of message_of =
     (case list_head of
        None \<Rightarrow> Inr None
      | Some h \<Rightarrow>
          let roots = roots_of h in
          if gr_code roots \<noteq> 0 then Inl (MailRuntimeError (git_detail roots ''could not read mailing-list genesis''))
          else (case py_splitlines (gr_out roots) of
              [root] \<Rightarrow>
                let message = message_of root in
                if gr_code message \<noteq> 0 then Inl (MailRuntimeError (git_detail message ''could not read mailing-list genesis''))
                else parse_genesis_seed (gr_out message)
            | _ \<Rightarrow> Inl (MailRuntimeError ''mailing-list history must have exactly one genesis'')))"

lemma parse_genesis_message:
  assumes "plain_line seed" "plain_line tree" "seed \<noteq> []" "tree \<noteq> []"
  shows "parse_genesis_seed (genesis_message seed tree) = Inr (Some (seed, tree))"
proof -
  let ?m = "''list: genesis'' @ [newline, newline] @ ''Seed: '' @ seed @ [newline] @ ''Seed-Tree: '' @ tree"
  have "last ?m \<noteq> newline" using assms plain_line_newline [of tree] last_in_set [of tree] by (auto simp del: last_in_set)
  then have strip: "py_rstrip_char newline (genesis_message seed tree) = ?m"
    using py_rstrip_char_snoc [of newline ?m] py_rstrip_char_id [of ?m newline] by (simp add: genesis_message_def)
  have plain: "plain_line ''list: genesis''" "plain_line (''Seed: '' @ seed)" "plain_line (''Seed-Tree: '' @ tree)"
    using assms(1,2) by (simp_all add: is_line_break_def char_code_def)
  have ls: "py_splitlines ?m = [''list: genesis'', [], ''Seed: '' @ seed, ''Seed-Tree: '' @ tree]"
    using splitlines_acc_line [OF plain(1), of "[]"] splitlines_acc_line [OF plain(2), of "[]"] splitlines_acc_plain [OF plain(3), of "[]"]
      splitlines_acc_line [of "[]" "[]"]
    by (simp add: py_splitlines_def)
  have rp: "removeprefix (''Seed: '' @ seed) ''Seed: '' = seed" "removeprefix (''Seed-Tree: '' @ tree) ''Seed-Tree: '' = tree"
    by (rule removeprefix_append)+
  show ?thesis
    unfolding parse_genesis_seed_def strip Let_def ls tagged_values_def using rp assms(3,4) by simp
qed

section \<open>Patch text\<close>

text \<open>\<open>format_patch_text\<close>: the arguments of \<open>git format-patch\<close>; the runner of git is an argument.\<close>

definition format_patch_args :: "string \<Rightarrow> string \<Rightarrow> string list" where
  "format_patch_args base_oid tip_oid =
     [''-c'', ''format.signature='', ''-c'', ''format.mboxrd=false'', ''-c'', ''log.mailmap=false'',
      ''format-patch'', ''--stdout'', ''--numbered'', ''--subject-prefix=PATCH'', ''--no-signature'',
      ''--no-signoff'', ''--no-cover-letter'', ''--no-thread'', ''--no-add-header'', ''--no-to'', ''--no-cc'',
      ''--no-in-reply-to'', ''--no-attach'', ''--no-base'', ''--no-from'', ''--no-notes'', ''--no-rfc'',
      ''--no-force-in-body-from'', ''--binary'', ''--full-index'', ''--no-stat'', ''--no-renames'', ''--no-color'',
      ''--no-ext-diff'', ''--no-textconv'', ''--unified=3'', ''--diff-algorithm=myers'', ''--no-indent-heuristic'',
      ''--inter-hunk-context=0'', ''--src-prefix=a/'', ''--dst-prefix=b/'', ''--no-relative'',
      ''--submodule=short'', ''--ignore-submodules=none'', base_oid @ ''..'' @ tip_oid]"

definition format_patch_text ::
  "(string \<Rightarrow> string option) \<Rightarrow> (string list \<Rightarrow> mail_error + string) \<Rightarrow> string \<Rightarrow> string \<Rightarrow> mail_error + string" where
  "format_patch_text resolve git base tip =
     (case resolve base of
        None \<Rightarrow> Inl (MailValueError (''base must identify a commit: '' @ base))
      | Some base_oid \<Rightarrow> (case resolve tip of
          None \<Rightarrow> Inl (MailValueError (''tip must identify a commit: '' @ tip))
        | Some tip_oid \<Rightarrow> git (format_patch_args base_oid tip_oid)))"
end
