(* ===== verification/MailingProtocol.thy ===== *)
theory MailingProtocol imports MailingList "HOL-Library.Sublist" begin

text \<open>
  The append protocol of \<open>src/ai_org/mailing_list.py\<close>: \<open>ensure_list\<close>, the retry loop of \<open>post\<close>, the
  reading of the list and the loop of \<open>advance_cursor\<close>, each cut at its calls of git, so that the
  steps of any number of processes interleave on one list branch and one cursor.

  A commit id is modelled by the chain of commits it names, oldest first: git ids are content
  addressed, so equal ids name equal commits with equal ancestry. Everything else that git
  answers (\<open>list_git\<close>) is arbitrary at every step.
\<close>

record mail_commit =
  mc_message :: string
  mc_date :: string

type_synonym commit_id = "mail_commit list"

record list_git =
  lg_default_branch :: "mail_error + string"
  lg_work_head :: "string \<Rightarrow> string option"
  lg_work_tree :: "string \<Rightarrow> string option"
  lg_mktree :: "string + string"
  lg_tree :: "commit_id \<Rightarrow> string option"
  lg_count :: "commit_id \<Rightarrow> git_result"
  lg_commit_tree :: "string + string"
  lg_ref_writable :: bool

text \<open>
  \<open>lg_commit_tree\<close> is the text of the \<open>RuntimeError\<close> or the author date of the commit.
  \<open>update-ref\<close> succeeds only from the expected value; it may also fail for another reason.
\<close>

definition APPEND_ATTEMPTS :: nat where "APPEND_ATTEMPTS = 4"

definition update_ref_cas ::
  "list_git \<Rightarrow> commit_id option \<Rightarrow> commit_id \<Rightarrow> commit_id option \<Rightarrow> commit_id option \<times> bool" where
  "update_ref_cas git ref commit expected =
     (if lg_ref_writable git \<and> ref = expected then (Some commit, True) else (ref, False))"

section \<open>Creation of the list\<close>

definition capture_seed :: "list_git \<Rightarrow> string + string \<times> string" where
  "capture_seed git =
     (case lg_default_branch git of
        Inl _ \<Rightarrow> Inl ''could not determine mailing-list seed branch''
      | Inr branch \<Rightarrow> (case lg_work_head git branch of
          None \<Rightarrow> Inl ''could not resolve mailing-list seed commit''
        | Some seed \<Rightarrow> (case lg_work_tree git seed of
            None \<Rightarrow> Inl ''could not resolve mailing-list seed tree''
          | Some seed_tree \<Rightarrow> Inr (seed, seed_tree))))"

definition create_genesis :: "list_git \<Rightarrow> string + mail_commit" where
  "create_genesis git =
     rbind (capture_seed git) (\<lambda>(seed, seed_tree).
     rbind (lg_mktree git) (\<lambda>_.
     rbind (lg_commit_tree git) (\<lambda>date.
       Inr \<lparr>mc_message = genesis_message seed seed_tree, mc_date = date\<rparr>)))"

datatype ensure_stage = EnsureHead | EnsureCreate | EnsureSwap mail_commit | EnsureAgain
datatype ensure_result = EnsureOk bool commit_id | EnsureFailed string

definition ensure_step ::
  "list_git \<Rightarrow> commit_id option \<Rightarrow> ensure_stage \<Rightarrow> commit_id option \<times> (ensure_stage + ensure_result)" where
  "ensure_step git ref stage =
     (case stage of
        EnsureHead \<Rightarrow> (ref, case ref of Some head \<Rightarrow> Inr (EnsureOk False head) | None \<Rightarrow> Inl EnsureCreate)
      | EnsureCreate \<Rightarrow> (ref, case create_genesis git of Inl e \<Rightarrow> Inr (EnsureFailed e) | Inr g \<Rightarrow> Inl (EnsureSwap g))
      | EnsureSwap g \<Rightarrow>
          (let (ref', swapped) = update_ref_cas git ref [g] None
           in (ref', if swapped then Inr (EnsureOk True [g]) else Inl EnsureAgain))
      | EnsureAgain \<Rightarrow>
          (ref, Inr (case ref of Some head \<Rightarrow> EnsureOk False head
                     | None \<Rightarrow> EnsureFailed ''could not create mailing-list ref'')))"

section \<open>Reading\<close>

record mail_entry =
  me_commit :: commit_id
  me_post :: parsed_post
  me_date :: string

fun parse_history :: "commit_id \<Rightarrow> mail_commit list \<Rightarrow> mail_error + mail_entry list" where
  "parse_history before [] = Inr []"
| "parse_history before (c # cs) =
     rbind (parse_post_message (mc_message c)) (\<lambda>p.
     rbind (parse_history (before @ [c]) cs) (\<lambda>entries.
       Inr (case p of
           None \<Rightarrow> entries
         | Some q \<Rightarrow> \<lparr>me_commit = before @ [c], me_post = q, me_date = mc_date c\<rparr> # entries)))"

definition normalize_kinds :: "pyval \<Rightarrow> mail_error + string list option" where
  "normalize_kinds kinds =
     (let check = (\<lambda>vs. if list_ex (\<lambda>v. case v of PStr k \<Rightarrow> \<not> is_kind_token k | _ \<Rightarrow> True) vs
                       then Inl (MailValueError ''kinds must contain short lowercase tokens'')
                       else Inr (Some (map py_str vs)))
      in case kinds of
           PNone \<Rightarrow> Inr None
         | PStr k \<Rightarrow> check [PStr k]
         | PList vs \<Rightarrow>
             if list_ex (\<lambda>v. case v of PList _ \<Rightarrow> True | PDict _ \<Rightarrow> True | _ \<Rightarrow> False) vs
             then Inl (MailTypeError ''unhashable type'') else check vs
         | PDict d \<Rightarrow> check (map (\<lambda>e. PStr (fst e)) d)
         | _ \<Rightarrow> Inl (MailTypeError ''object is not iterable''))"

text \<open>
  \<open>read\<close>: \<open>since\<close> is what \<open>head_sha\<close> resolves the argument to, when it is given. The history is
  read in one step.
\<close>

definition read_list ::
  "commit_id option \<Rightarrow> commit_id option option \<Rightarrow> pyval \<Rightarrow> mail_error + mail_entry list" where
  "read_list ref since kinds =
     (case ref of
        None \<Rightarrow> Inr []
      | Some head \<Rightarrow>
          rbind (case since of
              None \<Rightarrow> Inr []
            | Some None \<Rightarrow> Inl (MailValueError ''since must identify a commit on the mailing list'')
            | Some (Some oid) \<Rightarrow>
                if prefix oid head then Inr oid
                else Inl (MailValueError ''since must identify a commit on the mailing list'')) (\<lambda>start.
          rbind (normalize_kinds kinds) (\<lambda>selected.
          rbind (parse_history start (drop (length start) head)) (\<lambda>entries.
            Inr (case selected of None \<Rightarrow> entries
                 | Some ks \<Rightarrow> filter (\<lambda>e. pp_kind (me_post e) \<in> set ks) entries)))))"

section \<open>The retry loop of post\<close>

definition qa_item_ref :: "string \<Rightarrow> (string \<times> string) list \<Rightarrow> string option" where
  "qa_item_ref kind refs =
     (if kind \<noteq> ''qa'' then None
      else case map snd (filter (\<lambda>e. fst e = ''item'') refs) of [v] \<Rightarrow> Some v | _ \<Rightarrow> None)"

definition qa_post_for_item :: "commit_id option \<Rightarrow> string \<Rightarrow> mail_error + mail_entry option" where
  "qa_post_for_item ref item =
     rbind (read_list ref None (PList [PStr ''qa''])) (\<lambda>entries.
       Inr (find (\<lambda>e. py_get (pp_refs (me_post e)) ''item'' = PStr item) entries))"

definition next_sequence :: "git_result \<Rightarrow> string + nat" where
  "next_sequence r =
     (if gr_code r \<noteq> 0 then Inl (git_detail r ''could not number mailing-list post'')
      else case py_int_text (py_strip (gr_out r)) of
          None \<Rightarrow> Inl ''could not number mailing-list post''
        | Some n \<Rightarrow> if n < 1 then Inl ''could not number mailing-list post'' else Inr (nat n))"

text \<open>
  The result of \<open>post\<close>, and where the call stands: in \<open>ensure_list\<close> (before the loop or inside it),
  at the head of the loop with some attempts left, or inside an attempt with the head it expects.
\<close>

datatype post_result =
    PostedNew commit_id string
  | PostedExisting commit_id "string option"
  | PostFailed string

datatype post_phase =
    PEnsure bool nat ensure_stage
  | PHead nat
  | PSearch nat commit_id
  | PBuild nat commit_id
  | PSwap nat commit_id mail_commit string
  | PDone post_result
  | PRaised mail_error

definition post_start :: post_phase where "post_start = PEnsure True APPEND_ATTEMPTS EnsureHead"

definition contention :: post_phase where
  "contention = PDone (PostFailed ''mailing-list append contention exceeded retry limit'')"

definition build_post :: "mail_request \<Rightarrow> list_git \<Rightarrow> nat \<Rightarrow> commit_id \<Rightarrow> post_phase" where
  "build_post req git n expected =
     (case lg_tree git expected of
        None \<Rightarrow> contention
      | Some _ \<Rightarrow> (case next_sequence (lg_count git expected) of
          Inl e \<Rightarrow> PDone (PostFailed e)
        | Inr sequence \<Rightarrow>
            let mid = message_id (mr_kind req) (mr_coordinate req) sequence in
            case lg_commit_tree git of
              Inl e \<Rightarrow> PDone (PostFailed e)
            | Inr date \<Rightarrow> PSwap n expected \<lparr>mc_message = request_message req mid, mc_date = date\<rparr> mid))"

definition search_post :: "mail_request \<Rightarrow> commit_id option \<Rightarrow> nat \<Rightarrow> commit_id \<Rightarrow> post_phase" where
  "search_post req ref n expected =
     (case qa_item_ref (mr_kind req) (mr_refs req) of
        None \<Rightarrow> PBuild n expected
      | Some item \<Rightarrow> (case qa_post_for_item ref item of
          Inl e \<Rightarrow> PRaised e
        | Inr (Some entry) \<Rightarrow> PDone (PostedExisting (me_commit entry) (pp_message_id (me_post entry)))
        | Inr None \<Rightarrow> PBuild n expected))"

definition post_step ::
  "mail_request \<Rightarrow> list_git \<Rightarrow> commit_id option \<Rightarrow> post_phase \<Rightarrow> commit_id option \<times> post_phase" where
  "post_step req git ref phase =
     (case phase of
        PEnsure first n stage \<Rightarrow>
          (let (ref', out) = ensure_step git ref stage in
           (ref', case out of
              Inl stage' \<Rightarrow> PEnsure first n stage'
            | Inr (EnsureFailed e) \<Rightarrow> if first then PDone (PostFailed e) else contention
            | Inr (EnsureOk _ head) \<Rightarrow> if first then PHead n else PSearch n head))
      | PHead n \<Rightarrow>
          (ref, case n of
              0 \<Rightarrow> contention
            | Suc m \<Rightarrow> (case ref of None \<Rightarrow> PEnsure False m EnsureHead | Some head \<Rightarrow> PSearch m head))
      | PSearch n expected \<Rightarrow> (ref, search_post req ref n expected)
      | PBuild n expected \<Rightarrow> (ref, build_post req git n expected)
      | PSwap n expected c mid \<Rightarrow>
          (let (ref', swapped) = update_ref_cas git ref (expected @ [c]) (Some expected)
           in (ref', if swapped then PDone (PostedNew (expected @ [c]) mid) else PHead n))
      | PDone r \<Rightarrow> (ref, PDone r)
      | PRaised e \<Rightarrow> (ref, PRaised e))"

section \<open>The cursor\<close>

definition CURSOR_REF_PREFIX :: string where "CURSOR_REF_PREFIX = ''refs/ai-org/list-cursors/''"

definition cursor_ref :: "(string \<Rightarrow> bool) \<Rightarrow> pyval \<Rightarrow> mail_error + string" where
  "cursor_ref ref_format_ok reader =
     (case reader of
        PStr r \<Rightarrow>
          if r = [] then Inl (MailValueError ''reader must be a non-empty Git ref name'')
          else if ref_format_ok (CURSOR_REF_PREFIX @ r) then Inr (CURSOR_REF_PREFIX @ r)
          else Inl (MailValueError ''reader must form a valid Git ref name'')
      | _ \<Rightarrow> Inl (MailValueError ''reader must be a non-empty Git ref name''))"

datatype move_result = Moved commit_id bool | NotMoved "commit_id option" string

datatype move_phase =
    MStart
  | MRead nat commit_id
  | MSwap nat commit_id "commit_id option"
  | MDone move_result

text \<open>\<open>advance_cursor\<close> to what its argument resolves to; \<open>cur\<close> is the cursor.\<close>

definition move_step ::
  "commit_id option \<Rightarrow> list_git \<Rightarrow> commit_id option \<Rightarrow> commit_id option \<Rightarrow> move_phase \<Rightarrow> commit_id option \<times> move_phase" where
  "move_step resolved git ref cur phase =
     (case phase of
        MStart \<Rightarrow>
          (cur, case (ref, resolved) of
              (Some head, Some target) \<Rightarrow>
                if prefix target head then MRead APPEND_ATTEMPTS target
                else MDone (NotMoved None ''commit is not on the mailing list'')
            | _ \<Rightarrow> MDone (NotMoved None ''commit is not on the mailing list''))
      | MRead n target \<Rightarrow>
          (cur, case n of
              0 \<Rightarrow> MDone (NotMoved None ''cursor update contention exceeded retry limit'')
            | Suc m \<Rightarrow>
                if cur = Some target then MDone (Moved target False)
                else if (case cur of None \<Rightarrow> False | Some c \<Rightarrow> \<not> prefix c target)
                  then MDone (NotMoved cur ''cursor cannot move backward or leave list history'')
                else MSwap m target cur)
      | MSwap n target expected \<Rightarrow>
          (let (cur', swapped) = update_ref_cas git cur target expected
           in (cur', if swapped then MDone (Moved target True) else MRead n target))
      | MDone r \<Rightarrow> (cur, MDone r))"

section \<open>Interleaving\<close>

record mail_world =
  w_list :: "commit_id option"
  w_cursor :: "commit_id option"
  w_posts :: "nat \<Rightarrow> post_phase"
  w_moves :: "nat \<Rightarrow> move_phase"

text \<open>What \<open>git rev-list --first-parent --count\<close> is documented to print for a chain of commits.\<close>

definition counts_chains :: "list_git \<Rightarrow> bool" where
  "counts_chains git \<longleftrightarrow> (\<forall>h. lg_count git h = \<lparr>gr_code = 0, gr_out = nat_str (length h) @ [newline], gr_err = []\<rparr>)"

inductive mail_step ::
  "(nat \<Rightarrow> mail_request) \<Rightarrow> (nat \<Rightarrow> commit_id option) \<Rightarrow> mail_world \<Rightarrow> mail_world \<Rightarrow> bool"
  for requests :: "nat \<Rightarrow> mail_request" and targets :: "nat \<Rightarrow> commit_id option" where
  Post: "counts_chains git \<Longrightarrow> post_step (requests p) git (w_list w) (w_posts w p) = (ref, phase) \<Longrightarrow>
    mail_step requests targets w (w\<lparr>w_list := ref, w_posts := (w_posts w)(p := phase)\<rparr>)"
| Move: "move_step (targets p) git (w_list w) (w_cursor w) (w_moves w p) = (cur, phase) \<Longrightarrow>
    mail_step requests targets w (w\<lparr>w_cursor := cur, w_moves := (w_moves w)(p := phase)\<rparr>)"

inductive mail_reach ::
  "(nat \<Rightarrow> mail_request) \<Rightarrow> (nat \<Rightarrow> commit_id option) \<Rightarrow> mail_world \<Rightarrow> mail_world \<Rightarrow> bool"
  for requests :: "nat \<Rightarrow> mail_request" and targets :: "nat \<Rightarrow> commit_id option" where
  Refl: "mail_reach requests targets w w"
| Step: "mail_reach requests targets w w' \<Longrightarrow> mail_step requests targets w' w'' \<Longrightarrow> mail_reach requests targets w w''"

inductive_cases mail_stepE: "mail_step requests targets w w'"

definition mail_world_start :: mail_world where
  "mail_world_start = \<lparr>w_list = None, w_cursor = None, w_posts = (\<lambda>_. post_start), w_moves = (\<lambda>_. MStart)\<rparr>"

section \<open>Bounded termination of post\<close>

fun stage_rank :: "ensure_stage \<Rightarrow> nat" where
  "stage_rank EnsureHead = 4"
| "stage_rank EnsureCreate = 3"
| "stage_rank (EnsureSwap _) = 2"
| "stage_rank EnsureAgain = 1"

fun post_rank :: "post_phase \<Rightarrow> nat" where
  "post_rank (PEnsure first n stage) = (if first then 9 * n + 1 else 9 * n + 4) + stage_rank stage"
| "post_rank (PHead n) = 9 * n + 1"
| "post_rank (PSearch n _) = 9 * n + 4"
| "post_rank (PBuild n _) = 9 * n + 3"
| "post_rank (PSwap n _ _ _) = 9 * n + 2"
| "post_rank (PDone _) = 0"
| "post_rank (PRaised _) = 0"

lemma contention_rank [simp]: "post_rank contention = 0"
  by (simp add: contention_def)

lemma ensure_step_rank: "ensure_step git ref stage = (ref', Inl stage') \<Longrightarrow> stage_rank stage' < stage_rank stage"
  by (cases stage) (auto simp: ensure_step_def update_ref_cas_def split: option.splits sum.splits if_splits)

lemma search_rank: "post_rank (search_post req ref n expected) \<le> 9 * n + 3"
  by (auto simp: search_post_def split: option.splits sum.splits)

lemma build_rank: "post_rank (build_post req git n expected) \<le> 9 * n + 2"
  by (auto simp: build_post_def Let_def split: option.splits sum.splits)

lemma stage_rank_pos: "1 \<le> stage_rank s"
  by (cases s) auto

lemma post_step_rank:
  assumes "post_step req git ref phase = (ref', phase')" "post_rank phase \<noteq> 0"
  shows "post_rank phase' < post_rank phase"
proof (cases phase)
  case (PEnsure first n stage)
  obtain r out where e: "ensure_step git ref stage = (r, out)" by force
  show ?thesis
  proof (cases out)
    case (Inl s)
    then show ?thesis using assms PEnsure e ensure_step_rank [of git ref stage r s] by (auto simp: post_step_def)
  next
    case (Inr q)
    then show ?thesis using assms PEnsure e stage_rank_pos [of stage] by (cases q) (auto simp: post_step_def)
  qed
next
  case (PHead n)
  then show ?thesis using assms by (auto simp: post_step_def split: nat.splits option.splits)
next
  case (PSearch n h)
  then show ?thesis using assms search_rank [of req ref n h] by (auto simp: post_step_def)
next
  case (PBuild n h)
  then show ?thesis using assms build_rank [of req git n h] by (auto simp: post_step_def)
next
  case (PSwap n h c mid)
  then show ?thesis using assms by (auto simp: post_step_def update_ref_cas_def split: if_splits)
qed (use assms in auto)

text \<open>A call of \<open>post\<close> alone: what git answers and what the branch is at each of its steps.\<close>

fun run_post :: "mail_request \<Rightarrow> (list_git \<times> commit_id option) list \<Rightarrow> post_phase \<Rightarrow> post_phase" where
  "run_post req [] phase = phase"
| "run_post req ((git, ref) # rest) phase = run_post req rest (snd (post_step req git ref phase))"

definition post_finished :: "post_phase \<Rightarrow> bool" where
  "post_finished phase = (case phase of PDone _ \<Rightarrow> True | PRaised _ \<Rightarrow> True | _ \<Rightarrow> False)"

lemma post_rank_finished: "post_finished phase \<longleftrightarrow> post_rank phase = 0"
proof (cases phase)
  case (PEnsure first n stage)
  then show ?thesis using stage_rank_pos [of stage] by (auto simp: post_finished_def)
qed (auto simp: post_finished_def)

lemma post_step_rank_le: "post_rank (snd (post_step req git ref phase)) \<le> post_rank phase - 1"
proof (cases "post_rank phase = 0")
  case True
  then have "post_finished phase" by (simp add: post_rank_finished)
  then show ?thesis by (cases phase) (auto simp: post_step_def post_finished_def)
next
  case False
  then show ?thesis using post_step_rank [of req git ref phase] by (cases "post_step req git ref phase") fastforce
qed

lemma run_post_rank: "post_rank (run_post req steps phase) \<le> post_rank phase - length steps"
proof (induction req steps phase rule: run_post.induct)
  case (2 req git ref rest phase)
  then show ?case using post_step_rank_le [of req git ref phase] by simp
qed simp

text \<open>
  However the other processes and git behave, a call of \<open>post\<close> ends after at most 41 of its
  own steps: the four attempts are enough and none of them waits.
\<close>

theorem post_terminates: "length steps = 41 \<Longrightarrow> post_finished (run_post req steps post_start)"
  using run_post_rank [of req steps post_start] by (simp add: post_rank_finished post_start_def APPEND_ATTEMPTS_def)

section \<open>The invariant\<close>

lemma nat_str_char: "c \<in> set (nat_str n) \<Longrightarrow> is_digit c"
  using nat_str_digits [of n] by (auto simp: list_all_iff)

lemma digit_not_space: "is_digit c \<Longrightarrow> \<not> is_space c"
  by (auto simp: is_digit_def is_space_def Let_def)

lemma strip_nat_str: "py_strip (nat_str n @ [newline]) = nat_str n" "py_strip (nat_str n) = nat_str n"
proof -
  have sp: "is_space newline" by code_simp
  obtain c cs where c: "nat_str n = c # cs" by (cases "nat_str n") auto
  obtain ds d where d: "nat_str n = ds @ [d]" by (metis nat_str_nonempty rev_exhaust)
  have "c \<in> set (nat_str n)" by (simp add: c)
  moreover have "d \<in> set (nat_str n)" by (simp add: d)
  ultimately have "\<not> is_space c" "\<not> is_space d" using nat_str_char [of _ n] digit_not_space by blast+
  note nsp = this
  have l: "py_lstrip (nat_str n @ r) = nat_str n @ r" for r using nsp(1) by (simp add: py_lstrip_def c)
  have r: "py_rstrip (nat_str n @ [newline]) = nat_str n" "py_rstrip (nat_str n) = nat_str n"
    using nsp(2) by (simp_all add: py_rstrip_def d sp)
  show "py_strip (nat_str n @ [newline]) = nat_str n" "py_strip (nat_str n) = nat_str n"
    using l [of "[newline]"] l [of "[]"] r by (auto simp: py_strip_def)
qed

lemma int_digits_all: "list_all is_digit ds \<Longrightarrow> prev \<or> ds \<noteq> [] \<Longrightarrow>
    int_digits prev acc ds = Some (foldl (\<lambda>acc c. 10 * acc + (char_code c - 48)) acc ds)"
  by (induction ds arbitrary: prev acc) auto

lemma py_int_nat_str: "py_int_text (nat_str n) = Some (int n)"
proof -
  obtain c cs where c: "nat_str n = c # cs" by (cases "nat_str n") auto
  have dig: "is_digit c" using nat_str_char [of c n] c by simp
  then have "c \<noteq> CHR ''-''" "c \<noteq> CHR ''+''" by (auto simp: is_digit_def char_code_def)
  moreover have "int_digits False 0 (nat_str n) = Some n"
    using int_digits_all [OF nat_str_digits, of False n 0] dec_value_nat_str [of n] by (simp add: dec_value_def)
  ultimately show ?thesis by (simp add: py_int_text_def strip_nat_str(2)) (simp add: c)
qed

lemma next_sequence_count: "counts_chains git \<Longrightarrow> h \<noteq> [] \<Longrightarrow> next_sequence (lg_count git h) = Inr (length h)"
  by (simp add: counts_chains_def next_sequence_def strip_nat_str py_int_nat_str Suc_leI)

definition is_genesis :: "mail_commit \<Rightarrow> bool" where
  "is_genesis g \<longleftrightarrow> parse_post_message (mc_message g) = Inr None"

text \<open>The commit at position \<open>i\<close> of a list carries the message of a request, numbered \<open>i\<close>.\<close>

definition numbered_post :: "(nat \<Rightarrow> mail_request) \<Rightarrow> nat \<Rightarrow> mail_commit \<Rightarrow> bool" where
  "numbered_post requests i c \<longleftrightarrow>
     (\<exists>p. mc_message c = request_message (requests p) (message_id (mr_kind (requests p)) (mr_coordinate (requests p)) i))"

definition history_ok :: "(nat \<Rightarrow> mail_request) \<Rightarrow> commit_id \<Rightarrow> bool" where
  "history_ok requests h \<longleftrightarrow> h \<noteq> [] \<and> is_genesis (hd h) \<and> (\<forall>i. 0 < i \<longrightarrow> i < length h \<longrightarrow> numbered_post requests i (h ! i))"

lemma genesis_is_genesis: "is_genesis \<lparr>mc_message = genesis_message seed tree, mc_date = d\<rparr>"
proof -
  let ?h = "''list: genesis''"
  obtain rest where m: "genesis_message seed tree = ?h @ rest @ [newline]" by (auto simp: genesis_message_def)
  have "py_rstrip_char newline (?h @ rest @ [newline]) = py_rstrip_char newline (?h @ rest)"
    using py_rstrip_char_snoc [of newline "?h @ rest"] by simp
  moreover have "startswith (py_rstrip_char newline (?h @ rest)) ?h"
  proof (induction rest rule: rev_induct)
    case Nil
    show ?case using py_rstrip_char_id [of ?h newline] by (simp add: newline_def) code_simp
  next
    case (snoc x rest)
    then show ?case
      using py_rstrip_char_snoc [of newline "?h @ rest"] py_rstrip_char_id [of "?h @ rest @ [x]" newline]
        startswith_append [of ?h "rest @ [x]"] by (cases "x = newline") auto
  qed
  ultimately show ?thesis by (simp add: is_genesis_def m parse_post_message_def Let_def)
qed

lemma history_ok_single: "is_genesis g \<Longrightarrow> history_ok requests [g]"
  by (simp add: history_ok_def)

lemma history_ok_snoc: "history_ok requests h \<Longrightarrow> numbered_post requests (length h) c \<Longrightarrow> history_ok requests (h @ [c])"
  by (auto simp: history_ok_def nth_append less_Suc_eq)

text \<open>What the invariant says of one call, against the current list.\<close>

fun phase_ok :: "mail_request \<Rightarrow> commit_id option \<Rightarrow> post_phase \<Rightarrow> bool" where
  "phase_ok req ref (PEnsure first n (EnsureSwap g)) \<longleftrightarrow> is_genesis g"
| "phase_ok req ref (PSearch n e) \<longleftrightarrow> e \<noteq> [] \<and> (\<exists>h. ref = Some h \<and> prefix e h)"
| "phase_ok req ref (PBuild n e) \<longleftrightarrow> e \<noteq> [] \<and> (\<exists>h. ref = Some h \<and> prefix e h) \<and>
     (\<forall>item. ref = Some e \<longrightarrow> qa_item_ref (mr_kind req) (mr_refs req) = Some item \<longrightarrow> qa_post_for_item (Some e) item = Inr None)"
| "phase_ok req ref (PSwap n e c mid) \<longleftrightarrow> e \<noteq> [] \<and> (\<exists>h. ref = Some h \<and> prefix e h) \<and>
     (\<forall>item. ref = Some e \<longrightarrow> qa_item_ref (mr_kind req) (mr_refs req) = Some item \<longrightarrow> qa_post_for_item (Some e) item = Inr None) \<and>
     mid = message_id (mr_kind req) (mr_coordinate req) (length e) \<and> mc_message c = request_message req mid"
| "phase_ok req ref (PDone (PostedNew cid mid)) \<longleftrightarrow>
     (\<exists>h e c. ref = Some h \<and> prefix cid h \<and> cid = e @ [c] \<and> e \<noteq> [] \<and>
        mid = message_id (mr_kind req) (mr_coordinate req) (length e) \<and> mc_message c = request_message req mid)"
| "phase_ok req ref _ \<longleftrightarrow> True"

definition grows :: "commit_id option \<Rightarrow> commit_id option \<Rightarrow> bool" where
  "grows ref ref' \<longleftrightarrow> (case ref of None \<Rightarrow> True | Some h \<Rightarrow> (\<exists>h'. ref' = Some h' \<and> prefix h h'))"

lemma grows_refl [simp]: "grows ref ref"
  by (auto simp: grows_def split: option.split)

lemma prefix_grow: "prefix (e :: commit_id) h \<Longrightarrow> prefix h h' \<Longrightarrow> h' = e \<Longrightarrow> h = e"
  by (simp add: prefix_order.antisym)

lemma phase_ok_grows:
  assumes "phase_ok req ref phase" "grows ref ref'"
  shows "phase_ok req ref' phase"
  using assms
proof (induction req ref phase rule: phase_ok.induct)
  case (5 req ref cid mid)
  then show ?case by (fastforce simp: grows_def intro: prefix_order.trans)
qed (auto simp: grows_def intro: prefix_order.trans dest: prefix_order.antisym split: option.splits)

section \<open>Reading a well-formed list\<close>

definition post_of :: "mail_commit \<Rightarrow> parsed_post option" where
  "post_of c = (case parse_post_message (mc_message c) of Inr p \<Rightarrow> p | Inl _ \<Rightarrow> None)"

definition qa_item_of :: "parsed_post \<Rightarrow> string option" where
  "qa_item_of p = (if pp_kind p = ''qa'' then as_str (py_get (pp_refs p) ''item'') else None)"

definition qa_once :: "commit_id \<Rightarrow> bool" where
  "qa_once h \<longleftrightarrow> (\<forall>i j item. i < j \<longrightarrow> j < length h \<longrightarrow>
     Option.bind (post_of (h ! i)) qa_item_of = Some item \<longrightarrow> Option.bind (post_of (h ! j)) qa_item_of \<noteq> Some item)"

lemma add_value_get:
  "py_get (add_value d (n, v)) k =
     (if k \<noteq> n then py_get d k
      else case py_get d n of PNone \<Rightarrow> PStr v | PList vs \<Rightarrow> PList (vs @ [PStr v]) | previous \<Rightarrow> PList [previous, PStr v])"
  by (auto simp: add_value_def py_get_py_set split: pyval.split)

definition group_value :: "string list \<Rightarrow> pyval" where
  "group_value vs = (case vs of [] \<Rightarrow> PNone | [v] \<Rightarrow> PStr v | _ \<Rightarrow> PList (map PStr vs))"

lemma collect_values_get: "py_get (collect_values [] ps) k = group_value (map snd (filter (\<lambda>e. fst e = k) ps))"
proof (induction ps rule: rev_induct)
  case Nil
  then show ?case by (simp add: collect_values_def py_get_def group_value_def)
next
  case (snoc e ps)
  obtain n v where e: "e = (n, v)" by force
  have "collect_values [] (ps @ [e]) = add_value (collect_values [] ps) (n, v)" by (simp add: collect_values_def e)
  then show ?case
    using snoc by (auto simp: add_value_get e group_value_def split: list.splits)
qed

lemma qa_item_of_request: "qa_item_of (request_parsed r mid) = qa_item_ref (mr_kind r) (mr_refs r)"
  by (auto simp: qa_item_of_def request_parsed_def qa_item_ref_def collect_values_get group_value_def split: list.splits)

lemma numbered_post_of:
  assumes "numbered_post requests i c" "\<forall>p. clean_request (requests p)"
  obtains p where "post_of c = Some (request_parsed (requests p) (message_id (mr_kind (requests p)) (mr_coordinate (requests p)) i))"
    "parse_post_message (mc_message c) = Inr (post_of c)" "is_kind_token (mr_kind (requests p))"
proof -
  obtain p where p: "mc_message c = request_message (requests p) (message_id (mr_kind (requests p)) (mr_coordinate (requests p)) i)"
    using assms(1) by (auto simp: numbered_post_def)
  have r: "clean_request (requests p)" using assms(2) by blast
  then have k: "is_kind_token (mr_kind (requests p))" by (simp add: clean_request_def)
  with parse_request_message [OF r] message_id_plain p that [of p] show thesis by (simp add: post_of_def)
qed

lemma parse_history_posts:
  assumes "\<And>c. c \<in> set cs \<Longrightarrow> parse_post_message (mc_message c) = Inr (post_of c)"
  shows "\<exists>es. parse_history before cs = Inr es \<and> map me_post es = List.map_filter post_of cs"
  using assms
proof (induction before cs rule: parse_history.induct)
  case (2 before c cs)
  from "2.IH" [of "post_of c"] "2.prems" obtain es where
    "parse_history (before @ [c]) cs = Inr es" "map me_post es = List.map_filter post_of cs" by auto
  with "2.prems" show ?case by (auto simp: List.map_filter_simps split: option.split)
qed (simp add: List.map_filter_simps)

lemma map_filter_all: "(\<And>x. x \<in> set xs \<Longrightarrow> f x \<noteq> None) \<Longrightarrow> List.map_filter f xs = map (the \<circ> f) xs"
  by (induction xs) (auto simp: List.map_filter_simps split: option.split)

lemma history_posts:
  assumes "history_ok requests h" "\<forall>p. clean_request (requests p)"
  shows "\<exists>es. parse_history [] h = Inr es \<and> map me_post es = map (the \<circ> post_of) (tl h) \<and>
    (\<forall>c\<in>set (tl h). post_of c \<noteq> None)"
proof -
  obtain g ps where h: "h = g # ps" using assms(1) by (cases h) (auto simp: history_ok_def)
  have g: "parse_post_message (mc_message g) = Inr (post_of g)" "post_of g = None"
    using assms(1) by (auto simp: h history_ok_def is_genesis_def post_of_def)
  have ps: "parse_post_message (mc_message c) = Inr (post_of c) \<and> post_of c \<noteq> None" if c: "c \<in> set ps" for c
  proof -
    obtain i where "i < length ps" "c = ps ! i" using c by (auto simp: in_set_conv_nth)
    then have "numbered_post requests (Suc i) c" using assms(1) by (auto simp: history_ok_def h)
    then obtain q where "post_of c = Some q" "parse_post_message (mc_message c) = Inr (post_of c)"
      by (rule numbered_post_of [OF _ assms(2)])
    then show ?thesis by simp
  qed
  have "\<exists>es. parse_history [] h = Inr es \<and> map me_post es = List.map_filter post_of h"
    by (rule parse_history_posts) (use g ps h in auto)
  moreover have "List.map_filter post_of h = map (the \<circ> post_of) ps"
    using g(2) ps map_filter_all [of ps post_of] by (simp add: h List.map_filter_simps)
  ultimately show ?thesis using ps by (auto simp: h)
qed

lemma qa_search_none:
  assumes h: "history_ok requests h" "\<forall>p. clean_request (requests p)"
    and none: "qa_post_for_item (Some h) item = Inr None" and c: "c \<in> set h"
  shows "Option.bind (post_of c) qa_item_of \<noteq> Some item"
proof
  assume a: "Option.bind (post_of c) qa_item_of = Some item"
  then obtain q where q: "post_of c = Some q" "qa_item_of q = Some item" by (auto simp: bind_eq_Some_conv)
  obtain es where es: "parse_history [] h = Inr es" "map me_post es = map (the \<circ> post_of) (tl h)"
    using history_posts [OF h] by blast
  have "c \<in> set (tl h)"
    using c q(1) h(1) by (cases h) (auto simp: history_ok_def is_genesis_def post_of_def)
  then have "q \<in> set (map me_post es)" using q(1) by (force simp: es(2))
  then obtain e where e: "e \<in> set es" "me_post e = q" by auto
  have "is_kind_token ''qa''" by code_simp
  then have "read_list (Some h) None (PList [PStr ''qa'']) = Inr (filter (\<lambda>e. pp_kind (me_post e) = ''qa'') es)"
    by (simp add: read_list_def normalize_kinds_def es(1))
  with none have "find (\<lambda>e. py_get (pp_refs (me_post e)) ''item'' = PStr item) (filter (\<lambda>e. pp_kind (me_post e) = ''qa'') es) = None"
    by (simp add: qa_post_for_item_def)
  then show False using e q(2) by (auto simp: find_None_iff qa_item_of_def split: if_splits)
qed

section \<open>Every step keeps the invariant\<close>

fun move_ok :: "commit_id option \<Rightarrow> move_phase \<Rightarrow> bool" where
  "move_ok ref (MRead n t) \<longleftrightarrow> (\<exists>h. ref = Some h \<and> prefix t h)"
| "move_ok ref (MSwap n t c) \<longleftrightarrow> (\<exists>h. ref = Some h \<and> prefix t h) \<and> (\<forall>x. c = Some x \<longrightarrow> prefix x t)"
| "move_ok ref _ \<longleftrightarrow> True"

definition world_ok :: "(nat \<Rightarrow> mail_request) \<Rightarrow> mail_world \<Rightarrow> bool" where
  "world_ok requests w \<longleftrightarrow>
     (\<forall>h. w_list w = Some h \<longrightarrow> history_ok requests h \<and> qa_once h) \<and>
     (\<forall>p. phase_ok (requests p) (w_list w) (w_posts w p)) \<and>
     (\<forall>c. w_cursor w = Some c \<longrightarrow> (\<exists>h. w_list w = Some h \<and> prefix c h)) \<and>
     (\<forall>p. move_ok (w_list w) (w_moves w p))"

lemma move_ok_grows: "move_ok ref phase \<Longrightarrow> grows ref ref' \<Longrightarrow> move_ok ref' phase"
  by (induction ref phase rule: move_ok.induct) (auto simp: grows_def intro: prefix_order.trans)

lemma qa_once_single: "qa_once [g]"
  by (simp add: qa_once_def)

lemma qa_once_snoc:
  assumes "qa_once h" "\<And>item. Option.bind (post_of c) qa_item_of = Some item \<Longrightarrow> \<forall>d\<in>set h. Option.bind (post_of d) qa_item_of \<noteq> Some item"
  shows "qa_once (h @ [c])"
  using assms unfolding qa_once_def by (auto simp: nth_append less_Suc_eq)

lemma ensure_step_ok:
  assumes "ensure_step git ref stage = (ref', out)" "\<forall>g. stage = EnsureSwap g \<longrightarrow> is_genesis g"
  shows "(ref' = ref \<or> ref = None \<and> (\<exists>g. ref' = Some [g] \<and> is_genesis g)) \<and>
    (\<forall>g. out = Inl (EnsureSwap g) \<longrightarrow> is_genesis g) \<and>
    (\<forall>b h. out = Inr (EnsureOk b h) \<longrightarrow> ref' = Some h)"
  using assms genesis_is_genesis
  by (cases stage) (auto simp: ensure_step_def update_ref_cas_def create_genesis_def result_simps split: option.splits sum.splits if_splits prod.splits)

lemma search_post_ok:
  assumes "e \<noteq> []" "ref = Some h" "prefix e h"
  shows "phase_ok req ref (search_post req ref n e)"
  using assms by (auto simp: search_post_def split: option.splits sum.splits)

lemma build_post_ok:
  assumes "phase_ok req ref (PBuild n e)" "counts_chains git"
  shows "phase_ok req ref (build_post req git n e)"
  using assms next_sequence_count [OF assms(2), of e]
  by (auto simp: build_post_def contention_def Let_def split: option.splits sum.splits)

text \<open>The effect of one step of \<open>post\<close> on the list: nothing, a genesis, or one numbered post.\<close>

lemma post_step_ok:
  assumes step: "post_step req git ref phase = (ref', phase')" and counts: "counts_chains git"
    and ok: "phase_ok req ref phase" and nonempty: "\<forall>h. ref = Some h \<longrightarrow> h \<noteq> []"
  shows "phase_ok req ref' phase' \<and>
    (ref' = ref \<or> ref = None \<and> (\<exists>g. ref' = Some [g] \<and> is_genesis g) \<or>
     (\<exists>e c. ref = Some e \<and> ref' = Some (e @ [c]) \<and> mc_message c = request_message req (message_id (mr_kind req) (mr_coordinate req) (length e)) \<and>
        (\<forall>item. qa_item_ref (mr_kind req) (mr_refs req) = Some item \<longrightarrow> qa_post_for_item (Some e) item = Inr None)))"
proof (cases phase)
  case (PEnsure first n stage)
  obtain out where e: "ensure_step git ref stage = (ref', out)"
    using step PEnsure by (auto simp: post_step_def split: prod.splits)
  have g: "\<forall>g. stage = EnsureSwap g \<longrightarrow> is_genesis g" using ok PEnsure by auto
  note es = ensure_step_ok [OF e g]
  have "\<forall>h. ref' = Some h \<longrightarrow> h \<noteq> []" using es nonempty by auto
  then have "phase_ok req ref' phase'"
    using step PEnsure e es
    by (cases out; cases "projl out"; cases "projr out") (auto simp: post_step_def contention_def split: if_splits)
  then show ?thesis using es by blast
next
  case (PHead n)
  then show ?thesis using step nonempty by (cases n) (auto simp: post_step_def contention_def split: option.splits)
next
  case (PSearch n e)
  then show ?thesis using step ok search_post_ok [of e ref _ req n] by (auto simp: post_step_def)
next
  case (PBuild n e)
  then show ?thesis using step ok build_post_ok [OF _ counts, of req ref n e] by (auto simp: post_step_def)
next
  case (PSwap n e c mid)
  then show ?thesis using step ok by (auto simp: post_step_def update_ref_cas_def split: if_splits)
qed (use step ok in \<open>auto simp: post_step_def\<close>)

lemma post_step_grows:
  assumes "post_step req git ref phase = (ref', phase')" "counts_chains git" "phase_ok req ref phase" "\<forall>h. ref = Some h \<longrightarrow> h \<noteq> []"
  shows "grows ref ref'"
  using post_step_ok [OF assms] by (auto simp: grows_def split: option.split)

lemma move_step_ok:
  assumes "move_step target git ref cur phase = (cur', phase')" "move_ok ref phase"
    "\<forall>c. cur = Some c \<longrightarrow> (\<exists>h. ref = Some h \<and> prefix c h)"
  shows "move_ok ref phase' \<and> grows cur cur' \<and> (\<forall>c. cur' = Some c \<longrightarrow> (\<exists>h. ref = Some h \<and> prefix c h))"
  using assms
  by (cases phase) (auto simp: move_step_def update_ref_cas_def grows_def split: option.splits if_splits nat.splits)

lemma mail_step_world_ok:
  assumes "mail_step requests targets w w'" "world_ok requests w" "\<forall>p. clean_request (requests p)"
  shows "world_ok requests w' \<and> grows (w_list w) (w_list w') \<and> grows (w_cursor w) (w_cursor w')"
  using assms(1)
proof cases
  case (Post git p ref phase)
  have ne: "\<forall>h. w_list w = Some h \<longrightarrow> h \<noteq> []" and ok: "phase_ok (requests p) (w_list w) (w_posts w p)"
    using assms(2) by (auto simp: world_ok_def history_ok_def)
  note s = post_step_ok [OF Post(3,2) ok ne] and g = post_step_grows [OF Post(3,2) ok ne]
  have hist: "history_ok requests h \<and> qa_once h" if "ref = Some h" for h
    using s
  proof (elim conjE disjE exE)
    fix e c
    assume e: "w_list w = Some e" "ref = Some (e @ [c])"
      "mc_message c = request_message (requests p) (message_id (mr_kind (requests p)) (mr_coordinate (requests p)) (length e))"
      "\<forall>item. qa_item_ref (mr_kind (requests p)) (mr_refs (requests p)) = Some item \<longrightarrow> qa_post_for_item (Some e) item = Inr None"
    have he: "history_ok requests e" "qa_once e" using assms(2) e(1) by (auto simp: world_ok_def)
    have n: "numbered_post requests (length e) c" using e(3) by (auto simp: numbered_post_def)
    have "clean_request (requests p)" "is_kind_token (mr_kind (requests p))" using assms(3) by (auto simp: clean_request_def)
    then have bind: "Option.bind (post_of c) qa_item_of = qa_item_ref (mr_kind (requests p)) (mr_refs (requests p))"
      using parse_request_message [of "requests p"] message_id_plain e(3) by (simp add: post_of_def qa_item_of_request)
    have "\<forall>d\<in>set e. Option.bind (post_of d) qa_item_of \<noteq> Some item" if "Option.bind (post_of c) qa_item_of = Some item" for item
    proof
      fix d assume "d \<in> set e"
      moreover have "qa_post_for_item (Some e) item = Inr None" using e(4) that bind by simp
      ultimately show "Option.bind (post_of d) qa_item_of \<noteq> Some item" using qa_search_none [OF he(1) assms(3)] by blast
    qed
    then have "qa_once (e @ [c])" by (rule qa_once_snoc [OF he(2)])
    then show ?thesis using that e(2) history_ok_snoc [OF he(1) n] by simp
  qed (use assms(2) that history_ok_single qa_once_single in \<open>auto simp: world_ok_def\<close>)
  show ?thesis
    using Post(1) s g hist assms(2) phase_ok_grows [OF _ g] move_ok_grows [OF _ g]
    by (auto simp: world_ok_def grows_def intro: prefix_order.trans)
next
  case (Move p git cur phase)
  have "move_ok (w_list w) (w_moves w p)" "\<forall>c. w_cursor w = Some c \<longrightarrow> (\<exists>h. w_list w = Some h \<and> prefix c h)"
    using assms(2) by (auto simp: world_ok_def)
  then have "move_ok (w_list w) phase \<and> grows (w_cursor w) cur \<and> (\<forall>c. cur = Some c \<longrightarrow> (\<exists>h. w_list w = Some h \<and> prefix c h))"
    by (rule move_step_ok [OF Move(2)])
  then show ?thesis using Move(1) assms(2) by (auto simp: world_ok_def)
qed

lemma world_start_ok: "world_ok requests mail_world_start"
  by (simp add: world_ok_def mail_world_start_def post_start_def)

lemma grows_trans: "grows a b \<Longrightarrow> grows b c \<Longrightarrow> grows a c"
  by (auto simp: grows_def intro: prefix_order.trans split: option.splits)

lemma mail_reach_ok:
  assumes "mail_reach requests targets w w'" "world_ok requests w" "\<forall>p. clean_request (requests p)"
  shows "world_ok requests w' \<and> grows (w_list w) (w_list w') \<and> grows (w_cursor w) (w_cursor w')"
  using assms
proof (induction rule: mail_reach.induct)
  case (Step w w' w'')
  then show ?case using mail_step_world_ok [OF Step(2)] grows_trans by blast
qed simp

lemma read_all: "h \<noteq> [] \<Longrightarrow> read_list (Some h) None PNone = parse_history [] h"
  by (simp add: read_list_def normalize_kinds_def rbind_def split: sum.split)

lemma read_world:
  assumes "world_ok requests w" "\<forall>p. clean_request (requests p)"
  obtains es where "read_list (w_list w) None PNone = Inr es"
    "map me_post es = (case w_list w of None \<Rightarrow> [] | Some h \<Rightarrow> map (the \<circ> post_of) (tl h))"
proof (cases "w_list w")
  case None
  then show ?thesis using that [of "[]"] by (simp add: read_list_def)
next
  case (Some h)
  then have h: "history_ok requests h" using assms(1) by (simp add: world_ok_def)
  with history_posts [OF h assms(2)] that Some show ?thesis by (auto simp: history_ok_def read_all)
qed

lemma distinct_message_ids:
  assumes "history_ok requests h" "\<forall>p. clean_request (requests p)"
  shows "distinct (map (pp_message_id \<circ> (the \<circ> post_of)) (tl h))"
proof -
  obtain g ps where h: "h = g # ps" using assms(1) by (cases h) (auto simp: history_ok_def)
  have id: "\<exists>k c. is_kind_token k \<and> pp_message_id (the (post_of (ps ! i))) = Some (message_id k c (Suc i))" if i: "i < length ps" for i
  proof -
    have "numbered_post requests (Suc i) (ps ! i)" using assms(1) i by (auto simp: history_ok_def h)
    then obtain p where "post_of (ps ! i) = Some (request_parsed (requests p) (message_id (mr_kind (requests p)) (mr_coordinate (requests p)) (Suc i)))"
      "is_kind_token (mr_kind (requests p))" by (rule numbered_post_of [OF _ assms(2)])
    then show ?thesis by (auto simp: request_parsed_def)
  qed
  have "pp_message_id (the (post_of (ps ! i))) \<noteq> pp_message_id (the (post_of (ps ! j)))"
    if ij: "i < length ps" "j < length ps" "i \<noteq> j" for i j
  proof -
    obtain k c where a: "is_kind_token k" "pp_message_id (the (post_of (ps ! i))) = Some (message_id k c (Suc i))"
      using id [OF ij(1)] by blast
    obtain k' c' where b: "is_kind_token k'" "pp_message_id (the (post_of (ps ! j))) = Some (message_id k' c' (Suc j))"
      using id [OF ij(2)] by blast
    show ?thesis using message_id_inject [OF a(1) b(1)] a(2) b(2) ij(3) by auto
  qed
  then show ?thesis by (simp add: h distinct_conv_nth)
qed

lemma map_filter_comp: "List.map_filter (\<lambda>e. f (g e)) xs = List.map_filter f (map g xs)"
  by (induction xs) (auto simp: List.map_filter_simps split: option.split)

lemma distinct_map_filter:
  assumes "\<And>i j x. i < j \<Longrightarrow> j < length xs \<Longrightarrow> f (xs ! i) = Some x \<Longrightarrow> f (xs ! j) \<noteq> Some x"
  shows "distinct (List.map_filter f xs)"
  using assms
proof (induction xs)
  case (Cons a xs)
  have "f (xs ! j) \<noteq> Some x" if "f a = Some x" "j < length xs" for j x
    using Cons.prems [of 0 "Suc j" x] that by simp
  then have "x \<notin> set (List.map_filter f xs)" if "f a = Some x" for x
    using that by (auto simp: List.map_filter_def in_set_conv_nth)
  moreover have "distinct (List.map_filter f xs)"
  proof (rule Cons.IH)
    show "f (xs ! j) \<noteq> Some x" if "i < j" "j < length xs" "f (xs ! i) = Some x" for i j x
      using Cons.prems [of "Suc i" "Suc j" x] that by simp
  qed
  ultimately show ?case by (auto simp: List.map_filter_simps split: option.split)
qed (simp add: List.map_filter_simps)

lemma qa_items_distinct:
  assumes "history_ok requests h" "qa_once h" "\<forall>c\<in>set (tl h). post_of c \<noteq> None"
  shows "distinct (List.map_filter qa_item_of (map (the \<circ> post_of) (tl h)))"
proof (rule distinct_map_filter)
  fix i j x assume ij: "i < j" "j < length (map (the \<circ> post_of) (tl h))" "qa_item_of (map (the \<circ> post_of) (tl h) ! i) = Some x"
  have some: "\<exists>q. post_of (tl h ! k) = Some q" if "k < length (tl h)" for k using assms(3) that by (metis nth_mem not_None_eq)
  have "Option.bind (post_of (h ! Suc i)) qa_item_of = Some x" using ij some [of i] by (auto simp: nth_tl)
  then have "Option.bind (post_of (h ! Suc j)) qa_item_of \<noteq> Some x" using assms(2) ij(1,2) unfolding qa_once_def by (metis Suc_less_eq length_map length_tl less_diff_conv Suc_eq_plus1)
  then show "qa_item_of (map (the \<circ> post_of) (tl h) ! j) \<noteq> Some x" using ij some [of j] by (auto simp: nth_tl)
qed

lemma parse_history_entry:
  "parse_history before cs = Inr es \<Longrightarrow> i < length cs \<Longrightarrow> post_of (cs ! i) = Some q \<Longrightarrow>
     \<lparr>me_commit = before @ take (Suc i) cs, me_post = q, me_date = mc_date (cs ! i)\<rparr> \<in> set es"
proof (induction cs arbitrary: before es i)
  case (Cons c cs)
  obtain p es' where p: "parse_post_message (mc_message c) = Inr p" "parse_history (before @ [c]) cs = Inr es'"
    "es = (case p of None \<Rightarrow> es' | Some q \<Rightarrow> \<lparr>me_commit = before @ [c], me_post = q, me_date = mc_date c\<rparr> # es')"
    using Cons.prems(1) by (auto simp: result_simps)
  show ?case
  proof (cases i)
    case 0
    with Cons.prems(3) p show ?thesis by (auto simp: post_of_def)
  next
    case (Suc k)
    with Cons.IH [OF p(2), of k] Cons.prems(2,3) p(3) show ?thesis by (auto split: option.splits)
  qed
qed simp

section \<open>The properties of the list\<close>

text \<open>
  What a call of \<open>post\<close> appends is a request that passed its validation. Validation refuses LF and CR in the
  values of references, links and the reply, but not the other characters at which \<open>splitlines\<close> splits (VT,
  FF, FS, GS, RS, NEL); a request that hides one there makes the list unreadable for good (Lemma
  \<open>hidden_break_unreadable\<close> of MailingList). The properties below are those of a list to which no such request
  is ever posted, which the code does not check.
\<close>

definition validated_request :: "mail_request \<Rightarrow> bool" where
  "validated_request r \<longleftrightarrow>
     (\<exists>kind subject body refs coordinate body_text corresponds_to in_reply_to.
        prepare_post kind subject body refs coordinate body_text corresponds_to in_reply_to = Inr r)"

lemma validated_clean: "validated_request r \<Longrightarrow> \<not> request_hides_break r \<Longrightarrow> clean_request r"
  by (auto simp: validated_request_def intro: prepare_post_clean)

text \<open>
  C20: whatever the interleaving of the posters and of git, the list stays readable, and no two posts
  on it have the same message id; provided that no validated request that is posted hides a line separator in a
  reference, a link or its reply (VT, FF, FS, GS, RS or NEL, which validation lets through).
\<close>

theorem mail_ids_unique:
  assumes "mail_reach requests targets mail_world_start w" "\<And>p. validated_request (requests p)" "\<And>p. \<not> request_hides_break (requests p)"
  shows "\<exists>es. read_list (w_list w) None PNone = Inr es \<and> distinct (map (\<lambda>e. pp_message_id (me_post e)) es)"
proof -
  have clean: "\<forall>p. clean_request (requests p)" using assms(2,3) validated_clean by blast
  have ok: "world_ok requests w" using mail_reach_ok [OF assms(1) world_start_ok clean] by blast
  obtain es where es: "read_list (w_list w) None PNone = Inr es"
    "map me_post es = (case w_list w of None \<Rightarrow> [] | Some h \<Rightarrow> map (the \<circ> post_of) (tl h))"
    using read_world [OF ok clean] .
  have "distinct (map pp_message_id (map me_post es))"
    using es(2) distinct_message_ids [OF _ clean] ok by (auto simp: world_ok_def split: option.splits)
  then show ?thesis using es(1) by (auto simp: comp_def)
qed

text \<open>
  C23: at most one \<open>qa\<close> post names a given item: the search before the append cannot be overtaken,
  because the append succeeds only on the head the attempt started from; provided that no validated request
  that is posted hides a line separator in a reference, a link or its reply.
\<close>

theorem qa_posted_once:
  assumes "mail_reach requests targets mail_world_start w" "\<And>p. validated_request (requests p)" "\<And>p. \<not> request_hides_break (requests p)"
    and "read_list (w_list w) None PNone = Inr es"
  shows "distinct (List.map_filter (\<lambda>e. qa_item_of (me_post e)) es)"
proof -
  have clean: "\<forall>p. clean_request (requests p)" using assms(2,3) validated_clean by blast
  have ok: "world_ok requests w" using mail_reach_ok [OF assms(1) world_start_ok clean] by blast
  have "map me_post es = (case w_list w of None \<Rightarrow> [] | Some h \<Rightarrow> map (the \<circ> post_of) (tl h))"
    using read_world [OF ok clean] assms(4) by (metis sum.inject(2))
  moreover have "distinct (List.map_filter qa_item_of (map (the \<circ> post_of) (tl h)))" if "w_list w = Some h" for h
    using ok history_posts [OF _ clean] that qa_items_distinct [of requests h] by (auto simp: world_ok_def)
  ultimately show ?thesis by (auto simp: map_filter_comp List.map_filter_simps split: option.splits)
qed

text \<open>
  C35: a post that was acknowledged stays: in every later state the list still extends the
  returned commit, and reading it yields an entry with that commit, the returned message id and
  the fields of the request; provided that no validated request that is posted hides a line separator in a
  reference, a link or its reply.
\<close>

theorem acknowledged_post_stays:
  assumes "mail_reach requests targets mail_world_start w" "\<And>p. validated_request (requests p)" "\<And>p. \<not> request_hides_break (requests p)"
    and "w_posts w p = PDone (PostedNew cid mid)" "mail_reach requests targets w w'"
  shows "\<exists>h es e. w_list w' = Some h \<and> prefix cid h \<and> read_list (w_list w') None PNone = Inr es \<and>
    e \<in> set es \<and> me_commit e = cid \<and> me_post e = request_parsed (requests p) mid"
proof -
  have clean: "\<forall>p. clean_request (requests p)" using assms(2,3) validated_clean by blast
  have ok: "world_ok requests w" using mail_reach_ok [OF assms(1) world_start_ok clean] by blast
  note ok' = mail_reach_ok [OF assms(5) ok clean]
  have "phase_ok (requests p) (w_list w) (PDone (PostedNew cid mid))" using ok assms(4) by (metis world_ok_def)
  then obtain h0 e c where pc: "w_list w = Some h0" "prefix cid h0" "cid = e @ [c]" "e \<noteq> []"
    "mid = message_id (mr_kind (requests p)) (mr_coordinate (requests p)) (length e)" "mc_message c = request_message (requests p) mid"
    by auto
  obtain h where h: "w_list w' = Some h" "prefix h0 h" using ok' pc(1) by (auto simp: grows_def)
  then have pre: "prefix cid h" using pc(2) prefix_order.trans by blast
  have hist: "history_ok requests h" using ok' h(1) by (simp add: world_ok_def)
  have r: "clean_request (requests p)" "is_kind_token (mr_kind (requests p))" using clean by (auto simp: clean_request_def)
  have "post_of c = Some (request_parsed (requests p) mid)"
    using parse_request_message [OF r(1)] message_id_plain [OF r(2)] pc(5,6) by (simp add: post_of_def)
  moreover have at: "length e < length h" "h ! length e = c" "take (Suc (length e)) h = cid"
    using pre pc(3) by (auto simp: prefix_def nth_append)
  moreover obtain es where "parse_history [] h = Inr es" using history_posts [OF hist clean] by blast
  ultimately show ?thesis
    using parse_history_entry [of "[]" h _ "length e"] h(1) pre hist
    by (fastforce simp: read_all history_ok_def)
qed

text \<open>The cursor moves only forward, and always stands on a commit of the list.\<close>

theorem cursor_forward:
  assumes "mail_reach requests targets mail_world_start w" "\<forall>p. clean_request (requests p)"
    and "mail_reach requests targets w w'" "w_cursor w = Some c"
  shows "\<exists>c' h. w_cursor w' = Some c' \<and> prefix c c' \<and> w_list w' = Some h \<and> prefix c' h"
proof -
  have ok: "world_ok requests w" using mail_reach_ok [OF assms(1) world_start_ok assms(2)] by blast
  from mail_reach_ok [OF assms(3) ok assms(2)] assms(4) show ?thesis by (auto simp: grows_def world_ok_def)
qed

section \<open>A concrete run\<close>

text \<open>
  One poster creates the list and appends a \<open>qa\<close> post; then a reader advances its cursor to it.
\<close>

definition example_request :: mail_request where
  "example_request = \<lparr>mr_kind = ''qa'', mr_subject = ''one'', mr_body = ''b'', mr_refs = [(''item'', ''c0ffee'')],
     mr_coordinate = ''one'', mr_links = [], mr_reply = None\<rparr>"

definition example_list_git :: list_git where
  "example_list_git = \<lparr>lg_default_branch = Inr ''main'', lg_work_head = (\<lambda>_. Some ''5eed''), lg_work_tree = (\<lambda>_. Some ''7ee''),
     lg_mktree = Inr '''', lg_tree = (\<lambda>_. Some ''4b8''),
     lg_count = (\<lambda>h. \<lparr>gr_code = 0, gr_out = nat_str (length h) @ [newline], gr_err = []\<rparr>),
     lg_commit_tree = Inr ''2026-01-01'', lg_ref_writable = True\<rparr>"

definition post_trace :: "nat \<Rightarrow> commit_id option \<times> post_phase" where
  "post_trace k = ((\<lambda>s. post_step example_request example_list_git (fst s) (snd s)) ^^ k) (None, post_start)"

definition move_trace :: "commit_id \<Rightarrow> nat \<Rightarrow> commit_id option \<times> move_phase" where
  "move_trace h k = ((\<lambda>s. move_step (Some h) example_list_git (Some h) (fst s) (snd s)) ^^ k) (None, MStart)"

definition example_genesis :: mail_commit where
  "example_genesis = \<lparr>mc_message = genesis_message ''5eed'' ''7ee'', mc_date = ''2026-01-01''\<rparr>"

definition example_mid :: string where "example_mid = message_id ''qa'' ''one'' 1"

definition example_post :: mail_commit where
  "example_post = \<lparr>mc_message = request_message example_request example_mid, mc_date = ''2026-01-01''\<rparr>"

definition example_list :: commit_id where "example_list = [example_genesis, example_post]"

definition posted_world :: mail_world where
  "posted_world = mail_world_start\<lparr>w_list := Some example_list,
     w_posts := (\<lambda>_. post_start)(0 := PDone (PostedNew example_list example_mid))\<rparr>"

definition moved_world :: mail_world where
  "moved_world = posted_world\<lparr>w_cursor := Some example_list, w_moves := (\<lambda>_. MStart)(0 := MDone (Moved example_list True))\<rparr>"

lemma example_counts: "counts_chains example_list_git"
  by (simp add: counts_chains_def example_list_git_def)

lemma example_clean: "clean_request example_request"
  by code_simp

lemma example_request_validated: "validated_request example_request" "\<not> request_hides_break example_request"
proof -
  have "prepare_post (PStr ''qa'') (PStr ''one'') (PStr ''b'') (PDict [(''item'', PStr ''c0ffee'')]) (PStr ''one'') PNone PNone PNone =
      Inr example_request" by code_simp
  then show "validated_request example_request" unfolding validated_request_def by blast
qed code_simp

text \<open>The seven steps of the poster.\<close>

lemma example_search: "qa_post_for_item (Some [example_genesis]) item = Inr None"
proof -
  have "is_kind_token ''qa''" by code_simp
  moreover have "parse_post_message (mc_message example_genesis) = Inr None"
    using genesis_is_genesis [of "''5eed''" "''7ee''" "''2026-01-01''"] by (simp add: is_genesis_def example_genesis_def)
  ultimately show ?thesis by (simp add: qa_post_for_item_def read_list_def normalize_kinds_def)
qed

lemma example_steps:
  "post_step example_request example_list_git None post_start = (None, PEnsure True 4 EnsureCreate)"
  "post_step example_request example_list_git None (PEnsure True 4 EnsureCreate) = (None, PEnsure True 4 (EnsureSwap example_genesis))"
  "post_step example_request example_list_git None (PEnsure True 4 (EnsureSwap example_genesis)) = (Some [example_genesis], PHead 4)"
  "post_step example_request example_list_git (Some [example_genesis]) (PHead 4) = (Some [example_genesis], PSearch 3 [example_genesis])"
  "post_step example_request example_list_git (Some [example_genesis]) (PSearch 3 [example_genesis]) = (Some [example_genesis], PBuild 3 [example_genesis])"
  "post_step example_request example_list_git (Some [example_genesis]) (PBuild 3 [example_genesis]) =
     (Some [example_genesis], PSwap 3 [example_genesis] example_post example_mid)"
  "post_step example_request example_list_git (Some [example_genesis]) (PSwap 3 [example_genesis] example_post example_mid) =
     (Some example_list, PDone (PostedNew example_list example_mid))"
proof -
  have q: "qa_item_ref (mr_kind example_request) (mr_refs example_request) = Some ''c0ffee''" by code_simp
  have r: "mr_kind example_request = ''qa''" "mr_coordinate example_request = ''one''" by (simp_all add: example_request_def)
  show "post_step example_request example_list_git (Some [example_genesis]) (PSearch 3 [example_genesis]) = (Some [example_genesis], PBuild 3 [example_genesis])"
    by (simp add: post_step_def search_post_def q example_search)
  show "post_step example_request example_list_git (Some [example_genesis]) (PBuild 3 [example_genesis]) =
     (Some [example_genesis], PSwap 3 [example_genesis] example_post example_mid)"
    using next_sequence_count [OF example_counts, of "[example_genesis]"]
    by (simp add: post_step_def build_post_def r Let_def) (simp add: example_list_git_def example_post_def example_mid_def Let_def r)
  show "post_step example_request example_list_git (Some [example_genesis]) (PSwap 3 [example_genesis] example_post example_mid) =
     (Some example_list, PDone (PostedNew example_list example_mid))"
    by (simp add: post_step_def update_ref_cas_def example_list_git_def example_list_def)
qed (simp_all add: post_step_def ensure_step_def update_ref_cas_def post_start_def APPEND_ATTEMPTS_def example_list_git_def
      create_genesis_def capture_seed_def example_genesis_def)

lemma post_trace_end: "post_trace 7 = (Some example_list, PDone (PostedNew example_list example_mid))"
proof -
  have seven: "(7 :: nat) = Suc (Suc (Suc (Suc (Suc (Suc (Suc 0))))))" by simp
  show ?thesis unfolding seven post_trace_def by (simp add: example_steps)
qed

lemma move_trace_end: "move_trace example_list 3 = (Some example_list, MDone (Moved example_list True))"
  by (simp add: move_trace_def eval_nat_numeral move_step_def APPEND_ATTEMPTS_def update_ref_cas_def example_list_git_def)

lemma reach_trans: "mail_reach r t w' w'' \<Longrightarrow> mail_reach r t w w' \<Longrightarrow> mail_reach r t w w''"
  by (induction rule: mail_reach.induct) (auto intro: mail_reach.Step)

lemma reach_post_trace:
  "mail_reach (\<lambda>_. example_request) targets mail_world_start
     (mail_world_start\<lparr>w_list := fst (post_trace k), w_posts := (\<lambda>_. post_start)(0 := snd (post_trace k))\<rparr>)"
proof (induction k)
  case 0
  have "mail_world_start\<lparr>w_list := fst (post_trace 0), w_posts := (\<lambda>_. post_start)(0 := snd (post_trace 0))\<rparr> = mail_world_start"
    by (auto simp: post_trace_def mail_world_start_def)
  then show ?case by (simp only: mail_reach.Refl)
next
  case (Suc k)
  let ?w = "mail_world_start\<lparr>w_list := fst (post_trace k), w_posts := (\<lambda>_. post_start)(0 := snd (post_trace k))\<rparr>"
  have "post_step example_request example_list_git (w_list ?w) (w_posts ?w 0) = (fst (post_trace (Suc k)), snd (post_trace (Suc k)))"
    by (simp add: post_trace_def)
  from mail_reach.Step [OF Suc mail_step.Post [OF example_counts this]] show ?case by (simp del: fun_upd_apply)
qed

lemma reach_posted: "mail_reach (\<lambda>_. example_request) targets mail_world_start posted_world"
  using reach_post_trace [of targets 7] by (simp add: post_trace_end posted_world_def)

lemma reach_move_trace:
  "mail_reach requests (\<lambda>_. Some example_list) posted_world
     (posted_world\<lparr>w_cursor := fst (move_trace example_list k), w_moves := (\<lambda>_. MStart)(0 := snd (move_trace example_list k))\<rparr>)"
proof (induction k)
  case 0
  have "posted_world\<lparr>w_cursor := fst (move_trace example_list 0), w_moves := (\<lambda>_. MStart)(0 := snd (move_trace example_list 0))\<rparr> = posted_world"
    by (auto simp: move_trace_def posted_world_def mail_world_start_def)
  then show ?case by (simp only: mail_reach.Refl)
next
  case (Suc k)
  let ?w = "posted_world\<lparr>w_cursor := fst (move_trace example_list k), w_moves := (\<lambda>_. MStart)(0 := snd (move_trace example_list k))\<rparr>"
  have "move_step (Some example_list) example_list_git (w_list ?w) (w_cursor ?w) (w_moves ?w 0) =
      (fst (move_trace example_list (Suc k)), snd (move_trace example_list (Suc k)))"
    by (simp add: move_trace_def posted_world_def)
  from mail_reach.Step [OF Suc mail_step.Move [OF this]] show ?case by (simp del: fun_upd_apply)
qed

lemma reach_moved: "mail_reach (\<lambda>_. example_request) (\<lambda>_. Some example_list) posted_world moved_world"
  using reach_move_trace [of "\<lambda>_. example_request" 3] by (simp add: move_trace_end moved_world_def)

lemmas reach_example = reach_trans [OF reach_moved reach_posted]

theorem post_terminates_witness: "post_finished (run_post example_request (replicate 41 (example_list_git, None)) post_start)"
  using post_terminates [of "replicate 41 (example_list_git, None)"] by simp

theorem mail_ids_unique_witness:
  "\<exists>es. read_list (Some example_list) None PNone = Inr es \<and> distinct (map (\<lambda>e. pp_message_id (me_post e)) es)"
  using mail_ids_unique [OF reach_posted example_request_validated] by (simp add: posted_world_def)

theorem qa_posted_once_witness:
  "\<exists>es. read_list (Some example_list) None PNone = Inr es \<and> es \<noteq> [] \<and> distinct (List.map_filter (\<lambda>e. qa_item_of (me_post e)) es)"
proof -
  obtain es where es: "read_list (Some example_list) None PNone = Inr es"
    "map me_post es = map (the \<circ> post_of) (tl example_list)"
    using read_world [of "\<lambda>_. example_request" posted_world] mail_reach_ok [OF reach_posted world_start_ok] example_clean
    by (auto simp: posted_world_def)
  have "read_list (w_list posted_world) None PNone = Inr es" using es(1) by (simp add: posted_world_def)
  from qa_posted_once [OF reach_posted example_request_validated this] es show ?thesis by (auto simp: example_list_def)
qed

theorem acknowledged_post_stays_witness:
  "\<exists>h es e. w_list moved_world = Some h \<and> prefix example_list h \<and> read_list (w_list moved_world) None PNone = Inr es \<and>
    e \<in> set es \<and> me_commit e = example_list \<and> me_post e = request_parsed example_request example_mid"
proof -
  have "w_posts posted_world 0 = PDone (PostedNew example_list example_mid)" by (simp add: posted_world_def)
  from acknowledged_post_stays [OF reach_posted example_request_validated this reach_moved] show ?thesis by simp
qed

theorem cursor_forward_witness:
  "\<exists>c' h. w_cursor moved_world = Some c' \<and> prefix example_list c' \<and> w_list moved_world = Some h \<and> prefix c' h"
proof -
  have "w_cursor moved_world = Some example_list" by (simp add: moved_world_def)
  from cursor_forward [OF reach_example _ mail_reach.Refl this] example_clean show ?thesis by simp
qed
end
