(* ===== verification/CarrierRevive.thy ===== *)
theory CarrierRevive imports PyText "HOL-Library.List_Lexorder" "HOL-Library.Char_ord" "HOL-Library.Multiset" begin

text \<open>
  The package \<open>src/carrier_revive\<close>: the read-only scanner of recorded sessions (\<open>scanner.py\<close>), the
  detection of live processes (\<open>procs.py\<close>), and the gated resume of a dead session (\<open>revive.py\<close>
  and the command \<open>revive\<close> of \<open>__main__.py\<close>).

  The file system, the JSON decoder, the process table and \<open>lsof\<close> are arguments; text is
  restricted to the code points 0 to 255.
\<close>

section \<open>Instants\<close>

text \<open>A local \<open>datetime\<close> to the second, ordered by its fields.\<close>

datatype stamp = Stamp (st_year: nat) (st_month: nat) (st_day: nat) (st_hour: nat) (st_minute: nat) (st_second: nat)

fun stamp_key :: "stamp \<Rightarrow> nat list" where
  "stamp_key (Stamp y mo d h mi s) = [y, mo, d, h, mi, s]"

lemma stamp_key_inject [simp]: "stamp_key a = stamp_key b \<longleftrightarrow> a = b"
  by (cases a; cases b) auto

instantiation stamp :: linorder
begin

definition less_eq_stamp :: "stamp \<Rightarrow> stamp \<Rightarrow> bool" where "less_eq_stamp a b \<longleftrightarrow> stamp_key a \<le> stamp_key b"
definition less_stamp :: "stamp \<Rightarrow> stamp \<Rightarrow> bool" where "less_stamp a b \<longleftrightarrow> stamp_key a < stamp_key b"

instance
proof
  fix a b c :: stamp
  show "a < b \<longleftrightarrow> a \<le> b \<and> \<not> b \<le> a" by (simp add: less_eq_stamp_def less_stamp_def less_le_not_le)
  show "a \<le> a" by (simp add: less_eq_stamp_def)
  show "a \<le> b \<Longrightarrow> b \<le> c \<Longrightarrow> a \<le> c" by (simp add: less_eq_stamp_def)
  show "a \<le> b \<Longrightarrow> b \<le> a \<Longrightarrow> a = b" by (simp add: less_eq_stamp_def antisym [THEN stamp_key_inject [THEN iffD1]])
  show "a \<le> b \<or> b \<le> a" by (auto simp: less_eq_stamp_def)
qed

end

definition leap_year :: "nat \<Rightarrow> bool" where
  "leap_year y \<longleftrightarrow> y mod 4 = 0 \<and> (y mod 100 \<noteq> 0 \<or> y mod 400 = 0)"

definition month_days :: "nat \<Rightarrow> nat \<Rightarrow> nat" where
  "month_days y m = (if m = 2 then (if leap_year y then 29 else 28) else if m \<in> {4, 6, 9, 11} then 30 else 31)"

definition valid_stamp :: "stamp \<Rightarrow> bool" where
  "valid_stamp t \<longleftrightarrow> 1 \<le> st_year t \<and> 1 \<le> st_month t \<and> st_month t \<le> 12 \<and> 1 \<le> st_day t \<and>
     st_day t \<le> month_days (st_year t) (st_month t) \<and> st_hour t < 24 \<and> st_minute t < 60 \<and> st_second t < 60"

text \<open>\<open>now - timedelta(days=1)\<close> on the date.\<close>

fun prev_day :: "nat \<times> nat \<times> nat \<Rightarrow> nat \<times> nat \<times> nat" where
  "prev_day (y, m, d) =
     (if 1 < d then (y, m, d - 1)
      else if 1 < m then (y, m - 1, month_days y (m - 1))
      else (y - 1, 12, 31))"

section \<open>Rollout files\<close>

definition is_hex :: "char \<Rightarrow> bool" where
  "is_hex c \<longleftrightarrow> is_hex_lower c \<or> (65 \<le> char_code c \<and> char_code c \<le> 70)"

text \<open>A fixed-width layout: digits, hexadecimal digits or a literal character at each place.\<close>

datatype slot = Digit | Hex | Lit char

fun slot_ok :: "slot \<Rightarrow> char \<Rightarrow> bool" where
  "slot_ok Digit c \<longleftrightarrow> is_digit c"
| "slot_ok Hex c \<longleftrightarrow> is_hex c"
| "slot_ok (Lit l) c \<longleftrightarrow> c = l"

definition fits :: "slot list \<Rightarrow> string \<Rightarrow> bool" where
  "fits slots s \<longleftrightarrow> list_all2 slot_ok slots s"

definition dash :: slot where "dash = Lit (CHR ''-'')"

definition ts_slots :: "slot list" where
  "ts_slots = replicate 4 Digit @ [dash] @ replicate 2 Digit @ [dash] @ replicate 2 Digit @ [Lit (CHR ''T'')] @
     replicate 2 Digit @ [dash] @ replicate 2 Digit @ [dash] @ replicate 2 Digit"

definition uuid_slots :: "slot list" where
  "uuid_slots = replicate 8 Hex @ [dash] @ replicate 4 Hex @ [dash] @ replicate 4 Hex @ [dash] @ replicate 4 Hex @ [dash] @ replicate 12 Hex"

definition rollout_slots :: "slot list" where
  "rollout_slots = map Lit ''rollout-'' @ ts_slots @ [dash] @ uuid_slots @ map Lit ''.jsonl''"

definition field_nat :: "string \<Rightarrow> nat \<Rightarrow> nat \<Rightarrow> nat" where
  "field_nat s start len = dec_value (take len (drop start s))"

text \<open>
  The pattern ends in \<open>$\<close>, which also matches before a final newline. The time starts at
  offset 8 and has 19 characters, the uuid follows at offset 28.
\<close>

definition parse_rollout_filename :: "string \<Rightarrow> (stamp \<times> string) option" where
  "parse_rollout_filename name =
     (let body = (if name \<noteq> [] \<and> last name = newline then butlast name else name) in
      if \<not> fits rollout_slots body then None
      else
        let t = Stamp (field_nat body 8 4) (field_nat body 13 2) (field_nat body 16 2)
                      (field_nat body 19 2) (field_nat body 22 2) (field_nat body 25 2)
        in if valid_stamp t then Some (t, py_lower (take 36 (drop 28 body))) else None)"

section \<open>Reading a session\<close>

record session_fs =
  fs_names :: "string \<Rightarrow> string list option"
  fs_lines :: "string \<Rightarrow> string list option"
  fs_mtime :: "string \<Rightarrow> stamp option"
  fs_isdir :: "string \<Rightarrow> bool"
  fs_exists :: "string \<Rightarrow> bool"

datatype scan_error = AttributeError | NotIterable

record carrier_session =
  cs_uuid :: string
  cs_path :: string
  cs_start :: "stamp option"
  cs_cwd :: string
  cs_last :: "stamp option"
  cs_first_prompt :: string
  cs_meta :: pydict

definition PRESERVED_WORKTREE_MARKER :: string where "PRESERVED_WORKTREE_MARKER = ''ai-org-patch-author-''"
definition FIRST_PROMPT_SCAN_LIMIT :: nat where "FIRST_PROMPT_SCAN_LIMIT = 300"

definition text_in :: "string \<Rightarrow> string \<Rightarrow> bool" where
  "text_in sub s \<longleftrightarrow> py_find sub s \<noteq> None"

definition short_uuid :: "carrier_session \<Rightarrow> string" where "short_uuid s = take 8 (cs_uuid s)"

definition cwd_exists :: "session_fs \<Rightarrow> carrier_session \<Rightarrow> bool" where
  "cwd_exists fs s \<longleftrightarrow> cs_cwd s \<noteq> [] \<and> fs_isdir fs (cs_cwd s)"

definition is_preserved_worktree :: "string \<Rightarrow> bool" where
  "is_preserved_worktree cwd \<longleftrightarrow> text_in PRESERVED_WORKTREE_MARKER cwd"

text \<open>The JSON objects among the first \<open>limit\<close> lines; lines that do not decode are skipped.\<close>

fun json_objects :: "(string \<Rightarrow> pyval option) \<Rightarrow> nat option \<Rightarrow> nat \<Rightarrow> string list \<Rightarrow> pydict list" where
  "json_objects loads limit i [] = []"
| "json_objects loads limit i (line # rest) =
     (if (case limit of None \<Rightarrow> False | Some l \<Rightarrow> l \<le> i) then []
      else
        let text = py_strip line; objs = json_objects loads limit (Suc i) rest in
        if text = [] then objs
        else case loads text of Some (PDict d) \<Rightarrow> d # objs | _ \<Rightarrow> objs)"

definition iter_json_lines :: "(string \<Rightarrow> pyval option) \<Rightarrow> session_fs \<Rightarrow> string \<Rightarrow> nat option \<Rightarrow> pydict list" where
  "iter_json_lines loads fs path limit =
     (case fs_lines fs path of None \<Rightarrow> [] | Some lines \<Rightarrow> json_objects loads limit 0 lines)"

definition read_meta :: "(string \<Rightarrow> pyval option) \<Rightarrow> session_fs \<Rightarrow> string \<Rightarrow> pydict" where
  "read_meta loads fs path =
     (case iter_json_lines loads fs path (Some 5) of
        [] \<Rightarrow> []
      | obj # _ \<Rightarrow>
          if py_get obj ''type'' = PStr ''session_meta''
          then (case py_get obj ''payload'' of PDict d \<Rightarrow> d | _ \<Rightarrow> []) else [])"

text \<open>Iteration over \<open>value or []\<close>, and \<open>value or {}\<close> whose \<open>get\<close> is called.\<close>

definition iterate_or_empty :: "pyval \<Rightarrow> scan_error + pyval list" where
  "iterate_or_empty v =
     (if \<not> py_truthy v then Inr []
      else case v of
          PList xs \<Rightarrow> Inr xs
        | PStr s \<Rightarrow> Inr (map (\<lambda>c. PStr [c]) s)
        | PDict d \<Rightarrow> Inr (map (\<lambda>e. PStr (fst e)) d)
        | _ \<Rightarrow> Inl NotIterable)"

definition payload_of :: "pydict \<Rightarrow> scan_error + pydict" where
  "payload_of obj =
     (case py_or (py_get obj ''payload'') (PDict []) of PDict d \<Rightarrow> Inr d | _ \<Rightarrow> Inl AttributeError)"

definition message_part :: "pyval \<Rightarrow> string list" where
  "message_part item =
     (case item of
        PDict d \<Rightarrow>
          (case py_or (py_get d ''text'') (py_or (py_get d ''input_text'') (PStr [])) of PStr t \<Rightarrow> [t] | _ \<Rightarrow> [])
      | _ \<Rightarrow> [])"

definition texts_of_message :: "pydict \<Rightarrow> scan_error + string" where
  "texts_of_message payload =
     rbind (iterate_or_empty (py_get payload ''content'')) (\<lambda>items.
       Inr (py_join [newline] (concat (map message_part items))))"

definition looks_like_preamble :: "string \<Rightarrow> bool" where
  "looks_like_preamble text = startswith (py_lstrip text) ''<''"

text \<open>One object of \<open>extract_first_prompt\<close>: the prompt, or the fallback to go on with.\<close>

definition prompt_step :: "string \<Rightarrow> pydict \<Rightarrow> scan_error + (string + string)" where
  "prompt_step fallback obj =
     rbind (payload_of obj) (\<lambda>payload.
       if py_get obj ''type'' = PStr ''event_msg'' \<and> py_get payload ''type'' = PStr ''user_message'' then
         (case py_get payload ''message'' of
            PStr msg \<Rightarrow> if msg \<noteq> [] \<and> \<not> looks_like_preamble msg then Inr (Inl msg) else Inr (Inr fallback)
          | _ \<Rightarrow> Inr (Inr fallback))
       else if py_get obj ''type'' = PStr ''response_item'' \<and> py_get payload ''type'' = PStr ''message'' \<and>
          py_get payload ''role'' = PStr ''user'' \<and> fallback = [] then
         rbind (texts_of_message payload) (\<lambda>text.
           if text \<noteq> [] \<and> \<not> looks_like_preamble text then Inr (Inr text) else Inr (Inr fallback))
       else Inr (Inr fallback))"

fun first_prompt_from :: "string \<Rightarrow> pydict list \<Rightarrow> scan_error + string" where
  "first_prompt_from fallback [] = Inr fallback"
| "first_prompt_from fallback (obj # objs) =
     rbind (prompt_step fallback obj) (\<lambda>r. case r of Inl msg \<Rightarrow> Inr msg | Inr fb \<Rightarrow> first_prompt_from fb objs)"

definition load_session ::
  "(string \<Rightarrow> pyval option) \<Rightarrow> session_fs \<Rightarrow> string \<Rightarrow> string \<Rightarrow> scan_error + carrier_session option" where
  "load_session loads fs dir name =
     (case parse_rollout_filename name of
        None \<Rightarrow> Inr None
      | Some (start, uuid) \<Rightarrow>
          let path = dir @ ''/'' @ name; meta = read_meta loads fs path in
          rbind (first_prompt_from [] (iter_json_lines loads fs path (Some FIRST_PROMPT_SCAN_LIMIT))) (\<lambda>prompt.
            Inr (Some \<lparr>cs_uuid = uuid, cs_path = path, cs_start = Some start, cs_cwd = str_or_empty (py_get meta ''cwd''),
                       cs_last = fs_mtime fs path, cs_first_prompt = prompt, cs_meta = meta\<rparr>)))"

definition date_dirs :: "session_fs \<Rightarrow> string \<Rightarrow> int \<Rightarrow> nat \<times> nat \<times> nat \<Rightarrow> string list" where
  "date_dirs fs root days today =
     filter (fs_isdir fs)
       (map (\<lambda>delta. let (y, m, d) = (prev_day ^^ delta) today in
              root @ ''/'' @ pad_nat 4 y @ ''/'' @ pad_nat 2 m @ ''/'' @ pad_nat 2 d)
          [0..<nat (days + 1)])"

fun load_sessions ::
  "(string \<Rightarrow> pyval option) \<Rightarrow> session_fs \<Rightarrow> string \<Rightarrow> string list \<Rightarrow> scan_error + carrier_session list" where
  "load_sessions loads fs dir [] = Inr []"
| "load_sessions loads fs dir (name # names) =
     (if \<not> endswith name ''.jsonl'' then load_sessions loads fs dir names
      else rbind (load_session loads fs dir name) (\<lambda>s.
           rbind (load_sessions loads fs dir names) (\<lambda>rest.
             Inr (case s of None \<Rightarrow> rest | Some x \<Rightarrow> x # rest))))"

fun load_dirs :: "(string \<Rightarrow> pyval option) \<Rightarrow> session_fs \<Rightarrow> string list \<Rightarrow> scan_error + carrier_session list" where
  "load_dirs loads fs [] = Inr []"
| "load_dirs loads fs (dir # dirs) =
     rbind (load_sessions loads fs dir (sort (case fs_names fs dir of None \<Rightarrow> [] | Some ns \<Rightarrow> ns))) (\<lambda>here.
     rbind (load_dirs loads fs dirs) (\<lambda>rest. Inr (here @ rest)))"

text \<open>
  \<open>sort(key=start or datetime.min, reverse=True)\<close>: a stable descending sort is the reversal of
  the stable ascending sort of the reversed list.
\<close>

definition start_key :: "carrier_session \<Rightarrow> stamp" where
  "start_key s = (case cs_start s of None \<Rightarrow> Stamp 1 1 1 0 0 0 | Some t \<Rightarrow> t)"

definition newest_first :: "carrier_session list \<Rightarrow> carrier_session list" where
  "newest_first ss = rev (sort_key start_key (rev ss))"

definition scan_sessions ::
  "(string \<Rightarrow> pyval option) \<Rightarrow> session_fs \<Rightarrow> string \<Rightarrow> int \<Rightarrow> nat \<times> nat \<times> nat \<Rightarrow> scan_error + carrier_session list" where
  "scan_sessions loads fs root days today =
     rbind (load_dirs loads fs (date_dirs fs root days today)) (\<lambda>ss. Inr (newest_first ss))"

definition resolve_session :: "carrier_session list \<Rightarrow> string \<Rightarrow> carrier_session option \<times> carrier_session list" where
  "resolve_session sessions given =
     (let matches = filter (\<lambda>s. startswith (cs_uuid s) (py_strip (py_lower given))) sessions
      in (case matches of [s] \<Rightarrow> Some s | _ \<Rightarrow> None, matches))"

section \<open>Detail of one session\<close>

definition py_in :: "string \<Rightarrow> pyval \<Rightarrow> scan_error + bool" where
  "py_in sub v =
     (case v of
        PStr s \<Rightarrow> Inr (text_in sub s)
      | PList xs \<Rightarrow> Inr (PStr sub \<in> set xs)
      | PDict d \<Rightarrow> Inr (has_key d sub)
      | _ \<Rightarrow> Inl NotIterable)"

definition is_apply_patch_call :: "pydict \<Rightarrow> scan_error + bool" where
  "is_apply_patch_call payload =
     (if py_get payload ''type'' \<notin> set (map PStr [''function_call'', ''custom_tool_call'', ''local_shell_call'']) then Inr False
      else rbind (py_in ''apply_patch'' (py_or (py_get payload ''name'') (PStr []))) (\<lambda>named.
           if named then Inr True
           else Inr (case py_or (py_get payload ''arguments'') (py_or (py_get payload ''input'') (PStr [])) of
               PStr args \<Rightarrow> text_in ''apply_patch'' args
             | _ \<Rightarrow> False)))"

record session_detail =
  sd_apply_patch :: nat
  sd_event_types :: "pyval list"
  sd_last_message :: string

definition last_message_of :: "pydict \<Rightarrow> pydict \<Rightarrow> string \<Rightarrow> scan_error + string" where
  "last_message_of obj payload before =
     (if py_get obj ''type'' = PStr ''event_msg'' \<and> py_get payload ''type'' = PStr ''agent_message'' then
        (case py_get payload ''message'' of PStr m \<Rightarrow> Inr (if m \<noteq> [] then m else before) | _ \<Rightarrow> Inr before)
      else if py_get obj ''type'' = PStr ''response_item'' \<and> py_get payload ''type'' = PStr ''message'' \<and>
         py_get payload ''role'' = PStr ''assistant'' then
        rbind (texts_of_message payload) (\<lambda>text. Inr (if text \<noteq> [] then text else before))
      else Inr before)"

fun analyze_objects :: "pydict list \<Rightarrow> session_detail \<Rightarrow> scan_error + session_detail" where
  "analyze_objects [] d = Inr d"
| "analyze_objects (obj # objs) d =
     rbind (payload_of obj) (\<lambda>payload.
     rbind (is_apply_patch_call payload) (\<lambda>patched.
     rbind (last_message_of obj payload (sd_last_message d)) (\<lambda>msg.
       analyze_objects objs
         (d\<lparr>sd_apply_patch := sd_apply_patch d + (if patched then 1 else 0),
            sd_event_types := sd_event_types d @ [py_or (py_get payload ''type'') (py_or (py_get obj ''type'') (PStr ''?''))],
            sd_last_message := msg\<rparr>))))"

text \<open>\<open>xs[-n:]\<close>.\<close>

definition py_tail :: "int \<Rightarrow> 'a list \<Rightarrow> 'a list" where
  "py_tail n xs = (if 0 < n then drop (length xs - nat n) xs else drop (nat (- n)) xs)"

definition analyze_session ::
  "(string \<Rightarrow> pyval option) \<Rightarrow> session_fs \<Rightarrow> string \<Rightarrow> int \<Rightarrow> scan_error + nat \<times> nat \<times> pyval list \<times> string" where
  "analyze_session loads fs path tail_events =
     rbind (analyze_objects (iter_json_lines loads fs path None)
              \<lparr>sd_apply_patch = 0, sd_event_types = [], sd_last_message = []\<rparr>) (\<lambda>d.
       Inr (sd_apply_patch d, length (sd_event_types d), py_tail tail_events (sd_event_types d), sd_last_message d))"

section \<open>Live processes\<close>

record proc_entry =
  pe_pid :: int
  pe_command :: string

text \<open>\<open>line.split(None, 1)\<close> of a stripped line: the first word and the rest, when there is one.\<close>

definition split_once :: "string \<Rightarrow> (string \<times> string) option" where
  "split_once line =
     (let word = takeWhile (\<lambda>c. \<not> is_space c) line; rest = py_lstrip (dropWhile (\<lambda>c. \<not> is_space c) line)
      in if word = [] \<or> rest = [] then None else Some (word, rest))"

definition parse_ps_line :: "string \<Rightarrow> proc_entry list" where
  "parse_ps_line line =
     (case split_once (py_strip line) of
        None \<Rightarrow> []
      | Some (pid_s, cmd) \<Rightarrow>
          (case py_int_text pid_s of None \<Rightarrow> [] | Some pid \<Rightarrow> [\<lparr>pe_pid = pid, pe_command = cmd\<rparr>]))"

definition parse_ps_output :: "string \<Rightarrow> proc_entry list" where
  "parse_ps_output text = concat (map parse_ps_line (py_splitlines text))"

text \<open>\<open>ps_snapshot\<close> over the output of \<open>ps\<close>, \<open>None\<close> when it fails.\<close>

definition ps_snapshot :: "string option \<Rightarrow> proc_entry list" where
  "ps_snapshot out = (case out of None \<Rightarrow> [] | Some text \<Rightarrow> parse_ps_output text)"

text \<open>The search for the word \<open>codex\<close>: at the start, after a slash or after white space.\<close>

fun codex_from :: "bool \<Rightarrow> string \<Rightarrow> bool" where
  "codex_from boundary [] = False"
| "codex_from boundary (c # cs) =
     ((boundary \<and> startswith (c # cs) ''codex'' \<and> (case drop 5 (c # cs) of [] \<Rightarrow> True | d # _ \<Rightarrow> is_space d)) \<or>
      codex_from (c = CHR ''/'' \<or> is_space c) cs)"

definition is_codex_command :: "string \<Rightarrow> bool" where
  "is_codex_command command = codex_from True command"

definition cd_value :: "string \<Rightarrow> string option" where
  "cd_value after =
     (let value = takeWhile (\<lambda>c. \<not> is_space c) (py_lstrip after)
      in if after \<noteq> [] \<and> is_space (hd after) \<and> value \<noteq> [] then Some value else None)"

definition cd_flag_at :: "string \<Rightarrow> string option" where
  "cd_flag_at s =
     (if startswith s ''-C'' then cd_value (drop 2 s)
      else if startswith s ''--cd'' then cd_value (drop 4 s) else None)"

fun cd_from :: "bool \<Rightarrow> string \<Rightarrow> string option" where
  "cd_from boundary [] = None"
| "cd_from boundary (c # cs) =
     (case (if boundary then cd_flag_at (c # cs) else None) of
        Some v \<Rightarrow> Some v
      | None \<Rightarrow> cd_from (is_space c) cs)"

definition declared_cd :: "string \<Rightarrow> string option" where
  "declared_cd command = cd_from True command"

text \<open>\<open>pid_cwd\<close> over the output of \<open>lsof\<close>.\<close>

definition pid_cwd :: "string option \<Rightarrow> string option" where
  "pid_cwd out =
     (case out of
        None \<Rightarrow> None
      | Some text \<Rightarrow> map_option tl (find (\<lambda>line. startswith line ''n'') (py_splitlines text)))"

definition norm_path :: "string \<Rightarrow> string" where
  "norm_path path =
     (let p = py_rstrip_char (CHR ''/'') path in
      if startswith p ''/tmp/'' \<or> p = ''/tmp'' \<or> startswith p ''/var/'' \<or> p = ''/var'' then ''/private'' @ p else p)"

definition same_path :: "string \<Rightarrow> string \<Rightarrow> bool" where
  "same_path a b \<longleftrightarrow> norm_path a = norm_path b"

text \<open>The pass over the declared directories grows the set of matched processes.\<close>

fun cd_matches :: "string \<Rightarrow> proc_entry list \<Rightarrow> int list \<Rightarrow> (proc_entry \<times> string) list \<times> int list" where
  "cd_matches cwd [] pids = ([], pids)"
| "cd_matches cwd (e # es) pids =
     (if pe_pid e \<in> set pids then cd_matches cwd es pids
      else case declared_cd (pe_command e) of
          None \<Rightarrow> cd_matches cwd es pids
        | Some d \<Rightarrow>
            if same_path d cwd
            then (let (ms, ps) = cd_matches cwd es (pids @ [pe_pid e]) in ((e, ''cd-flag-matches'') # ms, ps))
            else cd_matches cwd es pids)"

definition find_live_matches ::
  "string \<Rightarrow> string \<Rightarrow> proc_entry list \<Rightarrow> (int \<Rightarrow> string option) \<Rightarrow> (proc_entry \<times> string) list" where
  "find_live_matches session_uuid session_cwd entries cwd_of =
     (let uuid = py_lower session_uuid;
          codex_entries = filter (\<lambda>e. is_codex_command (pe_command e)) entries;
          named = map (\<lambda>e. (e, ''uuid-in-command-line''))
                    (filter (\<lambda>e. uuid \<noteq> [] \<and> text_in uuid (py_lower (pe_command e))) codex_entries)
      in if session_cwd = [] then named
         else
           let (declared, pids) = cd_matches session_cwd codex_entries (map (\<lambda>m. pe_pid (fst m)) named);
               here = filter (\<lambda>e. pe_pid e \<notin> set pids \<and>
                        (case cwd_of (pe_pid e) of None \<Rightarrow> False | Some d \<Rightarrow> same_path d session_cwd)) codex_entries
           in named @ declared @ map (\<lambda>e. (e, ''codex-process-cwd-matches'')) here)"

section \<open>The revive command\<close>

definition DEFAULT_PROMPT :: string where "DEFAULT_PROMPT = ''Continue where you left off.''"

text \<open>\<open>Path.resolve\<close> gives the components of the absolute path; the search for \<open>.git\<close> goes upwards.\<close>

definition abs_path :: "string list \<Rightarrow> string" where
  "abs_path comps = concat (map (\<lambda>c. ''/'' @ c) comps)"

definition is_inside_git_repo :: "session_fs \<Rightarrow> (string \<Rightarrow> string list) \<Rightarrow> string \<Rightarrow> bool" where
  "is_inside_git_repo fs resolve path =
     list_ex (\<lambda>k. fs_exists fs (abs_path (take k (resolve path)) @ ''/.git'')) (rev [0..<Suc (length (resolve path))])"

definition build_command :: "session_fs \<Rightarrow> (string \<Rightarrow> string list) \<Rightarrow> string \<Rightarrow> string \<Rightarrow> string \<Rightarrow> string list" where
  "build_command fs resolve uuid prompt cwd =
     [''codex'', ''exec'', ''resume'', uuid] @
     (if is_inside_git_repo fs resolve cwd then [] else [''--skip-git-repo-check'']) @ [prompt]"

text \<open>\<open>ReviveError\<close>: the exit code and the lines of the message.\<close>

datatype revive_error = ReviveError int "string list"

definition check_gates ::
  "session_fs \<Rightarrow> string list \<Rightarrow> carrier_session \<Rightarrow> (proc_entry \<times> string) list \<Rightarrow> revive_error + unit" where
  "check_gates fs candidates s live =
     (if live \<noteq> [] then
        Inl (ReviveError 3
          ((''REFUSED: session '' @ short_uuid s @ '' appears LIVE; will not double-drive.'') #
           map (\<lambda>(e, reason). ''  pid '' @ int_str (pe_pid e) @ '' ('' @ reason @ ''): '' @ take 120 (pe_command e)) live))
      else if \<not> cwd_exists fs s then
        Inl (ReviveError 4
          ([''REFUSED: recorded cwd does not exist: '' @ (if cs_cwd s = [] then ''(empty)'' else cs_cwd s),
            ''Preserved ai-org worktree candidates (pick one manually; this tool never guesses):''] @
           (if candidates = [] then [''  (none found)''] else map (\<lambda>c. ''  '' @ c) candidates)))
      else Inr ())"

text \<open>
  What \<open>run_revive\<close> does once the gates are open: print, start detached, or run in the
  foreground; always a working directory and an argument vector. The log of a detached run is a
  file of the working directory.
\<close>

datatype revive_action =
    PrintOnly string "string list" "string option"
  | Detached string "string list" string
  | Foreground string "string list"

definition log_name :: "string \<Rightarrow> stamp \<Rightarrow> string" where
  "log_name uuid now =
     ''carrier-revive-'' @ take 8 uuid @ ''-'' @
     pad_nat 4 (st_year now) @ pad_nat 2 (st_month now) @ pad_nat 2 (st_day now) @ ''-'' @
     pad_nat 2 (st_hour now) @ pad_nat 2 (st_minute now) @ pad_nat 2 (st_second now) @ ''.log''"

definition run_revive ::
  "session_fs \<Rightarrow> (string \<Rightarrow> string list) \<Rightarrow> string list \<Rightarrow> stamp \<Rightarrow> carrier_session \<Rightarrow> string \<Rightarrow> bool \<Rightarrow> bool \<Rightarrow>
   (proc_entry \<times> string) list \<Rightarrow> revive_error + revive_action" where
  "run_revive fs resolve candidates now s prompt dry_run detach live =
     rbind (check_gates fs candidates s live) (\<lambda>_.
       let cmd = build_command fs resolve (cs_uuid s) prompt (cs_cwd s); log = log_name (cs_uuid s) now
       in Inr (if dry_run then PrintOnly (cs_cwd s) cmd (if detach then Some log else None)
               else if detach then Detached (cs_cwd s) (''nohup'' # cmd) log
               else Foreground (cs_cwd s) cmd))"

record revive_args =
  ra_last :: bool
  ra_prefix :: "string option"
  ra_days :: int
  ra_prompt :: string
  ra_dry_run :: bool
  ra_detach :: bool

text \<open>\<open>cmd_revive\<close>: an exception of the scan, an exit code, a refusal, or the action.\<close>

datatype revive_outcome = ScanRaised scan_error | ExitCode int | Refused revive_error | Act revive_action

definition select_session ::
  "scan_error + carrier_session list \<Rightarrow> revive_args \<Rightarrow> revive_outcome + carrier_session" where
  "select_session scanned args =
     (if ra_last args then
        (case scanned of
           Inl e \<Rightarrow> Inl (ScanRaised e)
         | Inr [] \<Rightarrow> Inl (ExitCode 2)
         | Inr (s # _) \<Rightarrow> Inr s)
      else (case ra_prefix args of
          None \<Rightarrow> Inl (ExitCode 2)
        | Some given \<Rightarrow>
            if given = [] then Inl (ExitCode 2)
            else (case scanned of
                Inl e \<Rightarrow> Inl (ScanRaised e)
              | Inr ss \<Rightarrow> (case fst (resolve_session ss given) of
                  Some s \<Rightarrow> Inr s
                | None \<Rightarrow> Inl (ExitCode 2)))))"

definition cmd_revive ::
  "(string \<Rightarrow> pyval option) \<Rightarrow> session_fs \<Rightarrow> (string \<Rightarrow> string list) \<Rightarrow> string list \<Rightarrow> string option \<Rightarrow>
   (int \<Rightarrow> string option) \<Rightarrow> string \<Rightarrow> stamp \<Rightarrow> revive_args \<Rightarrow> revive_outcome" where
  "cmd_revive loads fs resolve candidates ps lsof root now args =
     (case select_session (scan_sessions loads fs root (ra_days args) (st_year now, st_month now, st_day now)) args of
        Inl out \<Rightarrow> out
      | Inr s \<Rightarrow>
          (case run_revive fs resolve candidates now s (ra_prompt args) (ra_dry_run args) (ra_detach args)
                  (find_live_matches (cs_uuid s) (cs_cwd s) (ps_snapshot ps) (\<lambda>pid. pid_cwd (lsof pid))) of
             Inl e \<Rightarrow> Refused e
           | Inr action \<Rightarrow> Act action))"

section \<open>Liveness detection is complete\<close>

definition path_matches :: "string option \<Rightarrow> string \<Rightarrow> bool" where
  "path_matches d cwd = (case d of None \<Rightarrow> False | Some p \<Rightarrow> same_path p cwd)"

text \<open>The three reasons for which a process counts as driving a session.\<close>

definition drives :: "string \<Rightarrow> string \<Rightarrow> (int \<Rightarrow> string option) \<Rightarrow> proc_entry \<Rightarrow> bool" where
  "drives uuid cwd cwd_of e \<longleftrightarrow> is_codex_command (pe_command e) \<and>
     (py_lower uuid \<noteq> [] \<and> text_in (py_lower uuid) (py_lower (pe_command e)) \<or>
      cwd \<noteq> [] \<and> (path_matches (declared_cd (pe_command e)) cwd \<or> path_matches (cwd_of (pe_pid e)) cwd))"

lemma cd_matches_Cons:
  "cd_matches cwd (e # es) pids =
     (if pe_pid e \<in> set pids \<or> \<not> path_matches (declared_cd (pe_command e)) cwd then cd_matches cwd es pids
      else ((e, ''cd-flag-matches'') # fst (cd_matches cwd es (pids @ [pe_pid e])), snd (cd_matches cwd es (pids @ [pe_pid e]))))"
  by (auto simp: path_matches_def split: option.split prod.split)

declare cd_matches.simps(2) [simp del]

lemma cd_matches_none:
  "fst (cd_matches cwd es pids) = [] \<Longrightarrow>
     snd (cd_matches cwd es pids) = pids \<and> (\<forall>e\<in>set es. pe_pid e \<notin> set pids \<longrightarrow> \<not> path_matches (declared_cd (pe_command e)) cwd)"
  by (induction es arbitrary: pids) (auto simp: cd_matches_Cons split: if_splits)

lemma cd_matches_some:
  "(e, r) \<in> set (fst (cd_matches cwd es pids)) \<Longrightarrow> e \<in> set es \<and> path_matches (declared_cd (pe_command e)) cwd"
  by (induction es arbitrary: pids) (auto simp: cd_matches_Cons split: if_splits)

lemma find_live_matches_empty:
  "find_live_matches uuid cwd entries cwd_of = [] \<longleftrightarrow> (\<forall>e\<in>set entries. \<not> drives uuid cwd cwd_of e)"
proof -
  let ?codex = "filter (\<lambda>e. is_codex_command (pe_command e)) entries"
  let ?named = "filter (\<lambda>e. py_lower uuid \<noteq> [] \<and> text_in (py_lower uuid) (py_lower (pe_command e))) ?codex"
  show ?thesis
  proof (cases "?named = []")
    case False
    then obtain e where "e \<in> set ?named" by (metis list.set_intros(1) neq_Nil_conv)
    then have "e \<in> set entries" "drives uuid cwd cwd_of e" by (auto simp: drives_def)
    moreover have "find_live_matches uuid cwd entries cwd_of \<noteq> []"
      using False by (simp add: find_live_matches_def Let_def split: prod.split)
    ultimately show ?thesis by blast
  next
    case True
    then have uuid: "\<not> (py_lower uuid \<noteq> [] \<and> text_in (py_lower uuid) (py_lower (pe_command e)))"
      if "e \<in> set entries" "is_codex_command (pe_command e)" for e
      using that by (auto simp: filter_empty_conv)
    obtain ms ps where c: "cd_matches cwd ?codex [] = (ms, ps)" by force
    have f: "find_live_matches uuid cwd entries cwd_of =
        (if cwd = [] then [] else ms @ map (\<lambda>e. (e, ''codex-process-cwd-matches''))
           (filter (\<lambda>e. pe_pid e \<notin> set ps \<and> path_matches (cwd_of (pe_pid e)) cwd) ?codex))"
      using True c by (simp add: find_live_matches_def Let_def path_matches_def)
    show ?thesis
    proof (cases "cwd = [] \<or> ms \<noteq> []")
      case True
      have "drives uuid cwd cwd_of e \<and> e \<in> set entries" if "cwd \<noteq> []" "(e, r) \<in> set ms" for e r
        using cd_matches_some [of e r cwd ?codex "[]"] c that by (auto simp: drives_def)
      then show ?thesis using True f uuid by (cases ms) (auto simp: drives_def)
    next
      case False
      then have "ps = []" "\<forall>e\<in>set ?codex. \<not> path_matches (declared_cd (pe_command e)) cwd"
        using cd_matches_none [of cwd ?codex "[]"] c by auto
      then show ?thesis using False f uuid by (auto simp: drives_def filter_empty_conv)
    qed
  qed
qed

section \<open>The gates\<close>

lemma select_session_Inr:
  assumes "select_session scanned args = Inr s"
  obtains ss where "scanned = Inr ss" "s \<in> set ss"
    "if ra_last args then s = hd ss
     else \<exists>given. ra_prefix args = Some given \<and> filter (\<lambda>x. startswith (cs_uuid x) (py_strip (py_lower given))) ss = [s]"
proof (cases "ra_last args")
  case True
  then show ?thesis using assms that by (auto simp: select_session_def split: sum.splits list.splits)
next
  case False
  then obtain given ss where g: "ra_prefix args = Some given" "scanned = Inr ss" "fst (resolve_session ss given) = Some s"
    using assms by (auto simp: select_session_def split: sum.splits option.splits if_splits)
  then have "filter (\<lambda>x. startswith (cs_uuid x) (py_strip (py_lower given))) ss = [s]"
    by (auto simp: resolve_session_def Let_def split: list.splits)
  moreover have "s \<in> set ss" using calculation by (metis filter_is_subset list.set_intros(1) subset_code(1))
  ultimately show ?thesis using g that [of ss] False by simp
qed

text \<open>
  A session is resumed only if it was found by the scan (the newest one, or the only one with
  the given prefix), no process of the table drives it, and its recorded directory exists; the
  command then resumes that session id in that directory.
\<close>

theorem revive_gated:
  assumes "cmd_revive loads fs resolve candidates ps lsof root now args = Act action"
  shows "\<exists>ss s. scan_sessions loads fs root (ra_days args) (st_year now, st_month now, st_day now) = Inr ss \<and> s \<in> set ss \<and>
    (if ra_last args then s = hd ss
     else \<exists>given. ra_prefix args = Some given \<and> filter (\<lambda>x. startswith (cs_uuid x) (py_strip (py_lower given))) ss = [s]) \<and>
    cwd_exists fs s \<and>
    (\<forall>e\<in>set (ps_snapshot ps). \<not> drives (cs_uuid s) (cs_cwd s) (\<lambda>pid. pid_cwd (lsof pid)) e) \<and>
    (\<exists>flags. flags \<in> {[], [''--skip-git-repo-check'']} \<and>
       (let cmd = [''codex'', ''exec'', ''resume'', cs_uuid s] @ flags @ [ra_prompt args]
        in action = Foreground (cs_cwd s) cmd \<or> (\<exists>log. action = Detached (cs_cwd s) (''nohup'' # cmd) log) \<or>
           ra_dry_run args \<and> (\<exists>log. action = PrintOnly (cs_cwd s) cmd log)))"
proof -
  let ?scan = "scan_sessions loads fs root (ra_days args) (st_year now, st_month now, st_day now)"
  let ?live = "\<lambda>s. find_live_matches (cs_uuid s) (cs_cwd s) (ps_snapshot ps) (\<lambda>pid. pid_cwd (lsof pid))"
  have no_act: "select_session ?scan args \<noteq> Inl (Act action)"
    by (auto simp: select_session_def split: sum.splits option.splits list.splits if_splits)
  obtain s where s: "select_session ?scan args = Inr s"
    and run: "run_revive fs resolve candidates now s (ra_prompt args) (ra_dry_run args) (ra_detach args) (?live s) = Inr action"
    using assms no_act by (auto simp: cmd_revive_def split: sum.splits)
  from run have gates: "?live s = []" "cwd_exists fs s"
    by (auto simp: run_revive_def check_gates_def result_simps split: if_splits)
  obtain ss where ss: "?scan = Inr ss" "s \<in> set ss"
    "if ra_last args then s = hd ss
     else \<exists>given. ra_prefix args = Some given \<and> filter (\<lambda>x. startswith (cs_uuid x) (py_strip (py_lower given))) ss = [s]"
    by (rule select_session_Inr [OF s])
  obtain flags where flags: "flags \<in> {[], [''--skip-git-repo-check'']}"
    "build_command fs resolve (cs_uuid s) (ra_prompt args) (cs_cwd s) = [''codex'', ''exec'', ''resume'', cs_uuid s] @ flags @ [ra_prompt args]"
    by (cases "is_inside_git_repo fs resolve (cs_cwd s)") (auto simp: build_command_def)
  then have "let cmd = [''codex'', ''exec'', ''resume'', cs_uuid s] @ flags @ [ra_prompt args]
        in action = Foreground (cs_cwd s) cmd \<or> (\<exists>log. action = Detached (cs_cwd s) (''nohup'' # cmd) log) \<or>
           ra_dry_run args \<and> (\<exists>log. action = PrintOnly (cs_cwd s) cmd log)"
    using run gates by (auto simp: run_revive_def check_gates_def Let_def split: if_splits)
  then show ?thesis
    using ss gates flags(1) find_live_matches_empty [of "cs_uuid s" "cs_cwd s" "ps_snapshot ps"] by blast
qed

section \<open>The order of the scan\<close>

lemma newest_first_sorted: "sorted_wrt (\<lambda>a b. start_key b \<le> start_key a) (newest_first ss)"
proof -
  have "sorted (map start_key (sort_key start_key (rev ss)))" by simp
  then show ?thesis
    by (simp add: newest_first_def sorted_wrt_rev sorted_wrt_map flip: sorted_wrt_map)
qed

lemma newest_first_stable: "filter (\<lambda>s. start_key s = k) (newest_first ss) = filter (\<lambda>s. start_key s = k) ss"
proof -
  have "filter (\<lambda>s. start_key s = k) (sort_key start_key (rev ss)) = filter (\<lambda>s. start_key s = k) (rev ss)"
    by (rule sort_key_stable)
  then show ?thesis by (simp add: newest_first_def rev_filter [symmetric])
qed

text \<open>
  A scan lists the sessions newest first, those with the same start in the order of their
  directories and file names, and holds exactly the sessions it loaded.
\<close>

theorem scan_newest_first:
  assumes "scan_sessions loads fs root days today = Inr ss"
  shows "\<exists>loaded. load_dirs loads fs (date_dirs fs root days today) = Inr loaded \<and> mset ss = mset loaded \<and>
    sorted_wrt (\<lambda>a b. start_key b \<le> start_key a) ss \<and>
    (\<forall>k. filter (\<lambda>s. start_key s = k) ss = filter (\<lambda>s. start_key s = k) loaded)"
proof -
  obtain loaded where l: "load_dirs loads fs (date_dirs fs root days today) = Inr loaded" "ss = newest_first loaded"
    using assms by (auto simp: scan_sessions_def result_simps)
  have "mset ss = mset loaded" by (simp add: l(2) newest_first_def)
  with l newest_first_sorted newest_first_stable show ?thesis by auto
qed

section \<open>Exceptions of the scan\<close>

definition session_raises :: "(string \<Rightarrow> pyval option) \<Rightarrow> session_fs \<Rightarrow> string \<Rightarrow> string \<Rightarrow> bool" where
  "session_raises loads fs dir name \<longleftrightarrow> endswith name ''.jsonl'' \<and> (\<exists>e. load_session loads fs dir name = Inl e)"

lemma load_sessions_raises:
  "(\<exists>e. load_sessions loads fs dir names = Inl e) \<longleftrightarrow> (\<exists>name\<in>set names. session_raises loads fs dir name)"
proof (induction names)
  case (Cons name names)
  then show ?case
    by (cases "load_session loads fs dir name"; cases "load_sessions loads fs dir names") (auto simp: session_raises_def)
qed simp

lemma load_dirs_raises:
  "(\<exists>e. load_dirs loads fs dirs = Inl e) \<longleftrightarrow>
     (\<exists>dir\<in>set dirs. \<exists>names. fs_names fs dir = Some names \<and> (\<exists>name\<in>set names. session_raises loads fs dir name))"
proof (induction dirs)
  case (Cons dir dirs)
  let ?ns = "sort (case fs_names fs dir of None \<Rightarrow> [] | Some ns \<Rightarrow> ns)"
  have "(\<exists>e. load_sessions loads fs dir ?ns = Inl e) \<longleftrightarrow> (\<exists>names. fs_names fs dir = Some names \<and> (\<exists>name\<in>set names. session_raises loads fs dir name))"
    unfolding load_sessions_raises by (cases "fs_names fs dir") auto
  with Cons show ?case
    by (cases "load_sessions loads fs dir ?ns"; cases "load_dirs loads fs dirs") auto
qed simp

text \<open>
  The scan of all sessions raises exactly when loading one listed session file raises: a
  single file is enough to stop \<open>list\<close>, \<open>show\<close> and \<open>revive\<close> for every session.
\<close>

theorem scan_raises_iff:
  "(\<exists>e. scan_sessions loads fs root days today = Inl e) \<longleftrightarrow>
     (\<exists>dir\<in>set (date_dirs fs root days today). \<exists>names. fs_names fs dir = Some names \<and>
        (\<exists>name\<in>set names. session_raises loads fs dir name))"
proof -
  have "(\<exists>e. scan_sessions loads fs root days today = Inl e) \<longleftrightarrow> (\<exists>e. load_dirs loads fs (date_dirs fs root days today) = Inl e)"
    by (auto simp: scan_sessions_def result_simps)
  then show ?thesis by (simp add: load_dirs_raises)
qed

section \<open>Concrete instances\<close>

definition example_name :: string where
  "example_name = ''rollout-2026-07-11T05-49-31-019f4dca-ea50-7db1-b05c-bf74b551a5d1.jsonl''"

definition example_now :: stamp where "example_now = Stamp 2026 7 11 12 0 0"

definition session_files :: "string \<Rightarrow> session_fs" where
  "session_files line = \<lparr>fs_names = (\<lambda>_. Some [example_name]), fs_lines = (\<lambda>_. Some [line]), fs_mtime = (\<lambda>_. None),
     fs_isdir = (\<lambda>p. p = ''s/2026/07/11'' \<or> p = ''/w''), fs_exists = (\<lambda>p. p = ''/w/.git'')\<rparr>"

text \<open>A good first line and a line whose payload is a text.\<close>

definition example_json :: "string \<Rightarrow> pyval option" where
  "example_json s =
     (if s = ''good'' then Some (PDict [(''type'', PStr ''session_meta''), (''payload'', PDict [(''cwd'', PStr ''/w'')])])
      else if s = ''bad'' then Some (PDict [(''type'', PStr ''note''), (''payload'', PStr ''x'')])
      else None)"

definition example_args :: revive_args where
  "example_args = \<lparr>ra_last = False, ra_prefix = Some ''019F4'', ra_days = 0, ra_prompt = ''go'', ra_dry_run = False, ra_detach = False\<rparr>"

lemma example_scan:
  "scan_sessions example_json (session_files ''good'') ''s'' 0 (2026, 7, 11) =
     Inr [\<lparr>cs_uuid = ''019f4dca-ea50-7db1-b05c-bf74b551a5d1'', cs_path = ''s/2026/07/11/'' @ example_name,
       cs_start = Some (Stamp 2026 7 11 5 49 31), cs_cwd = ''/w'', cs_last = None, cs_first_prompt = [],
       cs_meta = [(''cwd'', PStr ''/w'')]\<rparr>]"
  by code_simp

theorem scan_newest_first_witness:
  "\<exists>ss loaded. scan_sessions example_json (session_files ''good'') ''s'' 0 (2026, 7, 11) = Inr ss \<and> length ss = 1 \<and> mset ss = mset loaded"
  using scan_newest_first [OF example_scan] example_scan by auto

theorem scan_raises_iff_witness:
  "\<exists>e. scan_sessions example_json (session_files ''bad'') ''s'' 0 (2026, 7, 11) = Inl e"
proof -
  have "load_session example_json (session_files ''bad'') ''s/2026/07/11'' example_name = Inl AttributeError" by code_simp
  moreover have "endswith example_name ''.jsonl''" by code_simp
  moreover have "date_dirs (session_files ''bad'') ''s'' 0 (2026, 7, 11) = [''s/2026/07/11'']" by code_simp
  ultimately show ?thesis
    using scan_raises_iff [of example_json "session_files ''bad''" "''s''" 0 "(2026, 7, 11)"]
    by (auto simp: session_raises_def session_files_def)
qed

lemma example_revive:
  "cmd_revive example_json (session_files ''good'') (\<lambda>_. [''w'']) [] (Some (''1 /bin/sh -c x'' @ [newline] @ ''2 codex exec -C /other y''))
     (\<lambda>_. None) ''s'' example_now example_args =
   Act (Foreground ''/w'' [''codex'', ''exec'', ''resume'', ''019f4dca-ea50-7db1-b05c-bf74b551a5d1'', ''go''])"
  by code_simp

theorem revive_gated_witness:
  "\<exists>s. cwd_exists (session_files ''good'') s \<and> cs_cwd s = ''/w'' \<and>
     \<not> drives (cs_uuid s) (cs_cwd s) (\<lambda>_. pid_cwd None) \<lparr>pe_pid = 2, pe_command = ''codex exec -C /other y''\<rparr>"
proof -
  have "\<lparr>pe_pid = 2, pe_command = ''codex exec -C /other y''\<rparr> \<in>
      set (ps_snapshot (Some (''1 /bin/sh -c x'' @ [newline] @ ''2 codex exec -C /other y'')))" by code_simp
  with revive_gated [OF example_revive] show ?thesis by (fastforce simp: Let_def)
qed
end
