(* ===== verification/PyJson.thy ===== *)
theory PyJson imports PyText begin

text \<open>
  \<open>json.dumps(value, sort_keys=True, ensure_ascii=True)\<close> with the default separators: keys
  sorted, text escaped to printable ASCII. Floats are finite, their \<open>repr\<close> is the output.
\<close>

definition json_hex :: "nat \<Rightarrow> string" where
  "json_hex n = [hex_digit (n div 16), hex_digit (n mod 16)]"

definition json_char :: "char \<Rightarrow> string" where
  "json_char c =
     (let n = char_code c; bs = char_of (92 :: nat) in
      if n = 34 \<or> n = 92 then [bs, c]
      else if n = 8 then [bs, CHR ''b'']
      else if n = 9 then [bs, CHR ''t'']
      else if n = 10 then [bs, CHR ''n'']
      else if n = 12 then [bs, CHR ''f'']
      else if n = 13 then [bs, CHR ''r'']
      else if n < 32 \<or> 126 < n then [bs, CHR ''u'', CHR ''0'', CHR ''0''] @ json_hex n
      else [c])"

definition json_text :: "string \<Rightarrow> string" where
  "json_text s = (let q = char_of (34 :: nat) in [q] @ concat (map json_char s) @ [q])"

fun json_dumps :: "pyval \<Rightarrow> string" where
  "json_dumps PNone = ''null''"
| "json_dumps (PBool b) = (if b then ''true'' else ''false'')"
| "json_dumps (PInt i) = int_str i"
| "json_dumps (PFloat r) = r"
| "json_dumps (PStr s) = json_text s"
| "json_dumps (PList xs) = ''['' @ py_join '', '' (map json_dumps xs) @ '']''"
| "json_dumps (PDict d) =
     ''{'' @ py_join '', '' (map snd (sort_key fst (map (\<lambda>kv. (fst kv, json_text (fst kv) @ '': '' @ json_dumps (snd kv))) d))) @ ''}''"

text \<open>With \<open>ensure_ascii=False\<close> only the quote, the backslash and the control characters are escaped.\<close>

definition json_plain_char :: "char \<Rightarrow> string" where
  "json_plain_char c = (if 126 < char_code c then [c] else json_char c)"

definition json_plain_text :: "string \<Rightarrow> string" where
  "json_plain_text s = (let q = char_of (34 :: nat) in [q] @ concat (map json_plain_char s) @ [q])"

section \<open>Escaped text is read back\<close>

text \<open>Reading one escaped character of a JSON text.\<close>

definition hex_digit_val :: "char \<Rightarrow> nat" where
  "hex_digit_val c = (let n = char_code c in if n < 58 then n - 48 else n - 87)"

fun read_json_char :: "string \<Rightarrow> (char \<times> string) option" where
  "read_json_char [] = None"
| "read_json_char (c # s) =
     (if char_code c \<noteq> 92 then Some (c, s)
      else (case s of
          [] \<Rightarrow> None
        | d # t \<Rightarrow>
            (if d = CHR ''b'' then Some (char_of (8 :: nat), t)
             else if d = CHR ''t'' then Some (char_of (9 :: nat), t)
             else if d = CHR ''n'' then Some (char_of (10 :: nat), t)
             else if d = CHR ''f'' then Some (char_of (12 :: nat), t)
             else if d = CHR ''r'' then Some (char_of (13 :: nat), t)
             else if d = CHR ''u'' then
               (case t of z0 # z1 # h # l # u \<Rightarrow> Some (char_of (16 * hex_digit_val h + hex_digit_val l), u) | _ \<Rightarrow> None)
             else Some (d, t))))"

lemma char_code_of [simp]: "n < 256 \<Longrightarrow> char_code (char_of n) = n"
  by (simp add: char_code_def)

lemma char_of_code [simp]: "char_of (char_code c) = c"
  by (simp add: char_code_def)

lemma char_code_bound [simp]: "char_code c < 256"
  by (simp add: char_code_def)

lemma hex_val_digit [simp]: "d < 16 \<Longrightarrow> hex_digit_val (hex_digit d) = d"
  by (simp add: hex_digit_val_def hex_digit_def)

lemma char_eq_code: "c = d \<longleftrightarrow> char_code c = char_code d"
  by (metis char_of_code)

lemma char_code_lits:
  "char_code (CHR ''b'') = 98" "char_code (CHR ''t'') = 116" "char_code (CHR ''n'') = 110" "char_code (CHR ''f'') = 102"
  "char_code (CHR ''r'') = 114" "char_code (CHR ''u'') = 117"
  by (simp_all add: char_code_def)

text \<open>What an escape of single characters needs for the text to be read back up to its closing quote.\<close>

locale char_escape =
  fixes enc :: "char \<Rightarrow> string"
  assumes read_enc: "read_json_char (enc c @ r) = Some (c, r)"
    and enc_head: "\<exists>a s. enc c = a # s \<and> char_code a \<noteq> 34"
begin

lemma enc_inject:
  "concat (map enc s) @ char_of (34 :: nat) # r = concat (map enc s') @ char_of (34 :: nat) # r' \<Longrightarrow> s = s' \<and> r = r'"
proof (induction s arbitrary: s')
  case Nil
  then show ?case
  proof (cases s')
    case (Cons c t)
    then show ?thesis using Nil enc_head [of c] by auto
  qed simp
next
  case (Cons c s)
  note prem = Cons.prems
  show ?case
  proof (cases s')
    case Nil
    then show ?thesis using prem enc_head [of c] by auto
  next
    case (Cons d t)
    let ?x = "concat (map enc s) @ char_of (34 :: nat) # r"
    let ?y = "concat (map enc t) @ char_of (34 :: nat) # r'"
    have "read_json_char (enc c @ ?x) = read_json_char (enc d @ ?y)" using prem Cons by simp
    then have "c = d" "?x = ?y" by (simp_all add: read_enc)
    then show ?thesis using Cons.IH [of t] Cons by simp
  qed
qed

end

lemma json_char_read: "read_json_char (json_char c @ r) = Some (c, r)"
proof -
  have h: "16 * (char_code c div 16) + char_code c mod 16 = char_code c" by simp
  have d: "char_code c div 16 < 16" using char_code_bound [of c] by (simp add: less_mult_imp_div_less)
  show ?thesis
    using d h by (auto simp: json_char_def json_hex_def Let_def char_eq_code char_code_lits)
qed

lemma json_plain_char_read: "read_json_char (json_plain_char c @ r) = Some (c, r)"
proof -
  have h: "16 * (char_code c div 16) + char_code c mod 16 = char_code c" by simp
  have d: "char_code c div 16 < 16" using char_code_bound [of c] by (simp add: less_mult_imp_div_less)
  show ?thesis
    using d h by (auto simp: json_plain_char_def json_char_def json_hex_def Let_def char_eq_code char_code_lits)
qed

interpretation ascii_escape: char_escape json_char
  by unfold_locales (rule json_char_read, auto simp: json_char_def Let_def)

interpretation plain_escape: char_escape json_plain_char
  by unfold_locales (rule json_plain_char_read, auto simp: json_plain_char_def json_char_def Let_def)

lemma json_text_inject: "json_text s @ r = json_text s' @ r' \<longleftrightarrow> s = s' \<and> r = r'"
  using ascii_escape.enc_inject [of s r s' r'] by (auto simp: json_text_def Let_def)

lemma json_plain_text_inject: "json_plain_text s @ r = json_plain_text s' @ r' \<longleftrightarrow> s = s' \<and> r = r'"
  using plain_escape.enc_inject [of s r s' r'] by (auto simp: json_plain_text_def Let_def)

end
