(* ===== verification/PlanGraph.thy ===== *)
theory PlanGraph imports DepOrder EdgeValidation PyJson begin

text \<open>
  The deterministic split of a patch plan in \<open>src/ai_org/patchwork_queue/patch_series_gate.py\<close>:
  \<open>_plan_graph\<close> reads the work items, \<open>_weak_components\<close> finds the weakly connected
  components of their dependencies, \<open>_partition_plan_graph\<close> turns each component into a child,
  and \<open>_normalize_split\<close> places the children in the network.

  The traversal of a component is a \<open>partial_function\<close> whose result \<open>None\<close> would be an endless
  loop. Raised exceptions are values of \<open>py_exc\<close>; their texts are left out.
\<close>

section \<open>Plan items\<close>

text \<open>Iteration over a value: elements, characters or keys.\<close>

definition iter_value :: "pyval \<Rightarrow> py_exc + pyval list" where
  "iter_value v =
     (case v of
        PList xs \<Rightarrow> Inr xs
      | PStr s \<Rightarrow> Inr (map (\<lambda>c. PStr [c]) s)
      | PDict d \<Rightarrow> Inr (map (\<lambda>e. PStr (fst e)) d)
      | _ \<Rightarrow> Inl TypeError)"

definition list_of_mappings :: "pyval \<Rightarrow> pydict list" where
  "list_of_mappings v = (case v of PList xs \<Rightarrow> mappings xs | _ \<Rightarrow> [])"

text \<open>\<open>_compact_text\<close>; \<open>" ".join(value.split())\<close> through the words of a text.\<close>

fun words_from :: "string \<Rightarrow> string \<Rightarrow> string list" where
  "words_from cur [] = (if cur = [] then [] else [rev cur])"
| "words_from cur (c # cs) =
     (if is_space c then (if cur = [] then words_from [] cs else rev cur # words_from [] cs)
      else words_from (c # cur) cs)"

definition compact_text :: "pyval \<Rightarrow> string" where
  "compact_text v =
     (case v of
        PStr s \<Rightarrow> py_join '' '' (words_from [] s)
      | PDict d \<Rightarrow> json_dumps v
      | PList xs \<Rightarrow> json_dumps v
      | _ \<Rightarrow> [])"

text \<open>\<open>_find_first_mapping\<close>: the stack of values still to visit, top first.\<close>

lemma size_values: "(\<Sum>e\<leftarrow>d. Suc (size (snd e))) \<le> size_list (size_prod (\<lambda>x. 0) size) d"
  by (induction d) auto

lemma size_elements: "(\<Sum>v\<leftarrow>xs. Suc (size v)) \<le> size_list size xs"
  by (induction xs) auto

function find_first_from :: "string \<Rightarrow> pyval list \<Rightarrow> pydict option" where
  "find_first_from key [] = None"
| "find_first_from key (v # stack) =
     (case v of
        PDict d \<Rightarrow> (case py_get d key of PDict f \<Rightarrow> Some f | _ \<Rightarrow> find_first_from key (map snd d @ stack))
      | PList xs \<Rightarrow> find_first_from key (xs @ stack)
      | _ \<Rightarrow> find_first_from key stack)"
  by pat_completeness auto
termination
  by (relation "measure (\<lambda>(key, stack). \<Sum>v\<leftarrow>stack. Suc (size v))")
    (auto simp: comp_def less_Suc_eq_le intro: le_SucI size_values size_elements)

definition find_first_mapping :: "pyval \<Rightarrow> string \<Rightarrow> pydict option" where
  "find_first_mapping v key = find_first_from key [v]"

text \<open>A historical positional plan as one chain of items.\<close>

fun follow_up_items :: "string \<Rightarrow> nat \<Rightarrow> string \<Rightarrow> pydict list \<Rightarrow> py_exc + pydict list" where
  "follow_up_items plan_id index before [] = Inr []"
| "follow_up_items plan_id index before (f # rest) =
     (let ident = plan_id @ ''#follow-up-'' @ pad_nat 2 index in
      rbind (iter_value (py_get_default f ''named_content'' (PList []))) (\<lambda>content.
      rbind (follow_up_items plan_id (Suc index) ident rest) (\<lambda>items.
        Inr ([(''id'', PStr ident),
              (''objective'', PStr (py_str (py_or (py_get f ''adds'') (PStr (compact_text (PDict f)))))),
              (''named_content'', PList content), (''acceptance_criteria'', PList []),
              (''how_verified'', PStr (str_or_empty (py_get f ''how_verified''))),
              (''depends_on'', PList [PStr before])] # items))))"

definition historical_items :: "pydict \<Rightarrow> py_exc + pydict list" where
  "historical_items plan =
     (case py_get plan ''first_proof_moment'' of
        PDict first \<Rightarrow>
          (let plan_id = py_str (py_or (py_get plan ''id'') (PStr ''patch_plan'')); ident = plan_id @ ''#first_proof_moment'' in
           rbind (iter_value (py_get_default first ''named_content'' (PList []))) (\<lambda>content.
           rbind (follow_up_items plan_id 1 ident (list_of_mappings (py_get plan ''follow_ups''))) (\<lambda>items.
             Inr ([(''id'', PStr ident), (''objective'', PStr (compact_text (PDict first))),
                   (''named_content'', PList content),
                   (''acceptance_criteria'', PList [PStr (str_or_empty (py_get first ''win_or_progress_condition''))]),
                   (''how_verified'', PStr (str_or_empty (py_get first ''how_verified''))),
                   (''depends_on'', PList [])] # items))))
      | _ \<Rightarrow> Inl ValueError)"

definition item_ident :: "pydict \<Rightarrow> string" where
  "item_ident item = str_or_empty (py_get item ''id'')"

definition valid_references :: "string list \<Rightarrow> pydict \<Rightarrow> bool" where
  "valid_references known item =
     (case py_get item ''depends_on'' of
        PList ds \<Rightarrow> list_all (\<lambda>v. case v of PStr d \<Rightarrow> d \<in> set known | _ \<Rightarrow> False) ds
      | _ \<Rightarrow> False)"

definition plan_graph :: "pyval \<Rightarrow> py_exc + pydict list" where
  "plan_graph approach =
     (case find_first_mapping approach ''patch_plan'' of
        None \<Rightarrow> Inl ValueError
      | Some plan \<Rightarrow>
          if plan = [] then Inl ValueError
          else
            rbind (let graph_items = list_of_mappings (py_get plan ''items'')
                   in if graph_items \<noteq> [] then Inr graph_items else historical_items plan) (\<lambda>items.
            let ids = map item_ident items in
            if [] \<in> set ids \<or> \<not> distinct ids then Inl ValueError
            else if list_all (valid_references ids) items then Inr items
            else Inl ValueError))"

section \<open>Weak components\<close>

definition item_key :: "pydict \<Rightarrow> py_exc + string" where
  "item_key item = (if has_key item ''id'' then Inr (py_str (py_get item ''id'')) else Inl KeyError)"

fun items_by_id :: "pydict list \<Rightarrow> pydict \<Rightarrow> py_exc + pydict" where
  "items_by_id [] by_id = Inr by_id"
| "items_by_id (item # items) by_id =
     rbind (item_key item) (\<lambda>k. items_by_id items (py_set by_id k (PDict item)))"

type_synonym neighbours = "string \<Rightarrow> string list"

fun add_links :: "string list \<Rightarrow> string \<Rightarrow> pyval list \<Rightarrow> neighbours \<Rightarrow> py_exc + neighbours" where
  "add_links ids i [] nb = Inr nb"
| "add_links ids i (v # vs) nb =
     (case v of
        PStr d \<Rightarrow>
          if d \<in> set ids
          then (let nb1 = nb(i := List.insert d (nb i)) in add_links ids i vs (nb1(d := List.insert i (nb1 d))))
          else Inl KeyError
      | PList _ \<Rightarrow> Inl TypeError
      | PDict _ \<Rightarrow> Inl TypeError
      | _ \<Rightarrow> Inl KeyError)"

fun neighbours_of :: "string list \<Rightarrow> pydict \<Rightarrow> neighbours \<Rightarrow> py_exc + neighbours" where
  "neighbours_of ids [] nb = Inr nb"
| "neighbours_of ids ((i, item) # rest) nb =
     rbind (iter_value (case item of PDict d \<Rightarrow> py_get_default d ''depends_on'' (PList []) | _ \<Rightarrow> PNone)) (\<lambda>deps.
     rbind (add_links ids i deps nb) (neighbours_of ids rest))"

text \<open>The members found so far and the stack, top first.\<close>

partial_function (option) component_from :: "neighbours \<Rightarrow> string list \<Rightarrow> string list \<Rightarrow> string list option" where
  "component_from nb members stack =
     (case stack of
        [] \<Rightarrow> Some members
      | c # rest \<Rightarrow>
          if c \<in> set members then component_from nb members rest
          else component_from nb (c # members) (sort (filter (\<lambda>x. x \<notin> set (c # members)) (nb c)) @ rest))"

fun components_from :: "neighbours \<Rightarrow> string list \<Rightarrow> string list \<Rightarrow> string list \<Rightarrow> string list list option" where
  "components_from nb order [] seen = Some []"
| "components_from nb order (s # ss) seen =
     (if s \<in> set seen then components_from nb order ss seen
      else case component_from nb [] [s] of
          None \<Rightarrow> None
        | Some ms \<Rightarrow>
            map_option ((#) (filter (\<lambda>i. i \<in> set ms) order)) (components_from nb order ss (ms @ seen)))"

definition weak_components :: "pydict list \<Rightarrow> (py_exc + pydict list list) option" where
  "weak_components items =
     (case rbind (items_by_id items []) (\<lambda>by_id.
             rbind (neighbours_of (map fst by_id) by_id (\<lambda>_. [])) (\<lambda>nb. Inr (by_id, nb))) of
        Inl e \<Rightarrow> Some (Inl e)
      | Inr (by_id, nb) \<Rightarrow>
          map_option (\<lambda>comps. Inr (map (map (\<lambda>i. case py_get by_id i of PDict d \<Rightarrow> d | _ \<Rightarrow> [])) comps))
            (components_from nb (map fst by_id) (map fst by_id) []))"

section \<open>Children of a partition\<close>

text \<open>\<open>re.sub("[^a-z0-9_]+", "_", text)\<close>: a run of other characters becomes one underscore.\<close>

fun squeeze_from :: "bool \<Rightarrow> string \<Rightarrow> string" where
  "squeeze_from in_run [] = []"
| "squeeze_from in_run (c # cs) =
     (if is_lower c \<or> is_digit c \<or> c = CHR ''_'' then c # squeeze_from False cs
      else if in_run then squeeze_from True cs else CHR ''_'' # squeeze_from True cs)"

definition strip_char :: "char \<Rightarrow> string \<Rightarrow> string" where
  "strip_char c s = py_rstrip_char c (dropWhile (\<lambda>x. x = c) s)"

definition base_key :: "string \<Rightarrow> nat \<Rightarrow> string" where
  "base_key first_id index =
     (let k = strip_char (CHR ''_'') (squeeze_from False (py_lower first_id))
      in if k = [] then ''component_'' @ nat_str index else k)"

definition suffixed :: "string \<Rightarrow> nat \<Rightarrow> string" where
  "suffixed base n = base @ ''_'' @ nat_str n"

lemma suffixed_inject: "suffixed base m = suffixed base n \<longleftrightarrow> m = n"
  by (simp add: suffixed_def)

lemma finite_suffixed: "finite {n. suffixed base n \<in> set used}"
proof -
  have "inj (suffixed base)" by (auto intro: injI simp: suffixed_inject)
  then show ?thesis using finite_vimageI [of "set used" "suffixed base"] by (simp add: vimage_def)
qed

text \<open>The loop that numbers a child key already in use.\<close>

function fresh_suffixed :: "string list \<Rightarrow> string \<Rightarrow> nat \<Rightarrow> string" where
  "fresh_suffixed used base n =
     (if suffixed base n \<in> set used then fresh_suffixed used base (Suc n) else suffixed base n)"
  by pat_completeness auto
termination
proof (relation "measure (\<lambda>(used, base, n). card {m. n \<le> m \<and> suffixed base m \<in> set used})")
  fix used base n assume "suffixed base n \<in> set used"
  then have "n \<in> {m. n \<le> m \<and> suffixed base m \<in> set used} - {m. Suc n \<le> m \<and> suffixed base m \<in> set used}" by simp
  moreover have "{m. Suc n \<le> m \<and> suffixed base m \<in> set used} \<subseteq> {m. n \<le> m \<and> suffixed base m \<in> set used}" by auto
  ultimately have "{m. Suc n \<le> m \<and> suffixed base m \<in> set used} \<subset> {m. n \<le> m \<and> suffixed base m \<in> set used}" by blast
  moreover have "finite {m. n \<le> m \<and> suffixed base m \<in> set used}"
    using finite_suffixed [of base used] by (rule rev_finite_subset) auto
  ultimately show "((used, base, Suc n), used, base, n) \<in> measure (\<lambda>(used, base, n). card {m. n \<le> m \<and> suffixed base m \<in> set used})"
    by (simp add: psubset_card_mono)
qed simp

declare fresh_suffixed.simps [simp del]

definition fresh_key :: "string list \<Rightarrow> string \<Rightarrow> string" where
  "fresh_key used base = (if base \<in> set used then fresh_suffixed used base 2 else base)"

fun component_criteria :: "pydict list \<Rightarrow> py_exc + pyval list" where
  "component_criteria [] = Inr []"
| "component_criteria (item # items) =
     rbind (iter_value (py_get_default item ''acceptance_criteria'' (PList []))) (\<lambda>vs.
     rbind (component_criteria items) (\<lambda>rest.
       Inr (filter (\<lambda>v. case v of PStr s \<Rightarrow> py_strip s \<noteq> [] | _ \<Rightarrow> False) vs @ rest)))"

definition component_checks :: "pydict list \<Rightarrow> string list" where
  "component_checks items = filter (\<lambda>s. s \<noteq> []) (map (\<lambda>item. py_strip (str_or_empty (py_get item ''how_verified''))) items)"

definition objective_or :: "pydict \<Rightarrow> string \<Rightarrow> string" where
  "objective_or item dflt = py_str (py_or (py_get item ''objective'') (PStr dflt))"

definition component_child :: "pydict \<Rightarrow> string \<Rightarrow> pydict list \<Rightarrow> py_exc + pydict" where
  "component_child patch_plan key items =
     (let first_id = item_ident (hd items) in
      rbind (component_criteria items) (\<lambda>criteria.
        Inr [(''child_key'', PStr key), (''title'', PStr (objective_or (hd items) first_id)),
             (''stage_name'', PStr ''independent''), (''edges'', PList []),
             (''summary'', PStr (py_join ''; '' (map (\<lambda>item. objective_or item (item_ident item)) items))),
             (''acceptance_criteria'', PList (if criteria \<noteq> [] then criteria
                else [PStr (''Complete and verify '' @ first_id @ ''.'')])),
             (''functional_check'', PStr (py_join ''; '' (component_checks items))),
             (''patch_plan'', PDict ((case py_get patch_plan ''id'' of PStr i \<Rightarrow> [(''id'', PStr i)] | _ \<Rightarrow> []) @
                [(''items'', PList (map PDict items)), (''deferred'', PList []), (''open_questions'', PList [])])),
             (''systems'', PList []), (''ux_acceptance_tests'', PList []), (''risks'', PList [])]))"

fun component_children :: "pydict \<Rightarrow> string list \<Rightarrow> nat \<Rightarrow> pydict list list \<Rightarrow> py_exc + pydict list" where
  "component_children patch_plan used index [] = Inr []"
| "component_children patch_plan used index (items # rest) =
     (let key = fresh_key used (base_key (item_ident (hd items)) index) in
      rbind (component_child patch_plan key items) (\<lambda>child.
      rbind (component_children patch_plan (key # used) (Suc index) rest) (\<lambda>children. Inr (child # children))))"

record plan_split =
  ps_mode :: string
  ps_rationale :: string
  ps_children :: "pydict list"

definition partition_plan_graph :: "pyval \<Rightarrow> (py_exc + plan_split) option" where
  "partition_plan_graph approach =
     (case plan_graph approach of
        Inl e \<Rightarrow> Some (Inl e)
      | Inr items \<Rightarrow>
          map_option (\<lambda>r. rbind r (\<lambda>components.
            if length components = 1 then
              Inr \<lparr>ps_mode = ''right_sized'', ps_rationale = ''one dependency component; keep the chain in one leaf'', ps_children = []\<rparr>
            else
              let plan = (case find_first_mapping approach ''patch_plan'' of None \<Rightarrow> [] | Some p \<Rightarrow> p) in
              rbind (component_children plan [] 1 components) (\<lambda>children.
                Inr \<lparr>ps_mode = ''split_into_children'',
                     ps_rationale = nat_str (length children) @ '' independent dependency components'', ps_children = children\<rparr>)))
            (weak_components items))"

section \<open>Placing the children\<close>

definition WORK_ORDER_PREFIX :: string where "WORK_ORDER_PREFIX = ''ai-org/patch-series/''"

definition patch_series_branch :: "string \<Rightarrow> string" where
  "patch_series_branch s =
     (if startswith s ''refs/heads/'' then removeprefix s ''refs/heads/''
      else if startswith s WORK_ORDER_PREFIX then s else WORK_ORDER_PREFIX @ s)"

definition patch_series_id :: "string \<Rightarrow> string" where
  "patch_series_id s = removeprefix (patch_series_branch s) WORK_ORDER_PREFIX"

definition node_address :: "string \<Rightarrow> string \<Rightarrow> string" where
  "node_address branch node_path = branch @ '':'' @ node_path"

definition safe_child_key :: "string \<Rightarrow> string" where
  "safe_child_key s = (if py_strip s = [] then ''child'' else py_strip s)"

definition coerce_part_of_target :: "string \<Rightarrow> pyval \<Rightarrow> string" where
  "coerce_part_of_target parent_key to =
     (let text = py_strip (str_or_empty to) in if text = [] \<or> CHR ''/'' \<in> set text then parent_key else text)"

definition part_of_edge :: "string \<Rightarrow> edge" where
  "part_of_edge parent_key = \<lparr>e_type = ''part_of'', e_to = Some parent_key, e_with = None, e_state = None,
     e_or_group = None, e_when = None, e_reason = Some []\<rparr>"

definition stamp_parent_provenance_edge :: "string \<Rightarrow> edge list \<Rightarrow> edge list" where
  "stamp_parent_provenance_edge parent_key edges =
     map (\<lambda>e. if e_type e = ''part_of'' then e\<lparr>e_to := Some (coerce_part_of_target parent_key (opt_py (e_to e)))\<rparr> else e) edges @
     (if list_ex (\<lambda>e. e_type e = ''part_of'') edges then [] else [part_of_edge parent_key])"

definition plan_items_of :: "pydict \<Rightarrow> pydict list option" where
  "plan_items_of child = (case py_get child ''patch_plan'' of PDict p \<Rightarrow> Some (list_of_mappings (py_get p ''items'')) | _ \<Rightarrow> None)"

definition item_owners :: "pydict list \<Rightarrow> string \<Rightarrow> string option" where
  "item_owners children =
     foldl (\<lambda>owner child.
        foldl (\<lambda>owner item. if item_ident item \<noteq> [] then owner(item_ident item \<mapsto> str_or_empty (py_get child ''child_key'')) else owner)
          owner (case plan_items_of child of None \<Rightarrow> [] | Some items \<Rightarrow> items))
       Map.empty children"

definition cross_edge :: "string \<Rightarrow> string \<Rightarrow> pyval \<Rightarrow> pyval" where
  "cross_edge owner item_id dependency =
     PDict [(''type'', PStr ''depends''), (''to'', PStr owner), (''with'', PStr []),
       (''state'', PStr ''merged_into_subsystem_tree''), (''or_group'', PStr []), (''when'', PStr []),
       (''reason'', PStr (''work item '' @ item_id @ '' builds on '' @ py_str dependency))]"

fun item_edges :: "(string \<Rightarrow> string option) \<Rightarrow> string \<Rightarrow> pydict list \<Rightarrow> py_exc + pyval list" where
  "item_edges owner key [] = Inr []"
| "item_edges owner key (item # items) =
     rbind (iter_value (py_get_default item ''depends_on'' (PList []))) (\<lambda>deps.
     rbind (item_edges owner key items) (\<lambda>rest.
       Inr (concat (map (\<lambda>d. case owner (py_str d) of
              None \<Rightarrow> [] | Some own \<Rightarrow> if own \<noteq> [] \<and> own \<noteq> key then [cross_edge own (item_ident item) d] else []) deps) @ rest)))"

definition child_key_of :: "pydict \<Rightarrow> py_exc + string" where
  "child_key_of child = (if has_key child ''child_key'' then Inr (safe_child_key (py_str (py_get child ''child_key''))) else Inl KeyError)"

definition prepare_child :: "(string \<Rightarrow> string option) \<Rightarrow> string set \<Rightarrow> pydict \<Rightarrow> py_exc + pydict" where
  "prepare_child owner scope_ids child =
     rbind (child_key_of child) (\<lambda>key.
     rbind (iter_value (py_get_default child ''edges'' (PList []))) (\<lambda>edges.
     rbind (case plan_items_of child of
         Some items \<Rightarrow>
           rbind (item_edges owner key items) (\<lambda>more.
             Inr (filter (\<lambda>i. i \<noteq> []) (map item_ident items), edges @ more))
       | None \<Rightarrow>
           Inr (case py_get child ''scope_item_ids'' of
               PList ids \<Rightarrow> concat (map (\<lambda>v. case v of PStr s \<Rightarrow> [s] | _ \<Rightarrow> []) ids)
             | _ \<Rightarrow> [], edges)) (\<lambda>(ids, all_edges).
       Inr (py_set (py_set (py_set child ''child_key'' (PStr key))
              ''scope_item_ids'' (PList (map PStr (filter (\<lambda>i. i \<in> scope_ids) ids))))
              ''edges'' (PList (map (\<lambda>e. PDict (edge_dict e))
                 (stamp_parent_provenance_edge ''root'' (normalize_edges (PList all_edges)))))))))"

fun rmap :: "('a \<Rightarrow> 'e + 'b) \<Rightarrow> 'a list \<Rightarrow> 'e + 'b list" where
  "rmap f [] = Inr []"
| "rmap f (x # xs) = rbind (f x) (\<lambda>y. rbind (rmap f xs) (\<lambda>ys. Inr (y # ys)))"

text \<open>The fields that the placement sets before the acceptance criteria.\<close>

definition placed_fields :: "string \<Rightarrow> string \<Rightarrow> string \<Rightarrow> string \<Rightarrow> (string \<times> string) list" where
  "placed_fields root_id parent_branch key lifecycle =
     (let node_path = ''sub/'' @ key in
      [(''child_key'', key), (''id'', root_id @ '':sub/'' @ key), (''serial_id'', []), (''node_path'', node_path),
       (''address'', node_address parent_branch node_path), (''allowed_subtree'', node_path @ ''/''),
       (''contrib_branch'', ''ai-org/contrib/'' @ patch_series_id parent_branch @ ''-'' @ key),
       (''lifecycle_status'', lifecycle)])"

definition set_fields :: "pydict \<Rightarrow> (string \<times> string) list \<Rightarrow> pydict" where
  "set_fields d kvs = foldl (\<lambda>c (k, v). py_set c k (PStr v)) d kvs"

definition place_child :: "string \<Rightarrow> string \<Rightarrow> int \<Rightarrow> (string \<Rightarrow> nat) \<Rightarrow> pydict \<Rightarrow> py_exc + pydict" where
  "place_child root_id parent_branch horizon depths child =
     rbind (child_key_of child) (\<lambda>key.
     let lifecycle = (if int (depths key) < max 1 horizon then ''ready_for_patch_authoring'' else ''posted_to_mailing_list'');
         placed = set_fields child (placed_fields root_id parent_branch key lifecycle)
     in if \<not> has_key placed ''acceptance_criteria'' then Inl KeyError
        else rbind (iter_value (py_get placed ''acceptance_criteria'')) (\<lambda>criteria.
          Inr (py_set placed ''acceptance_criteria'' (PList criteria))))"

record placed_split =
  pl_mode :: string
  pl_rationale :: string
  pl_retained :: "string list"
  pl_children :: "pydict list"

definition scope_ids_of :: "pydict \<Rightarrow> string list" where
  "scope_ids_of child =
     (case py_get child ''scope_item_ids'' of PList ids \<Rightarrow> map py_str ids | _ \<Rightarrow> [])"

text \<open>
  The serial id of the root and the scope items are arguments; \<open>None\<close> of \<open>child_depths\<close> does not
  occur for prepared children, whose keys are texts.
\<close>

definition normalize_split ::
  "string \<Rightarrow> string \<Rightarrow> plan_split \<Rightarrow> pydict list \<Rightarrow> int \<Rightarrow> py_exc + placed_split" where
  "normalize_split root_id parent_branch split scope_items horizon =
     (let scope_ids = set (map item_ident scope_items); owner = item_owners (ps_children split) in
      rbind (rmap (prepare_child owner scope_ids) (ps_children split)) (\<lambda>prepared.
      case child_depths (map PDict prepared) of
        None \<Rightarrow> Inl KeyError
      | Some depths \<Rightarrow>
          rbind (rmap (place_child root_id parent_branch horizon depths) prepared) (\<lambda>children.
            Inr \<lparr>pl_mode = ps_mode split, pl_rationale = ps_rationale split,
                 pl_retained = sorted_list_of_set (scope_ids - set (concat (map scope_ids_of children))),
                 pl_children = children\<rparr>)))"

section \<open>The traversal finds the connected component\<close>

definition linked :: "neighbours \<Rightarrow> (string \<times> string) set" where
  "linked nb = {(a, b). b \<in> set (nb a)}"

text \<open>What is still to do: the nodes not yet members, and the length of the stack.\<close>

lemma component_from_result:
  assumes V: "finite V" "\<And>a. set (nb a) \<subseteq> V" and "set stack \<subseteq> V" "set members \<subseteq> V"
    and closed: "\<And>a b. a \<in> set members \<Longrightarrow> (a, b) \<in> linked nb \<Longrightarrow> b \<in> set members \<union> set stack"
    and reach: "set members \<union> set stack \<subseteq> (linked nb)\<^sup>* `` {s}" and s: "s \<in> set members \<union> set stack"
  shows "\<exists>ms. component_from nb members stack = Some ms \<and> set ms = (linked nb)\<^sup>* `` {s}"
  using assms(3-)
proof (induction "(card (V - set members), length stack)" arbitrary: members stack rule: wf_induct_rule [OF wf_lex_prod [OF wf_less_than wf_less_than]])
  case 1
  show ?case
  proof (cases stack)
    case Nil
    have "b \<in> set members" if "(s, b) \<in> (linked nb)\<^sup>*" for b
      using that "1.prems"(3,5) Nil by (induction rule: rtrancl_induct) auto
    then have "set members = (linked nb)\<^sup>* `` {s}" using "1.prems"(4) Nil by auto
    then show ?thesis using Nil by (subst component_from.simps) simp
  next
    case (Cons c rest)
    show ?thesis
    proof (cases "c \<in> set members")
      case True
      have "\<exists>ms. component_from nb members rest = Some ms \<and> set ms = (linked nb)\<^sup>* `` {s}"
      proof (intro "1.hyps")
        show "b \<in> set members \<union> set rest" if "a \<in> set members" "(a, b) \<in> linked nb" for a b
          using "1.prems"(3) [OF that] Cons True by auto
      qed (use "1.prems"(1,2,4,5) Cons True in auto)
      then show ?thesis using Cons True by (subst component_from.simps) simp
    next
      case False
      let ?new = "sort (filter (\<lambda>x. x \<notin> set (c # members)) (nb c))"
      have "c \<in> V" using "1.prems"(1) Cons by simp
      then have "card (V - set (c # members)) < card (V - set members)"
        using V(1) False by (intro psubset_card_mono) auto
      moreover have "set (?new @ rest) \<subseteq> V" using V(2) [of c] "1.prems"(1) Cons by auto
      moreover have "b \<in> set (c # members) \<union> set (?new @ rest)" if "a \<in> set (c # members)" "(a, b) \<in> linked nb" for a b
        using that "1.prems"(3) [of a b] Cons by (auto simp: linked_def)
      moreover have "set (c # members) \<union> set (?new @ rest) \<subseteq> (linked nb)\<^sup>* `` {s}"
        using "1.prems"(4) Cons by (auto simp: linked_def intro: rtrancl_into_rtrancl)
      ultimately have "\<exists>ms. component_from nb (c # members) (?new @ rest) = Some ms \<and> set ms = (linked nb)\<^sup>* `` {s}"
        using "1.prems"(2,5) Cons \<open>c \<in> V\<close> by (intro "1.hyps") auto
      then show ?thesis using Cons False by (subst component_from.simps) simp
    qed
  qed
qed

lemma component_result:
  assumes "finite V" "\<And>a. set (nb a) \<subseteq> V" "s \<in> V"
  obtains ms where "component_from nb [] [s] = Some ms" "set ms = (linked nb)\<^sup>* `` {s}"
  proof -
  have "\<exists>ms. component_from nb [] [s] = Some ms \<and> set ms = (linked nb)\<^sup>* `` {s}"
    by (rule component_from_result [where V = V]) (use assms in auto)
  then show thesis using that by blast
qed

text \<open>A list of lists is disjoint when no element occurs in two of its members.\<close>

fun disjoint_lists :: "'a list list \<Rightarrow> bool" where
  "disjoint_lists [] = True"
| "disjoint_lists (xs # xss) = (set xs \<inter> set (concat xss) = {} \<and> disjoint_lists xss)"

definition is_component :: "(string \<times> string) set \<Rightarrow> string list \<Rightarrow> string list \<Rightarrow> bool" where
  "is_component E order c = (\<exists>a\<in>set c. c = filter (\<lambda>i. (a, i) \<in> E\<^sup>*) order)"

lemma components_from_result:
  assumes V: "\<And>a. set (nb a) \<subseteq> set order" "sym (linked nb)"
    and "set ss \<subseteq> set order" "\<And>a b. a \<in> set seen \<Longrightarrow> (a, b) \<in> (linked nb)\<^sup>* \<Longrightarrow> b \<in> set seen"
  shows "\<exists>cs. components_from nb order ss seen = Some cs \<and>
    list_all (is_component (linked nb) order) cs \<and> set seen \<inter> set (concat cs) = {} \<and>
    set ss \<subseteq> set seen \<union> set (concat cs) \<and> disjoint_lists cs"
  using assms(3-)
proof (induction ss arbitrary: seen)
  case (Cons s ss)
  show ?case
  proof (cases "s \<in> set seen")
    case True
    with Cons.IH [of seen] Cons.prems show ?thesis by auto
  next
    case False
    obtain ms where ms: "component_from nb [] [s] = Some ms" "set ms = (linked nb)\<^sup>* `` {s}"
      using component_result [of "set order" nb s] V(1) Cons.prems(1) by auto
    have sym: "(b, a) \<in> (linked nb)\<^sup>*" if "(a, b) \<in> (linked nb)\<^sup>*" for a b
      using that sym_rtrancl [OF V(2)] by (blast dest: symD)
    have closed: "b \<in> set (ms @ seen)" if "a \<in> set (ms @ seen)" "(a, b) \<in> (linked nb)\<^sup>*" for a b
      using that ms(2) Cons.prems(2) [of a b] by (auto intro: rtrancl_trans)
    have "set ss \<subseteq> set order" using Cons.prems(1) by simp
    from Cons.IH [of "ms @ seen", OF this] closed obtain cs where cs: "components_from nb order ss (ms @ seen) = Some cs"
      "list_all (is_component (linked nb) order) cs" "set (ms @ seen) \<inter> set (concat cs) = {}"
      "set ss \<subseteq> set (ms @ seen) \<union> set (concat cs)" "disjoint_lists cs"
      by blast
    let ?c = "filter (\<lambda>i. i \<in> set ms) order"
    have c: "?c = filter (\<lambda>i. (s, i) \<in> (linked nb)\<^sup>*) order" using ms(2) by (intro filter_cong) auto
    have s: "s \<in> set ?c" using ms(2) Cons.prems(1) by auto
    have comp: "is_component (linked nb) order ?c" unfolding is_component_def using c s by metis
    have ord: "b \<in> set order" if "(s, b) \<in> (linked nb)\<^sup>*" for b
      using that V(1) Cons.prems(1) by (induction rule: rtrancl_induct) (auto simp: linked_def)
    then have all: "set ?c = set ms" using ms(2) by auto
    have "set seen \<inter> set ms = {}" using ms(2) sym Cons.prems(2) False by blast
    then show ?thesis
      using cs comp False s all by (intro exI [of _ "?c # cs"]) (auto simp: ms(1))
  qed
qed simp

section \<open>The components of a plan\<close>

definition item_deps :: "pydict \<Rightarrow> string list" where
  "item_deps item = (case py_get item ''depends_on'' of PList ds \<Rightarrow> concat (map (\<lambda>v. case v of PStr d \<Rightarrow> [d] | _ \<Rightarrow> []) ds) | _ \<Rightarrow> [])"

definition dep_links :: "pydict list \<Rightarrow> (string \<times> string) set" where
  "dep_links items = {(item_ident i, d) |i d. i \<in> set items \<and> d \<in> set (item_deps i)}"

definition plan_ok :: "pydict list \<Rightarrow> bool" where
  "plan_ok items \<longleftrightarrow> [] \<notin> set (map item_ident items) \<and> distinct (map item_ident items) \<and>
     list_all (valid_references (map item_ident items)) items"

lemma plan_graph_ok:
  assumes "plan_graph approach = Inr items"
  shows "plan_ok items"
  using assms by (auto simp: plan_graph_def plan_ok_def Let_def rbind_def split: option.splits if_splits sum.splits)

lemma py_set_new: "k \<notin> fst ` set d \<Longrightarrow> py_set d k v = d @ [(k, v)]"
  by (induction d) auto

lemma py_get_default_get: "py_get d k \<noteq> PNone \<Longrightarrow> py_get_default d k v = py_get d k"
  by (simp add: py_get_def py_get_default_def split: option.splits)

lemma item_ident_key:
  assumes "item_ident item \<noteq> []"
  shows "item_key item = Inr (item_ident item)"
  using assms
  by (auto simp: item_ident_def item_key_def str_or_empty_def py_get_def has_key_iff py_or_def split: option.splits if_splits)

lemma valid_references_deps:
  assumes "valid_references known item"
  shows "py_get item ''depends_on'' = PList (map PStr (item_deps item))" "set (item_deps item) \<subseteq> set known"
proof -
  obtain ds where ds: "py_get item ''depends_on'' = PList ds"
    and all: "list_all (\<lambda>v. case v of PStr d \<Rightarrow> d \<in> set known | _ \<Rightarrow> False) ds"
    using assms by (auto simp: valid_references_def split: pyval.splits)
  have "map PStr (concat (map (\<lambda>v. case v of PStr d \<Rightarrow> [d] | _ \<Rightarrow> []) ds)) = ds \<and>
      set (concat (map (\<lambda>v. case v of PStr d \<Rightarrow> [d] | _ \<Rightarrow> []) ds)) \<subseteq> set known"
    using all by (induction ds) (auto split: pyval.splits)
  then show "py_get item ''depends_on'' = PList (map PStr (item_deps item))" "set (item_deps item) \<subseteq> set known"
    using ds by (auto simp: item_deps_def)
qed

lemma items_by_id_result:
  assumes "[] \<notin> set (map item_ident items)" "distinct (map fst acc @ map item_ident items)"
  shows "items_by_id items acc = Inr (acc @ map (\<lambda>i. (item_ident i, PDict i)) items)"
  using assms
proof (induction items arbitrary: acc)
  case (Cons item items)
  have "py_set acc (item_ident item) (PDict item) = acc @ [(item_ident item, PDict item)]"
    using Cons.prems(2) by (simp add: py_set_new)
  with Cons.IH [of "acc @ [(item_ident item, PDict item)]"] Cons.prems item_ident_key [of item] show ?case
    by auto
qed simp

lemma add_links_result:
  assumes "set ds \<subseteq> set ids"
  shows "\<exists>nb'. add_links ids i (map PStr ds) nb = Inr nb' \<and> linked nb' = linked nb \<union> {i} \<times> set ds \<union> set ds \<times> {i}"
  using assms
proof (induction ds arbitrary: nb)
  case (Cons d ds)
  define nb1 where "nb1 = nb(i := List.insert d (nb i))"
  define nb2 where "nb2 = nb1(d := List.insert i (nb1 d))"
  have "linked nb2 = linked nb \<union> {(i, d), (d, i)}"
    by (auto simp: linked_def nb2_def nb1_def split: if_splits)
  moreover obtain nb' where "add_links ids i (map PStr ds) nb2 = Inr nb'"
    "linked nb' = linked nb2 \<union> {i} \<times> set ds \<union> set ds \<times> {i}"
    using Cons.IH [of nb2] Cons.prems by auto
  ultimately show ?case using Cons.prems by (auto simp: Let_def nb1_def nb2_def)
qed simp

lemma neighbours_of_result:
  assumes "list_all (valid_references ids) items"
  shows "\<exists>nb'. neighbours_of ids (map (\<lambda>i. (item_ident i, PDict i)) items) nb = Inr nb' \<and>
    linked nb' = linked nb \<union> dep_links items \<union> (dep_links items)\<inverse>"
  using assms
proof (induction items arbitrary: nb)
  case (Cons item items)
  note deps = valid_references_deps [of ids item]
  have d: "py_get_default item ''depends_on'' (PList []) = PList (map PStr (item_deps item))" "set (item_deps item) \<subseteq> set ids"
    using deps Cons.prems by (auto simp: py_get_default_get)
  obtain nb1 where nb1: "add_links ids (item_ident item) (map PStr (item_deps item)) nb = Inr nb1"
    "linked nb1 = linked nb \<union> {item_ident item} \<times> set (item_deps item) \<union> set (item_deps item) \<times> {item_ident item}"
    using add_links_result [OF d(2)] by blast
  obtain nb' where "neighbours_of ids (map (\<lambda>i. (item_ident i, PDict i)) items) nb1 = Inr nb'"
    "linked nb' = linked nb1 \<union> dep_links items \<union> (dep_links items)\<inverse>"
    using Cons.IH [of nb1] Cons.prems by auto
  then show ?case using d nb1 by (auto simp: iter_value_def dep_links_def)
qed (auto simp: dep_links_def)

definition connected_items :: "pydict list \<Rightarrow> pydict \<Rightarrow> pydict \<Rightarrow> bool" where
  "connected_items items i j \<longleftrightarrow> (item_ident i, item_ident j) \<in> (dep_links items \<union> (dep_links items)\<inverse>)\<^sup>*"

definition plan_component :: "pydict list \<Rightarrow> pydict list \<Rightarrow> bool" where
  "plan_component items c \<longleftrightarrow> (\<exists>i\<in>set c. c = filter (connected_items items i) items)"

lemma map_inv_filter:
  assumes "\<And>i. i \<in> set items \<Longrightarrow> g (f i) = i"
  shows "map g (filter P (map f items)) = filter (P \<circ> f) items"
  using assms by (induction items) auto

lemma disjoint_lists_map:
  assumes "disjoint_lists cs" "inj_on g (set (concat cs))"
  shows "disjoint_lists (map (map g) cs)"
  using assms
proof (induction cs)
  case (Cons c cs)
  have "g ` set c \<inter> g ` set (concat cs) = {}"
    using Cons.prems by (subst inj_on_image_Int [symmetric, where C = "set (concat (c # cs))"]) auto
  then show ?case using Cons by (auto simp: inj_on_Un)
qed simp


lemma py_get_paired:
  assumes "distinct (map f items)" "i \<in> set items"
  shows "py_get (map (\<lambda>i. (f i, v i)) items) (f i) = v i"
proof -
  have "map_of (map (\<lambda>i. (f i, v i)) items) (f i) = Some (v i)"
    using assms by (intro map_of_is_SomeI) (auto simp: comp_def)
  then show ?thesis by (simp add: py_get_def)
qed

lemma weak_components_result:
  assumes ok: "plan_ok items"
  shows "\<exists>comps. weak_components items = Some (Inr comps) \<and> disjoint_lists comps \<and>
    set (concat comps) = set items \<and> list_all (plan_component items) comps"
proof -
  let ?ids = "map item_ident items" and ?by = "map (\<lambda>i. (item_ident i, PDict i)) items"
  let ?E = "dep_links items \<union> (dep_links items)\<inverse>"
  let ?g = "\<lambda>k. case py_get ?by k of PDict d \<Rightarrow> d | _ \<Rightarrow> []"
  have dist: "distinct ?ids" using ok by (simp add: plan_ok_def)
  have by_id: "items_by_id items [] = Inr ?by"
    using items_by_id_result [of items "[]"] ok by (simp add: plan_ok_def)
  obtain nb where nb: "neighbours_of ?ids ?by (\<lambda>_. []) = Inr nb" "linked nb = ?E"
    using neighbours_of_result [of ?ids items "\<lambda>_. []"] ok by (auto simp: plan_ok_def linked_def)
  have E_ids: "?E \<subseteq> set ?ids \<times> set ?ids"
    using ok valid_references_deps(2) by (fastforce simp: dep_links_def plan_ok_def list_all_iff)
  have sub: "set (nb a) \<subseteq> set ?ids" for a
    using nb(2) E_ids by (auto simp: linked_def)
  have "sym (linked nb)" unfolding nb(2) by (auto intro: symI)
  from components_from_result [OF sub this, of ?ids "[]"] nb(2) obtain cs
    where cs: "components_from nb ?ids ?ids [] = Some cs" "list_all (is_component ?E ?ids) cs"
      "set ?ids \<subseteq> set (concat cs)" "disjoint_lists cs" by auto
  have g: "?g (item_ident i) = i" if "i \<in> set items" for i
    using py_get_paired [OF dist that, of PDict] by simp
  have comp: "map ?g c = filter (\<lambda>j. (a, item_ident j) \<in> ?E\<^sup>*) items" if "c = filter (\<lambda>i. (a, i) \<in> ?E\<^sup>*) ?ids" for a c
    unfolding that by (subst map_inv_filter) (simp_all add: g comp_def)
  have ids: "set (concat cs) = set ?ids" using cs(2,3) by (auto simp: list_all_iff is_component_def)
  have "plan_component items (map ?g c)" if "c \<in> set cs" for c
  proof -
    obtain a where a: "a \<in> set c" "c = filter (\<lambda>i. (a, i) \<in> ?E\<^sup>*) ?ids"
      using cs(2) \<open>c \<in> set cs\<close> by (auto simp: list_all_iff is_component_def)
    then obtain i where "i \<in> set items" "a = item_ident i" by auto
    moreover have "connected_items items i = (\<lambda>j. (item_ident i, item_ident j) \<in> ?E\<^sup>*)"
      by (simp add: fun_eq_iff connected_items_def)
    ultimately show ?thesis using comp [OF a(2)] by (auto simp: plan_component_def)
  qed
  moreover have "inj_on ?g (set (concat cs))" unfolding ids by (auto intro!: inj_onI simp: g)
  moreover have "set (concat (map (map ?g) cs)) = set items"
  proof -
    have "set (concat (map (map ?g) cs)) = ?g ` set (concat cs)" by auto
    also have "\<dots> = set items" unfolding ids using g by (auto simp: image_iff intro: rev_image_eqI)
    finally show ?thesis .
  qed
  moreover have "weak_components items = Some (Inr (map (map ?g) cs))"
    using cs(1) nb(1) by (simp add: weak_components_def by_id rbind_def comp_def)
  ultimately show ?thesis
    using disjoint_lists_map [OF cs(4)] by (auto simp: list_all_iff)
qed

text \<open>
  C21: for a plan that \<open>_plan_graph\<close> accepts, the traversal of \<open>_weak_components\<close> returns, without a
  raised exception, lists of items in plan order: they are disjoint, together they hold every item,
  and each is exactly the set of items connected to one of its members by dependencies read in
  either direction.
\<close>

theorem weak_components_correct:
  assumes "plan_graph approach = Inr items"
  shows "\<exists>comps. weak_components items = Some (Inr comps) \<and> disjoint_lists comps \<and>
    set (concat comps) = set items \<and> list_all (plan_component items) comps"
  using weak_components_result [OF plan_graph_ok [OF assms]] .

section \<open>The children of a partition\<close>

lemma fresh_suffixed_new: "fresh_suffixed used base n \<notin> set used"
  by (induction used base n rule: fresh_suffixed.induct) (subst fresh_suffixed.simps, auto)

lemma fresh_key_new: "fresh_key used base \<notin> set used"
  by (simp add: fresh_key_def fresh_suffixed_new)

lemma component_child_gets:
  assumes "component_child plan key items = Inr child"
  shows "py_get child ''child_key'' = PStr key" "plan_items_of child = Some items"
    "py_get child ''edges'' = PList []" "has_key child ''acceptance_criteria''"
    "\<exists>cs. py_get child ''acceptance_criteria'' = PList cs \<and> cs \<noteq> []"
proof -
  obtain criteria where "component_criteria items = Inr criteria"
    using assms by (auto simp: component_child_def rbind_def Let_def split: sum.splits)
  then have child: "child = [(''child_key'', PStr key), (''title'', PStr (objective_or (hd items) (item_ident (hd items)))),
      (''stage_name'', PStr ''independent''), (''edges'', PList []),
      (''summary'', PStr (py_join ''; '' (map (\<lambda>item. objective_or item (item_ident item)) items))),
      (''acceptance_criteria'', PList (if criteria \<noteq> [] then criteria
         else [PStr (''Complete and verify '' @ item_ident (hd items) @ ''.'')])),
      (''functional_check'', PStr (py_join ''; '' (component_checks items))),
      (''patch_plan'', PDict ((case py_get plan ''id'' of PStr i \<Rightarrow> [(''id'', PStr i)] | _ \<Rightarrow> []) @
         [(''items'', PList (map PDict items)), (''deferred'', PList []), (''open_questions'', PList [])])),
      (''systems'', PList []), (''ux_acceptance_tests'', PList []), (''risks'', PList [])]"
    using assms by (simp add: component_child_def Let_def)
  have dicts: "mappings (map PDict items) = items" by (induction items) (simp_all add: mappings_def)
  show "py_get child ''child_key'' = PStr key" "py_get child ''edges'' = PList []" "has_key child ''acceptance_criteria''"
    "\<exists>cs. py_get child ''acceptance_criteria'' = PList cs \<and> cs \<noteq> []"
    unfolding child by (simp_all add: py_get_def has_key_def)
  show "plan_items_of child = Some items"
    unfolding child by (auto simp: plan_items_of_def py_get_def list_of_mappings_def dicts split: option.splits pyval.splits)
qed

lemma component_children_result:
  assumes "component_children plan used index comps = Inr children"
  shows "map plan_items_of children = map Some comps \<and>
    (\<exists>keys. map (\<lambda>c. py_get c ''child_key'') children = map PStr keys \<and> distinct keys \<and> set keys \<inter> set used = {})"
  using assms
proof (induction plan used index comps arbitrary: children rule: component_children.induct)
  case (2 plan used index items rest)
  let ?key = "fresh_key used (base_key (item_ident (hd items)) index)"
  obtain child others where c: "component_child plan ?key items = Inr child"
    "component_children plan (?key # used) (Suc index) rest = Inr others" "children = child # others"
    using "2.prems" by (auto simp: Let_def rbind_def split: sum.splits)
  from "2.IH" [OF refl c(1,2)] obtain keys where keys: "map plan_items_of others = map Some rest"
    "map (\<lambda>c. py_get c ''child_key'') others = map PStr keys" "distinct keys" "set keys \<inter> set (?key # used) = {}" by auto
  have "map (\<lambda>c. py_get c ''child_key'') children = map PStr (?key # keys)"
    using c(3) keys(2) component_child_gets(1) [OF c(1)] by simp
  moreover have "distinct (?key # keys)" "set (?key # keys) \<inter> set used = {}"
    using keys(3,4) fresh_key_new [of used "base_key (item_ident (hd items)) index"] by auto
  ultimately show ?case
    using c(3) keys(1) component_child_gets(2) [OF c(1)] by (intro conjI exI [of _ "?key # keys"]) simp_all
qed auto

definition key_char :: "char \<Rightarrow> bool" where
  "key_char c \<longleftrightarrow> is_lower c \<or> is_digit c \<or> c = CHR ''_''"

definition safe_key :: "string \<Rightarrow> bool" where
  "safe_key k \<longleftrightarrow> k \<noteq> [] \<and> list_all key_char k"

lemma squeeze_from_chars: "list_all key_char (squeeze_from b s)"
  by (induction b s rule: squeeze_from.induct) (simp_all add: key_char_def)

lemma list_all_rstrip: "list_all P s \<Longrightarrow> list_all P (py_rstrip_char c s)"
  by (auto simp: py_rstrip_char_def list_all_iff dest: set_dropWhileD)

lemma base_key_safe: "safe_key (base_key s n)"
proof -
  have "list_all key_char (strip_char (CHR ''_'') (squeeze_from False (py_lower s)))"
    using squeeze_from_chars unfolding strip_char_def
    by (intro list_all_rstrip) (auto simp: list_all_iff dest: set_dropWhileD)
  moreover have "list_all key_char (''component_'' @ nat_str n)"
    using nat_str_digits by (auto simp: list_all_iff key_char_def is_lower_def char_code_def)
  ultimately show ?thesis by (simp add: base_key_def safe_key_def Let_def)
qed

lemma fresh_suffixed_form: "\<exists>m. fresh_suffixed used base n = suffixed base m"
  by (induction used base n rule: fresh_suffixed.induct) (subst fresh_suffixed.simps, auto)

lemma fresh_key_safe: "safe_key base \<Longrightarrow> safe_key (fresh_key used base)"
  using fresh_suffixed_form [of used base 2] nat_str_digits
  by (auto simp: fresh_key_def safe_key_def suffixed_def list_all_iff key_char_def)

lemma key_char_not_space: "key_char c \<Longrightarrow> \<not> is_space c"
  by (auto simp: key_char_def is_space_def is_lower_def is_digit_def Let_def char_code_def)

lemma dropWhile_none: "list_all (\<lambda>c. \<not> P c) s \<Longrightarrow> dropWhile P s = s"
  by (cases s) auto

lemma safe_key_strip: "safe_key k \<Longrightarrow> safe_child_key k = k"
  using key_char_not_space
  by (auto simp: safe_key_def safe_child_key_def py_strip_def py_lstrip_def py_rstrip_def dropWhile_none list_all_iff)

lemma component_children_safe:
  assumes "component_children plan used index comps = Inr children"
  shows "list_all (\<lambda>c. safe_key (str_or_empty (py_get c ''child_key'')) \<and> py_get c ''edges'' = PList [] \<and>
    (\<exists>cs. py_get c ''acceptance_criteria'' = PList cs \<and> cs \<noteq> [])) children"
  using assms
proof (induction plan used index comps arbitrary: children rule: component_children.induct)
  case (2 plan used index items rest)
  let ?key = "fresh_key used (base_key (item_ident (hd items)) index)"
  obtain child others where c: "component_child plan ?key items = Inr child"
    "component_children plan (?key # used) (Suc index) rest = Inr others" "children = child # others"
    using "2.prems" by (auto simp: Let_def rbind_def split: sum.splits)
  have "safe_key ?key" by (intro fresh_key_safe base_key_safe)
  then show ?case
    using "2.IH" [OF refl c(1,2)] c(3) component_child_gets [OF c(1)] by simp
qed auto

text \<open>What the partition yields: the children are the components, under distinct safe keys.\<close>

definition partition_ok :: "pydict list list \<Rightarrow> pydict list \<Rightarrow> bool" where
  "partition_ok comps children \<longleftrightarrow>
     map plan_items_of children = map Some comps \<and>
     (\<exists>keys. map (\<lambda>c. py_get c ''child_key'') children = map PStr keys \<and> distinct keys \<and> list_all safe_key keys) \<and>
     list_all (\<lambda>c. py_get c ''edges'' = PList [] \<and> (\<exists>cs. py_get c ''acceptance_criteria'' = PList cs \<and> cs \<noteq> [])) children"

lemma component_children_ok:
  assumes "component_children plan [] 1 comps = Inr children"
  shows "partition_ok comps children"
proof -
  obtain keys where keys: "map plan_items_of children = map Some comps"
    "map (\<lambda>c. py_get c ''child_key'') children = map PStr keys" "distinct keys"
    using component_children_result [OF assms] by auto
  note safe = component_children_safe [OF assms]
  have "safe_key k" if "k \<in> set keys" for k
  proof -
    have "PStr k \<in> set (map (\<lambda>c. py_get c ''child_key'') children)" using that keys(2) by simp
    then obtain c where "c \<in> set children" "py_get c ''child_key'' = PStr k" by auto
    then show ?thesis using safe by (auto simp: list_all_iff)
  qed
  then show ?thesis using keys safe by (auto simp: partition_ok_def list_all_iff)
qed

lemma partition_cases:
  assumes "partition_plan_graph approach = Some (Inr split)"
  obtains items comps where "plan_ok items" "plan_graph approach = Inr items" "weak_components items = Some (Inr comps)"
    "length comps = 1 \<Longrightarrow> ps_mode split = ''right_sized'' \<and> ps_children split = []"
    "length comps \<noteq> 1 \<Longrightarrow> ps_mode split = ''split_into_children'' \<and> partition_ok comps (ps_children split)"
proof -
  obtain items where items: "plan_graph approach = Inr items"
    using assms by (auto simp: partition_plan_graph_def split: sum.splits)
  note ok = plan_graph_ok [OF items]
  obtain comps where comps: "weak_components items = Some (Inr comps)" using weak_components_result [OF ok] by blast
  show thesis
    using assms items comps component_children_ok
    by (intro that [OF ok items comps]) (auto simp: partition_plan_graph_def rbind_def Let_def split: sum.splits if_splits)
qed

definition criteria_listed :: "pydict \<Rightarrow> bool" where
  "criteria_listed item \<longleftrightarrow> (\<exists>vs. iter_value (py_get_default item ''acceptance_criteria'' (PList [])) = Inr vs)"

lemma component_criteria_result: "list_all criteria_listed items \<Longrightarrow> \<exists>vs. component_criteria items = Inr vs"
  by (induction items) (auto simp: criteria_listed_def)

lemma component_children_defined:
  assumes "list_all (list_all criteria_listed) comps"
  shows "\<exists>children. component_children plan used index comps = Inr children"
  using assms
proof (induction plan used index comps rule: component_children.induct)
  case (2 plan used index items rest)
  let ?key = "fresh_key used (base_key (item_ident (hd items)) index)"
  obtain vs where "component_criteria items = Inr vs" using component_criteria_result [of items] "2.prems" by auto
  then obtain child where child: "component_child plan ?key items = Inr child" by (simp add: component_child_def Let_def)
  then obtain others where "component_children plan (?key # used) (Suc index) rest = Inr others"
    using "2.IH" [OF refl child] "2.prems" by auto
  then show ?case using child by (simp add: Let_def)
qed simp

lemma partition_result:
  assumes "plan_graph approach = Inr items" "list_all criteria_listed items"
  shows "\<exists>comps split. weak_components items = Some (Inr comps) \<and> partition_plan_graph approach = Some (Inr split) \<and>
    (if length comps = 1 then ps_children split = []
     else partition_ok comps (ps_children split))"
proof -
  obtain comps where comps: "weak_components items = Some (Inr comps)" "set (concat comps) = set items"
    using weak_components_result [OF plan_graph_ok [OF assms(1)]] by blast
  have "list_all (list_all criteria_listed) comps"
    using assms(2) comps(2) by (auto simp: list_all_iff)
  then obtain children where "component_children (case find_first_mapping approach ''patch_plan'' of None \<Rightarrow> [] | Some p \<Rightarrow> p) [] 1 comps = Inr children"
    using component_children_defined by blast
  then show ?thesis
    using assms(1) comps(1) component_children_ok
    by (auto simp: partition_plan_graph_def Let_def)
qed

text \<open>
  The partition of an accepted plan whose acceptance criteria are lists returns a split: one
  weak component keeps the plan in one leaf; otherwise child \<open>n\<close> holds exactly the items of
  component \<open>n\<close>, the child keys are distinct and consist of lower-case letters, digits and
  underscores, and every child has an acceptance criterion and no edge.
\<close>

theorem partition_plan_graph_correct:
  assumes "plan_graph approach = Inr items" "list_all criteria_listed items"
  shows "\<exists>comps split. weak_components items = Some (Inr comps) \<and> partition_plan_graph approach = Some (Inr split) \<and>
    (if length comps = 1 then ps_children split = []
     else partition_ok comps (ps_children split))"
  using partition_result [OF assms] .

section \<open>Placing the children of a partition\<close>

lemma owner_items:
  "foldl (\<lambda>owner item. if item_ident item \<noteq> [] then owner(item_ident item \<mapsto> k) else owner) owner items d =
    (if d \<noteq> [] \<and> d \<in> item_ident ` set items then Some k else owner d)"
  by (induction items arbitrary: owner) auto

lemma item_owners_snoc:
  "plan_items_of child = Some items \<Longrightarrow>
   item_owners (children @ [child]) d =
     (if d \<noteq> [] \<and> d \<in> item_ident ` set items then Some (str_or_empty (py_get child ''child_key'')) else item_owners children d)"
  by (simp add: item_owners_def owner_items)

lemma disjoint_lists_snoc: "disjoint_lists (xss @ [xs]) \<longleftrightarrow> disjoint_lists xss \<and> set (concat xss) \<inter> set xs = {}"
  by (induction xss) auto

text \<open>An item's owner is the child that holds it.\<close>

lemma item_owners_child:
  assumes "map plan_items_of children = map Some comps" "disjoint_lists (map (map item_ident) comps)"
    and "j < length comps" "d \<in> item_ident ` set (comps ! j)" "d \<noteq> []"
  shows "item_owners children d = Some (str_or_empty (py_get (children ! j) ''child_key''))"
  using assms
proof (induction children arbitrary: comps rule: rev_induct)
  case (snoc child children)
  obtain comps' items where comps: "comps = comps' @ [items]" "map plan_items_of children = map Some comps'" "plan_items_of child = Some items"
    using snoc.prems(1) by (cases comps rule: rev_cases) auto
  have len: "length children = length comps'" using comps(2) map_eq_imp_length_eq by blast
  have disj: "disjoint_lists (map (map item_ident) comps')" "\<And>c. c \<in> set comps' \<Longrightarrow> item_ident ` set c \<inter> item_ident ` set items = {}"
    using snoc.prems(2) unfolding comps(1) by (auto simp: disjoint_lists_snoc)
  show ?case
  proof (cases "j < length comps'")
    case True
    then have "d \<in> item_ident ` set (comps' ! j)" using snoc.prems(4) by (simp add: comps(1) nth_append)
    moreover have "d \<notin> item_ident ` set items" using disj(2) [of "comps' ! j"] True calculation by auto
    ultimately show ?thesis
      using snoc.IH [OF comps(2) disj(1) True] snoc.prems(5) item_owners_snoc [OF comps(3)] True len
      by (simp add: nth_append)
  next
    case False
    then have "j = length comps'" using snoc.prems(3) comps(1) by simp
    then show ?thesis
      using snoc.prems(4,5) item_owners_snoc [OF comps(3)] comps(1) len by (simp add: nth_append)
  qed
qed simp

lemma item_edges_none:
  assumes "list_all (valid_references known) items"
    and "\<And>i d. i \<in> set items \<Longrightarrow> d \<in> set (item_deps i) \<Longrightarrow> owner d = Some key"
  shows "item_edges owner key items = Inr []"
  using assms
proof (induction items)
  case (Cons item items)
  have "py_get_default item ''depends_on'' (PList []) = PList (map PStr (item_deps item))"
    using valid_references_deps [of known item] Cons.prems(1) by (simp add: py_get_default_get)
  moreover have "concat (map (\<lambda>d. case owner (py_str d) of None \<Rightarrow> [] | Some own \<Rightarrow>
      if own \<noteq> [] \<and> own \<noteq> key then [cross_edge own (item_ident item) d] else []) (map PStr (item_deps item))) = []"
    using Cons.prems(2) [of item] by auto
  moreover have "item_edges owner key items = Inr []"
    using Cons.prems by (intro Cons.IH) auto
  ultimately show ?case by (simp only: item_edges.simps iter_value_def pyval.case rbind_simps) simp
qed simp

definition leaf_scope :: "string set \<Rightarrow> pydict \<Rightarrow> string list" where
  "leaf_scope S child = filter (\<lambda>i. i \<in> S) (filter (\<lambda>i. i \<noteq> []) (map item_ident (the (plan_items_of child))))"

definition leaf_child :: "string set \<Rightarrow> pydict \<Rightarrow> pydict" where
  "leaf_child S child =
     py_set (py_set (py_set child ''child_key'' (py_get child ''child_key''))
       ''scope_item_ids'' (PList (map PStr (leaf_scope S child))))
       ''edges'' (PList [PDict (edge_dict (part_of_edge ''root''))])"

lemma prepare_leaf:
  assumes key: "py_get child ''child_key'' = PStr key" "safe_key key" and edges: "py_get child ''edges'' = PList []"
    and items: "plan_items_of child = Some items" "item_edges owner key items = Inr []"
  shows "prepare_child owner S child = Inr (leaf_child S child)"
proof -
  have "child_key_of child = Inr key"
    using key safe_key_strip by (auto simp: child_key_of_def has_key_iff py_get_def split: option.splits)
  moreover have "iter_value (py_get_default child ''edges'' (PList [])) = Inr []"
    by (simp add: py_get_default_get edges iter_value_def)
  moreover have "stamp_parent_provenance_edge ''root'' (normalize_edges (PList [])) = [part_of_edge ''root'']"
    by (simp add: stamp_parent_provenance_edge_def normalize_edges_def)
  ultimately show ?thesis
    by (simp add: prepare_child_def items leaf_child_def leaf_scope_def key(1))
qed

lemma rmap_result: "(\<And>x. x \<in> set xs \<Longrightarrow> f x = Inr (g x)) \<Longrightarrow> rmap f xs = Inr (map g xs)"
  by (induction xs) simp_all

lemma rmap_list_all2:
  "(\<And>x. x \<in> set xs \<Longrightarrow> \<exists>y. f x = Inr y \<and> P x y) \<Longrightarrow> \<exists>ys. rmap f xs = Inr ys \<and> list_all2 P xs ys"
proof (induction xs)
  case (Cons x xs)
  obtain y where "f x = Inr y" "P x y" using Cons.prems [of x] by auto
  moreover obtain ys where "rmap f xs = Inr ys" "list_all2 P xs ys" using Cons by auto
  ultimately show ?case by auto
qed simp

lemma leaf_child_gets:
  "py_get (leaf_child S c) ''child_key'' = py_get c ''child_key''"
  "py_get (leaf_child S c) ''scope_item_ids'' = PList (map PStr (leaf_scope S c))"
  "py_get (leaf_child S c) ''edges'' = PList [PDict (edge_dict (part_of_edge ''root''))]"
  "py_get (leaf_child S c) ''patch_plan'' = py_get c ''patch_plan''"
  "py_get (leaf_child S c) ''acceptance_criteria'' = py_get c ''acceptance_criteria''"
  by (simp_all add: leaf_child_def py_get_py_set)

lemma leaf_dependencies: "dependency_edges (map PDict (map (leaf_child S) cs)) = []"
proof -
  have "py_get (edge_dict (part_of_edge ''root'')) ''type'' = PStr ''part_of''"
    by (simp add: edge_dict_def part_of_edge_def py_get_def)
  then have "depends_edges (leaf_child S c) = []" for c
    by (simp add: depends_edges_def py_get_default_get leaf_child_gets)
  then show ?thesis by (auto simp: dependency_edges_def mappings_def)
qed

lemma kahn_without_edges: "kahn_run upd (remdups keys) [] a = Some t \<Longrightarrow> k_acc t = a"
proof -
  let ?I = "\<lambda>s. k_acc s = a"
  have step: "?I (kahn_step upd (outgoing_lists []) s)" if "kahn_inv (remdups keys) [] s" "?I s" "k_ready s \<noteq> []" for s
    using kahn_step_inv [OF that(1,3), of upd] that(2) by (simp add: outgoing_lists_eq)
  show "kahn_run upd (remdups keys) [] a = Some t \<Longrightarrow> k_acc t = a"
    using kahn_run_result [of "remdups keys" "[]" ?I a upd] step by (auto simp: kahn_start_def Let_def)
qed

lemma leaf_depths:
  assumes "map (\<lambda>c. py_get c ''child_key'') cs = map PStr keys"
  shows "child_depths (map PDict (map (leaf_child S) cs)) = Some (\<lambda>_. 0)"
proof -
  have keys: "string_keys (map PDict (map (leaf_child S) cs)) = Some keys"
    using assms by (induction cs arbitrary: keys) (auto simp: leaf_child_gets)
  let ?upd = "\<lambda>key d depths. depths(d := max (depths d) (depths key + 1 :: nat))"
  obtain t where t: "kahn_run ?upd (remdups keys) [] (\<lambda>_. 0 :: nat) = Some t"
    using kahn_run_result [of "remdups keys" "[]" "\<lambda>_. True" "\<lambda>_. 0" ?upd] by auto
  have "guarded_pairs keys [] = []" by (simp add: guarded_pairs_def)
  then show ?thesis
    using t kahn_without_edges [OF t] keys leaf_dependencies [of S cs] by (simp add: child_depths_def Let_def)
qed

lemma py_get_set_fields: "py_get (set_fields c kvs) k = (case map_of (rev kvs) k of None \<Rightarrow> py_get c k | Some v \<Rightarrow> PStr v)"
  unfolding set_fields_def by (induction kvs arbitrary: c rule: rev_induct) (auto simp: py_get_py_set)

definition placed_leaf :: "string set \<Rightarrow> pydict \<Rightarrow> pydict \<Rightarrow> bool" where
  "placed_leaf S c p \<longleftrightarrow>
     py_get p ''child_key'' = py_get c ''child_key'' \<and> plan_items_of p = plan_items_of c \<and>
     py_get p ''edges'' = PList [PDict (edge_dict (part_of_edge ''root''))] \<and>
     py_get p ''lifecycle_status'' = PStr ''ready_for_patch_authoring'' \<and>
     py_get p ''scope_item_ids'' = PList (map PStr (leaf_scope S c))"

lemma place_leaf:
  assumes key: "py_get c ''child_key'' = PStr key" "safe_key key" and crit: "py_get c ''acceptance_criteria'' = PList cs"
  shows "\<exists>p. place_child root_id branch horizon (\<lambda>_. 0) (leaf_child S c) = Inr p \<and> placed_leaf S c p"
proof -
  have k: "child_key_of (leaf_child S c) = Inr key"
    using key safe_key_strip leaf_child_gets(1) [of S c]
    by (auto simp: child_key_of_def has_key_iff py_get_def split: option.splits)
  let ?p = "set_fields (leaf_child S c) (placed_fields root_id branch key ''ready_for_patch_authoring'')"
  have old: "py_get ?p ''edges'' = py_get (leaf_child S c) ''edges''" "py_get ?p ''scope_item_ids'' = py_get (leaf_child S c) ''scope_item_ids''"
    "py_get ?p ''patch_plan'' = py_get (leaf_child S c) ''patch_plan''"
    "py_get ?p ''acceptance_criteria'' = py_get (leaf_child S c) ''acceptance_criteria''"
    and new: "py_get ?p ''child_key'' = PStr key" "py_get ?p ''lifecycle_status'' = PStr ''ready_for_patch_authoring''"
    by (simp_all add: py_get_set_fields placed_fields_def Let_def)
  have crit': "py_get ?p ''acceptance_criteria'' = PList cs" using old(4) crit leaf_child_gets(5) by simp
  then have "has_key ?p ''acceptance_criteria''" by (auto simp: has_key_iff py_get_def split: option.splits)
  moreover have "(0 :: int) < max 1 horizon" by simp
  ultimately have "place_child root_id branch horizon (\<lambda>_. 0) (leaf_child S c) = Inr (py_set ?p ''acceptance_criteria'' (PList cs))"
    using crit' by (simp add: place_child_def k Let_def iter_value_def)
  moreover have "placed_leaf S c (py_set ?p ''acceptance_criteria'' (PList cs))"
    using old new key(1) leaf_child_gets [of S c] by (simp add: placed_leaf_def py_get_py_set plan_items_of_def)
  ultimately show ?thesis by blast
qed

lemma disjoint_lists_subset:
  assumes "list_all2 (\<lambda>xs ys. set xs \<subseteq> set ys) xss yss" "disjoint_lists yss"
  shows "disjoint_lists xss"
  using assms
proof (induction rule: list_all2_induct)
  case (Cons xs xss ys yss)
  have "set (concat xss) \<subseteq> set (concat yss)"
    using Cons(2) by (induction rule: list_all2_induct) auto
  then show ?case using Cons by auto
qed simp

lemma scope_ids_of_placed: "placed_leaf S c p \<Longrightarrow> scope_ids_of p = leaf_scope S c"
  by (simp add: placed_leaf_def scope_ids_of_def comp_def)

lemma normalize_partition:
  assumes ok: "partition_ok comps (ps_children split)" and plan: "plan_ok items"
    and comps: "disjoint_lists comps" "set (concat comps) = set items" "list_all (plan_component items) comps"
    and S: "S = set (map item_ident scope_items)"
  shows "\<exists>children. normalize_split root_id branch split scope_items horizon =
      Inr \<lparr>pl_mode = ps_mode split, pl_rationale = ps_rationale split,
           pl_retained = sorted_list_of_set (S - set (concat (map scope_ids_of children))), pl_children = children\<rparr> \<and>
    list_all2 (placed_leaf S) (ps_children split) children"
proof -
  let ?cs = "ps_children split"
  obtain keys where keys: "map (\<lambda>c. py_get c ''child_key'') ?cs = map PStr keys" "list_all safe_key keys"
    and plans: "map plan_items_of ?cs = map Some comps"
    and fields: "list_all (\<lambda>c. py_get c ''edges'' = PList [] \<and> (\<exists>cs. py_get c ''acceptance_criteria'' = PList cs \<and> cs \<noteq> [])) ?cs"
    using ok by (auto simp: partition_ok_def)
  have len: "length ?cs = length comps" "length ?cs = length keys" using plans keys(1) map_eq_imp_length_eq by blast+
  have key: "py_get (?cs ! j) ''child_key'' = PStr (keys ! j)" "safe_key (keys ! j)" "plan_items_of (?cs ! j) = Some (comps ! j)"
    if j: "j < length ?cs" for j
  proof -
    have "map (\<lambda>c. py_get c ''child_key'') ?cs ! j = map PStr keys ! j" "map plan_items_of ?cs ! j = map Some comps ! j"
      by (simp_all only: keys(1) plans)
    then show "py_get (?cs ! j) ''child_key'' = PStr (keys ! j)" "plan_items_of (?cs ! j) = Some (comps ! j)"
      using j len by simp_all
    show "safe_key (keys ! j)" using keys(2) j len by (simp add: list_all_length)
  qed
  have inj: "inj_on item_ident (set items)" using plan by (simp add: plan_ok_def distinct_map)
  have disj: "disjoint_lists (map (map item_ident) comps)"
    using disjoint_lists_map [OF comps(1)] inj comps(2) by simp
  have prepared: "prepare_child (item_owners ?cs) S c = Inr (leaf_child S c)" if c: "c \<in> set ?cs" for c
  proof -
    obtain j where j: "j < length ?cs" "c = ?cs ! j" using c by (auto simp: in_set_conv_nth)
    have comp: "comps ! j \<in> set comps" using j len by simp
    have "item_edges (item_owners ?cs) (keys ! j) (comps ! j) = Inr []"
    proof (rule item_edges_none)
      show refs: "list_all (valid_references (map item_ident items)) (comps ! j)"
        using plan comps(2) comp by (auto simp: plan_ok_def list_all_iff)
      show "item_owners ?cs d = Some (keys ! j)" if i: "i \<in> set (comps ! j)" "d \<in> set (item_deps i)" for i d
      proof -
        have ii: "i \<in> set items" using comps(2) comp i(1) by auto
        then have "valid_references (map item_ident items) i" using plan by (simp add: plan_ok_def list_all_iff)
        then obtain i' where i': "i' \<in> set items" "d = item_ident i'" using valid_references_deps(2) i(2) by fastforce
        have "plan_component items (comps ! j)" using comps(3) comp by (simp add: list_all_iff)
        then obtain a where a: "comps ! j = filter (connected_items items a) items" by (auto simp: plan_component_def)
        have "(item_ident i, d) \<in> dep_links items" using ii i(2) by (auto simp: dep_links_def)
        then have "connected_items items a i'"
          using i(1) unfolding a i'(2) by (auto simp: connected_items_def intro: rtrancl_into_rtrancl)
        then have "d \<in> item_ident ` set (comps ! j)" unfolding a using i' by auto
        moreover have "d \<noteq> []" using plan i' by (force simp: plan_ok_def)
        ultimately show ?thesis
          using item_owners_child [OF plans disj, of j d] j len key(1) [of j] by simp
      qed
    qed
    then show ?thesis
      using prepare_leaf [OF key(1,2) _ key(3)] fields j by (auto simp: list_all_length)
  qed
  have prep: "rmap (prepare_child (item_owners ?cs) S) ?cs = Inr (map (leaf_child S) ?cs)"
    using prepared by (rule rmap_result)
  have placed: "\<exists>p. (place_child root_id branch horizon (\<lambda>_. 0) \<circ> leaf_child S) c = Inr p \<and> placed_leaf S c p" if c: "c \<in> set ?cs" for c
  proof -
    obtain j where j: "j < length ?cs" "c = ?cs ! j" using c by (auto simp: in_set_conv_nth)
    then show ?thesis using place_leaf [OF key(1,2) [OF j(1)]] fields by (auto simp: list_all_length)
  qed
  from rmap_list_all2 [of ?cs "place_child root_id branch horizon (\<lambda>_. 0) \<circ> leaf_child S" "placed_leaf S", OF placed] obtain children where
    res: "rmap (place_child root_id branch horizon (\<lambda>_. 0) \<circ> leaf_child S) ?cs = Inr children" and all: "list_all2 (placed_leaf S) ?cs children"
    by blast
  have comp: "rmap (f \<circ> g) xs = rmap f (map g xs)" for f :: "pydict \<Rightarrow> py_exc + pydict" and g and xs :: "pydict list"
    by (induction xs) simp_all
  show ?thesis
    unfolding normalize_split_def Let_def S [symmetric] prep rbind_simps leaf_depths [OF keys(1)] option.case res [unfolded comp]
    using all by blast
qed

lemma normalize_empty:
  assumes "ps_children split = []"
  shows "normalize_split root_id branch split scope_items horizon =
    Inr \<lparr>pl_mode = ps_mode split, pl_rationale = ps_rationale split,
         pl_retained = sorted_list_of_set (set (map item_ident scope_items)), pl_children = []\<rparr>"
proof -
  have "child_depths [] = Some (\<lambda>_. 0)" using leaf_depths [of "[]" "[]"] by simp
  then show ?thesis by (simp add: normalize_split_def assms)
qed

text \<open>
  C22: the children of a partition are placed without a raised exception. Every placed child keeps
  its key and its items, has the provenance edge to the root as its only edge, so that no
  dependency joins two children, and is ready for patch authoring whatever the horizon is. Every
  scope item goes to at most one child, and the parent retains exactly the remaining ones.
\<close>

theorem partition_placed_independent:
  assumes "partition_plan_graph approach = Some (Inr split)"
  shows "\<exists>placed. normalize_split root_id branch split scope_items horizon = Inr placed \<and>
    list_all2 (placed_leaf (set (map item_ident scope_items))) (ps_children split) (pl_children placed) \<and>
    disjoint_lists (pl_retained placed # map scope_ids_of (pl_children placed)) \<and>
    set (concat (pl_retained placed # map scope_ids_of (pl_children placed))) = set (map item_ident scope_items)"
proof -
  let ?S = "set (map item_ident scope_items)"
  obtain items comps where plan: "plan_ok items" "weak_components items = Some (Inr comps)"
    and one: "length comps = 1 \<Longrightarrow> ps_children split = []"
    and more: "length comps \<noteq> 1 \<Longrightarrow> partition_ok comps (ps_children split)"
    using partition_cases [OF assms] by metis
  have comps: "disjoint_lists comps" "set (concat comps) = set items" "list_all (plan_component items) comps"
    using weak_components_result [OF plan(1)] plan(2) by auto
  show ?thesis
  proof (cases "length comps = 1")
    case True
    then show ?thesis using one normalize_empty [of split root_id branch scope_items horizon] by simp
  next
    case False
    obtain children where res: "normalize_split root_id branch split scope_items horizon =
        Inr \<lparr>pl_mode = ps_mode split, pl_rationale = ps_rationale split,
           pl_retained = sorted_list_of_set (?S - set (concat (map scope_ids_of children))), pl_children = children\<rparr>"
      and all: "list_all2 (placed_leaf ?S) (ps_children split) children"
      using normalize_partition [OF more [OF False] plan(1) comps refl] by blast
    have scopes: "map scope_ids_of children = map (leaf_scope ?S) (ps_children split)"
      using all by (induction rule: list_all2_induct) (auto simp: scope_ids_of_placed)
    have inj: "inj_on item_ident (set items)" using plan(1) by (simp add: plan_ok_def distinct_map)
    let ?F = "\<lambda>c. filter (\<lambda>i. i \<in> ?S) (filter (\<lambda>i. i \<noteq> []) (map item_ident c))"
    have "map (\<lambda>x. ?F (the x)) (map plan_items_of (ps_children split)) = map (\<lambda>x. ?F (the x)) (map Some comps)"
      using more [OF False] by (simp only: partition_ok_def)
    then have "map (leaf_scope ?S) (ps_children split) = map ?F comps"
      by (simp add: comp_def leaf_scope_def [abs_def])
    then have "list_all2 (\<lambda>xs ys. set xs \<subseteq> set ys) (map scope_ids_of children) (map (map item_ident) comps)"
      unfolding scopes by (auto simp: list_all2_conv_all_nth)
    then have "disjoint_lists (map scope_ids_of children)"
      using disjoint_lists_subset disjoint_lists_map [OF comps(1)] inj comps(2) by metis
    moreover have "set (concat (map scope_ids_of children)) \<subseteq> ?S"
      unfolding scopes by (auto simp: leaf_scope_def)
    ultimately show ?thesis using res all by (auto simp: Diff_partition)
  qed
qed

section \<open>A plan with two components\<close>

definition example_item :: "string \<Rightarrow> string list \<Rightarrow> pyval" where
  "example_item i ds = PDict [(''id'', PStr i), (''objective'', PStr (''do '' @ i)),
     (''acceptance_criteria'', PList [PStr ''works'']), (''depends_on'', PList (map PStr ds))]"

definition example_approach :: pyval where
  "example_approach = PDict [(''patch_plan'', PDict [(''id'', PStr ''p''),
     (''items'', PList [example_item ''A-1'' [], example_item ''B'' [], example_item ''C'' [''A-1'']])])]"

lemma example_plan:
  "plan_graph example_approach = Inr (mappings [example_item ''A-1'' [], example_item ''B'' [], example_item ''C'' [''A-1'']])"
  by code_simp

lemma example_listed:
  "list_all criteria_listed (mappings [example_item ''A-1'' [], example_item ''B'' [], example_item ''C'' [''A-1'']])"
  by (simp add: mappings_def example_item_def criteria_listed_def py_get_default_def iter_value_def)

theorem weak_components_correct_witness:
  "\<exists>items. plan_graph example_approach = Inr items \<and> (\<exists>comps. weak_components items = Some (Inr comps) \<and>
     disjoint_lists comps \<and> set (concat comps) = set items \<and> list_all (plan_component items) comps)"
  using example_plan weak_components_correct [OF example_plan] by blast

theorem partition_plan_graph_correct_witness:
  "\<exists>items. plan_graph example_approach = Inr items \<and> list_all criteria_listed items \<and>
     (\<exists>comps split. weak_components items = Some (Inr comps) \<and> partition_plan_graph example_approach = Some (Inr split) \<and>
       (if length comps = 1 then ps_children split = [] else partition_ok comps (ps_children split)))"
  using example_plan example_listed partition_plan_graph_correct [OF example_plan example_listed] by blast

theorem partition_placed_independent_witness:
  "\<exists>split placed. partition_plan_graph example_approach = Some (Inr split) \<and>
     normalize_split ''r'' ''ai-org/patch-series/s'' split [[(''id'', PStr ''B'')], [(''id'', PStr ''X'')]] 1 = Inr placed \<and>
     disjoint_lists (pl_retained placed # map scope_ids_of (pl_children placed))"
proof -
  obtain split where split: "partition_plan_graph example_approach = Some (Inr split)"
    using partition_result [OF example_plan example_listed] by blast
  show ?thesis
    using split partition_placed_independent [OF split, of "''r''" "''ai-org/patch-series/s''" "[[(''id'', PStr ''B'')], [(''id'', PStr ''X'')]]" 1]
    by blast
qed
end
