(* ===== verification/PyRegex.thy ===== *)
theory PyRegex imports PyText begin

text \<open>
  The regular expressions of \<open>re\<close> as far as the sources use them: characters, sequences,
  alternatives, greedy repetition and the anchors. \<open>ends r s i\<close> lists the positions at which a
  match of \<open>r\<close> that starts at \<open>i\<close> can end, in the order in which backtracking tries them, so
  that its first element is the match.
\<close>

datatype rex =
    Eps
  | Chr "char \<Rightarrow> bool"
  | Seq rex rex
  | Alt rex rex
  | Star rex
  | LineStart
  | LineEnd
  | TextStart
  | TextEnd
  | WordEdge

section \<open>Classes of characters\<close>

text \<open>\<open>str.isalnum\<close> or an underscore, for the code points 0 to 255.\<close>

definition is_word :: "char \<Rightarrow> bool" where
  "is_word c =
     (let n = char_code c in
      is_digit c \<or> is_lower c \<or> is_upper c \<or> n = 95 \<or> n = 170 \<or> n = 178 \<or> n = 179 \<or> n = 181 \<or> n = 185 \<or> n = 186 \<or>
      (188 \<le> n \<and> n \<le> 190) \<or> (192 \<le> n \<and> n \<noteq> 215 \<and> n \<noteq> 247))"

definition word_at :: "string \<Rightarrow> nat \<Rightarrow> bool" where
  "word_at s i \<longleftrightarrow> i < length s \<and> is_word (s ! i)"

section \<open>Matching\<close>

text \<open>The bound \<open>n\<close> on the rounds of a repetition is the number of characters left: each round advances.\<close>

fun star_ends :: "(nat \<Rightarrow> nat list) \<Rightarrow> nat \<Rightarrow> nat \<Rightarrow> nat list" where
  "star_ends f 0 i = [i]"
| "star_ends f (Suc n) i = concat (map (\<lambda>j. if i < j then star_ends f n j else []) (f i)) @ [i]"

primrec ends :: "rex \<Rightarrow> string \<Rightarrow> nat \<Rightarrow> nat list" where
  "ends Eps s i = [i]"
| "ends (Chr P) s i = (if i < length s \<and> P (s ! i) then [Suc i] else [])"
| "ends (Seq r q) s i = concat (map (ends q s) (ends r s i))"
| "ends (Alt r q) s i = ends r s i @ ends q s i"
| "ends (Star r) s i = star_ends (ends r s) (length s - i) i"
| "ends LineStart s i = (if i = 0 \<or> char_code (s ! (i - 1)) = 10 then [i] else [])"
| "ends LineEnd s i = (if i = length s \<or> char_code (s ! i) = 10 then [i] else [])"
| "ends TextStart s i = (if i = 0 then [i] else [])"
| "ends TextEnd s i = (if i = length s \<or> (Suc i = length s \<and> char_code (s ! i) = 10) then [i] else [])"
| "ends WordEdge s i = (if (0 < i \<and> word_at s (i - 1)) \<noteq> word_at s i then [i] else [])"

lemma star_ends_bounds:
  "(\<And>j k. k \<in> set (f j) \<Longrightarrow> j \<le> k \<and> (j \<le> L \<longrightarrow> k \<le> L)) \<Longrightarrow> k \<in> set (star_ends f n i) \<Longrightarrow> i \<le> k \<and> (i \<le> L \<longrightarrow> k \<le> L)"
proof (induction n arbitrary: i)
  case (Suc n)
  show ?case
  proof (cases "k = i")
    case False
    then obtain j where "j \<in> set (f i)" "i < j" "k \<in> set (star_ends f n j)"
      using Suc.prems(2) by (auto split: if_splits)
    then show ?thesis using Suc.IH [OF Suc.prems(1), of j] Suc.prems(1) [of j i] by fastforce
  qed simp
qed simp

text \<open>A match ends at or after its start, inside the text.\<close>

lemma ends_bounds: "j \<in> set (ends r s i) \<Longrightarrow> i \<le> j \<and> (i \<le> length s \<longrightarrow> j \<le> length s)"
proof (induction r arbitrary: i j)
  case (Seq r q)
  then show ?case by fastforce
next
  case (Star r)
  then show ?case using star_ends_bounds [of "ends r s" "length s" j "length s - i" i] by auto
qed (auto split: if_splits)

section \<open>Abbreviations of the pattern language\<close>

definition opt :: "rex \<Rightarrow> rex" where "opt r = Alt r Eps"
definition plus :: "rex \<Rightarrow> rex" where "plus r = Seq r (Star r)"

fun seqs :: "rex list \<Rightarrow> rex" where
  "seqs [] = Eps"
| "seqs [r] = r"
| "seqs (r # rs) = Seq r (seqs rs)"

fun alts :: "rex list \<Rightarrow> rex" where
  "alts [] = Chr (\<lambda>_. False)"
| "alts [r] = r"
| "alts (r # rs) = Alt r (alts rs)"

fun rep_n :: "nat \<Rightarrow> rex \<Rightarrow> rex" where
  "rep_n 0 r = Eps"
| "rep_n (Suc n) r = Seq r (rep_n n r)"

definition lit :: "string \<Rightarrow> rex" where "lit w = seqs (map (\<lambda>c. Chr (\<lambda>d. d = c)) w)"

text \<open>\<open>re.IGNORECASE\<close> for ASCII text, and a class under it.\<close>

definition ascii_lower :: "char \<Rightarrow> char" where
  "ascii_lower c = (if is_upper c then char_of (char_code c + 32) else c)"

definition lit_ci :: "string \<Rightarrow> rex" where
  "lit_ci w = seqs (map (\<lambda>c. Chr (\<lambda>d. ascii_lower d = ascii_lower c)) w)"

definition one_of :: "string \<Rightarrow> rex" where "one_of cs = Chr (\<lambda>d. d \<in> set cs)"

definition spaces :: rex where "spaces = Star (Chr is_space)"
definition spaces1 :: rex where "spaces1 = plus (Chr is_space)"
definition in_line :: "char \<Rightarrow> bool" where "in_line c \<longleftrightarrow> char_code c \<noteq> 10 \<and> char_code c \<noteq> 13"
definition in_line_star :: rex where "in_line_star = Star (Chr in_line)"

section \<open>Searching\<close>

definition rex_search :: "rex \<Rightarrow> string \<Rightarrow> bool" where
  "rex_search r s \<longleftrightarrow> list_ex (\<lambda>i. ends r s i \<noteq> []) [0..<Suc (length s)]"

text \<open>
  A pattern with one group between two parts: the text of the group and the end of the match, for
  the first way to match from a position.
\<close>

definition group_matches :: "rex \<Rightarrow> rex \<Rightarrow> rex \<Rightarrow> string \<Rightarrow> nat \<Rightarrow> (string \<times> nat) list" where
  "group_matches pre g post s i =
     concat (map (\<lambda>j. concat (map (\<lambda>k. map (\<lambda>e. (take (k - j) (drop j s), e)) (ends post s k)) (ends g s j))) (ends pre s i))"

fun first_group :: "(nat \<Rightarrow> (string \<times> nat) list) \<Rightarrow> nat list \<Rightarrow> (string \<times> nat) option" where
  "first_group f [] = None"
| "first_group f (i # is) = (case f i of [] \<Rightarrow> first_group f is | m # _ \<Rightarrow> Some m)"

definition group_search :: "rex \<Rightarrow> rex \<Rightarrow> rex \<Rightarrow> string \<Rightarrow> nat \<Rightarrow> (string \<times> nat) option" where
  "group_search pre g post s from = first_group (group_matches pre g post s) [from..<Suc (length s)]"

definition group_fullmatch :: "rex \<Rightarrow> rex \<Rightarrow> rex \<Rightarrow> string \<Rightarrow> string option" where
  "group_fullmatch pre g post s =
     (case filter (\<lambda>m. snd m = length s) (group_matches pre g post s 0) of [] \<Rightarrow> None | m # _ \<Rightarrow> Some (fst m))"

lemma first_group_SomeD: "first_group f is = Some m \<Longrightarrow> \<exists>i\<in>set is. m \<in> set (f i)"
  by (induction "is") (auto split: list.splits)

text \<open>\<open>finditer\<close>: the groups of the successive matches; every search goes on behind the last match.\<close>

function group_finditer :: "rex \<Rightarrow> rex \<Rightarrow> rex \<Rightarrow> string \<Rightarrow> nat \<Rightarrow> string list" where
  "group_finditer pre g post s from =
     (if length s < from then []
      else case group_search pre g post s from of
          None \<Rightarrow> []
        | Some (t, e) \<Rightarrow> t # group_finditer pre g post s (max e (Suc from)))"
  by pat_completeness auto
termination by (relation "measure (\<lambda>(pre, g, post, s, i). Suc (length s) - i)") auto

declare group_finditer.simps [simp del]

lemma group_matches_group:
  "(t, e) \<in> set (group_matches pre g post s i) \<Longrightarrow> \<exists>j k. k \<in> set (ends g s j) \<and> t = take (k - j) (drop j s)"
  by (auto simp: group_matches_def)

lemma group_search_group:
  "group_search pre g post s from = Some (t, e) \<Longrightarrow> \<exists>j k. k \<in> set (ends g s j) \<and> t = take (k - j) (drop j s)"
  unfolding group_search_def by (blast dest: first_group_SomeD group_matches_group)

lemma group_finditer_groups:
  "t \<in> set (group_finditer pre g post s from) \<Longrightarrow> \<exists>j k. k \<in> set (ends g s j) \<and> t = take (k - j) (drop j s)"
proof (induction pre g post s "from" rule: group_finditer.induct)
  case (1 pre g post s "from")
  have "\<not> length s < from" using "1.prems" by (subst (asm) group_finditer.simps) (simp split: if_splits)
  then have step: "t \<in> set (case group_search pre g post s from of None \<Rightarrow> []
      | Some (t, e) \<Rightarrow> t # group_finditer pre g post s (max e (Suc from)))"
    using "1.prems" group_finditer.simps [of pre g post s "from"] by simp
  obtain m where m: "group_search pre g post s from = Some m"
    "t \<in> set (fst m # group_finditer pre g post s (max (snd m) (Suc from)))"
    using step by (cases "group_search pre g post s from") auto
  show ?case
  proof (cases "t = fst m")
    case True
    then show ?thesis using m(1) group_search_group [of pre g post s "from" "fst m" "snd m"] by simp
  next
    case False
    then show ?thesis
      using "1.IH" [OF \<open>\<not> length s < from\<close> m(1), of "fst m" "snd m"] m(2) by simp
  qed
qed

end
