(* ===== verification/CodexReset.thy ===== *)
theory CodexReset imports PyRegex begin

text \<open>
  The module \<open>src/ai_org/codex_reset.py\<close>: the whitelist of provider interruptions, the session
  ids in the output, the resume command, the announced reset time, and the loop that retries a call
  across interruptions.

  The subprocess calls, the environment variable and the clock are arguments; log records are left
  out except for the decision to write the retry chain. Times are counted in microseconds of the
  fixed offset that \<open>astimezone\<close> chooses; the calendar bound of \<open>datetime\<close> (year 9999) is left out.
\<close>

section \<open>Patterns\<close>

definition error_prefix :: rex where
  "error_prefix = seqs [lit_ci ''ERROR'', alts [lit '':'', spaces1], spaces]"

definition reset_time :: rex where
  "reset_time = seqs [Chr is_digit, opt (Chr is_digit), lit '':'', Chr is_digit, Chr is_digit, lit '' '',
     alts [lit_ci ''A'', lit_ci ''P''], lit_ci ''M'']"

definition reset_before :: rex where "reset_before = lit_ci ''try again at ''"
definition reset_after :: rex where "reset_after = lit ''.''"

definition capacity_re :: rex where
  "capacity_re =
     seqs [LineStart, opt error_prefix, opt (seqs [lit_ci ''the'', spaces1]), lit_ci ''selected model is '',
       opt (seqs [lit_ci ''currently'', spaces1]), lit_ci ''at capacity'',
       opt (seqs [opt (one_of ''.,;:''), spaces, opt (seqs [lit_ci ''please'', spaces1]), lit_ci ''try again'',
         opt (seqs [spaces1, lit_ci ''later''])]),
       opt (one_of ''.!''),
       opt (seqs [spaces1, alts [lit_ci ''request'', lit_ci ''trace''], opt (one_of '' _-''), lit_ci ''id'', spaces,
         one_of '':='', spaces, plus (Chr in_line)]),
       spaces, LineEnd]"

definition http_code :: rex where
  "http_code = seqs [spaces, opt (one_of '':=''), spaces, alts [lit ''429'', seqs [lit ''5'', Chr is_digit, Chr is_digit]]]"

definition failed_with :: rex where
  "failed_with = opt (seqs [alts [lit_ci ''request failed with'', lit_ci ''upstream returned''], spaces1])"

definition http_status_re :: rex where
  "http_status_re =
     seqs [LineStart,
       alts [seqs [opt error_prefix, failed_with, lit_ci ''HTTP'', opt (seqs [lit ''/'', Chr is_digit, opt (seqs [lit ''.'', Chr is_digit])]),
               opt (seqs [spaces1, alts [lit_ci ''status'', lit_ci ''error'']]), http_code],
             seqs [error_prefix, failed_with, opt (seqs [lit_ci ''unexpected'', spaces1]), lit_ci ''status'',
               opt (seqs [spaces1, lit_ci ''code'']), http_code]],
       WordEdge,
       opt (alts [seqs [spaces1,
                    alts [lit_ci ''too many requests'', lit_ci ''internal server error'', lit_ci ''bad gateway'',
                      lit_ci ''service unavailable'', lit_ci ''gateway timeout'', lit_ci ''server error''],
                    opt (one_of ''.!''), opt (seqs [lit '':'', in_line_star])],
                  seqs [spaces, one_of '':;-'', spaces, in_line_star],
                  seqs [spaces1, lit ''('', alts [lit_ci ''request'', lit_ci ''trace''], opt (one_of '' _-''), lit_ci ''id'',
                    in_line_star, lit '')'']]),
       spaces, LineEnd]"

definition broken_stream :: rex where
  "broken_stream =
     alts [seqs [lit_ci ''stream'', spaces1,
             alts [seqs [lit_ci ''disconnected'', opt (seqs [spaces1, lit_ci ''before'', spaces1, lit_ci ''completion''])],
               lit_ci ''reset'', seqs [lit_ci ''closed'', spaces1, lit_ci ''unexpectedly''],
               seqs [lit_ci ''ended'', spaces1, lit_ci ''unexpectedly'']]],
           seqs [lit_ci ''connection'', spaces1,
             alts [seqs [lit_ci ''reset'', opt (seqs [spaces1, lit_ci ''by'', spaces1, lit_ci ''peer''])],
               seqs [lit_ci ''closed'', spaces1, lit_ci ''unexpectedly''], lit_ci ''aborted'', lit_ci ''dropped'']]]"

definition stream_connection_re :: rex where
  "stream_connection_re =
     seqs [LineStart,
       alts [seqs [opt error_prefix, broken_stream],
             seqs [error_prefix, lit_ci ''error sending request for url'', spaces1, lit ''('',
               plus (Chr (\<lambda>c. in_line c \<and> c \<noteq> CHR '')'')), lit ''):'', spaces, broken_stream]],
       opt (seqs [spaces, one_of '':;,.(-'', spaces, in_line_star]),
       spaces, LineEnd]"

definition transient_patterns :: "rex list" where
  "transient_patterns = [capacity_re, http_status_re, stream_connection_re]"

definition session_uuid :: rex where
  "session_uuid =
     (let h = Chr (\<lambda>c. is_digit c \<or> (97 \<le> char_code c \<and> char_code c \<le> 102) \<or> (65 \<le> char_code c \<and> char_code c \<le> 70)) in
      seqs [rep_n 8 h, lit ''-'', rep_n 4 h, lit ''-'', rep_n 4 h, lit ''-'', rep_n 4 h, lit ''-'', rep_n 12 h])"

definition header_before :: rex where "header_before = seqs [LineStart, lit_ci ''session id: '']"
definition header_after :: rex where "header_after = seqs [spaces, LineEnd]"

definition quoted :: "string \<Rightarrow> rex" where
  "quoted w = (let q = char_of (34 :: nat) in lit ([q] @ w @ [q]))"

definition event_before :: "string \<Rightarrow> string \<Rightarrow> rex" where
  "event_before kind field =
     seqs [TextStart, spaces, lit ''{'', spaces, quoted ''type'', spaces, lit '':'', spaces, quoted kind, spaces, lit '','',
       in_line_star, quoted field, spaces, lit '':'', spaces, lit [char_of (34 :: nat)]]"

definition event_after :: rex where
  "event_after = seqs [lit [char_of (34 :: nat)], in_line_star, lit ''}'', spaces, TextEnd]"

definition session_events :: "(string \<times> string) list" where
  "session_events = [(''thread.started'', ''thread_id''), (''session_configured'', ''session_id'')]"

section \<open>Classification\<close>

datatype classification = TimedReset | Transient

definition find_reset :: "string \<Rightarrow> string option" where
  "find_reset text = map_option fst (group_search reset_before reset_time reset_after text 0)"

definition classify_transient :: "string \<Rightarrow> classification option" where
  "classify_transient text =
     (if find_reset text \<noteq> None then Some TimedReset
      else if list_ex (\<lambda>p. rex_search p text) transient_patterns then Some Transient
      else None)"

fun event_session :: "string \<Rightarrow> (string \<times> string) list \<Rightarrow> string option" where
  "event_session line [] = None"
| "event_session line ((kind, field) # es) =
     (case group_fullmatch (event_before kind field) session_uuid event_after line of
        Some u \<Rightarrow> Some u
      | None \<Rightarrow> event_session line es)"

definition extract_session_ids :: "string \<Rightarrow> string list" where
  "extract_session_ids text =
     (let candidates = group_finditer header_before session_uuid header_after text 0 @
        concat (map (\<lambda>line. case event_session line session_events of None \<Rightarrow> [] | Some u \<Rightarrow> [u]) (py_splitlines text))
      in rev (remdups (rev candidates)))"

section \<open>The resume command\<close>

definition RESUME_PROMPT :: string where "RESUME_PROMPT = ''Continue where you left off.''"

definition uuid_text :: "string \<Rightarrow> bool" where
  "uuid_text s \<longleftrightarrow> length s \<in> set (ends session_uuid s 0)"

fun take_output :: "string list \<Rightarrow> string list \<Rightarrow> py_exc + (string list \<times> string list)" where
  "take_output [] prefix = Inr (prefix, [])"
| "take_output (flag # flags) prefix =
     (if flag \<notin> set prefix then take_output flags prefix
      else case dropWhile (\<lambda>x. x \<noteq> flag) prefix of
          _ # path # after \<Rightarrow> Inr (takeWhile (\<lambda>x. x \<noteq> flag) prefix @ after, [''-o'', path])
        | _ \<Rightarrow> Inl ValueError)"

definition codex_resume_command :: "string list \<Rightarrow> string \<Rightarrow> string \<Rightarrow> py_exc + string list" where
  "codex_resume_command command session_id prompt =
     (if length command < 3 \<or> command ! 0 \<noteq> ''codex'' \<or> command ! 1 \<noteq> ''exec'' then Inl ValueError
      else if \<not> uuid_text session_id then Inl ValueError
      else rbind (take_output [''-o'', ''--output-last-message''] (butlast command)) (\<lambda>(prefix, output_args).
        Inr (prefix @ [''resume'', ''--json'', session_id] @ output_args @ [prompt])))"

section \<open>Waiting\<close>

definition second :: int where "second = 1000000"
definition day :: int where "day = 86400 * second"
definition BOUNDARY_GRACE :: int where "BOUNDARY_GRACE = 10 * 60 * second"
definition SHORT_RETRY :: int where "SHORT_RETRY = 120 * second"
definition WAIT_INTERVAL :: int where "WAIT_INTERVAL = 30 * second"
definition TRANSIENT_BACKOFF_SECONDS :: int where "TRANSIENT_BACKOFF_SECONDS = 30"
definition MAX_TRANSIENT_BACKOFF_SECONDS :: int where "MAX_TRANSIENT_BACKOFF_SECONDS = 300"
definition MAX_RESET_RETRIES :: int where "MAX_RESET_RETRIES = 4"
definition DEFAULT_MAX_TRANSIENT_RETRIES :: int where "DEFAULT_MAX_TRANSIENT_RETRIES = 6"

definition configured_max_transient_retries :: "string option \<Rightarrow> int" where
  "configured_max_transient_retries raw =
     (case raw of
        None \<Rightarrow> DEFAULT_MAX_TRANSIENT_RETRIES
      | Some t \<Rightarrow> (case py_int_text t of
          None \<Rightarrow> DEFAULT_MAX_TRANSIENT_RETRIES
        | Some n \<Rightarrow> if 0 \<le> n then n else DEFAULT_MAX_TRANSIENT_RETRIES))"

text \<open>\<open>strptime(text.upper(), "%I:%M %p")\<close> on a text of the shape \<open>reset_time\<close>.\<close>

definition parse_clock :: "string \<Rightarrow> (nat \<times> nat) option" where
  "parse_clock t =
     (let h = dec_value (takeWhile (\<lambda>c. c \<noteq> CHR '':'') t); rest = drop 1 (dropWhile (\<lambda>c. c \<noteq> CHR '':'') t);
          m = dec_value (take 2 rest); pm = ascii_lower (rest ! 3) = CHR ''p''
      in if 1 \<le> h \<and> h \<le> 12 \<and> m \<le> 59 then Some (h mod 12 + (if pm then 12 else 0), m) else None)"

definition codex_not_before :: "string \<Rightarrow> int \<Rightarrow> py_exc + int" where
  "codex_not_before reset_time_text started =
     (case parse_clock reset_time_text of
        None \<Rightarrow> Inl ValueError
      | Some (h, m) \<Rightarrow>
          (let candidate = started - started mod day + int (h * 60 + m) * 60 * second in
           if candidate \<le> started then
             if started - candidate \<le> BOUNDARY_GRACE then Inr (started + SHORT_RETRY) else Inr (candidate + day)
           else Inr candidate))"

text \<open>The sleeps of \<open>wait_for_codex_reset\<close>; \<open>clock k\<close> is the \<open>k\<close>-th reading of the clock.\<close>

partial_function (option) wait_from :: "(nat \<Rightarrow> int) \<Rightarrow> int \<Rightarrow> nat \<Rightarrow> int list option" where
  "wait_from clock target k =
     (if target - clock k \<le> 0 then Some []
      else Option.bind (wait_from clock target (Suc k)) (\<lambda>sleeps. Some (min WAIT_INTERVAL (target - clock k) # sleeps)))"

text \<open>
  The code computes the backoff in floating point, exactly the integers below up to attempt 1024; from 1025
  on \<open>30.0 * 2 ** (attempt - 1)\<close> raises \<open>OverflowError\<close>, which takes a configured budget of more than a
  thousand backoffs of five minutes.
\<close>

definition transient_backoff_seconds :: "int \<Rightarrow> int" where
  "transient_backoff_seconds attempt =
     min (TRANSIENT_BACKOFF_SECONDS * 2 ^ nat (max attempt 1 - 1)) MAX_TRANSIENT_BACKOFF_SECONDS"

section \<open>The retry loop\<close>

record attempt_output =
  ao_code :: "int option"
  ao_stdout :: "string option"
  ao_stderr :: "string option"

definition stream_text :: "string option \<Rightarrow> string" where
  "stream_text v = (case v of None \<Rightarrow> [] | Some t \<Rightarrow> t)"

definition combined_output :: "attempt_output \<Rightarrow> string" where
  "combined_output out = stream_text (ao_stdout out) @ [newline] @ stream_text (ao_stderr out)"

definition return_code :: "attempt_output \<Rightarrow> int" where
  "return_code out = (case ao_code out of None \<Rightarrow> 0 | Some c \<Rightarrow> c)"

datatype wait = ResetWait int | BackoffWait int

record retry_state =
  rs_reset :: int
  rs_transient :: int
  rs_sessions :: "string list"
  rs_modes :: "string list"
  rs_resume :: "string option"
  rs_waits :: "wait list"

text \<open>The completed call with the recorded metadata, whether the retry chain is logged, and the waits before.\<close>

record retry_result =
  rr_output :: attempt_output
  rr_sessions :: "string list"
  rr_modes :: "string list"
  rr_exhausted :: bool
  rr_chain :: bool
  rr_waits :: "wait list"

definition finish :: "attempt_output \<Rightarrow> retry_state \<Rightarrow> bool \<Rightarrow> retry_result" where
  "finish out st exhausted =
     \<lparr>rr_output = out, rr_sessions = rs_sessions st, rr_modes = rs_modes st, rr_exhausted = exhausted,
      rr_chain = (1 < length (rs_modes st)), rr_waits = rs_waits st\<rparr>"

definition note_attempt :: "string option \<Rightarrow> attempt_output \<Rightarrow> retry_state \<Rightarrow> retry_state" where
  "note_attempt session out st =
     (let ids = extract_session_ids (combined_output out) in
      st\<lparr>rs_modes := rs_modes st @ [if session \<noteq> None then ''resume'' else ''restart''],
         rs_sessions := foldl (\<lambda>acc u. if u \<in> set acc then acc else acc @ [u]) (rs_sessions st) ids,
         rs_resume := (if ids = [] then rs_resume st else Some (last ids))\<rparr>)"

datatype verdict = Raised py_exc | Stop retry_result | Again retry_state

text \<open>\<open>run n session\<close> is the outcome of the \<open>n\<close>-th call, a resume when a session is given.\<close>

type_synonym runner = "nat \<Rightarrow> string option \<Rightarrow> attempt_output"

definition after_attempt :: "int \<Rightarrow> int \<Rightarrow> int \<Rightarrow> attempt_output \<Rightarrow> retry_state \<Rightarrow> verdict" where
  "after_attempt started max_reset max_transient out st =
     (let text = combined_output out in
      if return_code out = 0 then Stop (finish out st False)
      else case classify_transient text of
          Some TimedReset \<Rightarrow>
            if rs_reset st < max_reset then
              (case codex_not_before (the (find_reset text)) started of
                 Inl e \<Rightarrow> Raised e
               | Inr t \<Rightarrow> Again (st\<lparr>rs_reset := rs_reset st + 1, rs_waits := rs_waits st @ [ResetWait t]\<rparr>))
            else Stop (finish out st False)
        | Some Transient \<Rightarrow>
            if rs_transient st < max_transient then
              Again (st\<lparr>rs_transient := rs_transient st + 1,
                rs_waits := rs_waits st @ [BackoffWait (transient_backoff_seconds (rs_transient st + 1))]\<rparr>)
            else Stop (finish out st True)
        | None \<Rightarrow> Stop (finish out st False))"

definition retry_step :: "bool \<Rightarrow> runner \<Rightarrow> (nat \<Rightarrow> int) \<Rightarrow> int \<Rightarrow> int \<Rightarrow> retry_state \<Rightarrow> verdict" where
  "retry_step can_resume run started max_reset max_transient st =
     (let n = length (rs_modes st);
          session = (if can_resume then rs_resume st else None);
          out = run n session
      in after_attempt (started n) max_reset max_transient out (note_attempt session out st))"

lemma note_attempt_simps [simp]:
  "rs_reset (note_attempt s out st) = rs_reset st" "rs_transient (note_attempt s out st) = rs_transient st"
  "rs_waits (note_attempt s out st) = rs_waits st"
  "rs_modes (note_attempt s out st) = rs_modes st @ [if s \<noteq> None then ''resume'' else ''restart'']"
  by (simp_all add: note_attempt_def Let_def)

text \<open>When the loop goes on, and in which state.\<close>

lemma after_attempt_again:
  assumes "after_attempt started max_reset max_transient out st = Again st'"
  shows "(\<exists>t. st' = st\<lparr>rs_reset := rs_reset st + 1, rs_waits := rs_waits st @ [ResetWait t]\<rparr> \<and> rs_reset st < max_reset) \<or>
     (st' = st\<lparr>rs_transient := rs_transient st + 1,
        rs_waits := rs_waits st @ [BackoffWait (transient_backoff_seconds (rs_transient st + 1))]\<rparr> \<and> rs_transient st < max_transient)"
  using assms by (auto simp: after_attempt_def Let_def split: if_splits option.splits classification.splits sum.splits)

lemma retry_step_again:
  assumes "retry_step can_resume run started max_reset max_transient st = Again st'"
  shows "(rs_reset st' = rs_reset st + 1 \<and> rs_transient st' = rs_transient st \<and> rs_reset st < max_reset \<and>
       (\<exists>t. rs_waits st' = rs_waits st @ [ResetWait t])) \<or>
     (rs_reset st' = rs_reset st \<and> rs_transient st' = rs_transient st + 1 \<and> rs_transient st < max_transient \<and>
       rs_waits st' = rs_waits st @ [BackoffWait (transient_backoff_seconds (rs_transient st + 1))])"
  using assms unfolding retry_step_def Let_def by (auto dest!: after_attempt_again)

function retry_loop :: "bool \<Rightarrow> runner \<Rightarrow> (nat \<Rightarrow> int) \<Rightarrow> int \<Rightarrow> int \<Rightarrow> retry_state \<Rightarrow> py_exc + retry_result" where
  "retry_loop can_resume run started max_reset max_transient st =
     (case retry_step can_resume run started max_reset max_transient st of
        Raised e \<Rightarrow> Inl e
      | Stop r \<Rightarrow> Inr r
      | Again st' \<Rightarrow> retry_loop can_resume run started max_reset max_transient st')"
  by pat_completeness auto
termination
  by (relation "measure (\<lambda>(c, r, s, mr, mt, st). nat (mr - rs_reset st) + nat (mt - rs_transient st))")
    (auto dest!: sym [of "Again _"] retry_step_again)

declare retry_loop.simps [simp del]

definition retry_start :: retry_state where
  "retry_start = \<lparr>rs_reset = 0, rs_transient = 0, rs_sessions = [], rs_modes = [], rs_resume = None, rs_waits = []\<rparr>"

definition run_with_reset_retries :: "bool \<Rightarrow> runner \<Rightarrow> (nat \<Rightarrow> int) \<Rightarrow> int \<Rightarrow> int \<Rightarrow> py_exc + retry_result" where
  "run_with_reset_retries can_resume run started max_reset max_transient =
     retry_loop can_resume run started max_reset max_transient retry_start"

section \<open>The budget of the loop\<close>

definition resets :: "wait list \<Rightarrow> nat" where
  "resets ws = length (filter (\<lambda>w. case w of ResetWait _ \<Rightarrow> True | BackoffWait _ \<Rightarrow> False) ws)"

definition backoffs :: "wait list \<Rightarrow> int list" where
  "backoffs ws = concat (map (\<lambda>w. case w of ResetWait _ \<Rightarrow> [] | BackoffWait s \<Rightarrow> [s]) ws)"

definition backoff_schedule :: "nat \<Rightarrow> int list" where
  "backoff_schedule n = map (\<lambda>k. transient_backoff_seconds (int k + 1)) [0..<n]"

lemma waits_simps [simp]:
  "resets [] = 0" "resets (ws @ [ResetWait t]) = Suc (resets ws)" "resets (ws @ [BackoffWait s]) = resets ws"
  "backoffs [] = []" "backoffs (ws @ [ResetWait t]) = backoffs ws" "backoffs (ws @ [BackoffWait s]) = backoffs ws @ [s]"
  by (simp_all add: resets_def backoffs_def)

lemma backoff_schedule_Suc: "backoff_schedule (Suc n) = backoff_schedule n @ [transient_backoff_seconds (int n + 1)]"
  by (simp add: backoff_schedule_def)

definition budget_inv :: "int \<Rightarrow> int \<Rightarrow> retry_state \<Rightarrow> bool" where
  "budget_inv max_reset max_transient st \<longleftrightarrow>
     length (rs_modes st) = length (rs_waits st) \<and>
     rs_reset st = int (resets (rs_waits st)) \<and> rs_reset st \<le> max 0 max_reset \<and>
     rs_transient st = int (length (backoffs (rs_waits st))) \<and> rs_transient st \<le> max 0 max_transient \<and>
     backoffs (rs_waits st) = backoff_schedule (length (backoffs (rs_waits st)))"

lemma retry_step_modes:
  assumes "retry_step can_resume run started max_reset max_transient st = Again st'"
  shows "length (rs_modes st') = Suc (length (rs_modes st))"
  using assms unfolding retry_step_def Let_def by (auto dest!: after_attempt_again)

lemma budget_inv_step:
  assumes inv: "budget_inv max_reset max_transient st"
    and step: "retry_step can_resume run started max_reset max_transient st = Again st'"
  shows "budget_inv max_reset max_transient st'"
  using retry_step_again [OF step]
proof
  assume a: "rs_reset st' = rs_reset st + 1 \<and> rs_transient st' = rs_transient st \<and> rs_reset st < max_reset \<and>
       (\<exists>t. rs_waits st' = rs_waits st @ [ResetWait t])"
  then show ?thesis using inv retry_step_modes [OF step] by (auto simp: budget_inv_def)
next
  assume a: "rs_reset st' = rs_reset st \<and> rs_transient st' = rs_transient st + 1 \<and> rs_transient st < max_transient \<and>
       rs_waits st' = rs_waits st @ [BackoffWait (transient_backoff_seconds (rs_transient st + 1))]"
  moreover have "backoff_schedule (Suc (length (backoffs (rs_waits st)))) =
      backoffs (rs_waits st) @ [transient_backoff_seconds (rs_transient st + 1)]"
    using inv by (simp add: backoff_schedule_Suc budget_inv_def)
  ultimately show ?thesis using inv retry_step_modes [OF step] by (auto simp: budget_inv_def)
qed

definition budget_met :: "int \<Rightarrow> int \<Rightarrow> retry_result \<Rightarrow> bool" where
  "budget_met max_reset max_transient r \<longleftrightarrow>
     length (rr_modes r) = Suc (length (rr_waits r)) \<and>
     int (resets (rr_waits r)) \<le> max 0 max_reset \<and>
     int (length (backoffs (rr_waits r))) \<le> max 0 max_transient \<and>
     backoffs (rr_waits r) = backoff_schedule (length (backoffs (rr_waits r))) \<and>
     (if return_code (rr_output r) = 0 then \<not> rr_exhausted r
      else case classify_transient (combined_output (rr_output r)) of
        None \<Rightarrow> \<not> rr_exhausted r
      | Some TimedReset \<Rightarrow> \<not> rr_exhausted r \<and> int (resets (rr_waits r)) = max 0 max_reset
      | Some Transient \<Rightarrow> rr_exhausted r \<and> int (length (backoffs (rr_waits r))) = max 0 max_transient)"

definition stop_reason :: "int \<Rightarrow> int \<Rightarrow> retry_state \<Rightarrow> attempt_output \<Rightarrow> bool \<Rightarrow> bool" where
  "stop_reason max_reset max_transient st out b \<longleftrightarrow>
     (if return_code out = 0 then \<not> b
      else case classify_transient (combined_output out) of
        None \<Rightarrow> \<not> b
      | Some TimedReset \<Rightarrow> \<not> b \<and> max_reset \<le> rs_reset st
      | Some Transient \<Rightarrow> b \<and> max_transient \<le> rs_transient st)"

lemma after_attempt_stop:
  assumes "after_attempt started max_reset max_transient out st = Stop r"
  shows "\<exists>b. r = finish out st b \<and> stop_reason max_reset max_transient st out b"
  using assms
  by (auto simp: after_attempt_def Let_def stop_reason_def split: if_splits option.splits classification.splits sum.splits)

lemma retry_step_stop:
  assumes "retry_step can_resume run started max_reset max_transient st = Stop r"
  shows "\<exists>session out b. r = finish out (note_attempt session out st) b \<and> stop_reason max_reset max_transient st out b"
  using after_attempt_stop assms unfolding retry_step_def Let_def stop_reason_def by (metis note_attempt_simps(1,2))

lemma budget_stop:
  assumes inv: "budget_inv max_reset max_transient st"
    and stop: "retry_step can_resume run started max_reset max_transient st = Stop r"
  shows "budget_met max_reset max_transient r"
proof -
  obtain session out b where r: "r = finish out (note_attempt session out st) b" "stop_reason max_reset max_transient st out b"
    using retry_step_stop [OF stop] by blast
  have "rr_output r = out" "rr_exhausted r = b" "rr_waits r = rs_waits st" "length (rr_modes r) = Suc (length (rs_modes st))"
    by (simp_all add: r finish_def)
  then show ?thesis
    using inv r(2) by (auto simp: budget_inv_def budget_met_def stop_reason_def split: option.splits classification.splits if_splits)
qed

lemma retry_loop_invariant:
  assumes step: "\<And>st st'. I st \<Longrightarrow> retry_step can_resume run started max_reset max_transient st = Again st' \<Longrightarrow> I st'"
    and stop: "\<And>st r. I st \<Longrightarrow> retry_step can_resume run started max_reset max_transient st = Stop r \<Longrightarrow> Q r"
    and "I st" "retry_loop can_resume run started max_reset max_transient st = Inr r"
  shows "Q r"
  using assms(3,4)
proof (induction "nat (max_reset - rs_reset st) + nat (max_transient - rs_transient st)" arbitrary: st rule: less_induct)
  case less
  show ?case
  proof (cases "retry_step can_resume run started max_reset max_transient st")
    case (Raised e)
    then show ?thesis using less.prems(2) by (subst (asm) retry_loop.simps) simp
  next
    case (Stop r')
    then show ?thesis using less.prems stop by (subst (asm) retry_loop.simps) simp
  next
    case (Again st')
    then have "retry_loop can_resume run started max_reset max_transient st' = Inr r"
      using less.prems(2) by (subst (asm) retry_loop.simps) simp
    then show ?thesis
      using less.hyps [of st'] retry_step_again [OF Again] step [OF less.prems(1) Again] by fastforce
  qed
qed

lemma transient_backoff_bounds: "30 \<le> transient_backoff_seconds n \<and> transient_backoff_seconds n \<le> 300"
proof -
  have "(1 :: int) \<le> 2 ^ nat (max n 1 - 1)" by simp
  then show ?thesis
    by (simp add: transient_backoff_seconds_def TRANSIENT_BACKOFF_SECONDS_def MAX_TRANSIENT_BACKOFF_SECONDS_def)
qed

text \<open>
  C37: a retried call that returns made one attempt more than it waited, waited for at most the
  configured number of resets and of backoffs, and every backoff is the one of the schedule, between
  30 and 300 seconds. It gives up only on success, on output that is no known interruption, or when
  the budget for that interruption is spent. The result is marked exhausted exactly when it gave up on
  an unannounced interruption, whose budget of backoffs was then spent; giving up on an announced reset with
  the budget of resets spent leaves no mark.
\<close>

theorem retry_budget:
  assumes "run_with_reset_retries can_resume run started max_reset max_transient = Inr r"
  shows "budget_met max_reset max_transient r \<and> list_all (\<lambda>s. 30 \<le> s \<and> s \<le> 300) (backoffs (rr_waits r))"
proof -
  have "budget_inv max_reset max_transient retry_start"
    by (simp add: budget_inv_def retry_start_def backoff_schedule_def)
  then have met: "budget_met max_reset max_transient r"
    using assms unfolding run_with_reset_retries_def
    by (rule retry_loop_invariant [rotated 2]) (use budget_inv_step budget_stop in blast)+
  then have "backoffs (rr_waits r) = backoff_schedule (length (backoffs (rr_waits r)))" by (simp add: budget_met_def)
  moreover have "list_all (\<lambda>s. 30 \<le> s \<and> s \<le> 300) (backoff_schedule n)" for n
    using transient_backoff_bounds by (simp add: backoff_schedule_def list_all_iff)
  ultimately show ?thesis using met by metis
qed

section \<open>Restart and resume\<close>

definition attempt_ids :: "attempt_output \<Rightarrow> string list" where
  "attempt_ids out = extract_session_ids (combined_output out)"

text \<open>The session of the last attempt that printed one, and the attempts made under that rule.\<close>

definition latest_session :: "attempt_output list \<Rightarrow> string option" where
  "latest_session outs =
     foldl (\<lambda>s out. if attempt_ids out = [] then s else Some (last (attempt_ids out))) None outs"

definition session_for :: "bool \<Rightarrow> attempt_output list \<Rightarrow> string option" where
  "session_for can_resume outs = (if can_resume then latest_session outs else None)"

fun history :: "bool \<Rightarrow> runner \<Rightarrow> nat \<Rightarrow> attempt_output list" where
  "history can_resume run 0 = []"
| "history can_resume run (Suc n) =
     (let outs = history can_resume run n in outs @ [run n (session_for can_resume outs)])"

definition mode_at :: "bool \<Rightarrow> runner \<Rightarrow> nat \<Rightarrow> string" where
  "mode_at can_resume run k = (if session_for can_resume (history can_resume run k) = None then ''restart'' else ''resume'')"

definition first_occurrences :: "string list \<Rightarrow> string list" where
  "first_occurrences us = foldl (\<lambda>acc u. if u \<in> set acc then acc else acc @ [u]) [] us"

definition history_inv :: "bool \<Rightarrow> runner \<Rightarrow> retry_state \<Rightarrow> bool" where
  "history_inv can_resume run st \<longleftrightarrow>
     (let outs = history can_resume run (length (rs_modes st)) in
      rs_modes st = map (mode_at can_resume run) [0..<length (rs_modes st)] \<and>
      rs_resume st = latest_session outs \<and>
      rs_sessions st = first_occurrences (concat (map attempt_ids outs)))"

lemma history_note:
  fixes st :: retry_state and can_resume :: bool
  defines "session \<equiv> (if can_resume then rs_resume st else None)"
  assumes inv: "history_inv can_resume run st"
  shows "history_inv can_resume run (note_attempt session (run (length (rs_modes st)) session) st)"
proof -
  let ?n = "length (rs_modes st)" and ?h = "history can_resume run"
  have session: "session = session_for can_resume (?h ?n)"
    using inv by (simp add: session_def session_for_def history_inv_def Let_def)
  let ?out = "run ?n session"
  have hist: "?h (Suc ?n) = ?h ?n @ [?out]" by (simp add: Let_def session)
  have "(if session \<noteq> None then ''resume'' else ''restart'') = mode_at can_resume run ?n"
    unfolding mode_at_def session by simp
  then have "rs_modes (note_attempt session ?out st) = map (mode_at can_resume run) [0..<Suc ?n]"
    using inv by (simp add: history_inv_def Let_def)
  moreover have "rs_resume (note_attempt session ?out st) = latest_session (?h (Suc ?n))"
    using inv unfolding hist by (simp add: note_attempt_def history_inv_def Let_def latest_session_def attempt_ids_def)
  moreover have "rs_sessions (note_attempt session ?out st) = first_occurrences (concat (map attempt_ids (?h (Suc ?n))))"
    using inv unfolding hist
    by (simp add: note_attempt_def history_inv_def Let_def first_occurrences_def attempt_ids_def)
  moreover have "length (rs_modes (note_attempt session ?out st)) = Suc ?n" by simp
  ultimately show ?thesis by (simp add: history_inv_def Let_def)
qed

definition history_result :: "bool \<Rightarrow> runner \<Rightarrow> retry_result \<Rightarrow> bool" where
  "history_result can_resume run r \<longleftrightarrow>
     (let n = length (rr_modes r); outs = history can_resume run n in
      outs \<noteq> [] \<and> rr_output r = last outs \<and> rr_modes r = map (mode_at can_resume run) [0..<n] \<and>
      rr_sessions r = first_occurrences (concat (map attempt_ids outs)))"

lemma history_step:
  assumes inv: "history_inv can_resume run st"
  shows "retry_step can_resume run started max_reset max_transient st = Again st' \<Longrightarrow> history_inv can_resume run st'"
    and "retry_step can_resume run started max_reset max_transient st = Stop r \<Longrightarrow> history_result can_resume run r"
proof -
  let ?s = "if can_resume then rs_resume st else None"
  let ?out = "run (length (rs_modes st)) ?s"
  let ?st = "note_attempt ?s ?out st"
  have noted: "history_inv can_resume run ?st" by (rule history_note [OF inv])
  have upd: "history_inv can_resume run (?st\<lparr>rs_reset := a, rs_waits := w\<rparr>)"
    "history_inv can_resume run (?st\<lparr>rs_transient := a, rs_waits := w\<rparr>)" for a w
    using noted by (simp_all add: history_inv_def)
  show "history_inv can_resume run st'" if "retry_step can_resume run started max_reset max_transient st = Again st'"
    using that upd unfolding retry_step_def Let_def by (auto dest!: after_attempt_again simp del: note_attempt_simps)
  have "?s = session_for can_resume (history can_resume run (length (rs_modes st)))"
    using inv by (simp add: session_for_def history_inv_def Let_def)
  then have last: "history can_resume run (length (rs_modes ?st)) \<noteq> []" "last (history can_resume run (length (rs_modes ?st))) = ?out"
    by (simp_all add: Let_def)
  have "history_result can_resume run (finish ?out ?st b)" for b
    using noted last by (simp add: history_result_def finish_def history_inv_def Let_def del: note_attempt_simps)
  then show "history_result can_resume run r" if "retry_step can_resume run started max_reset max_transient st = Stop r"
    using that unfolding retry_step_def Let_def by (auto dest!: after_attempt_stop)
qed

text \<open>
  Attempts follow one rule: an attempt resumes the last session id printed by the attempts
  before it when resuming is possible and some attempt printed one, and starts over otherwise. The
  recorded modes are those, the result is the last attempt, and the recorded chain holds every
  printed session id once, in the order of first appearance.
\<close>

theorem retry_resumes_latest_session:
  assumes "run_with_reset_retries can_resume run started max_reset max_transient = Inr r"
  shows "history_result can_resume run r"
proof -
  have "history_inv can_resume run retry_start"
    by (simp add: history_inv_def retry_start_def latest_session_def first_occurrences_def)
  then show ?thesis
    using assms unfolding run_with_reset_retries_def
    by (rule retry_loop_invariant [rotated 2]) (use history_step in blast)+
qed

section \<open>Session ids are accepted by the resume command\<close>

fun fixed :: "rex \<Rightarrow> bool" where
  "fixed Eps = True"
| "fixed (Chr P) = True"
| "fixed (Seq r q) = (fixed r \<and> fixed q)"
| "fixed _ = False"

fun char_preds :: "rex \<Rightarrow> (char \<Rightarrow> bool) list" where
  "char_preds (Chr P) = [P]"
| "char_preds (Seq r q) = char_preds r @ char_preds q"
| "char_preds _ = []"

definition preds_at :: "(char \<Rightarrow> bool) list \<Rightarrow> string \<Rightarrow> nat \<Rightarrow> bool" where
  "preds_at ps s i \<longleftrightarrow> i + length ps \<le> length s \<and> (\<forall>n<length ps. (ps ! n) (s ! (i + n)))"

lemma preds_at_append: "preds_at (ps @ qs) s i \<longleftrightarrow> preds_at ps s i \<and> preds_at qs s (i + length ps)"
proof -
  have "(\<forall>n<length ps + length qs. ((ps @ qs) ! n) (s ! (i + n))) \<longleftrightarrow>
      (\<forall>n<length ps. (ps ! n) (s ! (i + n))) \<and> (\<forall>n<length qs. (qs ! n) (s ! (i + length ps + n)))" (is "?l \<longleftrightarrow> ?r")
  proof
    assume l: ?l
    have "(qs ! n) (s ! (i + length ps + n))" if "n < length qs" for n
      using l [rule_format, of "length ps + n"] that by (simp add: add.assoc)
    moreover have "(ps ! n) (s ! (i + n))" if "n < length ps" for n
      using l [rule_format, of n] that by (simp add: nth_append)
    ultimately show ?r by blast
  next
    assume r: ?r
    show ?l
    proof (intro allI impI)
      fix n assume n: "n < length ps + length qs"
      show "((ps @ qs) ! n) (s ! (i + n))"
      proof (cases "n < length ps")
        case True
        then show ?thesis using r by (simp add: nth_append)
      next
        case False
        then have "n - length ps < length qs" "i + length ps + (n - length ps) = i + n" using n by auto
        then show ?thesis using r False by (metis nth_append)
      qed
    qed
  qed
  then show ?thesis by (auto simp: preds_at_def)
qed

lemma fixed_ends: "fixed r \<Longrightarrow> i \<le> length s \<Longrightarrow> ends r s i = (if preds_at (char_preds r) s i then [i + length (char_preds r)] else [])"
proof (induction r arbitrary: i)
  case (Seq r q)
  have "fixed r" "fixed q" using Seq.prems(1) by simp_all
  show ?case
  proof (cases "preds_at (char_preds r) s i")
    case True
    then have len: "i + length (char_preds r) \<le> length s" by (simp add: preds_at_def)
    show ?thesis
      using True Seq.IH(1) [OF \<open>fixed r\<close> Seq.prems(2)] Seq.IH(2) [OF \<open>fixed q\<close> len]
      by (simp add: preds_at_append add.assoc)
  next
    case False
    then show ?thesis using Seq.IH(1) [OF \<open>fixed r\<close> Seq.prems(2)] by (simp add: preds_at_append)
  qed
qed (auto simp: preds_at_def)

lemma fixed_substring:
  assumes "fixed r" "i \<le> length s" "k \<in> set (ends r s i)"
  shows "length (take (k - i) (drop i s)) \<in> set (ends r (take (k - i) (drop i s)) 0)"
proof -
  let ?ps = "char_preds r" and ?t = "take (length (char_preds r)) (drop i s)"
  have k: "preds_at ?ps s i" "k = i + length ?ps" using assms by (auto simp: fixed_ends split: if_splits)
  then have "length ?t = length ?ps" "preds_at ?ps ?t 0" by (auto simp: preds_at_def)
  then show ?thesis using k assms(1) by (simp add: fixed_ends)
qed

lemma fixed_uuid: "fixed session_uuid"
  by code_simp

lemma group_start:
  assumes "(t, e) \<in> set (group_matches pre g post s i)" "i \<le> length s"
  shows "\<exists>j k. j \<le> length s \<and> k \<in> set (ends g s j) \<and> t = take (k - j) (drop j s)"
proof -
  obtain j k where "j \<in> set (ends pre s i)" "k \<in> set (ends g s j)" "t = take (k - j) (drop j s)"
    using assms(1) by (auto simp: group_matches_def)
  then show ?thesis using ends_bounds assms(2) by blast
qed

lemma group_uuid:
  assumes "j \<le> length s" "k \<in> set (ends session_uuid s j)" "t = take (k - j) (drop j s)"
  shows "uuid_text t"
  unfolding uuid_text_def assms(3) using fixed_substring [OF fixed_uuid assms(1,2)] .

lemma finditer_uuid:
  "u \<in> set (group_finditer pre session_uuid post s n) \<Longrightarrow> uuid_text u"
proof (induction "Suc (length s) - n" arbitrary: n rule: less_induct)
  case less
  have n: "\<not> length s < n" using less.prems by (subst (asm) group_finditer.simps) (simp split: if_splits)
  have step: "u \<in> set (case group_search pre session_uuid post s n of None \<Rightarrow> []
      | Some (t, e) \<Rightarrow> t # group_finditer pre session_uuid post s (max e (Suc n)))"
    using less.prems n group_finditer.simps [of pre session_uuid post s n] by simp
  then obtain t e where m: "group_search pre session_uuid post s n = Some (t, e)"
    "u = t \<or> u \<in> set (group_finditer pre session_uuid post s (max e (Suc n)))"
    by (cases "group_search pre session_uuid post s n") auto
  have "uuid_text t"
  proof -
    obtain i where "i \<le> length s" "(t, e) \<in> set (group_matches pre session_uuid post s i)"
      using first_group_SomeD [OF m(1) [unfolded group_search_def]] by (metis atLeastLessThan_iff less_Suc_eq_le set_upt)
    then show ?thesis using group_start group_uuid by blast
  qed
  then show ?case using m(2) less.hyps [of "max e (Suc n)"] n by auto
qed

lemma fullmatch_uuid: "group_fullmatch pre session_uuid post line = Some u \<Longrightarrow> uuid_text u"
proof -
  assume a: "group_fullmatch pre session_uuid post line = Some u"
  let ?ms = "filter (\<lambda>m. snd m = length line) (group_matches pre session_uuid post line 0)"
  obtain m ms where m: "?ms = m # ms" "fst m = u" using a by (cases ?ms) (simp_all add: group_fullmatch_def)
  then have "m \<in> set ?ms" by simp
  then have "m \<in> set (group_matches pre session_uuid post line 0)" by simp
  then have "(u, snd m) \<in> set (group_matches pre session_uuid post line 0)" unfolding m(2) [symmetric] by (metis prod.collapse)
  from group_start [OF this] show ?thesis using group_uuid by blast
qed

lemma event_session_uuid: "event_session line es = Some u \<Longrightarrow> uuid_text u"
proof (induction line es rule: event_session.induct)
  case (2 line kind field es)
  then show ?case
    by (cases "group_fullmatch (event_before kind field) session_uuid event_after line") (auto dest: fullmatch_uuid)
qed simp

lemma extracted_uuid: "u \<in> set (extract_session_ids text) \<Longrightarrow> uuid_text u"
  by (auto simp: extract_session_ids_def Let_def dest: finditer_uuid event_session_uuid [OF sym] split: option.splits)

lemma latest_session_uuid: "latest_session outs = Some u \<Longrightarrow> uuid_text u"
proof (induction outs rule: rev_induct)
  case (snoc out outs)
  then show ?case
    using extracted_uuid [OF last_in_set, of "combined_output out"]
    by (auto simp: latest_session_def attempt_ids_def split: if_splits)
qed (simp add: latest_session_def)

definition output_flags :: "string list" where "output_flags = [''-o'', ''--output-last-message'']"

definition exec_command :: "string list \<Rightarrow> bool" where
  "exec_command command \<longleftrightarrow> 3 \<le> length command \<and> command ! 0 = ''codex'' \<and> command ! 1 = ''exec'' \<and>
     last (butlast command) \<notin> set output_flags"

lemma take_output_result:
  assumes "last prefix \<notin> set flags" "take 2 prefix = [a, b]" "a \<notin> set flags" "b \<notin> set flags"
  shows "\<exists>p out. take_output flags prefix = Inr (p, out) \<and> take 2 p = [a, b] \<and>
    (out = [] \<and> p = prefix \<and> set flags \<inter> set prefix = {} \<or>
     (\<exists>flag path xs ys. flag \<in> set flags \<and> out = [''-o'', path] \<and> prefix = xs @ flag # path # ys \<and> p = xs @ ys))"
  using assms
proof (induction flags)
  case (Cons flag flags)
  show ?case
  proof (cases "flag \<in> set prefix")
    case False
    then show ?thesis using Cons by fastforce
  next
    case True
    define xs where "xs = takeWhile (\<lambda>x. x \<noteq> flag) prefix"
    obtain zs where zs: "dropWhile (\<lambda>x. x \<noteq> flag) prefix = flag # zs"
      using True by (metis (mono_tags, lifting) dropWhile_eq_Nil_conv hd_dropWhile list.collapse)
    have prefix: "prefix = xs @ flag # zs" using takeWhile_dropWhile_id [of "\<lambda>x. x \<noteq> flag" prefix] zs xs_def by simp
    then obtain path ys where ys: "zs = path # ys" using Cons.prems(1) by (cases zs) auto
    have "take 2 (xs @ ys) = [a, b]"
      using Cons.prems(2,3,4) unfolding prefix by (cases xs; cases "tl xs") auto
    moreover have "take_output (flag # flags) prefix = Inr (xs @ ys, [''-o'', path])"
      using True zs ys by (simp add: xs_def)
    ultimately show ?thesis using prefix ys by auto
  qed
qed simp

text \<open>
  When the loop resumes, the session it resumes is a full session id, so that the resume command
  is built without an error from every \<open>codex exec\<close> call whose output option has a path: it begins
  with \<open>codex exec\<close>, ends with the id, the path of the output option, if any, and the new
  prompt, and drops the old prompt and nothing else.
\<close>

theorem resumed_session_accepted:
  assumes "session_for can_resume (history can_resume run n) = Some u" "exec_command command"
  shows "\<exists>p out. codex_resume_command command u prompt = Inr (p @ [''resume'', ''--json'', u] @ out @ [prompt]) \<and>
    take 2 p = [''codex'', ''exec''] \<and>
    (out = [] \<and> p = butlast command \<or>
     (\<exists>flag path xs ys. flag \<in> set output_flags \<and> out = [''-o'', path] \<and>
        butlast command = xs @ flag # path # ys \<and> p = xs @ ys))"
proof -
  have "uuid_text u" using assms(1) latest_session_uuid by (auto simp: session_for_def split: if_splits)
  obtain a b xs where ab: "butlast command = a # b # xs" "command ! 0 = a" "command ! 1 = b"
  proof -
    obtain a b c ys where "command = a # b # c # ys"
      using assms(2) by (cases command; cases "tl command"; cases "tl (tl command)") (auto simp: exec_command_def)
    then show thesis using that [of a b "butlast (c # ys)"] by simp
  qed
  have "take 2 (butlast command) = [''codex'', ''exec'']"
    using ab assms(2) by (simp add: exec_command_def)
  then have "\<exists>p out. take_output output_flags (butlast command) = Inr (p, out) \<and> take 2 p = [''codex'', ''exec''] \<and>
    (out = [] \<and> p = butlast command \<and> set output_flags \<inter> set (butlast command) = {} \<or>
     (\<exists>flag path xs ys. flag \<in> set output_flags \<and> out = [''-o'', path] \<and> butlast command = xs @ flag # path # ys \<and> p = xs @ ys))"
    using assms(2) by (intro take_output_result) (simp_all add: exec_command_def output_flags_def)
  then obtain p out where "take_output output_flags (butlast command) = Inr (p, out)" "take 2 p = [''codex'', ''exec'']"
    "out = [] \<and> p = butlast command \<or> (\<exists>flag path xs ys. flag \<in> set output_flags \<and> out = [''-o'', path] \<and>
        butlast command = xs @ flag # path # ys \<and> p = xs @ ys)"
    by blast
  then show ?thesis
    using assms(2) \<open>uuid_text u\<close>
    by (intro exI [of _ p] exI [of _ out]) (simp add: codex_resume_command_def exec_command_def flip: output_flags_def)
qed

section \<open>The announced reset\<close>

lemma clock_day: "1 \<le> h \<Longrightarrow> h \<le> (12 :: nat) \<Longrightarrow> m \<le> 59 \<Longrightarrow> (h mod 12 + (if pm then 12 else 0)) * 60 + m < 1440"
  using mod_less_divisor [of 12 h] by auto

definition next_at :: "int \<Rightarrow> int \<Rightarrow> int \<Rightarrow> bool" where
  "next_at clock started t \<longleftrightarrow> t mod day = clock \<and> (\<forall>t'. started < t' \<and> t' mod day = clock \<longrightarrow> t \<le> t')"

lemma next_atI:
  assumes t: "t mod day = clock" and near: "t - day \<le> started"
  shows "next_at clock started t"
  unfolding next_at_def
proof (intro conjI allI impI)
  fix t' assume t': "started < t' \<and> t' mod day = clock"
  show "t \<le> t'"
  proof (rule ccontr)
    assume "\<not> t \<le> t'"
    moreover have "day dvd t - t'" using t t' by (intro mod_eq_dvd_iff [THEN iffD1]) simp
    ultimately have "day \<le> t - t'" by (intro zdvd_imp_le) auto
    then show False using near t' by simp
  qed
qed (rule t)

text \<open>
  A reset time with a valid clock reading resolves to an instant after the start, at most one
  day later. It is the first instant after the start at which the local clock shows the announced
  time, except when that time passed at most ten minutes before the start: then it is two minutes
  after the start.
\<close>

theorem codex_not_before_correct:
  assumes "parse_clock text = Some (h, m)"
  shows "\<exists>t. codex_not_before text started = Inr t \<and> started < t \<and> t \<le> started + day \<and>
    (let clock = int (h * 60 + m) * 60 * second; shown = started mod day in
     if clock \<le> shown \<and> shown - clock \<le> BOUNDARY_GRACE then t = started + SHORT_RETRY
     else next_at clock started t)"
proof -
  define clock where "clock = int (h * 60 + m) * 60 * second"
  have "h * 60 + m < 1440"
    using assms clock_day by (auto simp: parse_clock_def Let_def split: if_splits)
  then have clock: "0 \<le> clock" "clock < day"
    unfolding clock_def day_def second_def by simp_all
  define x d where "x = started mod day" and "d = started div day * day"
  have x: "0 \<le> x" "x < day" unfolding x_def day_def second_def by simp_all
  have started: "started = d + x" by (simp add: x_def d_def)
  have clk: "(d + clock) mod day = clock" "(d + clock + day) mod day = clock"
    using clock by (simp_all add: d_def)
  have small: "0 < SHORT_RETRY" "SHORT_RETRY \<le> day"
    by (simp_all add: SHORT_RETRY_def day_def second_def)
  have cand: "codex_not_before text started =
      (let c = d + clock in
       if c \<le> started then if started - c \<le> BOUNDARY_GRACE then Inr (started + SHORT_RETRY) else Inr (c + day) else Inr c)"
  proof -
    have "started - started mod day = d" by (simp add: d_def minus_mod_eq_div_mult)
    then show ?thesis unfolding codex_not_before_def assms option.case prod.case clock_def [symmetric] by simp
  qed
  consider (late) "x < clock" | (grace) "clock \<le> x" "x - clock \<le> BOUNDARY_GRACE"
    | (passed) "clock \<le> x" "\<not> x - clock \<le> BOUNDARY_GRACE" by linarith
  then have "\<exists>t. (if d + clock \<le> started then if started - (d + clock) \<le> BOUNDARY_GRACE then Inr (started + SHORT_RETRY)
        else Inr (d + clock + day) else Inr (d + clock)) = Inr t \<and> started < t \<and> t \<le> started + day \<and>
      (if clock \<le> x \<and> x - clock \<le> BOUNDARY_GRACE then t = started + SHORT_RETRY else next_at clock started t)"
    (is ?goal)
  proof cases
    case late
    then have "next_at clock started (d + clock)" using clk(1) started clock x by (intro next_atI) auto
    then show ?goal using late clock x started by auto
  next
    case grace
    then show ?goal using small started by auto
  next
    case passed
    then have "next_at clock started (d + clock + day)" using clk(2) started by (intro next_atI) auto
    then show ?goal using passed clock x started by auto
  qed
  then show ?thesis unfolding cand Let_def clock_def [symmetric] x_def [symmetric] .
qed

text \<open>Waiting ends when the clock advances during each sleep by at least its length.\<close>

lemma wait_from_result:
  assumes "\<And>k. clock k + min WAIT_INTERVAL (target - clock k) \<le> clock (Suc k)"
  shows "\<exists>sleeps. wait_from clock target k = Some sleeps \<and> target \<le> clock (k + length sleeps) \<and>
    int (length sleeps) * WAIT_INTERVAL \<le> max 0 (target - clock k) + WAIT_INTERVAL"
proof (induction "nat (target - clock k)" arbitrary: k rule: less_induct)
  case less
  show ?case
  proof (cases "target - clock k \<le> 0")
    case True
    then show ?thesis by (subst wait_from.simps) (simp add: WAIT_INTERVAL_def second_def)
  next
    case False
    have adv: "clock k + min WAIT_INTERVAL (target - clock k) \<le> clock (Suc k)" by (rule assms)
    have "0 < WAIT_INTERVAL" by (simp add: WAIT_INTERVAL_def second_def)
    then obtain sleeps where s: "wait_from clock target (Suc k) = Some sleeps" "target \<le> clock (Suc k + length sleeps)"
      "int (length sleeps) * WAIT_INTERVAL \<le> max 0 (target - clock (Suc k)) + WAIT_INTERVAL"
      using less [of "Suc k"] adv False by fastforce
    have "sleeps = []" if "target \<le> clock (Suc k)" using s(1) that by (subst (asm) wait_from.simps) simp
    then have "int (Suc (length sleeps)) * WAIT_INTERVAL \<le> max 0 (target - clock k) + WAIT_INTERVAL"
      using s(3) adv False \<open>0 < WAIT_INTERVAL\<close> by (cases "target \<le> clock (Suc k)") (auto simp: algebra_simps)
    then show ?thesis
      using s False by (subst wait_from.simps) simp
  qed
qed

section \<open>A resumed call\<close>

definition example_uuid :: string where "example_uuid = ''01234567-89ab-cdef-0123-456789abcdef''"

definition example_run :: runner where
  "example_run n session =
     (if n = 0 then \<lparr>ao_code = Some 1, ao_stdout = None, ao_stderr = Some ''HTTP 429''\<rparr>
      else \<lparr>ao_code = Some 0, ao_stdout = None, ao_stderr = None\<rparr>)"

definition example_result :: retry_result where
  "example_result = \<lparr>rr_output = example_run 1 None, rr_sessions = [], rr_modes = [''restart'', ''restart''],
     rr_exhausted = False, rr_chain = True, rr_waits = [BackoffWait 30]\<rparr>"

lemma example_outputs:
  "combined_output (example_run 0 s) = newline # ''HTTP 429''" "return_code (example_run 0 s) = 1"
  "combined_output (example_run 1 s) = [newline]" "return_code (example_run 1 s) = 0"
  by (simp_all add: example_run_def combined_output_def stream_text_def return_code_def)

lemma example_patterns:
  "classify_transient (newline # ''HTTP 429'') = Some Transient" "extract_session_ids (newline # ''HTTP 429'') = []"
  "extract_session_ids [newline] = []"
  by code_simp+

lemma example_returns: "run_with_reset_retries True example_run (\<lambda>_. 0) 4 6 = Inr example_result"
proof -
  define st where "st = retry_start\<lparr>rs_modes := [''restart''], rs_transient := 1, rs_waits := [BackoffWait 30]\<rparr>"
  have "retry_step True example_run (\<lambda>_. 0) 4 6 retry_start = Again st"
    by (simp add: retry_step_def after_attempt_def note_attempt_def retry_start_def st_def Let_def example_outputs example_patterns
        transient_backoff_seconds_def TRANSIENT_BACKOFF_SECONDS_def MAX_TRANSIENT_BACKOFF_SECONDS_def)
  moreover have "retry_step True example_run (\<lambda>_. 0) 4 6 st = Stop example_result"
    by (simp add: retry_step_def after_attempt_def note_attempt_def retry_start_def st_def Let_def example_outputs [simplified] example_patterns
        finish_def example_result_def)
  ultimately show ?thesis
    by (simp add: run_with_reset_retries_def retry_loop.simps)
qed

theorem retry_budget_witness:
  "run_with_reset_retries True example_run (\<lambda>_. 0) 4 6 = Inr example_result \<and> budget_met 4 6 example_result \<and>
   list_all (\<lambda>s. 30 \<le> s \<and> s \<le> 300) (backoffs (rr_waits example_result))"
  using retry_budget [OF example_returns] example_returns by blast

theorem retry_resumes_latest_session_witness:
  "run_with_reset_retries True example_run (\<lambda>_. 0) 4 6 = Inr example_result \<and> history_result True example_run example_result"
  using retry_resumes_latest_session [OF example_returns] example_returns by blast

definition session_run :: runner where
  "session_run n session = \<lparr>ao_code = Some 1, ao_stdout = Some (''session id: '' @ example_uuid), ao_stderr = None\<rparr>"

lemma example_ids: "extract_session_ids ((''session id: '' @ example_uuid) @ [newline]) = [example_uuid]"
  by code_simp

lemma example_session: "session_for True (history True session_run 1) = Some example_uuid"
  using example_ids by (simp add: session_for_def latest_session_def session_run_def attempt_ids_def combined_output_def stream_text_def)

lemma example_command: "exec_command [''codex'', ''exec'', ''-o'', ''out.txt'', ''old'']"
  by (simp add: exec_command_def output_flags_def)

theorem resumed_session_accepted_witness:
  "\<exists>p out. codex_resume_command [''codex'', ''exec'', ''-o'', ''out.txt'', ''old''] example_uuid RESUME_PROMPT =
     Inr (p @ [''resume'', ''--json'', example_uuid] @ out @ [RESUME_PROMPT]) \<and> take 2 p = [''codex'', ''exec'']"
  using resumed_session_accepted [OF example_session example_command, of RESUME_PROMPT] by blast

theorem codex_not_before_correct_witness:
  "parse_clock ''3:05 PM'' = Some (15, 5) \<and> (\<exists>t. codex_not_before ''3:05 PM'' 0 = Inr t \<and> 0 < t \<and> t \<le> day)"
proof -
  have clock: "parse_clock ''3:05 PM'' = Some (15, 5)" by code_simp
  show ?thesis using codex_not_before_correct [OF clock, of 0] clock by auto
qed

end
