(* ===== verification/RequesterAssumptions.thy ===== *)
theory RequesterAssumptions imports PlanGraph begin

text \<open>
  The module \<open>src/ai_org/patchwork_queue/requester_assumptions.py\<close>: objections that only the
  requester can settle are recorded in the patch series view as JSON texts in
  \<open>constraints_assumptions\<close> and as lines in \<open>open_questions\<close>, and are read back from there. The
  decoder \<open>json.loads\<close> is an argument; \<open>None\<close> stands for its \<open>JSONDecodeError\<close>.
\<close>

section \<open>Views and objections\<close>

definition WORK_ORDER_VIEW_FIELDS :: "string list" where
  "WORK_ORDER_VIEW_FIELDS =
     [''raw_request'', ''working_title'', ''request_type'', ''problem_or_motivation'', ''intended_users_or_jobs'',
      ''desired_outcomes_success'', ''affected_area_platform'', ''tech_stack'', ''user_experience_requirements'',
      ''background_facts'', ''constraints_assumptions'', ''references'', ''grounding_provenance'', ''open_questions'',
      ''non_goals_out_of_scope'', ''proposal_hint'', ''alternatives_considered'']"

fun view_fields :: "string list \<Rightarrow> pydict \<Rightarrow> py_exc + pydict" where
  "view_fields [] view = Inr []"
| "view_fields (f # fs) view =
     (if has_key view f then rbind (view_fields fs view) (\<lambda>rest. Inr ((f, py_get view f) # rest)) else Inl KeyError)"

definition patch_series_to_view :: "pydict \<Rightarrow> py_exc + pydict" where
  "patch_series_to_view view = view_fields WORK_ORDER_VIEW_FIELDS view"

fun open_blocking :: "pydict list \<Rightarrow> py_exc + pydict list" where
  "open_blocking [] = Inr []"
| "open_blocking (d # ds) =
     (if py_get d ''type'' = PStr ''blocking'' then
        (case py_get d ''status'' of
           PList _ \<Rightarrow> Inl TypeError
         | PDict _ \<Rightarrow> Inl TypeError
         | s \<Rightarrow> rbind (open_blocking ds) (\<lambda>rest.
             Inr (if s \<in> {PStr ''open'', PStr ''carried-forward''} then d # rest else rest)))
      else open_blocking ds)"

definition open_blocking_objections :: "pydict \<Rightarrow> py_exc + pydict list" where
  "open_blocking_objections review =
     rbind (iter_value (py_get_default review ''objections'' (PList []))) (\<lambda>xs. open_blocking (mappings xs))"

definition requester_authority_objections :: "pydict list \<Rightarrow> pydict list" where
  "requester_authority_objections objections = filter (\<lambda>d. py_get d ''resolution_authority'' = PStr ''requester'') objections"

definition field_text :: "pydict \<Rightarrow> string \<Rightarrow> string" where
  "field_text d k = py_strip (str_or_empty (py_get d k))"

section \<open>The text of an assumption\<close>

text \<open>\<open>_find_key\<close> answers \<open>None\<close> both for an absent key and for a key that holds \<open>None\<close>.\<close>

fun find_key :: "string \<Rightarrow> pyval \<Rightarrow> pyval"
  and find_in_values :: "string \<Rightarrow> (string \<times> pyval) list \<Rightarrow> pyval"
  and find_in_list :: "string \<Rightarrow> pyval list \<Rightarrow> pyval" where
  "find_key key (PDict d) = (if has_key d key then py_get d key else find_in_values key d)"
| "find_key key (PList xs) = find_in_list key xs"
| "find_key key v = PNone"
| "find_in_values key [] = PNone"
| "find_in_values key ((k, v) # d) = (let f = find_key key v in if f \<noteq> PNone then f else find_in_values key d)"
| "find_in_list key [] = PNone"
| "find_in_list key (v # xs) = (let f = find_key key v in if f \<noteq> PNone then f else find_in_list key xs)"

fun first_label :: "pydict \<Rightarrow> string list \<Rightarrow> string" where
  "first_label d [] = []"
| "first_label d (k # ks) = (case py_get d k of PStr s \<Rightarrow> (if s \<noteq> [] then s else first_label d ks) | _ \<Rightarrow> first_label d ks)"

definition approach_decision_label :: "pyval \<Rightarrow> string" where
  "approach_decision_label approach =
     (case find_key ''decision'' approach of PDict d \<Rightarrow> first_label d [''selected_candidate_id'', ''chosen'', ''id''] | _ \<Rightarrow> [])"

definition requester_assumption_question :: "pydict \<Rightarrow> string" where
  "requester_assumption_question objection =
     (let claim = field_text objection ''claim''; impact = field_text objection ''impact'' in
      if claim \<noteq> [] \<and> impact \<noteq> [] then claim @ '' Impact if wrong: '' @ impact
      else if claim \<noteq> [] then claim
      else if impact \<noteq> [] then impact
      else ''Requester decision is needed.'')"

definition action_default :: "string \<Rightarrow> string" where
  "action_default action =
     (if action = ''re_explain'' then ''continue with the current explanation''
      else if action = ''provide_evidence'' then ''continue without requiring additional author evidence''
      else if action = ''revise_subtree'' then ''continue without author-side subtree revision''
      else if action = ''split_scope'' then ''keep the current scope unsplit''
      else if action = ''withdraw'' then ''continue without withdrawal''
      else ''continue with the current authored direction'')"

definition requester_assumption_default :: "pydict \<Rightarrow> pyval \<Rightarrow> string" where
  "requester_assumption_default objection approach =
     (let claim = (if field_text objection ''claim'' \<noteq> [] then field_text objection ''claim'' else ''the requester-authority concern'');
          impact = field_text objection ''impact'';
          decision = approach_decision_label approach
      in action_default (field_text objection ''requested_author_action'') @
         (if decision \<noteq> [] then '' for selected approach '' @ decision else []) @ '': '' @ claim @
         (if endswith claim ''.'' \<or> endswith claim ''?'' \<or> endswith claim ''!'' then [] else ''.'') @
         (if impact \<noteq> [] then '' Monitor requester impact: '' @ impact else []) @ '' Requester may override this default.'')"

definition requester_assumption_rationale :: "pydict \<Rightarrow> string" where
  "requester_assumption_rationale objection =
     (let action = field_text objection ''requested_author_action'' in
      ''The objection is classified as requester-authority, so the author cannot settle it by technical revision.'' @
      (if action \<noteq> [] then '' Requested author action was '' @ action @ ''.'' else []) @
      '' Recording an explicit default preserves progress while keeping the requester question visible.'')"

record assumption =
  as_id :: string
  as_question :: string
  as_default :: string
  as_provenance :: string
  as_rationale :: string

definition assumption_dict :: "assumption \<Rightarrow> pydict" where
  "assumption_dict a =
     [(''objection_id'', PStr (as_id a)), (''question'', PStr (as_question a)), (''adopted_default'', PStr (as_default a)),
      (''default_provenance'', PStr (as_provenance a)), (''rationale'', PStr (as_rationale a))]"

definition assumption_json :: "assumption \<Rightarrow> string" where
  "assumption_json a = json_dumps (PDict (assumption_dict a))"

section \<open>Reading recorded assumptions\<close>

definition text_or_blank :: "pyval \<Rightarrow> string" where
  "text_or_blank v = (case v of PStr s \<Rightarrow> s | _ \<Rightarrow> [])"

definition parsed_assumption :: "(string \<Rightarrow> pyval option) \<Rightarrow> pyval \<Rightarrow> assumption option" where
  "parsed_assumption loads item =
     (case item of
        PStr s \<Rightarrow> (case loads s of
            Some (PDict d) \<Rightarrow> (case py_get d ''objection_id'' of
                PStr i \<Rightarrow>
                  if i = [] then None
                  else Some \<lparr>as_id = i, as_question = text_or_blank (py_get d ''question''),
                    as_default = text_or_blank (py_get d ''adopted_default''),
                    as_provenance = text_or_blank (py_get d ''default_provenance''),
                    as_rationale = text_or_blank (py_get d ''rationale'')\<rparr>
              | _ \<Rightarrow> None)
          | _ \<Rightarrow> None)
      | _ \<Rightarrow> None)"

fun assumptions_by_id :: "(string \<Rightarrow> pyval option) \<Rightarrow> pyval list \<Rightarrow> (string \<Rightarrow> assumption option) \<Rightarrow> string \<Rightarrow> assumption option" where
  "assumptions_by_id loads [] m = m"
| "assumptions_by_id loads (x # xs) m =
     assumptions_by_id loads xs (case parsed_assumption loads x of None \<Rightarrow> m | Some a \<Rightarrow> m(as_id a \<mapsto> a))"

definition requester_assumption_entries_by_objection_id ::
  "(string \<Rightarrow> pyval option) \<Rightarrow> pydict \<Rightarrow> string \<Rightarrow> assumption option" where
  "requester_assumption_entries_by_objection_id loads view =
     (case py_get view ''constraints_assumptions'' of PList xs \<Rightarrow> assumptions_by_id loads xs Map.empty | _ \<Rightarrow> Map.empty)"

definition recorded_assumption_objection_ids :: "(string \<Rightarrow> pyval option) \<Rightarrow> pydict \<Rightarrow> string set" where
  "recorded_assumption_objection_ids loads view = dom (requester_assumption_entries_by_objection_id loads view)"

definition requester_assumption_notes :: "(string \<Rightarrow> pyval option) \<Rightarrow> pydict list \<Rightarrow> pydict \<Rightarrow> assumption list" where
  "requester_assumption_notes loads objections view =
     concat (map (\<lambda>d. case requester_assumption_entries_by_objection_id loads view (str_or_empty (py_get d ''objection_id'')) of
         None \<Rightarrow> [] | Some a \<Rightarrow> [a]) objections)"

section \<open>Recording\<close>

definition append_unique_string :: "pyval list \<Rightarrow> string \<Rightarrow> pyval list" where
  "append_unique_string values addition =
     (if addition \<noteq> [] \<and> PStr addition \<notin> set values then values @ [PStr addition] else values)"

definition append_unique_strings :: "pyval \<Rightarrow> string list \<Rightarrow> pyval" where
  "append_unique_strings existing additions =
     PList (foldl append_unique_string (case existing of PList xs \<Rightarrow> xs | _ \<Rightarrow> []) additions)"

definition new_assumption :: "pyval \<Rightarrow> pydict \<Rightarrow> string \<Rightarrow> assumption" where
  "new_assumption approach objection i =
     \<lparr>as_id = i, as_question = requester_assumption_question objection,
      as_default = requester_assumption_default objection approach, as_provenance = ''deterministic'',
      as_rationale = requester_assumption_rationale objection\<rparr>"

definition store_assumption :: "pydict \<Rightarrow> assumption \<Rightarrow> pydict" where
  "store_assumption revised a =
     (let r1 = py_set revised ''constraints_assumptions''
                 (append_unique_strings (py_get revised ''constraints_assumptions'') [assumption_json a])
      in py_set r1 ''open_questions''
           (append_unique_strings (py_get r1 ''open_questions'') [as_id a @ '': '' @ as_question a]))"

fun record_objections ::
  "pyval \<Rightarrow> pydict list \<Rightarrow> pydict \<Rightarrow> (string \<Rightarrow> assumption option) \<Rightarrow> pydict \<times> assumption list \<times> bool" where
  "record_objections approach [] revised existing = (revised, [], False)"
| "record_objections approach (objection # objections) revised existing =
     (let i = field_text objection ''objection_id'' in
      if i = [] then record_objections approach objections revised existing
      else case existing i of
          Some a \<Rightarrow> (let (r, as, changed) = record_objections approach objections revised existing in (r, a # as, changed))
        | None \<Rightarrow>
            (let a = new_assumption approach objection i;
                 (r, as, changed) = record_objections approach objections (store_assumption revised a) (existing(i \<mapsto> a))
             in (r, a # as, True)))"

definition record_requester_authority_assumptions ::
  "(string \<Rightarrow> pyval option) \<Rightarrow> pydict \<Rightarrow> pyval \<Rightarrow> pydict list \<Rightarrow> py_exc + pydict \<times> assumption list \<times> bool" where
  "record_requester_authority_assumptions loads view approach objections =
     rbind (patch_series_to_view view) (\<lambda>revised.
       Inr (record_objections approach objections revised (requester_assumption_entries_by_objection_id loads revised)))"

section \<open>The store of assumptions\<close>

text \<open>The decoder inverts the encoder on a recorded entry.\<close>

definition decodes :: "(string \<Rightarrow> pyval option) \<Rightarrow> assumption \<Rightarrow> bool" where
  "decodes loads a \<longleftrightarrow> (\<exists>d. loads (assumption_json a) = Some (PDict d) \<and> map_of d = map_of (assumption_dict a))"

lemma parsed_decodes: "decodes loads a \<Longrightarrow> as_id a \<noteq> [] \<Longrightarrow> parsed_assumption loads (PStr (assumption_json a)) = Some a"
  by (auto simp: decodes_def parsed_assumption_def py_get_def assumption_dict_def text_or_blank_def)

lemma assumptions_by_id_append: "assumptions_by_id loads (xs @ ys) m = assumptions_by_id loads ys (assumptions_by_id loads xs m)"
  by (induction loads xs m rule: assumptions_by_id.induct) simp_all

lemma assumptions_by_id_dom: "dom (assumptions_by_id loads xs m) = dom m \<union> as_id ` {a. \<exists>x\<in>set xs. parsed_assumption loads x = Some a}"
  by (induction loads xs m rule: assumptions_by_id.induct) (auto split: option.splits)

lemma json_dumps_dict_nonempty: "json_dumps (PDict d) \<noteq> []"
  by simp

text \<open>Storing a new entry adds it to the entries that are read back.\<close>

lemma entries_store:
  assumes dec: "decodes loads a" "as_id a \<noteq> []"
    and new: "requester_assumption_entries_by_objection_id loads r (as_id a) = None"
  shows "requester_assumption_entries_by_objection_id loads (store_assumption r a) =
    (requester_assumption_entries_by_objection_id loads r)(as_id a \<mapsto> a)"
proof -
  let ?s = "PStr (assumption_json a)"
  define xs where "xs = (case py_get r ''constraints_assumptions'' of PList xs \<Rightarrow> xs | _ \<Rightarrow> [])"
  have entries: "requester_assumption_entries_by_objection_id loads r = assumptions_by_id loads xs Map.empty"
    by (auto simp: requester_assumption_entries_by_objection_id_def xs_def split: pyval.splits)
  have fresh: "?s \<notin> set xs"
  proof
    assume "?s \<in> set xs"
    then have "as_id a \<in> dom (assumptions_by_id loads xs Map.empty)"
      using parsed_decodes [OF dec] unfolding assumptions_by_id_dom by force
    then show False using new entries by (simp add: domIff)
  qed
  have "assumption_json a \<noteq> []" unfolding assumption_json_def by (rule json_dumps_dict_nonempty)
  then have "py_get (store_assumption r a) ''constraints_assumptions'' = PList (xs @ [?s])"
    using fresh by (simp add: store_assumption_def Let_def py_get_py_set append_unique_strings_def append_unique_string_def xs_def)
  then show ?thesis
    unfolding entries by (simp add: requester_assumption_entries_by_objection_id_def assumptions_by_id_append parsed_decodes [OF dec])
qed

lemma py_set_keys: "k \<in> fst ` set d \<Longrightarrow> map fst (py_set d k v) = map fst d"
  by (induction d k v rule: py_set.induct) auto

lemma store_keys:
  assumes "map fst r = WORK_ORDER_VIEW_FIELDS"
  shows "map fst (store_assumption r a) = WORK_ORDER_VIEW_FIELDS"
proof -
  have in1: "''constraints_assumptions'' \<in> fst ` set r" "''open_questions'' \<in> fst ` set r"
    using assms by (simp_all flip: set_map add: WORK_ORDER_VIEW_FIELDS_def)
  let ?r1 = "py_set r ''constraints_assumptions'' (append_unique_strings (py_get r ''constraints_assumptions'') [assumption_json a])"
  have "map fst ?r1 = map fst r" using in1(1) by (rule py_set_keys)
  moreover from this have "''open_questions'' \<in> fst ` set ?r1" using in1(2) by (metis list.set_map)
  ultimately show ?thesis using assms by (simp add: store_assumption_def Let_def py_set_keys)
qed

lemma view_fields_keys: "view_fields fs view = Inr r \<Longrightarrow> map fst r = fs"
  by (induction fs view arbitrary: r rule: view_fields.induct) (auto simp: rbind_Inr_iff split: if_splits)

lemma view_fields_cons: "f \<notin> set fs \<Longrightarrow> view_fields fs ((f, v) # r) = view_fields fs r"
  by (induction fs r rule: view_fields.induct) (auto simp: has_key_def py_get_def)

lemma view_fields_id: "distinct (map fst r) \<Longrightarrow> view_fields (map fst r) r = Inr r"
proof (induction r)
  case (Cons e r)
  obtain f v where e: "e = (f, v)" by (cases e)
  have "view_fields (map fst r) ((f, v) # r) = Inr r" using Cons e by (simp add: view_fields_cons)
  then show ?case by (simp add: e has_key_def py_get_def)
qed simp

lemma view_fixed: "map fst r = WORK_ORDER_VIEW_FIELDS \<Longrightarrow> patch_series_to_view r = Inr r"
proof -
  assume "map fst r = WORK_ORDER_VIEW_FIELDS"
  moreover have "distinct WORK_ORDER_VIEW_FIELDS" by code_simp
  ultimately show ?thesis using view_fields_id [of r] by (simp add: patch_series_to_view_def)
qed

section \<open>Recording is idempotent\<close>

definition authority_ids :: "pydict list \<Rightarrow> string set" where
  "authority_ids objections = {i. i \<noteq> [] \<and> i \<in> (\<lambda>d. field_text d ''objection_id'') ` set objections}"

lemma record_objections_again:
  assumes "authority_ids objections \<subseteq> dom existing"
  shows "\<exists>as. record_objections approach objections revised existing = (revised, as, False) \<and>
    as = concat (map (\<lambda>d. if field_text d ''objection_id'' = [] then [] else [the (existing (field_text d ''objection_id''))]) objections)"
  using assms
proof (induction objections)
  case (Cons d ds)
  have "authority_ids ds \<subseteq> dom existing" using Cons.prems by (auto simp: authority_ids_def)
  moreover have "field_text d ''objection_id'' \<in> dom existing" if "field_text d ''objection_id'' \<noteq> []"
    using that Cons.prems by (auto simp: authority_ids_def)
  ultimately show ?case using Cons.IH by (auto simp: Let_def)
qed simp

lemma record_objections_result:
  assumes "record_objections approach objections revised existing = (r, as, changed)"
    and "existing = requester_assumption_entries_by_objection_id loads revised"
    and "map fst revised = WORK_ORDER_VIEW_FIELDS" and "list_all (decodes loads) as"
  shows "\<exists>final. final = requester_assumption_entries_by_objection_id loads r \<and> map fst r = WORK_ORDER_VIEW_FIELDS \<and>
    (\<forall>i a. existing i = Some a \<longrightarrow> final i = Some a) \<and> dom final = dom existing \<union> authority_ids objections \<and>
    as = concat (map (\<lambda>d. if field_text d ''objection_id'' = [] then [] else [the (final (field_text d ''objection_id''))]) objections)"
  using assms
proof (induction objections arbitrary: revised existing r as changed)
  case Nil
  then show ?case by (auto simp: authority_ids_def)
next
  case (Cons d ds)
  let ?i = "field_text d ''objection_id''"
  have ids: "authority_ids (d # ds) = (if ?i = [] then authority_ids ds else insert ?i (authority_ids ds))"
    by (auto simp: authority_ids_def)
  show ?case
  proof (cases "?i = []")
    case True
    then have "record_objections approach ds revised existing = (r, as, changed)" using Cons.prems(1) by simp
    from Cons.IH [OF this Cons.prems(2-4)] show ?thesis using True ids by simp
  next
    case False
    show ?thesis
    proof (cases "existing ?i")
      case (Some a)
      then obtain as' where rec: "record_objections approach ds revised existing = (r, as', changed)" "as = a # as'"
        using Cons.prems(1) False by (auto simp: Let_def split: prod.splits)
      from Cons.IH [OF rec(1) Cons.prems(2,3)] obtain final where "final = requester_assumption_entries_by_objection_id loads r"
        "map fst r = WORK_ORDER_VIEW_FIELDS" "\<forall>i a. existing i = Some a \<longrightarrow> final i = Some a"
        "dom final = dom existing \<union> authority_ids ds"
        "as' = concat (map (\<lambda>d. if field_text d ''objection_id'' = [] then [] else [the (final (field_text d ''objection_id''))]) ds)"
        using Cons.prems(4) rec(2) by auto
      then show ?thesis using False ids rec(2) Some by (intro exI [of _ final]) auto
    next
      case None
      let ?a = "new_assumption approach d ?i"
      obtain as' c where rec: "record_objections approach ds (store_assumption revised ?a) (existing(?i \<mapsto> ?a)) = (r, as', c)" "as = ?a # as'"
        using Cons.prems(1) False None by (auto simp: Let_def split: prod.splits)
      have a: "as_id ?a = ?i" by (simp add: new_assumption_def)
      define ex where "ex = existing(?i \<mapsto> ?a)"
      have ex: "ex = requester_assumption_entries_by_objection_id loads (store_assumption revised ?a)"
        using entries_store [of loads ?a revised] Cons.prems(2,4) rec(2) a False None by (simp add: ex_def)
      have "list_all (decodes loads) as'" using Cons.prems(4) rec(2) by simp
      from Cons.IH [OF rec(1) [folded ex_def] ex store_keys [OF Cons.prems(3)] this] obtain final
        where final: "final = requester_assumption_entries_by_objection_id loads r"
        "map fst r = WORK_ORDER_VIEW_FIELDS" "\<forall>i a. ex i = Some a \<longrightarrow> final i = Some a"
        "dom final = dom ex \<union> authority_ids ds"
        "as' = concat (map (\<lambda>d. if field_text d ''objection_id'' = [] then [] else [the (final (field_text d ''objection_id''))]) ds)"
        by blast
      have "final ?i = Some ?a" using final(3) by (simp add: ex_def)
      moreover have "\<forall>i a. existing i = Some a \<longrightarrow> final i = Some a" using final(3) None unfolding ex_def by (metis fun_upd_apply option.distinct(1))
      moreover have "dom final = dom existing \<union> authority_ids (d # ds)" using final(4) False ids by (simp add: ex_def)
      ultimately show ?thesis using final(1,2,5) False rec(2) by (intro exI [of _ final]) simp
    qed
  qed
qed

lemma store_other:
  assumes "k \<notin> {''constraints_assumptions'', ''open_questions''}"
  shows "py_get (store_assumption r a) k = py_get r k"
  using assms by (simp add: store_assumption_def Let_def py_get_py_set)

lemma record_objections_other:
  assumes "k \<notin> {''constraints_assumptions'', ''open_questions''}"
  shows "record_objections approach objections revised existing = (r, as, changed) \<Longrightarrow> py_get r k = py_get revised k"
proof (induction objections arbitrary: revised existing r as changed)
  case (Cons d ds)
  show ?case
  proof (cases "field_text d ''objection_id'' = [] \<or> existing (field_text d ''objection_id'') \<noteq> None")
    case True
    then obtain as' c where "record_objections approach ds revised existing = (r, as', c)"
      using Cons.prems by (auto simp: Let_def split: prod.splits if_splits)
    then show ?thesis by (rule Cons.IH)
  next
    case False
    let ?a = "new_assumption approach d (field_text d ''objection_id'')"
    obtain as' c where "record_objections approach ds (store_assumption revised ?a) (existing(field_text d ''objection_id'' \<mapsto> ?a)) = (r, as', c)"
      using Cons.prems False by (auto simp: Let_def split: prod.splits)
    from Cons.IH [OF this] show ?thesis using store_other [OF assms] by simp
  qed
qed simp

lemma view_fields_get: "view_fields fs view = Inr r \<Longrightarrow> py_get r k = (if k \<in> set fs then py_get view k else PNone)"
  by (induction fs view arbitrary: r rule: view_fields.induct) (auto simp: rbind_Inr_iff py_get_def split: if_splits)

text \<open>
  Recording the same objections a second time changes nothing and answers with the same
  entries, provided the decoder reads back the recorded texts. The first recording adds exactly the
  ids of the given objections to the recorded ones and changes no other field of the view than
  the assumptions and the open questions.
\<close>

theorem recording_idempotent:
  assumes "record_requester_authority_assumptions loads view approach objections = Inr (revised, as, changed)"
    and "list_all (decodes loads) as"
  shows "record_requester_authority_assumptions loads revised approach objections = Inr (revised, as, False) \<and>
    recorded_assumption_objection_ids loads revised = recorded_assumption_objection_ids loads view \<union> authority_ids objections \<and>
    (\<forall>k. k \<in> set WORK_ORDER_VIEW_FIELDS - {''constraints_assumptions'', ''open_questions''} \<longrightarrow> py_get revised k = py_get view k)"
proof -
  let ?E = "requester_assumption_entries_by_objection_id loads"
  obtain v where v: "patch_series_to_view view = Inr v"
    and rec: "record_objections approach objections v (?E v) = (revised, as, changed)"
    using assms(1) by (auto simp: record_requester_authority_assumptions_def rbind_Inr_iff)
  have keys: "map fst v = WORK_ORDER_VIEW_FIELDS"
    using v view_fields_keys by (simp add: patch_series_to_view_def)
  obtain final where final: "final = ?E revised" "map fst revised = WORK_ORDER_VIEW_FIELDS"
    "dom final = dom (?E v) \<union> authority_ids objections"
    "as = concat (map (\<lambda>d. if field_text d ''objection_id'' = [] then [] else [the (final (field_text d ''objection_id''))]) objections)"
    using record_objections_result [OF rec refl keys assms(2)] by blast
  have get: "py_get v k = py_get view k" if "k \<in> set WORK_ORDER_VIEW_FIELDS" for k
    using v that view_fields_get [of WORK_ORDER_VIEW_FIELDS view v k] by (simp add: patch_series_to_view_def)
  have "?E v = ?E view"
    using get [of "''constraints_assumptions''"] by (simp add: requester_assumption_entries_by_objection_id_def WORK_ORDER_VIEW_FIELDS_def)
  then have "recorded_assumption_objection_ids loads revised = recorded_assumption_objection_ids loads view \<union> authority_ids objections"
    using final(1,3) by (simp add: recorded_assumption_objection_ids_def)
  moreover have "record_requester_authority_assumptions loads revised approach objections = Inr (revised, as, False)"
    using record_objections_again [of objections final approach revised] final view_fixed [OF final(2)]
    by (auto simp: record_requester_authority_assumptions_def)
  moreover have "py_get revised k = py_get view k"
    if "k \<in> set WORK_ORDER_VIEW_FIELDS - {''constraints_assumptions'', ''open_questions''}" for k
    using that record_objections_other [OF _ rec, of k] get by simp
  ultimately show ?thesis by blast
qed

section \<open>An objection recorded twice\<close>

definition example_view :: pydict where
  "example_view = map (\<lambda>f. (f, PList [])) WORK_ORDER_VIEW_FIELDS"

definition example_objection :: pydict where
  "example_objection = [(''objection_id'', PStr '' O1 ''), (''claim'', PStr ''Wrong target?''), (''requested_author_action'', PStr ''withdraw'')]"

definition example_assumption :: assumption where
  "example_assumption = new_assumption (PDict []) example_objection ''O1''"

definition assumption_loads :: "string \<Rightarrow> pyval option" where
  "assumption_loads s = (if s = assumption_json example_assumption then Some (PDict (assumption_dict example_assumption)) else None)"

lemma example_field: "field_text example_objection ''objection_id'' = ''O1''"
  by code_simp

lemma example_empty: "requester_assumption_entries_by_objection_id loads example_view = Map.empty"
  by (simp add: requester_assumption_entries_by_objection_id_def example_view_def py_get_def WORK_ORDER_VIEW_FIELDS_def)

lemma example_recorded:
  "record_requester_authority_assumptions assumption_loads example_view (PDict []) [example_objection] =
     Inr (store_assumption example_view example_assumption, [example_assumption], True)"
proof -
  have "map fst example_view = WORK_ORDER_VIEW_FIELDS" by (simp add: example_view_def comp_def)
  then show ?thesis
    by (simp add: record_requester_authority_assumptions_def view_fixed example_field example_empty Let_def example_assumption_def)
qed

lemma example_decodes: "list_all (decodes assumption_loads) [example_assumption]"
  by (simp add: decodes_def assumption_loads_def)

theorem recording_idempotent_witness:
  "record_requester_authority_assumptions assumption_loads (store_assumption example_view example_assumption) (PDict []) [example_objection] =
     Inr (store_assumption example_view example_assumption, [example_assumption], False)"
  using recording_idempotent [OF example_recorded example_decodes] by blast

text \<open>The notes look the ids up as they are written, not stripped as the recording has them.\<close>

lemma padded_id_has_no_note:
  "recorded_assumption_objection_ids assumption_loads (store_assumption example_view example_assumption) = {''O1''}"
  "requester_assumption_notes assumption_loads [example_objection] (store_assumption example_view example_assumption) = []"
proof -
  have i: "as_id example_assumption = ''O1''" by (simp add: example_assumption_def new_assumption_def)
  have "requester_assumption_entries_by_objection_id assumption_loads (store_assumption example_view example_assumption) =
      Map.empty(''O1'' \<mapsto> example_assumption)"
    using entries_store [of assumption_loads example_assumption example_view] example_decodes i by (simp add: example_empty)
  then show "recorded_assumption_objection_ids assumption_loads (store_assumption example_view example_assumption) = {''O1''}"
    "requester_assumption_notes assumption_loads [example_objection] (store_assumption example_view example_assumption) = []"
    by (simp_all add: recorded_assumption_objection_ids_def requester_assumption_notes_def example_objection_def py_get_def)
qed
end
