(* ===== verification/StructureGadgets.thy ===== *)
theory StructureGadgets imports PyText begin
text \<open>
  The package \<open>src/ai_org/deterministic_structure_gadgets\<close>: skeletons (ids and empty
  placeholders), the computation of the slots a produced output misses (\<open>repair_delta\<close>), the
  fill-only merge of the model's answer (\<open>merge_fragment\<close>), and the hint registry.

  Values are JSON values, so a \<open>Mapping\<close> is a dict with text keys and a \<open>Sequence\<close> that is
  not text is a list. The gadgets return dicts, success and error alike, as in the source. The
  decorator \<open>_total\<close> catches what the validation did not foresee; on JSON values within
  the interpreter's recursion limit every subscript below is guarded, so it is the identity and the
  definitions are total functions. \<open>deepcopy\<close> is the identity on values.
\<close>

section \<open>Results and inputs\<close>

definition gadget_error :: "string \<Rightarrow> string \<Rightarrow> pyval" where
  "gadget_error error_type message =
     PDict [(''ok'', PBool False), (''error'', PDict [(''type'', PStr error_type), (''message'', PStr message)])]"

definition gadget_ok :: "pydict \<Rightarrow> pyval" where
  "gadget_ok payload = PDict ((''ok'', PBool True) # payload)"

text \<open>One entry of an id input: the entry itself, or the id of a mapping.\<close>

definition id_entry :: "pyval \<Rightarrow> string option" where
  "id_entry v =
     (case (case v of PDict d \<Rightarrow> py_get d ''id'' | _ \<Rightarrow> v) of
        PStr s \<Rightarrow> if s = [] then None else Some s
      | _ \<Rightarrow> None)"

fun ids_of :: "(pyval \<Rightarrow> string option) \<Rightarrow> pyval list \<Rightarrow> string list option" where
  "ids_of f [] = Some []"
| "ids_of f (v # vs) = (case f v of None \<Rightarrow> None | Some s \<Rightarrow> map_option ((#) s) (ids_of f vs))"

definition string_id_list :: "pyval \<Rightarrow> string \<Rightarrow> pyval + string list" where
  "string_id_list v label =
     (case v of
        PList vs \<Rightarrow>
          (case ids_of id_entry vs of
             None \<Rightarrow> Inl (gadget_error ''invalid_input'' (label @ '' entries must be non-empty strings''))
           | Some ids \<Rightarrow>
               if distinct ids then Inr ids
               else Inl (gadget_error ''duplicate_id'' (label @ '' entries must be unique'')))
      | _ \<Rightarrow> Inl (gadget_error ''invalid_input'' (label @ '' must be a sequence of ids'')))"

definition name_entry :: "pyval \<Rightarrow> string option" where
  "name_entry v = (case v of PStr s \<Rightarrow> if s = [] then None else Some s | _ \<Rightarrow> None)"

definition field_name_list :: "pyval \<Rightarrow> string \<Rightarrow> pyval + string list" where
  "field_name_list v label =
     (case v of
        PList vs \<Rightarrow>
          (case ids_of name_entry vs of
             None \<Rightarrow> Inl (gadget_error ''invalid_input'' (label @ '' entries must be non-empty strings''))
           | Some names \<Rightarrow>
               if distinct names then Inr names
               else Inl (gadget_error ''duplicate_id'' (label @ '' entries must be unique'')))
      | _ \<Rightarrow> Inl (gadget_error ''invalid_input'' (label @ '' must be a sequence of field names'')))"

section \<open>Skeletons\<close>

text \<open>The local function \<open>slot\<close> of the evaluation matrix.\<close>

definition score_placeholder :: "string list \<Rightarrow> string list \<Rightarrow> pyval" where
  "score_placeholder fields leaves =
     (if fields = [] then PNone
      else PDict (map (\<lambda>f. (f, PDict (map (\<lambda>leaf. (leaf, PNone)) leaves))) fields))"

definition evaluation_slot :: "string list \<Rightarrow> string list \<Rightarrow> string \<Rightarrow> pyval" where
  "evaluation_slot fields leaves candidate_id =
     PDict [(''candidate_id'', PStr candidate_id), (''scores'', score_placeholder fields leaves)]"

definition evaluation_matrix_skeleton :: "pyval \<Rightarrow> pyval \<Rightarrow> pyval \<Rightarrow> pyval" where
  "evaluation_matrix_skeleton candidates score_fields score_leaf_fields =
     (let cs = (case candidates of PDict d \<Rightarrow> py_get d ''candidates'' | _ \<Rightarrow> candidates) in
      case string_id_list cs ''candidates'' of
        Inl err \<Rightarrow> err
      | Inr ids \<Rightarrow>
          (case field_name_list score_fields ''score_fields'' of
             Inl err \<Rightarrow> err
           | Inr fields \<Rightarrow>
               (case field_name_list score_leaf_fields ''score_leaf_fields'' of
                  Inl err \<Rightarrow> err
                | Inr leaves \<Rightarrow>
                    gadget_ok [(''skeleton'',
                      PDict [(''evaluations'', PList (map (evaluation_slot fields leaves) ids))])])))"

definition coverage_ledger_skeleton :: "pyval \<Rightarrow> pyval" where
  "coverage_ledger_skeleton scope_item_ids =
     (case string_id_list scope_item_ids ''scope_item_ids'' of
        Inl err \<Rightarrow> err
      | Inr ids \<Rightarrow>
          gadget_ok [(''skeleton'',
            PDict [(''coverage'',
              PList (map (\<lambda>i. PDict [(''scope_item_id'', PStr i), (''assigned_child_key'', PNone)]) ids))])])"

definition acknowledged_checks_skeleton :: "pyval \<Rightarrow> pyval" where
  "acknowledged_checks_skeleton facts =
     (case facts of
        PDict d \<Rightarrow>
          if py_get d ''ok'' = PBool False
          then gadget_error ''facts_report_failed'' ''computed_check_facts reports ok=False''
          else
            (case py_get d ''checks'' of
               PDict checks \<Rightarrow>
                 if list_all (\<lambda>kv. fst kv \<noteq> []) checks
                 then gadget_ok [(''skeleton'',
                        PDict [(''acknowledged_patchwork_checks'',
                          PDict (map (\<lambda>name. (name, PNone)) (sort (map fst checks))))])]
                 else gadget_error ''invalid_input'' ''computed_check_facts.checks must map non-empty string names''
             | _ \<Rightarrow> gadget_error ''invalid_input'' ''computed_check_facts.checks must map non-empty string names'')
      | _ \<Rightarrow> gadget_error ''invalid_input'' ''computed_check_facts must be a mapping'')"

section \<open>Keyed lists\<close>

text \<open>\<open>item.get(field)\<close> of an item of a list, when it is a mapping and the value is text.\<close>

definition item_text :: "string \<Rightarrow> pyval \<Rightarrow> string option" where
  "item_text field v = (case v of PDict d \<Rightarrow> as_str (py_get d field) | _ \<Rightarrow> None)"

definition is_id_field :: "string \<Rightarrow> bool" where
  "is_id_field field \<longleftrightarrow> field = ''id'' \<or> endswith field ''_id''"

definition nonempty_text :: "string \<Rightarrow> pyval \<Rightarrow> string option" where
  "nonempty_text field v = (case item_text field v of Some s \<Rightarrow> if s = [] then None else Some s | None \<Rightarrow> None)"

definition unique_field :: "pyval list \<Rightarrow> string \<Rightarrow> bool" where
  "unique_field items field =
     (case ids_of (nonempty_text field) items of None \<Rightarrow> False | Some ids \<Rightarrow> distinct ids)"

definition keyed_list_id_field :: "pyval \<Rightarrow> string option" where
  "keyed_list_id_field v =
     (case v of
        PList (PDict d # items) \<Rightarrow>
          if list_all (\<lambda>i. as_dict i \<noteq> None) items
          then (let candidate_fields = filter is_id_field (map fst d);
                    ordered = (if ''id'' \<in> set candidate_fields then [''id''] else [])
                              @ sort (filter (\<lambda>f. f \<noteq> ''id'') candidate_fields)
                in find (unique_field (PDict d # items)) ordered)
          else None
      | _ \<Rightarrow> None)"

text \<open>\<open>skeleton_item[id_field]\<close>; on the items of a keyed list the field is there (\<open>keyed_item_id\<close>).\<close>

definition item_id :: "string \<Rightarrow> pyval \<Rightarrow> string" where
  "item_id field v = (case item_text field v of Some s \<Rightarrow> s | None \<Rightarrow> [])"

text \<open>\<open>_index_keyed_items\<close> with \<open>setdefault\<close>: the first item with an id stays.\<close>

fun setdefault_item :: "string \<Rightarrow> pyval \<Rightarrow> (string \<times> pyval) list \<Rightarrow> (string \<times> pyval) list" where
  "setdefault_item k v d = (if k \<in> fst ` set d then d else d @ [(k, v)])"

fun index_loop :: "string \<Rightarrow> pydict \<Rightarrow> pyval list \<Rightarrow> pydict" where
  "index_loop field d [] = d"
| "index_loop field d (v # vs) =
     (case item_text field v of
        Some s \<Rightarrow> index_loop field (setdefault_item s v d) vs
      | None \<Rightarrow> index_loop field d vs)"

definition index_keyed_items :: "pyval list \<Rightarrow> string \<Rightarrow> pydict" where
  "index_keyed_items items field = index_loop field [] items"

section \<open>Slots\<close>

text \<open>
  \<open>produced == skeleton\<close> for a scalar of the skeleton: truth values are the numbers 0 and 1, and a
  float with an integral value equals that integer (floats of 1e16 or more, whose \<open>repr\<close> has
  an exponent, are only compared with floats).
\<close>

fun scalar_int :: "pyval \<Rightarrow> int option" where
  "scalar_int (PBool b) = Some (if b then 1 else 0)"
| "scalar_int (PInt i) = Some i"
| "scalar_int (PFloat r) =
     (if endswith r ''.0'' then py_int_text (take (length r - 2) r) else None)"
| "scalar_int _ = None"

definition scalar_eq :: "pyval \<Rightarrow> pyval \<Rightarrow> bool" where
  "scalar_eq a b =
     (case (scalar_int a, scalar_int b) of
        (Some i, Some j) \<Rightarrow> i = j
      | _ \<Rightarrow> a = b \<and> a \<noteq> PFloat ''nan'')"

lemma size_py_dict: "kv \<in> set d \<Longrightarrow> size (snd kv) < Suc (size_list (size_prod (\<lambda>_. 0) size) d)"
  by (induction d) auto

function (sequential) slot_satisfied :: "pyval \<Rightarrow> pyval \<Rightarrow> bool" where
  "slot_satisfied PNone p = (p \<noteq> PNone)"
| "slot_satisfied (PDict sk) p =
     (case p of
        PDict d \<Rightarrow>
          list_all (\<lambda>kv. case map_of d (fst kv) of None \<Rightarrow> False | Some v \<Rightarrow> slot_satisfied (snd kv) v) sk
      | _ \<Rightarrow> False)"
| "slot_satisfied (PList items) p =
     (case keyed_list_id_field (PList items) of
        None \<Rightarrow> (case p of PList _ \<Rightarrow> True | _ \<Rightarrow> False)
      | Some field \<Rightarrow>
          (case p of
             PList produced \<Rightarrow>
               list_all (\<lambda>item. case map_of (index_keyed_items produced field) (item_id field item) of
                           None \<Rightarrow> False | Some v \<Rightarrow> slot_satisfied item v) items
           | _ \<Rightarrow> False))"
| "slot_satisfied sk p = scalar_eq p sk"
  by pat_completeness auto
termination
  by (relation "measure (\<lambda>(sk, p). size sk)") (auto dest: size_py_dict simp: less_Suc_eq_le size_list_estimation')

text \<open>\<open>_unwrap\<close>: a raw payload or the success result of a gadget.\<close>

definition unwrap :: "pyval \<Rightarrow> string \<Rightarrow> pyval" where
  "unwrap v payload_key =
     (case v of
        PDict d \<Rightarrow> if py_get d ''ok'' = PBool True \<and> has_key d payload_key then py_get d payload_key else v
      | _ \<Rightarrow> v)"

section \<open>The missing and malformed slots\<close>

definition list_slot :: "string \<Rightarrow> string \<Rightarrow> string \<Rightarrow> string" where
  "list_slot key field ident = key @ ''['' @ field @ ''='' @ ident @ '']''"

definition map_slot :: "string \<Rightarrow> string \<Rightarrow> string" where
  "map_slot key name = key @ ''.'' @ name"

record delta_state =
  missing_slots :: "string list"
  malformed_slots :: "string list"
  fragment_request :: pydict

text \<open>\<open>setdefault(key, []).append(v)\<close> and \<open>setdefault(key, \{\})[name] = v\<close>.\<close>

definition append_request :: "pydict \<Rightarrow> string \<Rightarrow> pyval \<Rightarrow> pydict" where
  "append_request req key v =
     (case py_get_default req key (PList []) of PList vs \<Rightarrow> py_set req key (PList (vs @ [v])) | _ \<Rightarrow> req)"

definition put_request :: "pydict \<Rightarrow> string \<Rightarrow> string \<Rightarrow> pyval \<Rightarrow> pydict" where
  "put_request req key name v =
     (case py_get_default req key (PDict []) of PDict d \<Rightarrow> py_set req key (PDict (py_set d name v)) | _ \<Rightarrow> req)"

text \<open>The state of one slot: absent, present and filled, present and malformed.\<close>

datatype slot_state = Missing | Filled | Malformed

definition slot_state_of :: "pyval \<Rightarrow> pyval option \<Rightarrow> slot_state" where
  "slot_state_of sk p = (case p of None \<Rightarrow> Missing | Some v \<Rightarrow> if slot_satisfied sk v then Filled else Malformed)"

definition note_slot :: "slot_state \<Rightarrow> string \<Rightarrow> (pydict \<Rightarrow> pydict) \<Rightarrow> delta_state \<Rightarrow> delta_state" where
  "note_slot st slot ask s =
     (case st of
        Filled \<Rightarrow> s
      | Missing \<Rightarrow> s\<lparr>missing_slots := missing_slots s @ [slot], fragment_request := ask (fragment_request s)\<rparr>
      | Malformed \<Rightarrow> s\<lparr>malformed_slots := malformed_slots s @ [slot], fragment_request := ask (fragment_request s)\<rparr>)"

definition delta_item :: "string \<Rightarrow> string \<Rightarrow> pydict \<Rightarrow> pyval \<Rightarrow> delta_state \<Rightarrow> delta_state" where
  "delta_item key field produced_by_id item s =
     note_slot (slot_state_of item (map_of produced_by_id (item_id field item)))
       (list_slot key field (item_id field item)) (\<lambda>req. append_request req key item) s"

definition delta_name :: "string \<Rightarrow> pydict \<Rightarrow> string \<times> pyval \<Rightarrow> delta_state \<Rightarrow> delta_state" where
  "delta_name key produced_map kv s =
     note_slot (slot_state_of (snd kv) (map_of produced_map (fst kv)))
       (map_slot key (fst kv)) (\<lambda>req. put_request req key (fst kv) (snd kv)) s"

definition produced_list :: "pyval \<Rightarrow> pyval list" where
  "produced_list v = (case v of PList vs \<Rightarrow> vs | _ \<Rightarrow> [])"

definition produced_dict :: "pyval \<Rightarrow> pydict" where
  "produced_dict v = (case v of PDict d \<Rightarrow> d | _ \<Rightarrow> [])"

definition delta_key :: "pydict \<Rightarrow> string \<times> pyval \<Rightarrow> delta_state \<Rightarrow> delta_state" where
  "delta_key produced kv s =
     (case kv of (key, sk) \<Rightarrow>
       (case keyed_list_id_field sk of
          Some field \<Rightarrow>
            fold (delta_item key field (index_keyed_items (produced_list (py_get produced key)) field)) (produced_list sk) s
        | None \<Rightarrow>
            (case sk of
               PDict names \<Rightarrow> fold (delta_name key (produced_dict (py_get produced key))) names s
             | _ \<Rightarrow> note_slot (slot_state_of sk (map_of produced key)) key (\<lambda>req. py_set req key sk) s)))"

definition delta_run :: "pydict \<Rightarrow> pydict \<Rightarrow> delta_state" where
  "delta_run produced skeleton =
     fold (delta_key produced) skeleton \<lparr>missing_slots = [], malformed_slots = [], fragment_request = []\<rparr>"

definition report_errors :: "pyval \<Rightarrow> pyval" where
  "report_errors v =
     (case v of
        PStr s \<Rightarrow> PList [PStr s]
      | PList vs \<Rightarrow> if list_all (\<lambda>i. as_str i \<noteq> None) vs then PList vs else PList []
      | _ \<Rightarrow> PList [])"

definition delta_dict :: "pydict \<Rightarrow> delta_state \<Rightarrow> pydict" where
  "delta_dict report s =
     [(''validator_id'', case py_get report ''validator_id'' of PStr v \<Rightarrow> PStr v | _ \<Rightarrow> PStr []),
      (''errors'', report_errors (py_get report ''errors'')),
      (''missing_slots'', PList (map PStr (missing_slots s))),
      (''malformed_slots'', PList (map PStr (malformed_slots s))),
      (''overwritable_slots'', PList (map PStr (malformed_slots s))),
      (''fragment_request'', PDict (fragment_request s))]"

definition repair_delta :: "pyval \<Rightarrow> pyval \<Rightarrow> pyval \<Rightarrow> pyval" where
  "repair_delta validation_error_report produced_json skeleton =
     (case validation_error_report of
        PDict report \<Rightarrow>
          (case produced_json of
             PDict produced \<Rightarrow>
               (case unwrap skeleton ''skeleton'' of
                  PDict sk \<Rightarrow> gadget_ok [(''delta'', PDict (delta_dict report (delta_run produced sk)))]
                | _ \<Rightarrow> gadget_error ''invalid_input'' ''skeleton must be a mapping'')
           | _ \<Rightarrow> gadget_error ''invalid_input'' ''produced_json must be a mapping'')
      | _ \<Rightarrow> gadget_error ''invalid_input'' ''validation_error_report must be a mapping'')"

section \<open>The merge\<close>

record merge_state =
  merged :: pydict
  applied_slots :: "string list"
  skipped_slots :: "string list"

fun index_of :: "('a \<Rightarrow> bool) \<Rightarrow> 'a list \<Rightarrow> nat option" where
  "index_of P [] = None"
| "index_of P (x # xs) = (if P x then Some 0 else map_option Suc (index_of P xs))"

text \<open>One item of a keyed list against the target list; the target, the applied and the skipped slots.\<close>

definition merge_item ::
  "string list \<Rightarrow> string \<Rightarrow> string \<Rightarrow> pyval \<Rightarrow> pyval list \<times> string list \<times> string list \<Rightarrow> pyval list \<times> string list \<times> string list" where
  "merge_item overwritable key field item st =
     (case st of (target, ap, sp) \<Rightarrow>
       (let ident = item_id field item; slot = list_slot key field ident in
        case index_of (\<lambda>existing. item_text field existing = Some ident) target of
          None \<Rightarrow> (target @ [item], ap @ [slot], sp)
        | Some i \<Rightarrow>
            if slot \<in> set overwritable then (target[i := item], ap @ [slot], sp)
            else (target, ap, sp @ [slot])))"

definition merge_name ::
  "string list \<Rightarrow> string \<Rightarrow> string \<times> pyval \<Rightarrow> pydict \<times> string list \<times> string list \<Rightarrow> pydict \<times> string list \<times> string list" where
  "merge_name overwritable key kv st =
     (case st of (target, ap, sp) \<Rightarrow>
       (let slot = map_slot key (fst kv) in
        if \<not> has_key target (fst kv) \<or> slot \<in> set overwritable then (py_set target (fst kv) (snd kv), ap @ [slot], sp)
        else (target, ap, sp @ [slot])))"

definition with_default :: "pydict \<Rightarrow> string \<Rightarrow> pyval \<Rightarrow> pydict" where
  "with_default d key v = (if has_key d key then d else py_set d key v)"

definition merge_key :: "string list \<Rightarrow> string \<times> pyval \<Rightarrow> merge_state \<Rightarrow> merge_state" where
  "merge_key overwritable kv s =
     (case kv of (key, fv) \<Rightarrow>
       (case keyed_list_id_field fv of
          Some field \<Rightarrow>
            (let m = with_default (merged s) key (PList []) in
             case py_get m key of
               PList target \<Rightarrow>
                 (case fold (merge_item overwritable key field) (produced_list fv) (target, applied_slots s, skipped_slots s) of
                    (t, ap, sp) \<Rightarrow> \<lparr>merged = py_set m key (PList t), applied_slots = ap, skipped_slots = sp\<rparr>)
             | _ \<Rightarrow> s\<lparr>merged := m,
                      skipped_slots := skipped_slots s @ map (\<lambda>item. list_slot key field (item_id field item)) (produced_list fv)\<rparr>)
        | None \<Rightarrow>
            (case fv of
               PDict names \<Rightarrow>
                 (let m = with_default (merged s) key (PDict []) in
                  case py_get m key of
                    PDict target \<Rightarrow>
                      (case fold (merge_name overwritable key) names (target, applied_slots s, skipped_slots s) of
                         (t, ap, sp) \<Rightarrow> \<lparr>merged = py_set m key (PDict t), applied_slots = ap, skipped_slots = sp\<rparr>)
                  | _ \<Rightarrow> s\<lparr>merged := m,
                           skipped_slots := skipped_slots s @ map (\<lambda>nv. map_slot key (fst nv)) names\<rparr>)
             | _ \<Rightarrow>
                 if \<not> has_key (merged s) key \<or> key \<in> set overwritable
                 then s\<lparr>merged := py_set (merged s) key fv, applied_slots := applied_slots s @ [key]\<rparr>
                 else s\<lparr>skipped_slots := skipped_slots s @ [key]\<rparr>)))"

definition merge_run :: "pydict \<Rightarrow> string list \<Rightarrow> pydict \<Rightarrow> merge_state" where
  "merge_run produced overwritable fragment =
     fold (merge_key overwritable) fragment \<lparr>merged = produced, applied_slots = [], skipped_slots = []\<rparr>"

definition overwritable_of :: "pyval \<Rightarrow> pyval + string list" where
  "overwritable_of delta =
     (case delta of
        PNone \<Rightarrow> Inr []
      | PDict d \<Rightarrow>
          (case py_get_default d ''overwritable_slots'' (PList []) of
             PList vs \<Rightarrow>
               if list_all (\<lambda>i. as_str i \<noteq> None) vs then Inr (map (the \<circ> as_str) vs)
               else Inl (gadget_error ''invalid_input'' ''delta.overwritable_slots must be a list of slot names'')
           | _ \<Rightarrow> Inl (gadget_error ''invalid_input'' ''delta.overwritable_slots must be a list of slot names''))
      | _ \<Rightarrow> Inl (gadget_error ''invalid_input'' ''delta must be a mapping when provided''))"

definition merge_fragment :: "pyval \<Rightarrow> pyval \<Rightarrow> pyval \<Rightarrow> pyval" where
  "merge_fragment produced_json fragment delta =
     (case produced_json of
        PDict produced \<Rightarrow>
          (case fragment of
             PDict frag \<Rightarrow>
               (case overwritable_of (unwrap delta ''delta'') of
                  Inl err \<Rightarrow> err
                | Inr overwritable \<Rightarrow>
                    (let s = merge_run produced overwritable frag in
                     gadget_ok [(''merged'', PDict (merged s)),
                                (''applied_slots'', PList (map PStr (applied_slots s))),
                                (''skipped_slots'', PList (map PStr (skipped_slots s)))]))
           | _ \<Rightarrow> gadget_error ''invalid_input'' ''fragment must be a mapping'')
      | _ \<Rightarrow> gadget_error ''invalid_input'' ''produced_json must be a mapping'')"

section \<open>Hints\<close>

record hint_entry =
  gadget_id :: string
  produces :: string
  match_field :: string
  match_value :: string

definition MATCHABLE_SURFACE_FIELDS :: "string list" where
  "MATCHABLE_SURFACE_FIELDS =
     [''axis'', ''type'', ''requested_author_action'', ''resolution_authority'', ''gate_error_type'', ''validator_error'']"

definition GADGET_HINT_REGISTRY :: "hint_entry list" where
  "GADGET_HINT_REGISTRY =
     [\<lparr>gadget_id = ''coverage_ledger_skeleton'',
       produces = ''one coverage slot per scope item with the child assignment left empty'',
       match_field = ''requested_author_action'', match_value = ''split_scope''\<rparr>,
      \<lparr>gadget_id = ''acknowledged_checks_skeleton'',
       produces = ''an acknowledged_patchwork_checks mapping with one key per injected check and empty value placeholders'',
       match_field = ''gate_error_type'', match_value = ''patchwork_check_acknowledgement_mismatch''\<rparr>,
      \<lparr>gadget_id = ''evaluation_matrix_skeleton'',
       produces = ''an evaluation matrix skeleton with exactly one evaluation slot per candidate'',
       match_field = ''validator_error'',
       match_value = ''Codex candidate evaluation returned incomplete candidate coverage''\<rparr>]"

definition hint_of :: "hint_entry \<Rightarrow> pyval" where
  "hint_of e = PDict [(''gadget_id'', PStr (gadget_id e)), (''produces'', PStr (produces e)),
     (''matched_on'', PDict [(''field'', PStr (match_field e)), (''value'', PStr (match_value e))])]"

fun hint_loop :: "pydict \<Rightarrow> string list \<Rightarrow> hint_entry list \<Rightarrow> pyval list" where
  "hint_loop surface seen [] = []"
| "hint_loop surface seen (e # es) =
     (if match_field e \<notin> set MATCHABLE_SURFACE_FIELDS \<or> gadget_id e \<in> set seen then hint_loop surface seen es
      else if py_get surface (match_field e) = PStr (match_value e)
        then hint_of e # hint_loop surface (gadget_id e # seen) es
      else hint_loop surface seen es)"

definition match_gadget_hints :: "pyval \<Rightarrow> pyval" where
  "match_gadget_hints typed_surface =
     (case typed_surface of
        PDict surface \<Rightarrow> gadget_ok [(''hints'', PList (hint_loop surface [] GADGET_HINT_REGISTRY))]
      | _ \<Rightarrow> gadget_error ''invalid_input'' ''typed_surface must be a mapping'')"

definition matched_texts :: "pyval \<Rightarrow> (string \<times> string) option" where
  "matched_texts v =
     (case v of
        PDict d \<Rightarrow>
          (case (py_get d ''field'', py_get d ''value'') of (PStr f, PStr x) \<Rightarrow> Some (f, x) | _ \<Rightarrow> None)
      | _ \<Rightarrow> None)"

definition render_gadget_hint_line :: "pyval \<Rightarrow> pyval" where
  "render_gadget_hint_line hint =
     (case hint of
        PDict d \<Rightarrow>
          (case (name_entry (py_get d ''gadget_id''), name_entry (py_get d ''produces'')) of
             (Some g, Some p) \<Rightarrow>
               (case matched_texts (py_get d ''matched_on'') of
                  Some (f, x) \<Rightarrow>
                    gadget_ok [(''line'', PStr (''structural gadget available: '' @ g @ '' (generates '' @ p
                      @ ''; matched on '' @ f @ ''='' @ x @ '')''))]
                | None \<Rightarrow> gadget_error ''invalid_input'' ''hint.matched_on must carry string field and value'')
           | _ \<Rightarrow> gadget_error ''invalid_input'' ''hint must carry string gadget_id and produces'')
      | _ \<Rightarrow> gadget_error ''invalid_input'' ''hint must be a mapping'')"

section \<open>Keyed lists and their index\<close>

lemma map_of_index_loop:
  "map_of (index_loop f d vs) s =
     (case map_of d s of None \<Rightarrow> find (\<lambda>v. item_text f v = Some s) vs | Some v \<Rightarrow> Some v)"
proof (induction f d vs rule: index_loop.induct)
  case (2 f d v vs)
  have "map_of (setdefault_item k v d) s =
      (case map_of d s of None \<Rightarrow> if s = k then Some v else None | Some v \<Rightarrow> Some v)" for k
    by (auto simp: map_add_def dom_map_of_conv_image_fst [symmetric] split: option.splits)
  with 2 show ?case by (auto split: option.splits)
qed (simp split: option.splits)

lemma map_of_index: "map_of (index_keyed_items vs f) s = find (\<lambda>v. item_text f v = Some s) vs"
  by (simp add: index_keyed_items_def map_of_index_loop)

lemma ids_of_SomeD: "ids_of f vs = Some ids \<Longrightarrow> map f vs = map Some ids"
  by (induction vs arbitrary: ids) (auto split: option.splits)

lemma keyed_listD:
  assumes "keyed_list_id_field v = Some f"
  shows "\<exists>vs. v = PList vs \<and> vs \<noteq> [] \<and> unique_field vs f"
proof -
  obtain vs where v: "v = PList vs" using assms by (cases v) (auto simp: keyed_list_id_field_def)
  then obtain d items where vs: "vs = PDict d # items"
    using assms by (cases vs; cases "hd vs") (auto simp: keyed_list_id_field_def)
  then show ?thesis
    using assms v by (auto simp: keyed_list_id_field_def Let_def find_Some_iff split: if_splits)
qed

text \<open>A keyed list: every item has its id, and the ids are distinct.\<close>

lemma keyed_item_id:
  assumes "keyed_list_id_field (PList vs) = Some f"
  shows "vs \<noteq> []" "distinct (map (item_id f) vs)"
    "v \<in> set vs \<Longrightarrow> item_text f v = Some (item_id f v) \<and> item_id f v \<noteq> []"
proof -
  have ne: "vs \<noteq> []" and "unique_field vs f" using keyed_listD [OF assms] by auto
  then obtain ids where ids: "map (nonempty_text f) vs = map Some ids" "distinct ids"
    by (auto simp: unique_field_def dest: ids_of_SomeD split: option.splits)
  have *: "item_text f v = Some (item_id f v) \<and> item_id f v \<noteq> [] \<and> nonempty_text f v = Some (item_id f v)"
    if "v \<in> set vs" for v
  proof -
    have "nonempty_text f v \<in> set (map Some ids)" using that ids(1) by (metis image_eqI list.set_map)
    then show ?thesis by (auto simp: nonempty_text_def item_id_def split: option.splits if_splits)
  qed
  have "map Some (map (item_id f) vs) = map Some ids" using ids(1) * by (auto intro: map_cong simp flip: ids(1))
  then have "map (item_id f) vs = ids" by (metis inj_Some inj_map_eq_map)
  then show "distinct (map (item_id f) vs)" using ids(2) by simp
  show "vs \<noteq> []" by (rule ne)
  show "v \<in> set vs \<Longrightarrow> item_text f v = Some (item_id f v) \<and> item_id f v \<noteq> []" using * by blast
qed

lemma find_item:
  "keyed_list_id_field (PList vs) = Some f \<Longrightarrow> v \<in> set vs \<Longrightarrow>
   find (\<lambda>x. item_text f x = Some (item_id f v)) vs = Some v"
proof -
  assume k: "keyed_list_id_field (PList vs) = Some f" and v: "v \<in> set vs"
  have d: "distinct (map (item_id f) vs)" using keyed_item_id [OF k] by simp
  have "item_text f x = Some (item_id f v) \<longleftrightarrow> x = v" if "x \<in> set vs" for x
    using keyed_item_id(3) [OF k] d that v by (auto simp: distinct_map inj_on_def)
  then have "find (\<lambda>x. item_text f x = Some (item_id f v)) vs = find (\<lambda>x. x = v) vs"
    by (auto intro: find_cong)
  moreover have "find (\<lambda>x. x = v) vs = Some v" using v by (induction vs) auto
  ultimately show ?thesis by simp
qed

section \<open>What a delta holds\<close>

lemma fold_note_slot:
  "missing_slots (fold (\<lambda>x. note_slot (st x) (sl x) (ask x)) xs s) =
     missing_slots s @ map sl (filter (\<lambda>x. st x = Missing) xs)"
  "malformed_slots (fold (\<lambda>x. note_slot (st x) (sl x) (ask x)) xs s) =
     malformed_slots s @ map sl (filter (\<lambda>x. st x = Malformed) xs)"
  "fragment_request (fold (\<lambda>x. note_slot (st x) (sl x) (ask x)) xs s) =
     fold ask (filter (\<lambda>x. st x \<noteq> Filled) xs) (fragment_request s)"
  by (induction xs arbitrary: s) (auto simp: note_slot_def split: slot_state.splits)

lemma py_set_absent: "k \<notin> fst ` set d \<Longrightarrow> py_set d k v = d @ [(k, v)]"
  by (induction d k v rule: py_set.induct) auto

lemma py_set_last: "k \<notin> fst ` set d \<Longrightarrow> py_set (d @ [(k, w)]) k v = d @ [(k, v)]"
  by (induction d k v rule: py_set.induct) auto

lemma fold_append_request:
  "k \<notin> fst ` set req \<Longrightarrow>
   fold (\<lambda>v r. append_request r k v) vs req = (if vs = [] then req else req @ [(k, PList vs)])"
proof (induction vs rule: rev_induct)
  case (snoc v vs)
  then show ?case
    by (auto simp: append_request_def py_get_default_def py_set_absent py_set_last map_add_def
        dom_map_of_conv_image_fst [symmetric] map_of_eq_None_iff split: option.splits)
qed simp

lemma fold_put_request:
  "k \<notin> fst ` set req \<Longrightarrow> distinct (map fst nvs) \<Longrightarrow>
   fold (\<lambda>nv r. put_request r k (fst nv) (snd nv)) nvs req = (if nvs = [] then req else req @ [(k, PDict nvs)])"
proof (induction nvs rule: rev_induct)
  case (snoc nv nvs)
  then have "py_set nvs (fst nv) (snd nv) = nvs @ [nv]" by (auto simp: py_set_absent)
  with snoc show ?case
    by (auto simp: put_request_def py_get_default_def py_set_absent py_set_last map_add_def
        dom_map_of_conv_image_fst [symmetric] map_of_eq_None_iff split: option.splits)
qed simp

text \<open>The items and names of one key whose slot is not filled.\<close>

definition item_state :: "pydict \<Rightarrow> string \<Rightarrow> string \<Rightarrow> pyval \<Rightarrow> slot_state" where
  "item_state produced key field item =
     slot_state_of item (find (\<lambda>v. item_text field v = Some (item_id field item)) (produced_list (py_get produced key)))"

definition name_state :: "pydict \<Rightarrow> string \<Rightarrow> string \<times> pyval \<Rightarrow> slot_state" where
  "name_state produced key nv = slot_state_of (snd nv) (map_of (produced_dict (py_get produced key)) (fst nv))"

definition slots_in :: "slot_state \<Rightarrow> pydict \<Rightarrow> string \<times> pyval \<Rightarrow> string list" where
  "slots_in st produced kv =
     (case kv of (key, sk) \<Rightarrow>
       (case keyed_list_id_field sk of
          Some field \<Rightarrow> map (\<lambda>i. list_slot key field (item_id field i))
                           (filter (\<lambda>i. item_state produced key field i = st) (produced_list sk))
        | None \<Rightarrow>
            (case sk of
               PDict names \<Rightarrow> map (\<lambda>nv. map_slot key (fst nv)) (filter (\<lambda>nv. name_state produced key nv = st) names)
             | _ \<Rightarrow> (if slot_state_of sk (map_of produced key) = st then [key] else []))))"

definition asked :: "pydict \<Rightarrow> string \<times> pyval \<Rightarrow> pydict" where
  "asked produced kv =
     (case kv of (key, sk) \<Rightarrow>
       (case keyed_list_id_field sk of
          Some field \<Rightarrow>
            (let vs = filter (\<lambda>i. item_state produced key field i \<noteq> Filled) (produced_list sk) in
             if vs = [] then [] else [(key, PList vs)])
        | None \<Rightarrow>
            (case sk of
               PDict names \<Rightarrow>
                 (let nvs = filter (\<lambda>nv. name_state produced key nv \<noteq> Filled) names in
                  if nvs = [] then [] else [(key, PDict nvs)])
             | _ \<Rightarrow> (if slot_state_of sk (map_of produced key) \<noteq> Filled then [(key, sk)] else []))))"

lemma delta_item_note:
  "delta_item key f (index_keyed_items vs f) =
     (\<lambda>i. note_slot (slot_state_of i (find (\<lambda>v. item_text f v = Some (item_id f i)) vs))
            (list_slot key f (item_id f i)) (\<lambda>req. append_request req key i))"
  by (simp add: fun_eq_iff delta_item_def map_of_index)

lemma delta_name_note:
  "delta_name key d = (\<lambda>nv. note_slot (slot_state_of (snd nv) (map_of d (fst nv)))
            (map_slot key (fst nv)) (\<lambda>req. put_request req key (fst nv) (snd nv)))"
  by (simp add: fun_eq_iff delta_name_def)

lemma note_slot_single:
  "missing_slots (note_slot st sl ask s) = missing_slots s @ (if st = Missing then [sl] else [])"
  "malformed_slots (note_slot st sl ask s) = malformed_slots s @ (if st = Malformed then [sl] else [])"
  "fragment_request (note_slot st sl ask s) = (if st \<noteq> Filled then ask (fragment_request s) else fragment_request s)"
  by (simp_all add: note_slot_def split: slot_state.splits)

lemmas delta_rules = delta_key_def delta_item_note delta_name_note fold_note_slot note_slot_single
  slots_in_def item_state_def name_state_def

lemma delta_key_slots:
  "missing_slots (delta_key produced kv s) = missing_slots s @ slots_in Missing produced kv"
  "malformed_slots (delta_key produced kv s) = malformed_slots s @ slots_in Malformed produced kv"
  by (cases kv; simp add: delta_rules split: option.splits pyval.splits)+

lemma delta_key_request:
  assumes "fst kv \<notin> fst ` set (fragment_request s)" "wf_py (snd kv)"
  shows "fragment_request (delta_key produced kv s) = fragment_request s @ asked produced kv"
proof (cases kv)
  case (Pair key sk)
  show ?thesis
  proof (cases "keyed_list_id_field sk")
    case (Some f)
    then show ?thesis using assms Pair by (simp add: delta_rules asked_def fold_append_request Let_def)
  next
    case None
    show ?thesis
    proof (cases "\<exists>names. sk = PDict names")
      case True
      then obtain names where sk: "sk = PDict names" by blast
      then have "distinct (map fst (filter P names))" for P using assms Pair by (simp add: distinct_map_filter)
      then show ?thesis using assms Pair None sk by (simp add: delta_rules asked_def fold_put_request Let_def)
    next
      case False
      then show ?thesis using assms Pair None
        by (cases sk) (simp_all add: delta_rules asked_def py_set_absent)
    qed
  qed
qed

lemma asked_keys: "fst ` set (asked produced kv) \<subseteq> {fst kv}"
  by (cases kv; cases "keyed_list_id_field (snd kv)"; cases "snd kv") (auto simp: asked_def Let_def)

lemma disjoint_insert_key: "S \<inter> A = {} \<Longrightarrow> k \<notin> S \<Longrightarrow> B \<subseteq> {k} \<Longrightarrow> S \<inter> (A \<union> B) = {}"
  by blast

lemma delta_fold:
  assumes "distinct (map fst sk)" "list_all (\<lambda>kv. wf_py (snd kv)) sk"
    "fst ` set sk \<inter> fst ` set (fragment_request s) = {}"
  shows "fragment_request (fold (delta_key produced) sk s) = fragment_request s @ concat (map (asked produced) sk)"
  using assms
proof (induction sk arbitrary: s)
  case (Cons kv sk)
  have r: "fragment_request (delta_key produced kv s) = fragment_request s @ asked produced kv"
    using Cons.prems by (intro delta_key_request) auto
  have "fst ` set sk \<inter> fst ` set (fragment_request (delta_key produced kv s)) = {}"
    using disjoint_insert_key [OF _ _ asked_keys [of produced kv]] Cons.prems by (simp add: r image_Un)
  with Cons r show ?case by simp
qed simp

lemma delta_fold_slots:
  "missing_slots (fold (delta_key produced) sk s) = missing_slots s @ concat (map (slots_in Missing produced) sk)"
  "malformed_slots (fold (delta_key produced) sk s) = malformed_slots s @ concat (map (slots_in Malformed produced) sk)"
  by (induction sk arbitrary: s) (simp_all add: delta_key_slots)

lemma delta_run_parts:
  "missing_slots (delta_run produced sk) = concat (map (slots_in Missing produced) sk)"
  "malformed_slots (delta_run produced sk) = concat (map (slots_in Malformed produced) sk)"
  "wf_py (PDict sk) \<Longrightarrow> fragment_request (delta_run produced sk) = concat (map (asked produced) sk)"
  by (simp_all add: delta_run_def delta_fold_slots delta_fold)

text \<open>A key is settled when none of its slots is open.\<close>

definition settled :: "pydict \<Rightarrow> string \<times> pyval \<Rightarrow> bool" where
  "settled produced kv \<longleftrightarrow> slots_in Missing produced kv = [] \<and> slots_in Malformed produced kv = []"

lemma slot_state_Filled: "st = Filled \<longleftrightarrow> st \<noteq> Missing \<and> st \<noteq> Malformed"
  by (cases st) auto

lemma settled_iff:
  "settled produced (key, sk) \<longleftrightarrow>
     (case keyed_list_id_field sk of
        Some f \<Rightarrow> (\<forall>i\<in>set (produced_list sk). item_state produced key f i = Filled)
      | None \<Rightarrow>
          (case sk of
             PDict names \<Rightarrow> (\<forall>nv\<in>set names. name_state produced key nv = Filled)
           | _ \<Rightarrow> slot_state_of sk (map_of produced key) = Filled))"
  by (auto simp: settled_def slots_in_def slot_state_Filled filter_empty_conv split: option.splits pyval.splits)

lemma no_open_slots_iff:
  "missing_slots (delta_run produced sk) = [] \<and> malformed_slots (delta_run produced sk) = [] \<longleftrightarrow>
   (\<forall>kv\<in>set sk. settled produced kv)"
  by (auto simp: delta_run_parts settled_def)

lemma asked_empty_iff: "asked produced kv = [] \<longleftrightarrow> settled produced kv"
  by (cases kv) (auto simp: asked_def settled_iff Let_def filter_empty_conv split: option.splits pyval.splits)

section \<open>What a merge does\<close>

lemma index_of_Some: "index_of P xs = Some i \<Longrightarrow> i < length xs \<and> P (xs ! i) \<and> find P xs = Some (xs ! i)"
  by (induction xs arbitrary: i) (auto split: if_splits)

lemma index_of_None: "index_of P xs = None \<longleftrightarrow> (\<forall>x\<in>set xs. \<not> P x)"
  by (induction xs) auto

lemma find_append: "find P (xs @ ys) = (case find P xs of None \<Rightarrow> find P ys | Some x \<Rightarrow> Some x)"
  by (induction xs) auto

lemma find_update_same: "index_of P xs = Some i \<Longrightarrow> P v \<Longrightarrow> find P (xs[i := v]) = Some v"
  by (induction xs arbitrary: i) (auto split: if_splits)

lemma find_update_other: "i < length xs \<Longrightarrow> \<not> P (xs ! i) \<Longrightarrow> \<not> P v \<Longrightarrow> find P (xs[i := v]) = find P xs"
proof (induction xs arbitrary: i)
  case (Cons x xs)
  then show ?case by (cases i) auto
qed simp

lemma find_None_index: "find P xs = None \<longleftrightarrow> index_of P xs = None"
  by (auto simp: find_None_iff index_of_None)

text \<open>The pure effect on a target list and on a target dict.\<close>

definition put_item :: "string list \<Rightarrow> string \<Rightarrow> string \<Rightarrow> pyval \<Rightarrow> pyval list \<Rightarrow> pyval list" where
  "put_item ov key field item target =
     (case index_of (\<lambda>e. item_text field e = Some (item_id field item)) target of
        None \<Rightarrow> target @ [item]
      | Some i \<Rightarrow> if list_slot key field (item_id field item) \<in> set ov then target[i := item] else target)"

definition item_applies :: "string list \<Rightarrow> string \<Rightarrow> string \<Rightarrow> pyval \<Rightarrow> pyval list \<Rightarrow> bool" where
  "item_applies ov key field item target \<longleftrightarrow>
     find (\<lambda>e. item_text field e = Some (item_id field item)) target = None \<or> list_slot key field (item_id field item) \<in> set ov"

lemma merge_item_step:
  "merge_item ov key f item (t, ap, sp) =
     (if item_applies ov key f item t then (put_item ov key f item t, ap @ [list_slot key f (item_id f item)], sp)
      else (t, ap, sp @ [list_slot key f (item_id f item)]))"
  by (auto simp: merge_item_def put_item_def item_applies_def find_None_index Let_def split: option.splits)

lemma put_item_skip: "\<not> item_applies ov key f item t \<Longrightarrow> put_item ov key f item t = t"
  by (auto simp: put_item_def item_applies_def find_None_index split: option.splits)

lemma fold_merge_item:
  "fst (fold (merge_item ov key f) items st) = fold (put_item ov key f) items (fst st)"
proof (induction items arbitrary: st)
  case (Cons i items)
  obtain t ap sp where st: "st = (t, ap, sp)" by (cases st)
  show ?case using Cons put_item_skip [of ov key f i t] by (auto simp: st merge_item_step)
qed simp

lemma find_put_item:
  assumes "item_text f item = Some (item_id f item)"
  shows "find (\<lambda>e. item_text f e = Some s) (put_item ov key f item t) =
     (if s = item_id f item \<and> item_applies ov key f item t then Some item else find (\<lambda>e. item_text f e = Some s) t)"
proof (cases "index_of (\<lambda>e. item_text f e = Some (item_id f item)) t")
  case None
  then have a: "item_applies ov key f item t" "find (\<lambda>e. item_text f e = Some (item_id f item)) t = None"
    by (auto simp: item_applies_def find_None_index)
  then show ?thesis using None assms by (auto simp: put_item_def find_append split: option.splits)
next
  case (Some i)
  note i = index_of_Some [OF Some]
  have ap: "item_applies ov key f item t \<longleftrightarrow> list_slot key f (item_id f item) \<in> set ov"
    using i by (simp add: item_applies_def)
  show ?thesis
  proof (cases "s = item_id f item")
    case True
    then show ?thesis using Some i assms ap by (simp add: put_item_def find_update_same)
  next
    case False
    then have "find (\<lambda>e. item_text f e = Some s) (t[i := item]) = find (\<lambda>e. item_text f e = Some s) t"
      using i assms by (intro find_update_other) auto
    then show ?thesis using Some False by (simp add: put_item_def)
  qed
qed

text \<open>After all items of a keyed list: an item stands where it may, the rest is as before.\<close>

lemma find_put_items:
  assumes "\<forall>i\<in>set items. item_text f i = Some (item_id f i)" "distinct (map (item_id f) items)"
  shows "find (\<lambda>e. item_text f e = Some s) (fold (put_item ov key f) items t) =
     (case find (\<lambda>i. item_text f i = Some s) items of
        None \<Rightarrow> find (\<lambda>e. item_text f e = Some s) t
      | Some i \<Rightarrow> if item_applies ov key f i t then Some i else find (\<lambda>e. item_text f e = Some s) t)"
  using assms
proof (induction items arbitrary: t)
  case (Cons a items)
  have a: "item_text f a = Some (item_id f a)" using Cons.prems by simp
  have other: "item_applies ov key f i (put_item ov key f a t) = item_applies ov key f i t"
    if "i \<in> set items" for i
  proof -
    have "item_id f i \<noteq> item_id f a" using that Cons.prems(2) by (auto simp: image_iff)
    then show ?thesis using find_put_item [OF a, of "item_id f i" ov key t] by (simp add: item_applies_def)
  qed
  show ?case
  proof (cases "s = item_id f a")
    case True
    have "item_text f i \<noteq> Some s" if "i \<in> set items" for i
      using Cons.prems that True by (simp add: image_iff) metis
    then have "find (\<lambda>i. item_text f i = Some s) items = None" by (auto simp: find_None_iff)
    then show ?thesis using Cons a True by (simp add: find_put_item)
  next
    case False
    have "i \<in> set items" if "find (\<lambda>i. item_text f i = Some s) items = Some i" for i
      using that by (auto simp: find_Some_iff)
    then show ?thesis using Cons a False other by (auto simp: find_put_item split: option.splits)
  qed
qed simp

definition put_name :: "string list \<Rightarrow> string \<Rightarrow> string \<times> pyval \<Rightarrow> pydict \<Rightarrow> pydict" where
  "put_name ov key nv target =
     (if map_of target (fst nv) = None \<or> map_slot key (fst nv) \<in> set ov then py_set target (fst nv) (snd nv) else target)"

lemma merge_name_step:
  "merge_name ov key nv (t, ap, sp) =
     (if map_of t (fst nv) = None \<or> map_slot key (fst nv) \<in> set ov then (put_name ov key nv t, ap @ [map_slot key (fst nv)], sp)
      else (t, ap, sp @ [map_slot key (fst nv)]))"
  by (auto simp: merge_name_def put_name_def has_key_iff Let_def)

lemma fold_merge_name:
  "fst (fold (merge_name ov key) nvs st) = fold (put_name ov key) nvs (fst st)"
proof (induction nvs arbitrary: st)
  case (Cons nv nvs)
  obtain t ap sp where st: "st = (t, ap, sp)" by (cases st)
  show ?case using Cons by (auto simp: st merge_name_step put_name_def)
qed simp

lemma map_of_put_names:
  "distinct (map fst nvs) \<Longrightarrow>
   map_of (fold (put_name ov key) nvs t) n =
     (case map_of nvs n of
        None \<Rightarrow> map_of t n
      | Some v \<Rightarrow> if map_of t n = None \<or> map_slot key n \<in> set ov then Some v else map_of t n)"
proof (induction nvs arbitrary: t)
  case (Cons nv nvs)
  have "map_of nvs (fst nv) = None" using Cons.prems by (simp add: map_of_eq_None_iff)
  with Cons show ?case by (cases nv) (auto simp: put_name_def split: option.splits)
qed simp

text \<open>The value of a key after its fragment value was merged.\<close>

definition merged_value :: "string list \<Rightarrow> string \<Rightarrow> pyval option \<Rightarrow> pyval \<Rightarrow> pyval" where
  "merged_value ov key old fv =
     (case keyed_list_id_field fv of
        Some f \<Rightarrow>
          (case old of
             None \<Rightarrow> PList (fold (put_item ov key f) (produced_list fv) [])
           | Some (PList t) \<Rightarrow> PList (fold (put_item ov key f) (produced_list fv) t)
           | Some v \<Rightarrow> v)
      | None \<Rightarrow>
          (case fv of
             PDict nvs \<Rightarrow>
               (case old of
                  None \<Rightarrow> PDict (fold (put_name ov key) nvs [])
                | Some (PDict t) \<Rightarrow> PDict (fold (put_name ov key) nvs t)
                | Some v \<Rightarrow> v)
           | _ \<Rightarrow> (case old of None \<Rightarrow> fv | Some v \<Rightarrow> if key \<in> set ov then fv else v)))"

lemma with_default_of:
  "map_of (with_default d key v) k = (if k = key then Some (case map_of d key of None \<Rightarrow> v | Some w \<Rightarrow> w) else map_of d k)"
  by (auto simp: with_default_def has_key_iff split: option.splits)

lemma py_get_with_default:
  "py_get (with_default d key v) key = (case map_of d key of None \<Rightarrow> v | Some w \<Rightarrow> w)"
  by (simp add: py_get_def with_default_of)

lemma fst_fold_eq: "fold g xs st = (a, b, c) \<Longrightarrow> fst (fold g xs st) = a"
  by simp

lemma merge_key_list:
  assumes "keyed_list_id_field fv = Some f"
  shows "map_of (merged (merge_key ov (key, fv) s)) =
     (map_of (merged s))(key \<mapsto> merged_value ov key (map_of (merged s) key) fv)"
proof (cases "case map_of (merged s) key of None \<Rightarrow> PList [] | Some w \<Rightarrow> w")
  case (PList t)
  obtain t' ap sp where
    m: "fold (merge_item ov key f) (produced_list fv) (t, applied_slots s, skipped_slots s) = (t', ap, sp)"
    by (metis prod_cases3)
  then have "t' = fold (put_item ov key f) (produced_list fv) t"
    using fold_merge_item [of ov key f "produced_list fv" "(t, applied_slots s, skipped_slots s)"] by simp
  then show ?thesis using PList assms m
    by (auto simp: merge_key_def merged_value_def Let_def py_get_with_default with_default_of fun_eq_iff split: option.splits)
qed (auto simp: merge_key_def merged_value_def Let_def py_get_with_default with_default_of fun_eq_iff assms split: option.splits)

lemma merge_key_dict:
  assumes "keyed_list_id_field (PDict nvs) = None"
  shows "map_of (merged (merge_key ov (key, PDict nvs) s)) =
     (map_of (merged s))(key \<mapsto> merged_value ov key (map_of (merged s) key) (PDict nvs))"
proof (cases "case map_of (merged s) key of None \<Rightarrow> PDict [] | Some w \<Rightarrow> w")
  case (PDict t)
  obtain t' ap sp where
    m: "fold (merge_name ov key) nvs (t, applied_slots s, skipped_slots s) = (t', ap, sp)"
    by (metis prod_cases3)
  then have "t' = fold (put_name ov key) nvs t"
    using fold_merge_name [of ov key nvs "(t, applied_slots s, skipped_slots s)"] by simp
  then show ?thesis using PDict assms m
    by (auto simp: merge_key_def merged_value_def Let_def py_get_with_default with_default_of fun_eq_iff split: option.splits)
qed (auto simp: merge_key_def merged_value_def Let_def py_get_with_default with_default_of fun_eq_iff assms split: option.splits)

lemma merge_key_merged:
  "map_of (merged (merge_key ov (key, fv) s)) =
     (map_of (merged s))(key \<mapsto> merged_value ov key (map_of (merged s) key) fv)"
proof (cases "keyed_list_id_field fv")
  case (Some f)
  then show ?thesis by (rule merge_key_list)
next
  case None
  show ?thesis
  proof (cases "\<exists>nvs. fv = PDict nvs")
    case True
    then show ?thesis using None merge_key_dict by blast
  next
    case False
    then have k: "merge_key ov (key, fv) s =
        (if \<not> has_key (merged s) key \<or> key \<in> set ov
         then s\<lparr>merged := py_set (merged s) key fv, applied_slots := applied_slots s @ [key]\<rparr>
         else s\<lparr>skipped_slots := skipped_slots s @ [key]\<rparr>)"
      using None by (cases fv) (simp_all add: merge_key_def del: not_None_eq)
    have v: "merged_value ov key (map_of (merged s) key) fv =
         (case map_of (merged s) key of None \<Rightarrow> fv | Some v \<Rightarrow> if key \<in> set ov then fv else v)"
      using None False by (cases fv) (simp_all add: merged_value_def split: option.split)
    from k v show ?thesis by (auto simp: has_key_iff fun_eq_iff split: option.splits)
  qed
qed

lemma merge_fold:
  "distinct (map fst frag) \<Longrightarrow>
   map_of (merged (fold (merge_key ov) frag s)) k =
     (case map_of frag k of None \<Rightarrow> map_of (merged s) k | Some fv \<Rightarrow> Some (merged_value ov k (map_of (merged s) k) fv))"
proof (induction frag arbitrary: s)
  case (Cons kv frag)
  have "map_of frag (fst kv) = None" using Cons.prems by (simp add: map_of_eq_None_iff)
  with Cons show ?case by (cases kv) (auto simp: merge_key_merged split: option.splits)
qed simp

lemma merge_run_merged:
  "distinct (map fst frag) \<Longrightarrow>
   map_of (merged (merge_run produced ov frag)) k =
     (case map_of frag k of None \<Rightarrow> map_of produced k | Some fv \<Rightarrow> Some (merged_value ov k (map_of produced k) fv))"
  by (simp add: merge_run_def merge_fold split: option.split)

section \<open>Delta and coverage\<close>

lemma slot_state_of_simps [simp]:
  "slot_state_of sk None = Missing"
  "slot_state_of sk (Some v) = Filled \<longleftrightarrow> slot_satisfied sk v"
  "slot_state_of sk p = Missing \<longleftrightarrow> p = None"
  by (simp_all add: slot_state_of_def split: option.split)

lemma slot_state_of_Filled: "slot_state_of sk p = Filled \<longleftrightarrow> (case p of None \<Rightarrow> False | Some v \<Rightarrow> slot_satisfied sk v)"
  by (cases p) simp_all

lemma keyed_dict_None [simp]:
  "keyed_list_id_field (PDict d) = None" "keyed_list_id_field PNone = None" "keyed_list_id_field (PList []) = None"
  by (simp_all add: keyed_list_id_field_def)

lemma settled_satisfied:
  assumes "sk \<noteq> PDict []"
  shows "settled produced (key, sk) \<longleftrightarrow> (case map_of produced key of None \<Rightarrow> False | Some v \<Rightarrow> slot_satisfied sk v)"
proof (cases "keyed_list_id_field sk")
  case (Some f)
  then obtain items where sk: "sk = PList items" and ne: "items \<noteq> []" using keyed_listD by blast
  show ?thesis
  proof (cases "map_of produced key")
    case None
    then show ?thesis using Some sk ne
      by (auto simp: settled_iff item_state_def py_get_def produced_list_def slot_state_of_Filled neq_Nil_conv)
  next
    case (Some v)
    then show ?thesis using \<open>keyed_list_id_field sk = Some f\<close> sk ne
      by (cases v) (auto simp: settled_iff item_state_def py_get_def produced_list_def slot_state_of_Filled neq_Nil_conv
          map_of_index list_all_iff)
  qed
next
  case None
  note keyed = None
  show ?thesis
  proof (cases "\<exists>names. sk = PDict names")
    case True
    then obtain names' where "sk = PDict names'" "names' \<noteq> []" using assms by blast
    then obtain a b names where sk: "sk = PDict ((a, b) # names)" by (cases names') auto
    show ?thesis
    proof (cases "map_of produced key")
      case None
      then show ?thesis using sk
        by (auto simp: settled_iff name_state_def py_get_def produced_dict_def slot_state_of_Filled)
    next
      case (Some v)
      then show ?thesis using sk
        by (cases v) (auto simp: settled_iff name_state_def py_get_def produced_dict_def slot_state_of_Filled list_all_iff)
    qed
  next
    case False
    then show ?thesis using keyed by (cases sk) (auto simp: settled_iff slot_state_of_Filled)
  qed
qed

definition open_slots :: "pydict \<Rightarrow> pydict \<Rightarrow> string list" where
  "open_slots produced sk = missing_slots (delta_run produced sk) @ malformed_slots (delta_run produced sk)"

text \<open>
  The entries of a skeleton that ask for something: all but those whose value is the empty mapping, which is
  what \<open>acknowledged_checks_skeleton\<close> gives when there are no checks.
\<close>

definition asking_entries :: "pydict \<Rightarrow> pydict" where
  "asking_entries sk = filter (\<lambda>kv. snd kv \<noteq> PDict []) sk"

lemma settled_empty_mapping: "settled produced (key, PDict [])"
  by (simp add: settled_iff)

text \<open>
  C33: the delta of a produced output against a skeleton is empty, with nothing left to request,
  exactly when the output structurally covers every entry of the skeleton that asks for something. An
  entry whose value is the empty mapping is not counted: it may even be absent from the output, although
  \<open>_slot_satisfied\<close> would then refuse it (Lemma \<open>no_checks_nothing_asked\<close>).
\<close>

theorem repair_delta_empty_iff_covered:
  assumes "unwrap skel ''skeleton'' = PDict sk" "wf_py (PDict sk)"
  shows "\<exists>s. repair_delta (PDict report) (PDict produced) skel = gadget_ok [(''delta'', PDict (delta_dict report s))] \<and>
    (missing_slots s = [] \<and> malformed_slots s = [] \<longleftrightarrow> slot_satisfied (PDict (asking_entries sk)) (PDict produced)) \<and>
    (fragment_request s = [] \<longleftrightarrow> slot_satisfied (PDict (asking_entries sk)) (PDict produced))"
proof -
  let ?P = "\<lambda>kv. case map_of produced (fst kv) of None \<Rightarrow> False | Some v \<Rightarrow> slot_satisfied (snd kv) v"
  have s: "settled produced kv \<longleftrightarrow> snd kv = PDict [] \<or> ?P kv" for kv
    using settled_satisfied [of "snd kv" produced "fst kv"] settled_empty_mapping [of produced "fst kv"]
    by (cases "snd kv = PDict []") (metis prod.collapse, simp)
  have "slot_satisfied (PDict (asking_entries sk)) (PDict produced) \<longleftrightarrow> (\<forall>kv\<in>set (asking_entries sk). ?P kv)"
    by (simp add: list_all_iff)
  then have "slot_satisfied (PDict (asking_entries sk)) (PDict produced) \<longleftrightarrow> (\<forall>kv\<in>set sk. settled produced kv)"
    unfolding s asking_entries_def set_filter by blast
  moreover have "fragment_request (delta_run produced sk) = [] \<longleftrightarrow> (\<forall>kv\<in>set sk. settled produced kv)"
    by (simp add: delta_run_parts(3) [OF assms(2)] asked_empty_iff)
  ultimately show ?thesis
    by (intro exI [of _ "delta_run produced sk"]) (simp add: repair_delta_def assms(1) no_open_slots_iff)
qed

theorem repair_delta_empty_iff_covered_witness:
  "\<exists>s. repair_delta (PDict []) (PDict [(''a'', PInt 1)]) (PDict [(''a'', PNone), (''b'', PDict [])]) =
         gadget_ok [(''delta'', PDict (delta_dict [] s))] \<and> missing_slots s = [] \<and> malformed_slots s = [] \<and> fragment_request s = []"
proof -
  have "unwrap (PDict [(''a'', PNone), (''b'', PDict [])]) ''skeleton'' = PDict [(''a'', PNone), (''b'', PDict [])]"
    by (simp add: unwrap_def py_get_def)
  from repair_delta_empty_iff_covered [OF this, of "[]" "[(''a'', PInt 1)]"]
  show ?thesis by (auto simp: asking_entries_def)
qed

lemma no_checks_nothing_asked:
  defines "sk \<equiv> PDict [(''acknowledged_patchwork_checks'', PDict [])]"
  shows "acknowledged_checks_skeleton (PDict [(''checks'', PDict [])]) = gadget_ok [(''skeleton'', sk)]"
    "repair_delta (PDict []) (PDict []) sk = gadget_ok [(''delta'', PDict (delta_dict [] (delta_run [] [(''acknowledged_patchwork_checks'', PDict [])])))]"
    "missing_slots (delta_run [] [(''acknowledged_patchwork_checks'', PDict [])]) = [] \<and>
     fragment_request (delta_run [] [(''acknowledged_patchwork_checks'', PDict [])]) = []"
    "\<not> slot_satisfied sk (PDict [])"
  unfolding sk_def by code_simp+

section \<open>A repair round\<close>

text \<open>
  A model answers a request for one key of a skeleton when it fills exactly the open slots: for a
  keyed list it answers with a list keyed by the same field.
\<close>

definition answers :: "pydict \<Rightarrow> string \<times> pyval \<Rightarrow> pyval \<Rightarrow> bool" where
  "answers produced kv fv =
     (case kv of (key, sk) \<Rightarrow>
       (case keyed_list_id_field sk of
          Some field \<Rightarrow>
            (let pending = filter (\<lambda>i. item_state produced key field i \<noteq> Filled) (produced_list sk) in
             keyed_list_id_field fv = Some field \<and>
             set (map (item_id field) (produced_list fv)) = set (map (item_id field) pending) \<and>
             list_all (\<lambda>i. slot_state_of i (find (\<lambda>v. item_text field v = Some (item_id field i)) (produced_list fv)) = Filled) pending)
        | None \<Rightarrow>
            (case sk of
               PDict names \<Rightarrow>
                 (let pending = filter (\<lambda>nv. name_state produced key nv \<noteq> Filled) names in
                  (case fv of
                     PDict d \<Rightarrow> set (map fst d) = set (map fst pending) \<and>
                                list_all (\<lambda>nv. slot_state_of (snd nv) (map_of d (fst nv)) = Filled) pending
                   | _ \<Rightarrow> False))
             | _ \<Rightarrow> keyed_list_id_field fv = None \<and> as_dict fv = None \<and> slot_satisfied sk fv)))"

text \<open>The container of the slots of a key is absent or of the shape of the skeleton.\<close>

definition mergeable :: "pydict \<Rightarrow> string \<times> pyval \<Rightarrow> bool" where
  "mergeable produced kv =
     (case kv of (key, sk) \<Rightarrow>
       (case map_of produced key of
          None \<Rightarrow> True
        | Some v \<Rightarrow>
            (case keyed_list_id_field sk of
               Some field \<Rightarrow> (case v of PList _ \<Rightarrow> True | _ \<Rightarrow> False)
             | None \<Rightarrow> (case sk of PDict _ \<Rightarrow> as_dict v \<noteq> None | _ \<Rightarrow> True))))"

definition answers_request :: "pydict \<Rightarrow> pydict \<Rightarrow> pydict \<Rightarrow> bool" where
  "answers_request produced sk frag \<longleftrightarrow>
     list_all (\<lambda>kv. case map_of frag (fst kv) of
                      None \<Rightarrow> asked produced kv = []
                    | Some fv \<Rightarrow> asked produced kv \<noteq> [] \<and> answers produced kv fv) sk \<and>
     list_all (\<lambda>kv. fst kv \<in> set (map fst sk)) frag"

lemma produced_list_old:
  "(case old of None \<Rightarrow> True | Some v \<Rightarrow> (case v of PList _ \<Rightarrow> True | _ \<Rightarrow> False)) \<Longrightarrow>
   keyed_list_id_field fv = Some f \<Longrightarrow>
   merged_value ov key old fv =
     PList (fold (put_item ov key f) (produced_list fv) (produced_list (case old of None \<Rightarrow> PNone | Some v \<Rightarrow> v)))"
  by (auto simp: merged_value_def produced_list_def split: option.splits pyval.splits)

lemma settled_after_list:
  assumes sk: "keyed_list_id_field sk = Some f" and m: "mergeable produced (key, sk)"
    and a: "answers produced (key, sk) fv"
    and ov: "\<And>i. i \<in> set (produced_list sk) \<Longrightarrow> item_state produced key f i = Malformed \<Longrightarrow> list_slot key f (item_id f i) \<in> set ov"
    and new: "map_of new key = Some (merged_value ov key (map_of produced key) fv)"
  shows "settled new (key, sk)"
proof -
  let ?old = "produced_list (py_get produced key)"
  let ?ask = "filter (\<lambda>i. item_state produced key f i \<noteq> Filled) (produced_list sk)"
  have fv: "keyed_list_id_field fv = Some f"
    and ids: "item_id f ` set (produced_list fv) = item_id f ` set ?ask"
    and fill: "i \<in> set ?ask \<Longrightarrow>
      slot_state_of i (find (\<lambda>v. item_text f v = Some (item_id f i)) (produced_list fv)) = Filled" for i
    using a sk by (auto simp: answers_def Let_def list_all_iff)
  obtain fs ss where lists: "fv = PList fs" "sk = PList ss" using keyed_listD [OF fv] keyed_listD [OF sk] by blast
  have fs: "fs = produced_list fv" "ss = produced_list sk" using lists by (simp_all add: produced_list_def)
  note kf = keyed_item_id [OF fv [unfolded lists(1)]] and ks = keyed_item_id [OF sk [unfolded lists(2)]]
  have val: "py_get new key = PList (fold (put_item ov key f) fs ?old)"
    using m sk fv new produced_list_old [of "map_of produced key" fv f ov key]
    by (auto simp: mergeable_def py_get_def fs split: option.splits)
  have look: "find (\<lambda>e. item_text f e = Some s) (fold (put_item ov key f) fs ?old) =
     (case find (\<lambda>i. item_text f i = Some s) fs of
        None \<Rightarrow> find (\<lambda>e. item_text f e = Some s) ?old
      | Some i \<Rightarrow> if item_applies ov key f i ?old then Some i else find (\<lambda>e. item_text f e = Some s) ?old)" for s
    using kf by (intro find_put_items) auto
  have "item_state new key f i = Filled" if i: "i \<in> set ss" for i
  proof (cases "item_state produced key f i = Filled")
    case True
    have "item_text f x \<noteq> Some (item_id f i)" if x: "x \<in> set fs" for x
    proof
      assume e: "item_text f x = Some (item_id f i)"
      then have "item_id f i = item_id f x" by (simp add: item_id_def)
      then obtain j where j: "j \<in> set ss" "item_state produced key f j \<noteq> Filled" "item_id f i = item_id f j"
        using ids x by (auto simp: fs image_iff set_eq_iff)
      then have "i = j" using ks(2) i by (auto simp: distinct_map inj_on_def)
      then show False using j True by simp
    qed
    then have "find (\<lambda>x. item_text f x = Some (item_id f i)) fs = None" by (auto simp: find_None_iff)
    then show ?thesis using True look [of "item_id f i"] by (simp add: item_state_def val produced_list_def)
  next
    case False
    then have f: "slot_state_of i (find (\<lambda>v. item_text f v = Some (item_id f i)) fs) = Filled"
      using fill [of i] i by (simp add: fs)
    then obtain x where x: "find (\<lambda>v. item_text f v = Some (item_id f i)) fs = Some x" "slot_satisfied i x"
      by (auto simp: slot_state_of_Filled split: option.splits)
    then have id: "item_id f x = item_id f i" by (auto simp: find_Some_iff item_id_def)
    have "item_applies ov key f x ?old"
    proof (cases "item_state produced key f i")
      case Missing
      then show ?thesis by (auto simp: item_applies_def item_state_def id slot_state_of_def split: option.splits if_splits)
    next
      case Malformed
      then show ?thesis using ov [of i] i by (simp add: item_applies_def fs id)
    qed (use False in simp)
    then show ?thesis using x look [of "item_id f i"] by (simp add: item_state_def val produced_list_def)
  qed
  then show ?thesis by (simp add: settled_iff sk fs)
qed

lemma settled_after_dict:
  assumes m: "mergeable produced (key, PDict names)" and w: "distinct (map fst names)" "wf_py fv"
    and a: "answers produced (key, PDict names) fv"
    and ov: "\<And>nv. nv \<in> set names \<Longrightarrow> name_state produced key nv = Malformed \<Longrightarrow> map_slot key (fst nv) \<in> set ov"
    and new: "map_of new key = Some (merged_value ov key (map_of produced key) fv)"
  shows "settled new (key, PDict names)"
proof -
  let ?old = "produced_dict (py_get produced key)"
  let ?ask = "filter (\<lambda>nv. name_state produced key nv \<noteq> Filled) names"
  obtain d where fv: "fv = PDict d" and ids: "fst ` set d = fst ` set ?ask"
    and fill: "nv \<in> set ?ask \<Longrightarrow> slot_state_of (snd nv) (map_of d (fst nv)) = Filled" for nv
    using a by (auto simp: answers_def Let_def list_all_iff split: pyval.splits)
  have d: "distinct (map fst d)" using w fv by simp
  have val: "py_get new key = PDict (fold (put_name ov key) d ?old)"
    using m new by (auto simp: fv mergeable_def merged_value_def py_get_def produced_dict_def split: option.splits pyval.splits)
  have look: "map_of (fold (put_name ov key) d ?old) n =
     (case map_of d n of None \<Rightarrow> map_of ?old n
      | Some v \<Rightarrow> if map_of ?old n = None \<or> map_slot key n \<in> set ov then Some v else map_of ?old n)" for n
    using d by (rule map_of_put_names)
  have "name_state new key nv = Filled" if nv: "nv \<in> set names" for nv
  proof (cases "name_state produced key nv = Filled")
    case True
    have "map_of d (fst nv) = None"
    proof (rule ccontr)
      assume "map_of d (fst nv) \<noteq> None"
      then have "fst nv \<in> fst ` set d" by (simp add: map_of_eq_None_iff)
      then obtain nw where "nw \<in> set names" "name_state produced key nw \<noteq> Filled" "fst nw = fst nv"
        unfolding ids by (auto simp: image_iff)
      then have "nw = nv" using w(1) nv by (metis distinct_map inj_onD)
      then show False using \<open>name_state produced key nw \<noteq> Filled\<close> True by simp
    qed
    then show ?thesis using True look [of "fst nv"] by (simp add: name_state_def val produced_dict_def)
  next
    case False
    then obtain v where v: "map_of d (fst nv) = Some v" "slot_satisfied (snd nv) v"
      using fill [of nv] nv by (auto simp: slot_state_of_Filled split: option.splits)
    have "map_of ?old (fst nv) = None \<or> map_slot key (fst nv) \<in> set ov"
      using False ov [OF nv] by (cases "name_state produced key nv") (auto simp: name_state_def)
    then show ?thesis using v look [of "fst nv"] by (simp add: name_state_def val produced_dict_def)
  qed
  then show ?thesis by (simp add: settled_iff)
qed

lemma settled_after_scalar:
  assumes sk: "keyed_list_id_field sk = None" "as_dict sk = None"
    and a: "answers produced (key, sk) fv"
    and ov: "slot_state_of sk (map_of produced key) = Malformed \<Longrightarrow> key \<in> set ov"
    and ask: "slot_state_of sk (map_of produced key) \<noteq> Filled"
    and new: "map_of new key = Some (merged_value ov key (map_of produced key) fv)"
  shows "settled new (key, sk)"
proof -
  have fv: "keyed_list_id_field fv = None" "as_dict fv = None" "slot_satisfied sk fv"
    using a sk by (cases sk; simp add: answers_def)+
  have "merged_value ov key (map_of produced key) fv =
      (case map_of produced key of None \<Rightarrow> fv | Some v \<Rightarrow> if key \<in> set ov then fv else v)"
    using fv by (cases fv) (simp_all add: merged_value_def split: option.split)
  moreover have "map_of produced key = None \<or> key \<in> set ov"
    using ask ov by (auto simp: slot_state_of_def split: option.splits if_splits)
  ultimately have "map_of new key = Some fv" using new by (auto split: option.splits)
  then show ?thesis using sk fv by (cases sk) (simp_all add: settled_iff)
qed

lemma settled_cong:
  assumes "map_of new key = map_of produced key"
  shows "settled new (key, s) = settled produced (key, s)"
  unfolding settled_iff item_state_def name_state_def py_get_def assms by (rule refl)

lemma slots_malformed_in:
  "kv \<in> set sk \<Longrightarrow> set (slots_in Malformed produced kv) \<subseteq> set (malformed_slots (delta_run produced sk))"
  by (auto simp: delta_run_parts)

lemma settled_after_merge:
  assumes sk: "wf_py (PDict sk)" and kv: "(key, s) \<in> set sk" and wfv: "wf_py fv"
    and m: "mergeable produced (key, s)" and a: "answers produced (key, s) fv" and open_slot: "\<not> settled produced (key, s)"
    and ov: "ov = malformed_slots (delta_run produced sk)"
    and new: "map_of new key = Some (merged_value ov key (map_of produced key) fv)"
  shows "settled new (key, s)"
proof (cases "keyed_list_id_field s")
  case (Some f)
  show ?thesis
  proof (rule settled_after_list [OF Some m a _ new])
    fix i assume "i \<in> set (produced_list s)" "item_state produced key f i = Malformed"
    then show "list_slot key f (item_id f i) \<in> set ov"
      using Some slots_malformed_in [OF kv, of produced] unfolding ov slots_in_def by (simp add: subset_iff)
  qed
next
  case None
  note keyed = None
  show ?thesis
  proof (cases "as_dict s")
    case (Some names)
    then have s: "s = PDict names" by simp
    have d: "distinct (map fst names)" using sk kv s by (auto simp: list_all_iff)
    show ?thesis unfolding s
    proof (rule settled_after_dict [OF _ d wfv _ _ new])
      fix nv assume "nv \<in> set names" "name_state produced key nv = Malformed"
      then show "map_slot key (fst nv) \<in> set ov"
        using slots_malformed_in [OF kv, of produced] s unfolding ov slots_in_def by (simp add: subset_iff)
    qed (use m a s in simp_all)
  next
    case None
    have st: "slots_in st produced (key, s) = (if slot_state_of s (map_of produced key) = st then [key] else [])" for st
      using keyed None by (cases s) (simp_all add: slots_in_def)
    show ?thesis
    proof (rule settled_after_scalar [OF keyed None a _ _ new])
      show "slot_state_of s (map_of produced key) = Malformed \<Longrightarrow> key \<in> set ov"
        using slots_malformed_in [OF kv, of produced] unfolding ov by (simp add: st)
      show "slot_state_of s (map_of produced key) \<noteq> Filled"
        using open_slot by (cases "map_of produced key") (auto simp: settled_def st slot_state_of_def)
    qed
  qed
qed

lemma overwritable_of_delta:
  "repair_delta (PDict report) (PDict produced) skel = gadget_ok [(''delta'', PDict (delta_dict report s))] \<Longrightarrow>
   overwritable_of (unwrap (repair_delta (PDict report) (PDict produced) skel) ''delta'') = Inr (malformed_slots s)"
  by (simp add: gadget_ok_def unwrap_def py_get_def has_key_def overwritable_of_def delta_dict_def
      py_get_default_def list_all_iff o_def)

text \<open>
  C4: one repair round converges: when every container of an open slot is absent or of the shape of
  the skeleton, and the model's fragment answers exactly the requested slots, the merge of the
  fragment under the computed delta leaves no slot missing and none malformed.
\<close>

theorem repair_round_converges:
  assumes skel: "unwrap skel ''skeleton'' = PDict sk" and wf: "wf_py (PDict sk)" "wf_py (PDict frag)"
    and m: "list_all (mergeable produced) sk" and a: "answers_request produced sk frag"
  shows "\<exists>final ap sp. merge_fragment (PDict produced) (PDict frag) (repair_delta (PDict report) (PDict produced) skel) =
      gadget_ok [(''merged'', PDict final), (''applied_slots'', ap), (''skipped_slots'', sp)] \<and>
    missing_slots (delta_run final sk) = [] \<and> malformed_slots (delta_run final sk) = []"
proof -
  let ?d = "delta_run produced sk"
  let ?r = "merge_run produced (malformed_slots ?d) frag"
  have r: "repair_delta (PDict report) (PDict produced) skel = gadget_ok [(''delta'', PDict (delta_dict report ?d))]"
    by (simp add: repair_delta_def skel)
  have look: "map_of (merged ?r) k = (case map_of frag k of None \<Rightarrow> map_of produced k
      | Some fv \<Rightarrow> Some (merged_value (malformed_slots ?d) k (map_of produced k) fv))" for k
    using wf(2) by (intro merge_run_merged) simp
  have "settled (merged ?r) kv" if kv: "kv \<in> set sk" for kv
  proof (cases kv)
    case (Pair key s)
    show ?thesis
    proof (cases "map_of frag key")
      case None
      then have "settled produced kv"
        using a kv Pair by (auto simp: answers_request_def list_all_iff asked_empty_iff)
      then show ?thesis using None look [of key] Pair settled_cong [of "merged ?r" key produced s] by simp
    next
      case (Some fv)
      have "answers produced kv fv" "\<not> settled produced kv"
        using a kv Pair Some by (auto simp: answers_request_def list_all_iff asked_empty_iff)
      moreover have "wf_py fv" using wf(2) map_of_SomeD [OF Some] by (auto simp: list_all_iff)
      moreover have "mergeable produced kv" using m kv by (simp add: list_all_iff)
      ultimately show ?thesis using kv Pair Some look [of key]
        by (simp add: settled_after_merge [OF wf(1) _ _ _ _ _ refl])
    qed
  qed
  then have "missing_slots (delta_run (merged ?r) sk) = [] \<and> malformed_slots (delta_run (merged ?r) sk) = []"
    by (simp add: no_open_slots_iff)
  then show ?thesis
    by (intro exI [of _ "merged ?r"]) (simp add: merge_fragment_def overwritable_of_delta [OF r] Let_def gadget_ok_def)
qed

definition example_skeleton :: pydict where
  "example_skeleton = [(''e'', PList [PDict [(''c_id'', PStr ''a''), (''s'', PNone)], PDict [(''c_id'', PStr ''b''), (''s'', PNone)]])]"

definition example_produced :: pydict where
  "example_produced = [(''e'', PList [PDict [(''c_id'', PStr ''b''), (''s'', PNone)]])]"

definition example_fragment :: pydict where
  "example_fragment = [(''e'', PList [PDict [(''c_id'', PStr ''b''), (''s'', PInt 1)], PDict [(''c_id'', PStr ''a''), (''s'', PInt 2)]])]"

theorem repair_round_converges_witness:
  "\<exists>final ap sp. merge_fragment (PDict example_produced) (PDict example_fragment)
        (repair_delta (PDict []) (PDict example_produced) (PDict example_skeleton)) =
      gadget_ok [(''merged'', PDict final), (''applied_slots'', ap), (''skipped_slots'', sp)] \<and>
    missing_slots (delta_run final example_skeleton) = [] \<and> malformed_slots (delta_run final example_skeleton) = []"
  by (rule repair_round_converges) code_simp+

text \<open>
  The request a round sends carries the untouched skeleton of exactly the open slots, and a
  container that holds null (present, not of the shape of the skeleton) is never repaired: its slots
  are reported missing, and every merge under that delta leaves the null in place.
\<close>

theorem null_container_never_repaired:
  assumes "unwrap skel ''skeleton'' = PDict sk" "wf_py (PDict sk)" "wf_py (PDict frag)"
    and "(key, PList items) \<in> set sk" "keyed_list_id_field (PList items) = Some f"
    and "map_of produced key = Some PNone" "key \<notin> set (malformed_slots (delta_run produced sk))"
  shows "\<exists>final ap sp. merge_fragment (PDict produced) (PDict frag) (repair_delta (PDict report) (PDict produced) skel) =
      gadget_ok [(''merged'', PDict final), (''applied_slots'', ap), (''skipped_slots'', sp)] \<and>
    map_of final key = Some PNone \<and>
    (\<forall>i\<in>set items. list_slot key f (item_id f i) \<in> set (missing_slots (delta_run final sk)))"
proof -
  let ?d = "delta_run produced sk"
  let ?r = "merge_run produced (malformed_slots ?d) frag"
  have r: "repair_delta (PDict report) (PDict produced) skel = gadget_ok [(''delta'', PDict (delta_dict report ?d))]"
    by (simp add: repair_delta_def assms(1))
  have "merged_value (malformed_slots ?d) key (Some PNone) fv = PNone" for fv
    using assms(7) by (simp add: merged_value_def split: option.split pyval.split)
  then have n: "map_of (merged ?r) key = Some PNone"
    using merge_run_merged [of frag produced "malformed_slots ?d" key] assms(3,6) by (simp split: option.splits)
  have "slots_in Missing (merged ?r) (key, PList items) = map (\<lambda>i. list_slot key f (item_id f i)) items"
    using n assms(5) by (simp add: slots_in_def item_state_def py_get_def produced_list_def)
  then have "\<forall>i\<in>set items. list_slot key f (item_id f i) \<in> set (missing_slots (delta_run (merged ?r) sk))"
    using assms(4) by (auto simp: delta_run_parts intro!: bexI [of _ "(key, PList items)"])
  then show ?thesis using n
    by (intro exI [of _ "merged ?r"]) (simp add: merge_fragment_def overwritable_of_delta [OF r] Let_def gadget_ok_def)
qed

theorem null_container_never_repaired_witness:
  "\<exists>final ap sp. merge_fragment (PDict [(''e'', PNone)]) (PDict example_fragment)
        (repair_delta (PDict []) (PDict [(''e'', PNone)]) (PDict example_skeleton)) =
      gadget_ok [(''merged'', PDict final), (''applied_slots'', ap), (''skipped_slots'', sp)] \<and>
    map_of final ''e'' = Some PNone \<and>
    list_slot ''e'' ''c_id'' ''a'' \<in> set (missing_slots (delta_run final example_skeleton))"
proof -
  let ?items = "[PDict [(''c_id'', PStr ''a''), (''s'', PNone)], PDict [(''c_id'', PStr ''b''), (''s'', PNone)]]"
  have "item_id ''c_id'' (hd ?items) = ''a''" by code_simp
  moreover have "\<exists>final ap sp. merge_fragment (PDict [(''e'', PNone)]) (PDict example_fragment)
        (repair_delta (PDict []) (PDict [(''e'', PNone)]) (PDict example_skeleton)) =
      gadget_ok [(''merged'', PDict final), (''applied_slots'', ap), (''skipped_slots'', sp)] \<and>
    map_of final ''e'' = Some PNone \<and>
    (\<forall>i\<in>set ?items. list_slot ''e'' ''c_id'' (item_id ''c_id'' i) \<in> set (missing_slots (delta_run final example_skeleton)))"
    by (rule null_container_never_repaired [where key = "''e''" and items = ?items]) code_simp+
  ultimately show ?thesis by (metis list.sel(1) list.set_sel(1) list.simps(3))
qed

section \<open>The merge only fills\<close>

text \<open>What a merge may do to the value a key already has.\<close>

definition filled_from :: "string list \<Rightarrow> string \<Rightarrow> pyval \<Rightarrow> pyval \<Rightarrow> bool" where
  "filled_from ov key v v' \<longleftrightarrow>
     v' = v \<or> key \<in> set ov \<or>
     (\<exists>t t'. v = PList t \<and> v' = PList t' \<and> length t \<le> length t' \<and>
        (\<forall>i<length t. t' ! i = t ! i \<or>
           (\<exists>f s. item_text f (t ! i) = Some s \<and> item_text f (t' ! i) = Some s \<and> list_slot key f s \<in> set ov))) \<or>
     (\<exists>d d'. v = PDict d \<and> v' = PDict d' \<and>
        (\<forall>n w. map_of d n = Some w \<longrightarrow> map_of d' n = Some w \<or> map_slot key n \<in> set ov))"

lemma put_item_fills:
  assumes "item_text f item = Some (item_id f item)" "i < length t"
  shows "length t \<le> length (put_item ov key f item t) \<and>
    (put_item ov key f item t ! i = t ! i \<or>
      item_text f (t ! i) = Some (item_id f item) \<and> put_item ov key f item t ! i = item \<and> list_slot key f (item_id f item) \<in> set ov)"
proof (cases "index_of (\<lambda>e. item_text f e = Some (item_id f item)) t")
  case (Some j)
  then show ?thesis using assms index_of_Some [OF Some] by (cases "i = j") (auto simp: put_item_def)
qed (use assms in \<open>simp add: put_item_def nth_append\<close>)

lemma put_items_fill:
  assumes "\<forall>x\<in>set items. item_text f x = Some (item_id f x)" "i < length t"
  shows "length t \<le> length (fold (put_item ov key f) items t) \<and>
    (fold (put_item ov key f) items t ! i = t ! i \<or>
      (\<exists>s. item_text f (t ! i) = Some s \<and> item_text f (fold (put_item ov key f) items t ! i) = Some s \<and> list_slot key f s \<in> set ov))"
  using assms
proof (induction items arbitrary: t)
  case (Cons x items)
  let ?t = "put_item ov key f x t"
  have s: "length t \<le> length ?t" "?t ! i = t ! i \<or>
      item_text f (t ! i) = Some (item_id f x) \<and> ?t ! i = x \<and> list_slot key f (item_id f x) \<in> set ov"
    using put_item_fills [of f x i t ov key] Cons.prems by auto
  have x: "item_text f x = Some (item_id f x)" using Cons.prems by simp
  have "i < length ?t" using s(1) Cons.prems(2) by simp
  note ih = Cons.IH [OF _ this]
  show ?case using ih Cons.prems(1) s x by fastforce
qed simp

lemma merged_value_fills: "wf_py fv \<Longrightarrow> filled_from ov key v (merged_value ov key (Some v) fv)"
proof (cases "keyed_list_id_field fv")
  case (Some f)
  then obtain fs where fv: "fv = PList fs" using keyed_listD by blast
  have k: "\<forall>x\<in>set fs. item_text f x = Some (item_id f x)"
    using keyed_item_id(3) [of fs f] Some fv by blast
  show ?thesis
  proof (cases v)
    case (PList t)
    have "length t \<le> length (fold (put_item ov key f) fs t)"
      using put_items_fill [OF k, of _ t ov key] by (cases t) auto
    moreover have "\<forall>i<length t. fold (put_item ov key f) fs t ! i = t ! i \<or>
        (\<exists>f' s. item_text f' (t ! i) = Some s \<and> item_text f' (fold (put_item ov key f) fs t ! i) = Some s \<and> list_slot key f' s \<in> set ov)"
      using put_items_fill [OF k, of _ t ov key] by blast
    ultimately show ?thesis using PList Some fv by (simp add: filled_from_def merged_value_def produced_list_def)
  qed (use Some fv in \<open>simp_all add: filled_from_def merged_value_def\<close>)
next
  case None
  note keyed = None
  assume wf: "wf_py fv"
  show ?thesis
  proof (cases "as_dict fv")
    case (Some nvs)
    then show ?thesis using wf
      by (cases v) (auto simp: filled_from_def merged_value_def map_of_put_names split: option.splits)
  next
    case None
    then show ?thesis using keyed by (cases fv) (auto simp: filled_from_def merged_value_def)
  qed
qed

text \<open>The slots a fragment addresses, in its order.\<close>

definition fragment_slots :: "string \<times> pyval \<Rightarrow> string list" where
  "fragment_slots kv =
     (case kv of (key, fv) \<Rightarrow>
       (case keyed_list_id_field fv of
          Some f \<Rightarrow> map (\<lambda>i. list_slot key f (item_id f i)) (produced_list fv)
        | None \<Rightarrow> (case fv of PDict nvs \<Rightarrow> map (\<lambda>nv. map_slot key (fst nv)) nvs | _ \<Rightarrow> [key])))"

lemma fold_item_slots:
  "fold (merge_item ov key f) items (t, ap, sp) = (t', ap', sp') \<Longrightarrow>
   mset ap' + mset sp' = mset ap + mset sp + mset (map (\<lambda>i. list_slot key f (item_id f i)) items)"
proof (induction items arbitrary: t ap sp)
  case (Cons i items)
  then show ?case by (cases "item_applies ov key f i t") (auto simp: merge_item_step dest!: Cons.IH)
qed simp

lemma fold_name_slots:
  "fold (merge_name ov key) nvs (t, ap, sp) = (t', ap', sp') \<Longrightarrow>
   mset ap' + mset sp' = mset ap + mset sp + mset (map (\<lambda>nv. map_slot key (fst nv)) nvs)"
proof (induction nvs arbitrary: t ap sp)
  case (Cons nv nvs)
  then show ?case
    by (cases "map_of t (fst nv) = None \<or> map_slot key (fst nv) \<in> set ov") (auto simp: merge_name_step dest!: Cons.IH)
qed simp

lemma merge_key_slots:
  "mset (applied_slots (merge_key ov kv s)) + mset (skipped_slots (merge_key ov kv s)) =
   mset (applied_slots s) + mset (skipped_slots s) + mset (fragment_slots kv)"
proof (cases kv)
  case (Pair key fv)
  show ?thesis
  proof (cases "keyed_list_id_field fv")
    case (Some f)
    then show ?thesis using Pair
      by (auto simp: merge_key_def fragment_slots_def Let_def dest!: fold_item_slots split: pyval.split prod.split)
  next
    case None
    then show ?thesis using Pair
      by (cases fv) (auto simp: merge_key_def fragment_slots_def Let_def dest!: fold_name_slots split: pyval.split prod.split)
  qed
qed

lemma merge_run_slots:
  "mset (applied_slots (merge_run produced ov frag)) + mset (skipped_slots (merge_run produced ov frag)) =
   mset (concat (map fragment_slots frag))"
proof -
  have "mset (applied_slots (fold (merge_key ov) frag s)) + mset (skipped_slots (fold (merge_key ov) frag s)) =
      mset (applied_slots s) + mset (skipped_slots s) + mset (concat (map fragment_slots frag))" for s
    by (induction frag arbitrary: s) (simp_all add: merge_key_slots)
  then show ?thesis by (simp add: merge_run_def)
qed

text \<open>
  C31: the merge only fills: a key the fragment does not name keeps its value; a value that is
  present is extended, and changed only at a slot the delta lists as overwritable; and every slot of
  the fragment is reported once, as applied or as skipped.
\<close>

theorem merge_only_fills:
  assumes "wf_py (PDict frag)" "overwritable_of (unwrap delta ''delta'') = Inr ov"
  shows "\<exists>final ap sp. merge_fragment (PDict produced) (PDict frag) delta =
      gadget_ok [(''merged'', PDict final), (''applied_slots'', PList (map PStr ap)), (''skipped_slots'', PList (map PStr sp))] \<and>
    (\<forall>key. map_of frag key = None \<longrightarrow> map_of final key = map_of produced key) \<and>
    (\<forall>key v. map_of produced key = Some v \<longrightarrow> (\<exists>v'. map_of final key = Some v' \<and> filled_from ov key v v')) \<and>
    mset ap + mset sp = mset (concat (map fragment_slots frag))"
proof -
  let ?r = "merge_run produced ov frag"
  have look: "map_of (merged ?r) k = (case map_of frag k of None \<Rightarrow> map_of produced k
      | Some fv \<Rightarrow> Some (merged_value ov k (map_of produced k) fv))" for k
    using assms(1) by (intro merge_run_merged) simp
  have "wf_py fv" if "map_of frag k = Some fv" for k fv
    using assms(1) map_of_SomeD [OF that] by (auto simp: list_all_iff)
  then have "\<exists>v'. map_of (merged ?r) key = Some v' \<and> filled_from ov key v v'" if "map_of produced key = Some v" for key v
    using that look [of key] merged_value_fills
    by (cases "map_of frag key") (auto simp: filled_from_def [of _ _ v v])
  then show ?thesis using look merge_run_slots [of produced ov frag]
    by (intro exI [of _ "merged ?r"] exI [of _ "applied_slots ?r"] exI [of _ "skipped_slots ?r"])
      (simp add: merge_fragment_def assms(2) Let_def)
qed

theorem merge_only_fills_witness:
  "\<exists>final ap sp. merge_fragment (PDict example_produced) (PDict example_fragment) PNone =
      gadget_ok [(''merged'', PDict final), (''applied_slots'', PList (map PStr ap)), (''skipped_slots'', PList (map PStr sp))] \<and>
    (\<exists>v'. map_of final ''e'' = Some v' \<and> filled_from [] ''e'' (snd (hd example_produced)) v') \<and>
    mset ap + mset sp = mset (concat (map fragment_slots example_fragment))"
proof -
  have wf: "wf_py (PDict example_fragment)" and ov: "overwritable_of (unwrap PNone ''delta'') = Inr []" by code_simp+
  have old: "map_of example_produced ''e'' = Some (snd (hd example_produced))" by code_simp
  show ?thesis using merge_only_fills [OF wf ov, of example_produced] old by blast
qed

section \<open>The evaluation matrix\<close>

lemma item_text_slot [simp]:
  "item_text ''candidate_id'' (evaluation_slot flds leaves c) = Some c"
  "item_id ''candidate_id'' (evaluation_slot flds leaves c) = c"
  by (simp_all add: item_text_def item_id_def evaluation_slot_def py_get_def)

lemma ids_of_map: "ids_of f (map g xs) = Some ys \<longleftrightarrow> map (\<lambda>x. f (g x)) xs = map Some ys"
  by (induction xs arbitrary: ys) (auto split: option.splits simp: map_eq_Cons_conv Cons_eq_map_conv)

lemma map_Some_self [simp]: "map (\<lambda>x. Some x) xs = map Some ys \<longleftrightarrow> xs = ys"
  using inj_map_eq_map [of Some xs ys] by simp

lemma keyed_matrix:
  assumes "ids \<noteq> []" "distinct ids" "[] \<notin> set ids"
  shows "keyed_list_id_field (PList (map (evaluation_slot flds leaves) ids)) = Some ''candidate_id''"
proof -
  have "map (\<lambda>c. nonempty_text ''candidate_id'' (evaluation_slot flds leaves c)) ids = map Some ids"
    using assms(3) by (auto simp: nonempty_text_def)
  then have "ids_of (nonempty_text ''candidate_id'') (map (evaluation_slot flds leaves) ids) = Some ids"
    by (simp add: ids_of_map)
  then have u: "unique_field (map (evaluation_slot flds leaves) ids) ''candidate_id''"
    using assms(2) by (simp add: unique_field_def)
  obtain c cs where ids: "ids = c # cs" using assms(1) by (cases ids) auto
  have d: "list_all (\<lambda>i. as_dict i \<noteq> None) (map (evaluation_slot flds leaves) cs)"
    by (simp add: list_all_iff evaluation_slot_def)
  have f: "filter is_id_field [''candidate_id'', ''scores''] = [''candidate_id'']"
    by (simp add: is_id_field_def endswith_def)
  show ?thesis using u d f
    by (simp add: keyed_list_id_field_def ids evaluation_slot_def [of _ _ c] Let_def)
qed

text \<open>A score placeholder is filled when every leaf of every field holds a value.\<close>

definition leaves_filled :: "string list \<Rightarrow> pyval \<Rightarrow> bool" where
  "leaves_filled leaves v = (case v of PDict s \<Rightarrow> list_all (\<lambda>leaf. py_get s leaf \<noteq> PNone) leaves | _ \<Rightarrow> False)"

definition scores_filled :: "string list \<Rightarrow> string list \<Rightarrow> pyval \<Rightarrow> bool" where
  "scores_filled flds leaves v =
     (if flds = [] then v \<noteq> PNone
      else (case v of
              PDict d \<Rightarrow> list_all (\<lambda>f. case map_of d f of None \<Rightarrow> False | Some s \<Rightarrow> leaves_filled leaves s) flds
            | _ \<Rightarrow> False))"

definition evaluated :: "string list \<Rightarrow> string list \<Rightarrow> pyval list \<Rightarrow> string \<Rightarrow> bool" where
  "evaluated flds leaves evaluations c =
     (case find (\<lambda>e. item_text ''candidate_id'' e = Some c) evaluations of
        Some (PDict d) \<Rightarrow> scores_filled flds leaves (py_get d ''scores'')
      | _ \<Rightarrow> False)"

lemma leaf_placeholders [simp]:
  "slot_satisfied (PDict (map (\<lambda>leaf. (leaf, PNone)) leaves)) v \<longleftrightarrow> leaves_filled leaves v"
  by (auto simp: list_all_iff py_get_def leaves_filled_def split: pyval.split option.split)

lemma field_placeholders:
  "slot_satisfied (PDict (map (\<lambda>f. (f, PDict (map (\<lambda>leaf. (leaf, PNone)) leaves))) flds)) (PDict d) \<longleftrightarrow>
   list_all (\<lambda>f. case map_of d f of None \<Rightarrow> False | Some s \<Rightarrow> leaves_filled leaves s) flds"
  by (subst slot_satisfied.simps)
    (simp add: list.pred_map o_def snd_conv del: slot_satisfied.simps cong: option.case_cong)

lemma score_placeholder_satisfied:
  "slot_satisfied (score_placeholder flds leaves) v \<longleftrightarrow> scores_filled flds leaves v"
proof (cases v)
  case (PDict d)
  then show ?thesis using field_placeholders [of leaves flds d]
    by (simp add: score_placeholder_def scores_filled_def del: slot_satisfied.simps(2))
qed (simp_all add: score_placeholder_def scores_filled_def)

lemma score_placeholder_scores: "scores_filled flds leaves PNone = False"
  by (simp add: scores_filled_def)

lemma slot_matches:
  assumes "item_text ''candidate_id'' e = Some c"
  shows "slot_satisfied (evaluation_slot flds leaves c) e \<longleftrightarrow>
    (case e of PDict d \<Rightarrow> scores_filled flds leaves (py_get d ''scores'') | _ \<Rightarrow> False)"
proof -
  obtain d where e: "e = PDict d" and "map_of d ''candidate_id'' = Some (PStr c)"
    using assms by (auto simp: item_text_def py_get_def split: pyval.splits option.splits)
  then show ?thesis
    by (auto simp: evaluation_slot_def score_placeholder_satisfied py_get_def scalar_eq_def score_placeholder_scores split: option.split)
qed

lemma matrix_satisfied:
  assumes "ids \<noteq> []" "distinct ids" "[] \<notin> set ids"
  shows "slot_satisfied (PDict [(''evaluations'', PList (map (evaluation_slot flds leaves) ids))]) (PDict produced) \<longleftrightarrow>
    (case py_get produced ''evaluations'' of PList es \<Rightarrow> list_all (evaluated flds leaves es) ids | _ \<Rightarrow> False)"
proof -
  have e: "(case map_of (index_keyed_items es ''candidate_id'') c of None \<Rightarrow> False
      | Some v \<Rightarrow> slot_satisfied (evaluation_slot flds leaves c) v) = evaluated flds leaves es c" for es c
  proof (cases "find (\<lambda>v. item_text ''candidate_id'' v = Some c) es")
    case (Some v)
    then have "item_text ''candidate_id'' v = Some c" by (auto simp: find_Some_iff)
    then show ?thesis using Some slot_matches [of v c flds leaves]
      by (simp add: map_of_index evaluated_def split: pyval.splits)
  qed (simp add: map_of_index evaluated_def)
  show ?thesis
  proof (cases "map_of produced ''evaluations''")
    case (Some v)
    then show ?thesis using keyed_matrix [OF assms, of flds leaves]
      by (cases v) (simp_all add: py_get_def list.pred_map o_def e)
  qed (simp add: py_get_def)
qed
end
