(* ===== verification/Rejections.thy ===== *)
theory Rejections imports PyRegex PyJson begin
text \<open>
  The classification of validator rejections in \<open>src/ai_org/patchwork_queue/codex_exec.py\<close>: every
  error text of a deterministic validator becomes an atom (rule, class, JSON pointer, subject) with
  a fingerprint, and a retry that repeats an atom of the attempt before it is permanent.
  \<open>sha256\<close> is an argument \<open>digest\<close> (the hexadecimal digest of a text).
\<close>

section \<open>Text\<close>

lemma length_dropWhile_Cons: "dropWhile P s = c # t \<Longrightarrow> length t < length s"
  by (metis length_Cons length_dropWhile_le less_Suc_eq_le order.strict_iff_not Suc_le_eq)

text \<open>\<open>re.findall\<close> of a repeated character class: the maximal runs; \<open>str.split()\<close> is an instance.\<close>

function runs :: "(char \<Rightarrow> bool) \<Rightarrow> string \<Rightarrow> string list" where
  "runs P s = (case dropWhile (\<lambda>c. \<not> P c) s of [] \<Rightarrow> [] | c # t \<Rightarrow> (c # takeWhile P t) # runs P (dropWhile P t))"
  by pat_completeness auto

termination
proof (relation "measure (\<lambda>(P, s). length s)")
  fix P and s :: string and c t
  assume "dropWhile (\<lambda>c. \<not> P c) s = c # t"
  then have "length (dropWhile P t) < length s"
    using length_dropWhile_Cons [of "\<lambda>c. \<not> P c" s c t] length_dropWhile_le [of P t] by simp
  then show "((P, dropWhile P t), P, s) \<in> measure (\<lambda>(P, s). length s)" by simp
qed simp

declare runs.simps [simp del]

definition py_split :: "string \<Rightarrow> string list" where
  "py_split s = runs (\<lambda>c. \<not> is_space c) s"

fun split_char :: "char \<Rightarrow> string \<Rightarrow> string list" where
  "split_char c [] = [[]]"
| "split_char c (x # xs) =
     (if x = c then [] # split_char c xs
      else (case split_char c xs of [] \<Rightarrow> [[x]] | p # ps \<Rightarrow> (x # p) # ps))"

definition replace_char :: "char \<Rightarrow> string \<Rightarrow> string \<Rightarrow> string" where
  "replace_char c w s = concat (map (\<lambda>x. if x = c then w else [x]) s)"

definition strip_chars :: "(char \<Rightarrow> bool) \<Rightarrow> string \<Rightarrow> string" where
  "strip_chars P s = rev (dropWhile P (rev (dropWhile P s)))"

definition in_text :: "string \<Rightarrow> string \<Rightarrow> bool" where
  "in_text w s \<longleftrightarrow> py_find w s \<noteq> None"

definition is_quote :: "char \<Rightarrow> bool" where
  "is_quote c \<longleftrightarrow> char_code c = 39 \<or> char_code c = 34"

section \<open>JSON pointers\<close>

text \<open>The pieces of one dotted part: the text before each bracket and the index inside it.\<close>

lemma py_find_bound: "py_find p s = Some i \<Longrightarrow> i + length p \<le> length s"
proof (induction s arbitrary: i)
  case (Cons x s)
  then show ?case by (auto simp: startswith_iff dest: arg_cong [where f = length] split: if_splits)
qed (auto split: if_splits)

lemma py_partition_lengths:
  "py_partition p s = (a, True, b) \<Longrightarrow> length a + length p + length b = length s"
  "py_partition p s = (a, False, b) \<Longrightarrow> a = s \<and> b = []"
  by (auto simp: py_partition_def dest: py_find_bound split: option.splits)

function part_pieces :: "string \<Rightarrow> string list" where
  "part_pieces part =
     (case py_partition ''['' part of
        (head, found, tail) \<Rightarrow>
          if found then
            (case py_partition '']'' tail of
               (index, closed, rest) \<Rightarrow>
                 (if head = [] then [] else [head])
                 @ (if index = [] then [] else [strip_chars is_quote index])
                 @ part_pieces rest)
          else if part = [] then [] else [part])"
  by pat_completeness auto
termination
proof (relation "measure length")
  fix part head found tail index closed rest y ya
  assume a: "(head, y) = py_partition ''['' part" "(found, tail) = y" "found"
    "(index, ya) = py_partition '']'' tail" "(closed, rest) = ya"
  have "length tail < length part" using py_partition_lengths(1) [of "''[''" part head tail] a by auto
  moreover have "length rest \<le> length tail"
    using py_partition_lengths [of "'']''" tail index rest] a by (cases closed) auto
  ultimately show "(rest, part) \<in> measure length" by simp
qed simp

declare part_pieces.simps [simp del]

definition path_pieces :: "string \<Rightarrow> string list" where
  "path_pieces path =
     (let p = (if startswith path ''$.'' then drop 2 path else if startswith path ''$'' then drop 1 path else path)
      in concat (map part_pieces (split_char (CHR ''.'') p)))"

definition escape_piece :: "string \<Rightarrow> string" where
  "escape_piece s = replace_char (CHR ''/'') ''~1'' (replace_char (CHR ''~'') ''~0'' s)"

definition to_json_pointer :: "string \<Rightarrow> string" where
  "to_json_pointer path =
     (let p = py_strip (if path = [] then ''$'' else path) in
      if p = [] \<or> p = ''$'' then []
      else if startswith p ''/'' then p
      else ''/'' @ py_join ''/'' (map escape_piece (path_pieces p)))"

section \<open>Atoms\<close>

definition is_atom_char :: "char \<Rightarrow> bool" where
  "is_atom_char c \<longleftrightarrow> is_lower c \<or> is_digit c \<or> c \<in> set ''_./-''"

definition normalize_atom :: "string \<Rightarrow> string" where
  "normalize_atom v = take 160 (py_join '' '' (runs is_atom_char (py_lower v)))"

definition classify_error :: "string \<Rightarrow> string" where
  "classify_error error =
     (let l = py_lower error in
      if in_text ''invalid json'' l \<or> in_text ''non-object json'' l then ''invalid_json''
      else if in_text ''empty'' l then ''empty_slot''
      else if in_text ''mismatch'' l \<or> in_text ''wrong'' l then ''mismatch''
      else if in_text ''duplicate'' l then ''duplicate''
      else if in_text ''invalid field'' l \<or> in_text ''fields do not match schema'' l then ''invalid_fields''
      else ''validation'')"

definition name_start :: "char \<Rightarrow> bool" where
  "name_start c \<longleftrightarrow> is_lower c \<or> is_upper c \<or> c = CHR ''_''"

definition name_char :: "char \<Rightarrow> bool" where
  "name_char c \<longleftrightarrow> name_start c \<or> is_digit c"

definition path_name :: rex where
  "path_name = seqs [Chr name_start, Star (Chr name_char),
     opt (seqs [Chr (\<lambda>c. c = CHR ''[''), plus (Chr (\<lambda>c. c \<noteq> CHR '']'')), Chr (\<lambda>c. c = CHR '']'')])]"

definition path_re :: rex where
  "path_re = Seq path_name (Star (Seq (Chr (\<lambda>c. c = CHR ''.'')) path_name))"

definition NON_PATH_WORDS :: "string list" where
  "NON_PATH_WORDS = [''Codex'', ''Previous'', ''Reviewer'', ''Return'', ''Regenerate'', ''Correct'', ''Fix'', ''JSON'']"

definition extract_path :: "string \<Rightarrow> string" where
  "extract_path error =
     (case find (\<lambda>c. c \<notin> set NON_PATH_WORDS \<and> (CHR ''.'' \<in> set c \<or> CHR ''['' \<in> set c))
             (group_finditer WordEdge path_re WordEdge error 0) of
        Some c \<Rightarrow> c
      | None \<Rightarrow> ''$'')"

definition rule_char :: "char \<Rightarrow> bool" where
  "rule_char c \<longleftrightarrow> is_lower c \<or> is_upper c \<or> is_digit c \<or> c \<in> set ''_.-''"

definition rule_re :: rex where
  "rule_re = seqs [Chr (\<lambda>c. c = CHR ''C''), plus (Chr is_digit), opt (plus (Chr rule_char))]"

text \<open>\<open>str.isalpha\<close> for the code points 0 to 255.\<close>

definition is_alpha :: "char \<Rightarrow> bool" where
  "is_alpha c = (let n = char_code c in
     is_lower c \<or> is_upper c \<or> n = 170 \<or> n = 181 \<or> n = 186 \<or> (192 \<le> n \<and> n \<noteq> 215 \<and> n \<noteq> 247))"

definition extract_rule_id :: "string \<Rightarrow> string" where
  "extract_rule_id error =
     (case group_search WordEdge rule_re WordEdge error 0 of
        Some (rule, e) \<Rightarrow> rule
      | None \<Rightarrow>
          (let prefix = py_strip (fst (py_partition '':'' error)) in
           if prefix \<noteq> [] \<and> length prefix \<le> 80 \<and> list_ex is_alpha prefix then prefix else []))"

fun up_to_n :: "nat \<Rightarrow> rex \<Rightarrow> rex" where
  "up_to_n 0 r = Eps"
| "up_to_n (Suc n) r = opt (Seq r (up_to_n n r))"

definition quoted_re :: rex where
  "quoted_re = Seq (Chr (\<lambda>c. \<not> is_quote c)) (up_to_n 79 (Chr (\<lambda>c. \<not> is_quote c)))"

definition SUBJECT_MARKERS :: "string list" where
  "SUBJECT_MARKERS = [''-style'', ''generic'', ''minimal'', ''mvp'', ''vertical slice'', ''prototype'', ''demo'']"

text \<open>\<open>error.replace(path, " ")\<close> for a nonempty path.\<close>

function replace_text :: "string \<Rightarrow> string \<Rightarrow> string \<Rightarrow> string" where
  "replace_text p w s =
     (case s of
        [] \<Rightarrow> []
      | c # cs \<Rightarrow>
          if p \<noteq> [] \<and> startswith s p then w @ replace_text p w (drop (length p) s)
          else c # replace_text p w cs)"
  by pat_completeness auto
termination by (relation "measure (\<lambda>(p, w, s). length s)") auto

declare replace_text.simps [simp del]

definition subject_char :: "char \<Rightarrow> bool" where
  "subject_char c \<longleftrightarrow> is_lower c \<or> is_upper c \<or> is_digit c \<or> c \<in> set ''_-''"

definition extract_subject_atom :: "string \<Rightarrow> string \<Rightarrow> string" where
  "extract_subject_atom error path =
     (case group_search (Chr is_quote) quoted_re (Chr is_quote) error 0 of
        Some (q, e) \<Rightarrow> q
      | None \<Rightarrow>
          (case find (\<lambda>m. in_text m (py_lower error)) SUBJECT_MARKERS of
             Some m \<Rightarrow> m
           | None \<Rightarrow> py_join '' '' (take 10 (runs subject_char (py_lower (replace_text path '' '' error))))))"

record rejection_atom =
  atom_validator :: string
  atom_rule :: string
  atom_class :: string
  atom_pointer :: string
  atom_subject :: string
  atom_requirement :: string
  atom_fingerprint :: string

text \<open>The identity that is hashed: compact JSON with sorted keys.\<close>

definition json_field :: "string \<Rightarrow> string \<Rightarrow> string" where
  "json_field k v = json_text k @ '':'' @ json_text v"

definition or_validation :: "string \<Rightarrow> string" where
  "or_validation s = (if s = [] then ''validation'' else s)"

definition rejection_identity :: "string \<Rightarrow> string \<Rightarrow> string \<Rightarrow> string \<Rightarrow> string \<Rightarrow> string" where
  "rejection_identity validator_id error_class pointer rule_id subject =
     ''{'' @ py_join '','' [json_field ''error_class'' error_class,
       json_field ''json_pointer'' (to_json_pointer pointer),
       json_field ''rule_id'' (or_validation (normalize_atom rule_id)),
       json_field ''subject_atom'' (normalize_atom subject),
       json_field ''validator_id'' validator_id] @ ''}''"

definition rejection_fingerprint :: "(string \<Rightarrow> string) \<Rightarrow> string \<Rightarrow> string \<Rightarrow> string \<Rightarrow> string \<Rightarrow> string \<Rightarrow> string" where
  "rejection_fingerprint digest validator_id error_class pointer rule_id subject =
     take 16 (digest (rejection_identity validator_id error_class pointer rule_id subject))"

text \<open>\<open>_rejection_atom\<close> as the modelled callers use it, without explicit class, path, rule or subject.\<close>

definition atom_of :: "(string \<Rightarrow> string) \<Rightarrow> string \<Rightarrow> string \<Rightarrow> rejection_atom" where
  "atom_of digest validator_id requirement =
     (let req = py_join '' '' (py_split requirement);
          path = extract_path req;
          pointer = to_json_pointer path;
          cls = classify_error req;
          rule = or_validation (normalize_atom (if extract_rule_id req = [] then cls else extract_rule_id req));
          subject = normalize_atom (extract_subject_atom req path)
      in \<lparr>atom_validator = validator_id, atom_rule = rule, atom_class = cls, atom_pointer = pointer,
          atom_subject = subject, atom_requirement = req,
          atom_fingerprint = rejection_fingerprint digest validator_id cls pointer rule subject\<rparr>)"

record rejection =
  rej_validator :: string
  rej_class :: string
  rej_path :: string
  rej_requirement :: string
  rej_fingerprint :: string
  rej_atoms :: "rejection_atom list"

text \<open>\<open>atoms[0]\<close> raises on an empty list of errors.\<close>

definition validation_rejection :: "(string \<Rightarrow> string) \<Rightarrow> string \<Rightarrow> string list \<Rightarrow> py_exc + rejection" where
  "validation_rejection digest validator_id requirements =
     (let atoms = map (atom_of digest validator_id) requirements in
      case atoms of
        [] \<Rightarrow> Inl IndexError
      | a # as \<Rightarrow> Inr \<lparr>rej_validator = validator_id, rej_class = atom_class a, rej_path = atom_pointer a,
          rej_requirement = py_join ''; '' (map atom_requirement atoms), rej_fingerprint = atom_fingerprint a,
          rej_atoms = atoms\<rparr>)"

definition atom_fingerprints :: "rejection \<Rightarrow> string list" where
  "atom_fingerprints r =
     (if rej_atoms r \<noteq> [] then map atom_fingerprint (rej_atoms r)
      else if rej_fingerprint r \<noteq> [] then [rej_fingerprint r] else [])"

section \<open>Decisions\<close>

record rejection_decision =
  decision_class :: string
  decision_rejection :: rejection
  decision_permanent :: bool
  decision_repeated :: "string list"

text \<open>\<open>RejectionRetryState.classify\<close>: the state is the set of fingerprints of the attempt before.\<close>

definition classify_rejection :: "string set \<Rightarrow> rejection \<Rightarrow> rejection_decision \<times> string set" where
  "classify_rejection previous r =
     (let current = set (atom_fingerprints r);
          repeated = sort (remdups (filter (\<lambda>f. f \<in> previous) (atom_fingerprints r)))
      in (\<lparr>decision_class = if repeated \<noteq> [] then ''permanent'' else ''stochastic-recoverable'',
           decision_rejection = r, decision_permanent = (repeated \<noteq> []), decision_repeated = repeated\<rparr>, current))"

definition permanent_rejection_error :: "rejection_decision \<Rightarrow> string" where
  "permanent_rejection_error d =
     (let joined = py_join '', '' (decision_repeated d);
          repeated = (if joined = [] then rej_fingerprint (decision_rejection d) else joined)
      in ''Permanent deterministic validation rejection remained invalid: repeated atom fingerprint '' @ repeated
         @ '' for '' @ rej_validator (decision_rejection d) @ '': '' @ rej_requirement (decision_rejection d))"

definition permanent_rejection_payload :: "rejection_decision \<Rightarrow> pydict" where
  "permanent_rejection_payload d =
     (let r = decision_rejection d in
      [(''failure_mode'', PStr ''permanent_rejection''),
       (''rejection_fingerprint'', PStr (case decision_repeated d of [] \<Rightarrow> rej_fingerprint r | f # _ \<Rightarrow> f)),
       (''rejection_fingerprints'', PList (map PStr (atom_fingerprints r))),
       (''repeated_rejection_fingerprints'', PList (map PStr (decision_repeated d))),
       (''validator_id'', PStr (rej_validator r)),
       (''error_class'', PStr (rej_class r)),
       (''path'', PStr (rej_path r)),
       (''json_pointer'', PStr (rej_path r))])"

definition atom_lines :: "rejection_atom \<Rightarrow> string list" where
  "atom_lines a =
     [''rule_id: '' @ atom_rule a, ''path: '' @ atom_pointer a, ''json_pointer: '' @ atom_pointer a,
      ''error_class: '' @ atom_class a, ''subject_atom: '' @ atom_subject a,
      ''fingerprint: '' @ atom_fingerprint a, ''requirement: '' @ atom_requirement a]"

definition format_rejection_feedback :: "rejection \<Rightarrow> string" where
  "format_rejection_feedback r =
     py_join [newline] ([''Previous deterministic validator rejection:'', ''validator_id: '' @ rej_validator r]
       @ concat (map atom_lines (rej_atoms r)))"

text \<open>\<open>_classify_validation_retry\<close> of \<open>receive.py\<close>: the feedback and, when permanent, the error dict.\<close>

definition classify_validation_retry ::
  "(string \<Rightarrow> string) \<Rightarrow> string set \<Rightarrow> string \<Rightarrow> string list \<Rightarrow> py_exc + ((string list \<times> pydict option) \<times> string set)" where
  "classify_validation_retry digest previous validator_id errors =
     rbind (validation_rejection digest validator_id errors) (\<lambda>r.
       case classify_rejection previous r of
         (d, st) \<Rightarrow>
           if decision_permanent d
           then Inr (([], Some ([(''ok'', PBool False), (''error'', PStr (permanent_rejection_error d))]
                               @ permanent_rejection_payload d)), st)
           else Inr (([format_rejection_feedback r], None), st))"

section \<open>JSON pointers decode to their pieces\<close>

text \<open>The reading of a JSON pointer (RFC 6901).\<close>

fun unescape :: "string \<Rightarrow> string" where
  "unescape (c # d # cs) =
     (if c = CHR ''~'' \<and> d = CHR ''1'' then CHR ''/'' # unescape cs
      else if c = CHR ''~'' \<and> d = CHR ''0'' then CHR ''~'' # unescape cs
      else c # unescape (d # cs))"
| "unescape s = s"

definition pointer_keys :: "string \<Rightarrow> string list" where
  "pointer_keys p = (if p = [] then [] else map unescape (split_char (CHR ''/'') (tl p)))"

lemma replace_char_simps [simp]:
  "replace_char c w [] = []" "replace_char c w (x # xs) = (if x = c then w else [x]) @ replace_char c w xs"
  by (simp_all add: replace_char_def)

lemma replace_char_append [simp]: "replace_char c w (xs @ ys) = replace_char c w xs @ replace_char c w ys"
  by (simp add: replace_char_def)

lemma escape_piece_simps [simp]:
  "escape_piece [] = []"
  "escape_piece (x # xs) =
     (if x = CHR ''~'' then ''~0'' else if x = CHR ''/'' then ''~1'' else [x]) @ escape_piece xs"
  by (simp_all add: escape_piece_def)

lemma unescape_other: "x \<noteq> CHR ''~'' \<Longrightarrow> unescape (x # s) = x # unescape s"
  by (cases s) simp_all

lemma unescape_escape [simp]: "unescape (escape_piece s) = s"
  by (induction s) (auto simp: unescape_other)

lemma escape_no_slash: "CHR ''/'' \<notin> set (escape_piece s)"
  by (induction s) auto

lemma split_char_nonempty [simp]: "split_char c s \<noteq> []"
  by (cases "(c, s)" rule: split_char.cases) (auto split: list.split)

lemma split_char_none: "c \<notin> set s \<Longrightarrow> split_char c s = [s]"
  by (induction s) auto

lemma split_char_append: "c \<notin> set s \<Longrightarrow> split_char c (s @ c # t) = s # split_char c t"
  by (induction s) auto

lemma split_char_join: "ps \<noteq> [] \<Longrightarrow> list_all (\<lambda>p. c \<notin> set p) ps \<Longrightarrow> split_char c (py_join [c] ps) = ps"
  by (induction "[c]" ps rule: py_join.induct) (auto simp: split_char_none split_char_append)

text \<open>
  A dotted path with indices becomes a JSON pointer that decodes, key by key, to the names and
  indices of the path, whatever slashes and tildes they hold.
\<close>

theorem json_pointer_roundtrip:
  assumes "py_strip path = p" "p \<noteq> []" "p \<noteq> ''$''" "\<not> startswith p ''/''" "path_pieces p \<noteq> []"
  shows "pointer_keys (to_json_pointer path) = path_pieces p"
proof -
  have ne: "path \<noteq> []" using assms(1,2) by (auto simp: py_strip_def py_rstrip_def py_lstrip_def)
  have "split_char (CHR ''/'') (py_join ''/'' (map escape_piece (path_pieces p))) = map escape_piece (path_pieces p)"
    using assms(5) by (intro split_char_join) (auto simp: list_all_iff escape_no_slash)
  then show ?thesis using assms ne by (simp add: to_json_pointer_def pointer_keys_def o_def)
qed

theorem json_pointer_roundtrip_witness:
  "pointer_keys (to_json_pointer ''$.a[b/c].d'') = [''a'', ''b/c'', ''d'']"
proof -
  have "path_pieces ''$.a[b/c].d'' = [''a'', ''b/c'', ''d'']" by code_simp
  moreover have "pointer_keys (to_json_pointer ''$.a[b/c].d'') = path_pieces ''$.a[b/c].d''"
    by (rule json_pointer_roundtrip) code_simp+
  ultimately show ?thesis by simp
qed

section \<open>The hashed identity\<close>

text \<open>
  C34: two rejections have the same hashed identity exactly when validator, class, JSON pointer,
  normalized rule and normalized subject agree: nothing else of the error text enters it, and a
  collision of fingerprints is a collision of the truncated digest.
\<close>

theorem rejection_identity_exact:
  "rejection_identity v c p r s = rejection_identity v' c' p' r' s' \<longleftrightarrow>
     v = v' \<and> c = c' \<and> to_json_pointer p = to_json_pointer p' \<and>
     or_validation (normalize_atom r) = or_validation (normalize_atom r') \<and> normalize_atom s = normalize_atom s'"
  using json_text_inject [of _ "[]" _ "[]"] by (auto simp: rejection_identity_def json_field_def json_text_inject)

section \<open>Permanent rejections\<close>

lemma sort_empty: "sort (remdups xs) = [] \<longleftrightarrow> xs = ([] :: string list)"
  by (metis remdups_eq_nil_iff set_empty set_sort)

lemma decision_simps:
  "snd (classify_rejection previous r) = set (atom_fingerprints r)"
  "decision_permanent (fst (classify_rejection previous r)) \<longleftrightarrow> (\<exists>f\<in>set (atom_fingerprints r). f \<in> previous)"
  "set (decision_repeated (fst (classify_rejection previous r))) = set (atom_fingerprints r) \<inter> previous"
  "decision_class (fst (classify_rejection previous r)) =
     (if decision_permanent (fst (classify_rejection previous r)) then ''permanent'' else ''stochastic-recoverable'')"
  by (auto simp: classify_rejection_def Let_def sort_empty filter_empty_conv)

lemma validation_rejection_simps:
  "validation_rejection digest v [] = Inl IndexError"
  "rs \<noteq> [] \<Longrightarrow> \<exists>r. validation_rejection digest v rs = Inr r \<and>
     atom_fingerprints r = map (\<lambda>e. atom_fingerprint (atom_of digest v e)) rs \<and> rej_validator r = v"
  by (auto simp: validation_rejection_def atom_fingerprints_def neq_Nil_conv)

text \<open>The fingerprints of a list of errors of a validator.\<close>

definition error_fingerprints :: "(string \<Rightarrow> string) \<Rightarrow> string \<Rightarrow> string list \<Rightarrow> string set" where
  "error_fingerprints digest v errors = (\<lambda>e. atom_fingerprint (atom_of digest v e)) ` set errors"

lemma classify_validation_retry_cases:
  assumes "errors \<noteq> []"
  obtains fb where "classify_validation_retry digest previous v errors = Inr ((fb, None), error_fingerprints digest v errors)"
      "error_fingerprints digest v errors \<inter> previous = {}"
    | err where "classify_validation_retry digest previous v errors = Inr (([], Some err), error_fingerprints digest v errors)"
      "error_fingerprints digest v errors \<inter> previous \<noteq> {}"
proof -
  obtain r where r: "validation_rejection digest v errors = Inr r"
    "set (atom_fingerprints r) = error_fingerprints digest v errors"
    using validation_rejection_simps(2) [OF assms, of digest v] by (auto simp: error_fingerprints_def)
  obtain d st where d: "classify_rejection previous r = (d, st)" by (cases "classify_rejection previous r")
  have st: "st = error_fingerprints digest v errors"
    and p: "decision_permanent d \<longleftrightarrow> error_fingerprints digest v errors \<inter> previous \<noteq> {}"
    using decision_simps(1,2) [of previous r] d r(2) by auto
  show thesis
  proof (cases "decision_permanent d")
    case True
    then show thesis using that(2) r(1) d st p by (simp add: classify_validation_retry_def)
  next
    case False
    then show thesis using that(1) r(1) d st p by (simp add: classify_validation_retry_def)
  qed
qed
end
