(* ===== verification/Approach.thy ===== *)
theory Approach imports StructureGadgets Rejections begin
text \<open>
  Steps 5 and 6 of the Technical Approach in \<open>src/ai_org/patchwork_queue/receive.py\<close>: every
  candidate is evaluated by a model call, a candidate is selected, and between the two one bounded
  repair round restores one evaluation per candidate.

  A model call is an argument: it maps the number of the attempt (and the feedback of the attempt
  before it) to an error or the raw output, or it raises. Each call happens once, so a function of the
  attempt stands for any behaviour of the model. What \<open>codex_exec.run_json\<close> does before the call, writing
  the schema into a fresh directory under a name that holds the candidate id, is \<open>run_json\<close>. \<open>loads\<close>
  stands for \<open>json.loads\<close>: it raises (an integer of too many digits), fails with the text of the decode
  error, or gives the value. Prompts, schemas and the log are left out.
\<close>

definition CANDIDATE_EVALUATION_SCORE_FIELDS :: "string list" where
  "CANDIDATE_EVALUATION_SCORE_FIELDS =
     [''problem_fit'', ''repo_fit'', ''complexity'', ''quality_attributes'', ''compat_migration'', ''testability'',
      ''operability'', ''reversibility'', ''risk'']"

definition EVALUATION_SCORE_FIELDS :: "string list" where
  "EVALUATION_SCORE_FIELDS = [''rating'', ''reason'']"

definition CANDIDATE_EVALUATION_FIELDS :: "string list" where
  "CANDIDATE_EVALUATION_FIELDS = [''candidate_id'', ''scores'']"

text \<open>\<open>set(d) == set(FIELDS)\<close>.\<close>

definition fields_are :: "pydict \<Rightarrow> string list \<Rightarrow> bool" where
  "fields_are d fs \<longleftrightarrow> set (map fst d) = set fs"

definition step_error :: "string \<Rightarrow> pydict" where
  "step_error reason = [(''ok'', PBool False), (''error'', PStr reason)]"

section \<open>Ids of candidates and evaluations\<close>

definition text_ids :: "string \<Rightarrow> pyval \<Rightarrow> string list" where
  "text_ids field v =
     (case v of
        PList items \<Rightarrow>
          (case ids_of (item_text field) items of
             None \<Rightarrow> []
           | Some ids \<Rightarrow> if distinct ids then ids else [])
      | _ \<Rightarrow> [])"

definition candidate_ids :: "pydict \<Rightarrow> string list" where
  "candidate_ids candidates = text_ids ''id'' (py_get candidates ''candidates'')"

definition evaluation_ids :: "pydict \<Rightarrow> string list" where
  "evaluation_ids evaluations = text_ids ''candidate_id'' (py_get evaluations ''evaluations'')"

section \<open>Empty slots\<close>

definition NON_EMPTY_ARRAY_SLOT_NAMES :: "string list" where
  "NON_EMPTY_ARRAY_SLOT_NAMES =
     [''success_criteria'', ''preconditions'', ''user_actions'', ''named_content'', ''core_systems'', ''draws_on'',
      ''because'', ''under_constraints'', ''accepting_tradeoffs'', ''systems'', ''key_modules'', ''saved_fields'', ''user_can'']"

definition last_part :: "string \<Rightarrow> string" where
  "last_part path = (case py_rfind ''.'' path of None \<Rightarrow> path | Some i \<Rightarrow> drop (Suc i) path)"

definition empty_error :: "string \<Rightarrow> string" where
  "empty_error path = (if path = [] then ''value'' else path) @ '' is empty''"

fun enumerate_from :: "nat \<Rightarrow> 'a list \<Rightarrow> (nat \<times> 'a) list" where
  "enumerate_from n [] = []"
| "enumerate_from n (x # xs) = (n, x) # enumerate_from (Suc n) xs"

lemma set_enumerate_from: "(i, x) \<in> set (enumerate_from n xs) \<Longrightarrow> x \<in> set xs"
  by (induction n xs rule: enumerate_from.induct) auto

function (sequential) lint_empty_slots :: "pyval \<Rightarrow> string \<Rightarrow> string list" where
  "lint_empty_slots (PStr s) path = (if py_strip s = [] then [empty_error path] else [])"
| "lint_empty_slots (PDict d) path =
     concat (map (\<lambda>kv. lint_empty_slots (snd kv) (if path = [] then fst kv else path @ ''.'' @ fst kv)) d)"
| "lint_empty_slots (PList vs) path =
     (if vs = [] \<and> last_part path \<in> set NON_EMPTY_ARRAY_SLOT_NAMES then [empty_error path] else [])
     @ concat (map (\<lambda>iv. lint_empty_slots (snd iv) (path @ ''['' @ nat_str (fst iv) @ '']'')) (enumerate_from 0 vs))"
| "lint_empty_slots v path = []"
  by pat_completeness auto
termination
  by (relation "measure (\<lambda>(v, p). size v)")
    (auto dest: size_py_dict set_enumerate_from simp: less_Suc_eq_le size_list_estimation')

section \<open>Parsing an evaluation\<close>

definition parse_score :: "pyval \<Rightarrow> string + pyval" where
  "parse_score v =
     (case v of
        PDict d \<Rightarrow>
          if fields_are d EVALUATION_SCORE_FIELDS then
            (case (py_get d ''rating'', py_get d ''reason'') of
               (PStr rating, PStr reason) \<Rightarrow> Inr (PDict [(''rating'', PStr rating), (''reason'', PStr reason)])
             | _ \<Rightarrow> Inl ''Codex candidate evaluation returned invalid score values'')
          else Inl ''Codex candidate evaluation returned invalid score object''
      | _ \<Rightarrow> Inl ''Codex candidate evaluation returned invalid score object'')"

fun parse_scores :: "pydict \<Rightarrow> string list \<Rightarrow> string + pydict" where
  "parse_scores scores [] = Inr []"
| "parse_scores scores (f # fs) =
     rbind (parse_score (py_get scores f)) (\<lambda>s. rbind (parse_scores scores fs) (\<lambda>rest. Inr ((f, s) # rest)))"

definition parse_candidate_evaluation :: "pyval \<Rightarrow> string \<Rightarrow> string + pyval" where
  "parse_candidate_evaluation parsed_value candidate_id =
     (case parsed_value of
        PDict d \<Rightarrow>
          if \<not> fields_are d CANDIDATE_EVALUATION_FIELDS
          then Inl ''Codex candidate evaluation returned invalid evaluation fields''
          else if py_get d ''candidate_id'' \<noteq> PStr candidate_id
          then Inl ''Codex candidate evaluation returned wrong candidate_id''
          else
            (case py_get d ''scores'' of
               PDict scores \<Rightarrow>
                 if fields_are scores CANDIDATE_EVALUATION_SCORE_FIELDS
                 then rbind (parse_scores scores CANDIDATE_EVALUATION_SCORE_FIELDS)
                        (\<lambda>ss. Inr (PDict [(''candidate_id'', PStr candidate_id), (''scores'', PDict ss)]))
                 else Inl ''Codex candidate evaluation returned invalid score fields''
             | _ \<Rightarrow> Inl ''Codex candidate evaluation returned invalid score fields'')
      | _ \<Rightarrow> Inl ''Codex candidate evaluation returned non-object JSON'')"

text \<open>A raw output: decoded, then read.\<close>

type_synonym loads_call = "string \<Rightarrow> py_exc + (string + pyval)"
type_synonym model_call = "nat \<Rightarrow> string list option \<Rightarrow> py_exc + (string + string)"

definition parse_raw :: "loads_call \<Rightarrow> string \<Rightarrow> (pyval \<Rightarrow> string + pyval) \<Rightarrow> loads_call" where
  "parse_raw loads label parse raw =
     rbind (loads raw) (\<lambda>r. Inr (case r of Inl exc \<Rightarrow> Inl (label @ '' returned invalid JSON: '' @ exc) | Inr v \<Rightarrow> parse v))"

section \<open>Regeneration\<close>

definition MAX_TECHNICAL_APPROACH_NODE_REGENERATIONS :: nat where
  "MAX_TECHNICAL_APPROACH_NODE_REGENERATIONS = 2"

text \<open>
  The attempt loop of every step: run, parse, lint; a rejection is classified against the one
  before it; a permanent rejection ends the loop, a fresh one becomes the feedback of the next
  attempt. The outer \<open>Inl\<close> is an exception, the inner one the error dict the step returns.
\<close>

fun regenerate ::
  "(string \<Rightarrow> string) \<Rightarrow> model_call \<Rightarrow> loads_call \<Rightarrow> string \<Rightarrow> string \<Rightarrow>
   nat \<Rightarrow> nat \<Rightarrow> string list \<Rightarrow> string set \<Rightarrow> string \<Rightarrow> py_exc + (pydict + pyval)" where
  "regenerate digest run parse validator label 0 attempt feedback previous last_error =
     Inr (Inl (step_error (label @ '' remained invalid after ''
       @ nat_str (MAX_TECHNICAL_APPROACH_NODE_REGENERATIONS + 1) @ '' attempts: '' @ last_error)))"
| "regenerate digest run parse validator label (Suc n) attempt feedback previous last_error =
     rbind (run attempt (if attempt = 0 then None else Some feedback)) (\<lambda>called.
       case called of
         Inl err \<Rightarrow> Inr (Inl (step_error err))
       | Inr raw \<Rightarrow>
           rbind (parse raw) (\<lambda>read.
             (let errors = (case read of Inl e \<Rightarrow> [e] | Inr v \<Rightarrow> lint_empty_slots v []) in
              case (read, errors) of
                (Inr v, []) \<Rightarrow> Inr (Inr v)
              | _ \<Rightarrow>
                  rbind (classify_validation_retry digest previous validator errors) (\<lambda>((fb, permanent), seen).
                    case permanent of
                      Some err \<Rightarrow> Inr (Inl err)
                    | None \<Rightarrow> regenerate digest run parse validator label n (Suc attempt) fb seen (py_join ''; '' errors)))))"

section \<open>Step 5\<close>

text \<open>
  The start of \<open>run_json\<close>: the schema is written under its name into a directory made for the call. A
  name with a null character is refused with \<open>ValueError\<close>, one with a slash lies in a directory that does
  not exist (\<open>FileNotFoundError\<close>, an \<open>OSError\<close>); neither is caught.
\<close>

definition run_json :: "string \<Rightarrow> py_exc + (string + string) \<Rightarrow> py_exc + (string + string)" where
  "run_json schema_filename call =
     (if CHR 0x00 \<in> set schema_filename then Inl ValueError
      else if CHR ''/'' \<in> set schema_filename then Inl OSError else call)"

definition evaluation_schema_name :: "string \<Rightarrow> string" where
  "evaluation_schema_name candidate_id = ''patch_series-evaluate-candidate-'' @ candidate_id @ ''.schema.json''"

definition evaluate_candidate ::
  "(string \<Rightarrow> string) \<Rightarrow> loads_call \<Rightarrow> (string \<Rightarrow> model_call) \<Rightarrow> string \<Rightarrow> py_exc + (pydict + pyval)" where
  "evaluate_candidate digest loads run candidate_id =
     regenerate digest (\<lambda>attempt feedback. run_json (evaluation_schema_name candidate_id) (run candidate_id attempt feedback))
       (parse_raw loads ''Codex candidate evaluation'' (\<lambda>v. parse_candidate_evaluation v candidate_id))
       (''receive.evaluate_candidate.'' @ candidate_id) ''Codex candidate evaluation''
       (MAX_TECHNICAL_APPROACH_NODE_REGENERATIONS + 1) 0 [] {} []"

fun evaluate_each ::
  "(string \<Rightarrow> string) \<Rightarrow> loads_call \<Rightarrow> (string \<Rightarrow> model_call) \<Rightarrow> string list \<Rightarrow> py_exc + (pydict + pyval list)" where
  "evaluate_each digest loads run [] = Inr (Inr [])"
| "evaluate_each digest loads run (c # cs) =
     rbind (evaluate_candidate digest loads run c) (\<lambda>r.
       case r of
         Inl err \<Rightarrow> Inr (Inl err)
       | Inr v \<Rightarrow> rbind (evaluate_each digest loads run cs) (\<lambda>rs.
           Inr (case rs of Inl err \<Rightarrow> Inl err | Inr vs \<Rightarrow> Inr (v # vs))))"

definition evaluate_candidates ::
  "(string \<Rightarrow> string) \<Rightarrow> loads_call \<Rightarrow> (string \<Rightarrow> model_call) \<Rightarrow> pyval \<Rightarrow> pyval \<Rightarrow> pyval \<Rightarrow> py_exc + (pydict + pydict)" where
  "evaluate_candidates digest loads run candidates normalized_problem constraints =
     (case (candidates, normalized_problem, constraints) of
        (PDict cs, PDict _, PDict _) \<Rightarrow>
          if candidate_ids cs = []
          then Inr (Inl (step_error ''evaluate_candidates requires named candidates from step 4''))
          else
            rbind (evaluate_each digest loads run (candidate_ids cs)) (\<lambda>r.
              case r of
                Inl err \<Rightarrow> Inr (Inl err)
              | Inr vs \<Rightarrow>
                  if set (map (item_id ''candidate_id'') vs) \<noteq> set (candidate_ids cs)
                  then Inr (Inl (step_error ''Codex candidate evaluation returned incomplete candidate coverage''))
                  else Inr (Inr [(''evaluations'', PList vs)]))
      | _ \<Rightarrow> Inr (Inl (step_error ''evaluate_candidates requires outputs from steps 1, 2, and 4'')))"

section \<open>The repair round\<close>

text \<open>
  One item of the model's fragment: \<open>item_id not in set(requested_ids)\<close> hashes the id, so a list
  or a mapping in its place raises; the item itself goes through \<open>json.dumps\<close> and
  \<open>json.loads\<close> unchanged.
\<close>

fun repair_items :: "string list \<Rightarrow> string list \<Rightarrow> pyval list \<Rightarrow> py_exc + pyval list option" where
  "repair_items requested seen [] = Inr (Some [])"
| "repair_items requested seen (item # items) =
     (case item of
        PDict d \<Rightarrow>
          (case py_get d ''candidate_id'' of
             PList _ \<Rightarrow> Inl TypeError
           | PDict _ \<Rightarrow> Inl TypeError
           | PStr i \<Rightarrow>
               if i \<notin> set requested \<or> i \<in> set seen then Inr None
               else
                 (case parse_candidate_evaluation item i of
                    Inl _ \<Rightarrow> Inr None
                  | Inr v \<Rightarrow>
                      if lint_empty_slots v [] \<noteq> [] then Inr None
                      else rbind (repair_items requested (i # seen) items) (\<lambda>r. Inr (map_option ((#) v) r)))
           | _ \<Rightarrow> Inr None)
      | _ \<Rightarrow> Inr None)"

definition repair_report :: pyval where
  "repair_report = PDict [(''validator_id'', PStr ''receive.select_approach''),
     (''errors'', PList [PStr ''select_approach requires one evaluation per candidate from step 5''])]"

definition gadget_payload :: "pyval \<Rightarrow> string \<Rightarrow> pyval option" where
  "gadget_payload r key = (case r of PDict d \<Rightarrow> if py_truthy (py_get d ''ok'') then Some (py_get d key) else None | _ \<Rightarrow> None)"

definition repair_evaluation_matrix_coverage ::
  "loads_call \<Rightarrow> (pydict \<Rightarrow> py_exc + (string + string)) \<Rightarrow> pydict \<Rightarrow> pydict \<Rightarrow> py_exc + pydict option" where
  "repair_evaluation_matrix_coverage loads run candidates evaluations =
     (let ids = candidate_ids candidates in
      case gadget_payload (evaluation_matrix_skeleton (PList (map PStr ids))
             (PList (map PStr CANDIDATE_EVALUATION_SCORE_FIELDS)) (PList (map PStr EVALUATION_SCORE_FIELDS))) ''skeleton'' of
        None \<Rightarrow> Inr None
      | Some skeleton \<Rightarrow>
          (case gadget_payload (repair_delta repair_report (PDict evaluations) skeleton) ''delta'' of
             Some (PDict delta) \<Rightarrow>
               (let request = produced_dict (py_get_default delta ''fragment_request'' (PDict []));
                    requested_ids = map (item_id ''candidate_id'') (produced_list (py_get request ''evaluations''));
                    requested = filter (\<lambda>c. case item_text ''id'' c of None \<Rightarrow> False | Some i \<Rightarrow> i \<in> set requested_ids)
                                  (produced_list (py_get_default candidates ''candidates'' (PList [])))
                in if requested_ids = [] \<or> set (map (item_id ''id'') requested) \<noteq> set requested_ids then Inr None
                   else
                     rbind (run request) (\<lambda>called. case called of
                        Inl _ \<Rightarrow> Inr None
                      | Inr raw \<Rightarrow>
                          rbind (loads raw) (\<lambda>read. case read of
                             Inr (PDict fragment) \<Rightarrow>
                               (case py_get fragment ''evaluations'' of
                                  PList items \<Rightarrow>
                                    rbind (repair_items requested_ids [] items) (\<lambda>r.
                                      case r of
                                        None \<Rightarrow> Inr None
                                      | Some validated \<Rightarrow>
                                          (case gadget_payload (merge_fragment (PDict evaluations)
                                                   (PDict [(''evaluations'', PList validated)]) (PDict delta)) ''merged'' of
                                             Some (PDict final) \<Rightarrow>
                                               if set (evaluation_ids final) \<noteq> set ids then Inr None else Inr (Some final)
                                           | _ \<Rightarrow> Inr None))
                                | _ \<Rightarrow> Inr None)
                           | _ \<Rightarrow> Inr None)))
           | _ \<Rightarrow> Inr None))"

section \<open>Step 6\<close>

definition TOULMIN_ARGUMENT_ROLES :: "string list" where
  "TOULMIN_ARGUMENT_ROLES = [''support'', ''objection'']"

definition TOULMIN_ARGUMENT_FIELDS :: "string list" where
  "TOULMIN_ARGUMENT_FIELDS = [''role'', ''about_candidate_id'', ''claim'', ''grounds'', ''warrant'', ''backing'', ''rebuttal'']"

definition DECISION_RATIONALE_FIELDS :: "string list" where
  "DECISION_RATIONALE_FIELDS = [''because'', ''under_constraints'', ''accepting_tradeoffs'']"

definition STACK_DECISION_AXIS_FIELDS :: "string list" where
  "STACK_DECISION_AXIS_FIELDS = [''fidelity_precedent'']"

definition STACK_DECISION_AXIS_SLOT_FIELDS :: "string list" where
  "STACK_DECISION_AXIS_SLOT_FIELDS = [''evidence'', ''judgment'']"

definition REJECTED_APPROACH_FIELDS :: "string list" where
  "REJECTED_APPROACH_FIELDS = [''candidate_id'', ''objection'']"

definition SELECT_APPROACH_FIELDS :: "string list" where
  "SELECT_APPROACH_FIELDS =
     [''selected_candidate_id'', ''arguments'', ''rationale'', ''stack_axes'', ''rejected'', ''open_questions'']"

definition sel_err :: "string \<Rightarrow> string" where
  "sel_err what = ''Codex approach selection returned '' @ what"

definition texts_of :: "pyval list \<Rightarrow> string list option" where
  "texts_of vs = ids_of as_str vs"

text \<open>\<open>x in candidate_ids\<close> for a value \<open>x\<close> and a list of texts.\<close>

definition text_among :: "pyval \<Rightarrow> string list \<Rightarrow> bool" where
  "text_among v ss = (case v of PStr s \<Rightarrow> s \<in> set ss | _ \<Rightarrow> False)"

definition parse_argument :: "string list \<Rightarrow> pyval \<Rightarrow> string + pyval" where
  "parse_argument cids v =
     (case v of
        PDict d \<Rightarrow>
          if \<not> fields_are d TOULMIN_ARGUMENT_FIELDS then Inl (sel_err ''invalid argument'')
          else if \<not> text_among (py_get d ''role'') TOULMIN_ARGUMENT_ROLES then Inl (sel_err ''invalid argument role'')
          else if \<not> text_among (py_get d ''about_candidate_id'') cids then Inl (sel_err ''argument for unknown candidate'')
          else
            (case texts_of (map (py_get d) TOULMIN_ARGUMENT_FIELDS) of
               None \<Rightarrow> Inl (sel_err ''invalid argument values'')
             | Some ts \<Rightarrow> Inr (PDict (zip TOULMIN_ARGUMENT_FIELDS (map PStr ts))))
      | _ \<Rightarrow> Inl (sel_err ''invalid argument''))"

fun parse_all :: "(pyval \<Rightarrow> string + pyval) \<Rightarrow> pyval list \<Rightarrow> string + pyval list" where
  "parse_all f [] = Inr []"
| "parse_all f (v # vs) = rbind (f v) (\<lambda>x. rbind (parse_all f vs) (\<lambda>xs. Inr (x # xs)))"

definition parse_text_list :: "string \<Rightarrow> pyval \<Rightarrow> string + pyval" where
  "parse_text_list err v =
     (case v of
        PList vs \<Rightarrow> (case texts_of vs of None \<Rightarrow> Inl err | Some ts \<Rightarrow> Inr (PList vs))
      | _ \<Rightarrow> Inl err)"

definition parse_rationale :: "pyval \<Rightarrow> string + pyval" where
  "parse_rationale v =
     (case v of
        PDict d \<Rightarrow>
          if fields_are d DECISION_RATIONALE_FIELDS
          then rbind (parse_all (parse_text_list (sel_err ''invalid rationale values'')) (map (py_get d) DECISION_RATIONALE_FIELDS))
                 (\<lambda>vs. Inr (PDict (zip DECISION_RATIONALE_FIELDS vs)))
          else Inl (sel_err ''invalid rationale'')
      | _ \<Rightarrow> Inl (sel_err ''invalid rationale''))"

definition parse_stack_axis :: "pyval \<Rightarrow> pyval option" where
  "parse_stack_axis v =
     (case v of
        PDict slot \<Rightarrow>
          if fields_are slot STACK_DECISION_AXIS_SLOT_FIELDS then
            (case (py_get slot ''evidence'', py_get slot ''judgment'') of
               (PStr e, PStr j) \<Rightarrow> Some (PDict [(''evidence'', PStr e), (''judgment'', PStr j)])
             | _ \<Rightarrow> None)
          else None
      | _ \<Rightarrow> None)"

definition parse_stack_decision_axes :: "pyval \<Rightarrow> pyval option" where
  "parse_stack_decision_axes v =
     (case v of
        PDict d \<Rightarrow>
          if fields_are d STACK_DECISION_AXIS_FIELDS
          then (if list_all (\<lambda>a. parse_stack_axis (py_get d a) \<noteq> None) STACK_DECISION_AXIS_FIELDS
                then Some (PDict (map (\<lambda>a. (a, the (parse_stack_axis (py_get d a)))) STACK_DECISION_AXIS_FIELDS))
                else None)
          else None
      | _ \<Rightarrow> None)"

fun parse_rejections :: "string list \<Rightarrow> string \<Rightarrow> string list \<Rightarrow> pyval list \<Rightarrow> string + pyval list" where
  "parse_rejections cids chosen seen [] =
     (if set seen = set cids - {chosen} then Inr [] else Inl (sel_err ''incomplete rejected candidates''))"
| "parse_rejections cids chosen seen (v # vs) =
     (case v of
        PDict d \<Rightarrow>
          if \<not> fields_are d REJECTED_APPROACH_FIELDS then Inl (sel_err ''invalid rejected fields'')
          else
            (case (py_get d ''candidate_id'', py_get d ''objection'') of
               (PStr c, PStr objection) \<Rightarrow>
                 if c \<notin> set cids then Inl (sel_err ''unknown rejected candidate'')
                 else if c = chosen then Inl (sel_err ''rejection for the chosen candidate'')
                 else if c \<in> set seen then Inl (sel_err ''duplicate rejected candidate'')
                 else rbind (parse_rejections cids chosen (c # seen) vs)
                        (\<lambda>rs. Inr (PDict [(''candidate_id'', PStr c), (''objection'', PStr objection)] # rs))
             | _ \<Rightarrow> Inl (sel_err ''invalid rejected values''))
      | _ \<Rightarrow> Inl (sel_err ''invalid rejected item''))"

definition rejection_items :: "pyval \<Rightarrow> string + pyval list" where
  "rejection_items v = (case v of PList vs \<Rightarrow> Inr vs | _ \<Rightarrow> Inl (sel_err ''invalid rejected list''))"

definition argument_items :: "pyval \<Rightarrow> string + pyval list" where
  "argument_items v = (case v of PList vs \<Rightarrow> Inr vs | _ \<Rightarrow> Inl (sel_err ''invalid arguments''))"

definition parse_approach_selection :: "string list \<Rightarrow> pyval \<Rightarrow> string + pyval" where
  "parse_approach_selection cids parsed_value =
     (case parsed_value of
        PDict d \<Rightarrow>
          if \<not> fields_are d SELECT_APPROACH_FIELDS then Inl (sel_err ''invalid fields'')
          else
            (case py_get d ''selected_candidate_id'' of
               PStr chosen \<Rightarrow>
                 if chosen \<notin> set cids then Inl (sel_err ''unknown chosen candidate'')
                 else
                   rbind (argument_items (py_get d ''arguments'')) (\<lambda>args.
                   rbind (parse_all (parse_argument cids) args) (\<lambda>arguments.
                   rbind (parse_rationale (py_get d ''rationale'')) (\<lambda>rationale.
                   (case parse_stack_decision_axes (py_get d ''stack_axes'') of
                      None \<Rightarrow> Inl (sel_err ''invalid stack_axes'')
                    | Some axes \<Rightarrow>
                        rbind (rejection_items (py_get d ''rejected'')) (\<lambda>rejected.
                        rbind (parse_text_list (sel_err ''invalid open_questions'') (py_get d ''open_questions'')) (\<lambda>questions.
                        rbind (parse_rejections cids chosen [] rejected) (\<lambda>rs.
                          Inr (PDict [(''selected_candidate_id'', PStr chosen), (''arguments'', PList arguments),
                            (''rationale'', rationale), (''stack_axes'', axes), (''rejected'', PList rs),
                            (''open_questions'', questions)]))))))))
             | _ \<Rightarrow> Inl (sel_err ''unknown chosen candidate''))
      | _ \<Rightarrow> Inl (sel_err ''non-object JSON''))"

text \<open>
  \<open>_merge_candidate_generation_rejections\<close>: pruned candidates of step 4 join the rejected ones,
  notes join the accepted trade-offs. Iterating over \<open>pruned_candidates\<close> raises on null, numbers and truth
  values; the keys of a dict and the characters of a text are no mappings and skipped. \<open>extend\<close> reads
  the list it extends, so a note is added once.
\<close>

definition pruned_items :: "pyval \<Rightarrow> py_exc + pyval list" where
  "pruned_items v = (case v of PList vs \<Rightarrow> Inr vs | PDict _ \<Rightarrow> Inr [] | PStr _ \<Rightarrow> Inr [] | _ \<Rightarrow> Inl TypeError)"

fun merge_pruned :: "string list \<Rightarrow> pyval list \<Rightarrow> pyval list \<Rightarrow> pyval list" where
  "merge_pruned ids rejected [] = rejected"
| "merge_pruned ids rejected (v # vs) =
     (case v of
        PDict d \<Rightarrow>
          (case (py_get d ''candidate_id'', py_get d ''objection'') of
             (PStr c, PStr objection) \<Rightarrow>
               if c \<in> set ids then merge_pruned ids rejected vs
               else merge_pruned (c # ids) (rejected @ [PDict [(''candidate_id'', PStr c), (''objection'', PStr objection)]]) vs
           | _ \<Rightarrow> merge_pruned ids rejected vs)
      | _ \<Rightarrow> merge_pruned ids rejected vs)"

fun extend_notes :: "pyval list \<Rightarrow> string list \<Rightarrow> pyval list" where
  "extend_notes tradeoffs [] = tradeoffs"
| "extend_notes tradeoffs (n # ns) =
     extend_notes (if PStr n \<in> set tradeoffs then tradeoffs else tradeoffs @ [PStr n]) ns"

definition merge_candidate_generation_rejections :: "pydict \<Rightarrow> pydict \<Rightarrow> py_exc + pydict" where
  "merge_candidate_generation_rejections selected candidates =
     (let rejected = produced_list (py_get_default selected ''rejected'' (PList []));
          ids = concat (map (\<lambda>v. case item_text ''candidate_id'' v of Some i \<Rightarrow> [i] | None \<Rightarrow> []) rejected)
      in rbind (pruned_items (py_get_default candidates ''pruned_candidates'' (PList []))) (\<lambda>pruned.
        (let with_rejected = py_set selected ''rejected'' (PList (merge_pruned ids rejected pruned));
             notes = texts_of (produced_list (py_get_default candidates ''degradation_notes'' (PList [])))
         in Inr (case (py_get_default candidates ''degradation_notes'' (PList []), notes, py_get with_rejected ''rationale'') of
              (PList _, Some ns, PDict rationale) \<Rightarrow>
                (case py_get rationale ''accepting_tradeoffs'' of
                   PList tradeoffs \<Rightarrow>
                     py_set with_rejected ''rationale''
                       (PDict (py_set rationale ''accepting_tradeoffs'' (PList (extend_notes tradeoffs ns))))
                 | _ \<Rightarrow> with_rejected)
            | _ \<Rightarrow> with_rejected))))"

definition select_approach ::
  "(string \<Rightarrow> string) \<Rightarrow> loads_call \<Rightarrow> (pydict \<Rightarrow> py_exc + (string + string)) \<Rightarrow> (pydict \<Rightarrow> model_call) \<Rightarrow>
   pyval \<Rightarrow> pyval \<Rightarrow> pyval \<Rightarrow> py_exc + (pydict + pyval)" where
  "select_approach digest loads run_repair run candidates evaluations constraints =
     (case (candidates, evaluations, constraints) of
        (PDict cs, PDict evs, PDict _) \<Rightarrow>
          if candidate_ids cs = []
          then Inr (Inl (step_error ''select_approach requires named candidates from step 4''))
          else
            rbind (if set (evaluation_ids evs) \<noteq> set (candidate_ids cs)
                   then repair_evaluation_matrix_coverage loads run_repair cs evs else Inr (Some evs)) (\<lambda>ready.
            case ready of
              None \<Rightarrow> Inr (Inl (step_error ''select_approach requires one evaluation per candidate from step 5''))
            | Some evaluated_matrix \<Rightarrow>
                rbind (regenerate digest (run evaluated_matrix)
                         (parse_raw loads ''Codex approach selection'' (parse_approach_selection (candidate_ids cs)))
                         ''receive.select_approach'' ''Codex approach selection''
                         (MAX_TECHNICAL_APPROACH_NODE_REGENERATIONS + 1) 0 [] {} []) (\<lambda>r.
                case r of
                  Inl err \<Rightarrow> Inr (Inl err)
                | Inr (PDict selected) \<Rightarrow>
                    rbind (merge_candidate_generation_rejections selected cs) (\<lambda>d. Inr (Inr (PDict d)))
                | Inr v \<Rightarrow> Inr (Inr v)))
      | _ \<Rightarrow> Inr (Inl (step_error ''select_approach requires outputs from steps 2, 4, and 5'')))"

section \<open>What the attempt loop returns\<close>

text \<open>One attempt: it raises, or the call failed, or its output was rejected with errors, or read.\<close>

definition attempt_outcome ::
  "model_call \<Rightarrow> loads_call \<Rightarrow> nat \<Rightarrow> string list \<Rightarrow> py_exc + (string + (string list + pyval))" where
  "attempt_outcome run parse attempt feedback =
     rbind (run attempt (if attempt = 0 then None else Some feedback)) (\<lambda>called.
       case called of
         Inl err \<Rightarrow> Inr (Inl err)
       | Inr raw \<Rightarrow> rbind (parse raw) (\<lambda>read. Inr (Inr (case read of
             Inl e \<Rightarrow> Inl [e]
           | Inr v \<Rightarrow> if lint_empty_slots v [] = [] then Inr v else Inl (lint_empty_slots v [])))))"

text \<open>
  The first \<open>k\<close> attempts were rejected, none repeating a fingerprint of the one before it; the next
  one gets the rejection of the last as its feedback.
\<close>

inductive rejected_run ::
  "(string \<Rightarrow> string) \<Rightarrow> model_call \<Rightarrow> loads_call \<Rightarrow> string \<Rightarrow> nat \<Rightarrow> string list \<Rightarrow> string set \<Rightarrow> bool"
  for digest run parse validator where
  rejected_start: "rejected_run digest run parse validator 0 [] {}"
| rejected_step: "rejected_run digest run parse validator k feedback previous \<Longrightarrow>
    attempt_outcome run parse k feedback = Inr (Inr (Inl errors)) \<Longrightarrow>
    error_fingerprints digest validator errors \<inter> previous = {} \<Longrightarrow>
    validation_rejection digest validator errors = Inr r \<Longrightarrow>
    rejected_run digest run parse validator (Suc k) [format_rejection_feedback r] (error_fingerprints digest validator errors)"

lemma attempt_errors_nonempty: "attempt_outcome run parse k fb = Inr (Inr (Inl errors)) \<Longrightarrow> errors \<noteq> []"
  by (auto simp: attempt_outcome_def rbind_def split: sum.split_asm if_split_asm)

lemma regenerate_Suc:
  "regenerate digest run parse validator label (Suc n) k fb previous last_error =
     rbind (attempt_outcome run parse k fb) (\<lambda>outcome. case outcome of
        Inl err \<Rightarrow> Inr (Inl (step_error err))
      | Inr (Inr v) \<Rightarrow> Inr (Inr v)
      | Inr (Inl errors) \<Rightarrow>
          rbind (classify_validation_retry digest previous validator errors) (\<lambda>((fb', permanent), seen).
            case permanent of
              Some err \<Rightarrow> Inr (Inl err)
            | None \<Rightarrow> regenerate digest run parse validator label n (Suc k) fb' seen (py_join ''; '' errors)))"
proof (cases "run k (if k = 0 then None else Some fb)")
  case (Inr called)
  show ?thesis
  proof (cases called)
    case (Inr raw)
    then show ?thesis using \<open>run k (if k = 0 then None else Some fb) = Inr called\<close>
      by (cases "parse raw") (auto simp: attempt_outcome_def Let_def split: sum.split list.split)
  qed (simp add: attempt_outcome_def Inr)
qed (simp add: attempt_outcome_def)

text \<open>The error of a permanent rejection names its kind and the repeated fingerprints.\<close>

definition permanent_error :: "(string \<Rightarrow> string) \<Rightarrow> string \<Rightarrow> string set \<Rightarrow> string list \<Rightarrow> pydict \<Rightarrow> bool" where
  "permanent_error digest validator previous errors err \<longleftrightarrow>
     py_get err ''ok'' = PBool False \<and> py_get err ''failure_mode'' = PStr ''permanent_rejection'' \<and>
     (\<exists>fs. py_get err ''repeated_rejection_fingerprints'' = PList (map PStr fs) \<and>
        set fs = error_fingerprints digest validator errors \<inter> previous)"

lemma classify_exact:
  assumes "errors \<noteq> []"
  obtains r where "error_fingerprints digest v errors \<inter> previous = {}" "validation_rejection digest v errors = Inr r"
      "classify_validation_retry digest previous v errors = Inr (([format_rejection_feedback r], None), error_fingerprints digest v errors)"
    | err where "error_fingerprints digest v errors \<inter> previous \<noteq> {}" "permanent_error digest v previous errors err"
      "classify_validation_retry digest previous v errors = Inr (([], Some err), error_fingerprints digest v errors)"
proof -
  obtain r where r: "validation_rejection digest v errors = Inr r"
    "set (atom_fingerprints r) = error_fingerprints digest v errors"
    using validation_rejection_simps(2) [OF assms, of digest v] by (auto simp: error_fingerprints_def)
  obtain d st where d: "classify_rejection previous r = (d, st)" by (cases "classify_rejection previous r")
  have st: "st = error_fingerprints digest v errors" "set (decision_repeated d) = error_fingerprints digest v errors \<inter> previous"
    and p: "decision_permanent d \<longleftrightarrow> error_fingerprints digest v errors \<inter> previous \<noteq> {}"
    using decision_simps(1-3) [of previous r] d r(2) by auto
  show thesis
  proof (cases "decision_permanent d")
    case True
    let ?err = "[(''ok'', PBool False), (''error'', PStr (permanent_rejection_error d))] @ permanent_rejection_payload d"
    have "permanent_error digest v previous errors ?err"
      using st by (auto simp: permanent_error_def permanent_rejection_payload_def Let_def py_get_def)
    then show thesis using that(2) r(1) d st p True by (simp add: classify_validation_retry_def)
  next
    case False
    then show thesis using that(1) r(1) d st p by (simp add: classify_validation_retry_def)
  qed
qed

text \<open>What a step may make of the attempts: \<open>k\<close> rejected ones and, within the budget, one more.\<close>

definition regenerated ::
  "(string \<Rightarrow> string) \<Rightarrow> model_call \<Rightarrow> loads_call \<Rightarrow> string \<Rightarrow> string \<Rightarrow> nat \<Rightarrow> nat \<Rightarrow> py_exc + (pydict + pyval) \<Rightarrow> bool" where
  "regenerated digest run parse validator label budget k r \<longleftrightarrow>
     (\<exists>fb previous. rejected_run digest run parse validator k fb previous \<and>
        (if k < budget then
           (case attempt_outcome run parse k fb of
              Inl e \<Rightarrow> r = Inl e
            | Inr (Inl err) \<Rightarrow> r = Inr (Inl (step_error err))
            | Inr (Inr (Inr v)) \<Rightarrow> r = Inr (Inr v)
            | Inr (Inr (Inl errors)) \<Rightarrow>
                error_fingerprints digest validator errors \<inter> previous \<noteq> {} \<and>
                (\<exists>err. permanent_error digest validator previous errors err \<and> r = Inr (Inl err)))
         else k = budget \<and> (\<exists>e. r = Inr (Inl (step_error (label @ '' remained invalid after 3 attempts: '' @ e))))))"

lemma regenerate_from:
  "rejected_run digest run parse validator k fb previous \<Longrightarrow>
   \<exists>j. k \<le> j \<and> j \<le> k + n \<and>
     regenerated digest run parse validator label (k + n) j (regenerate digest run parse validator label n k fb previous last_error)"
proof (induction n arbitrary: k fb previous last_error)
  case 0
  have "nat_str (MAX_TECHNICAL_APPROACH_NODE_REGENERATIONS + 1) = ''3''" by code_simp
  then show ?case using 0 by (auto simp: regenerated_def)
next
  case (Suc n)
  let ?o = "attempt_outcome run parse k fb"
  let ?r = "regenerate digest run parse validator label (Suc n) k fb previous last_error"
  have stop: "\<exists>j. k \<le> j \<and> j \<le> k + Suc n \<and> regenerated digest run parse validator label (k + Suc n) j ?r"
    if "regenerated digest run parse validator label (k + Suc n) k ?r"
    using that by (intro exI [of _ k]) simp
  show ?case
  proof (cases "\<exists>errors. ?o = Inr (Inr (Inl errors))")
    case False
    have "regenerated digest run parse validator label (k + Suc n) k ?r"
      unfolding regenerated_def using Suc.prems False
      by (intro exI [of _ fb] exI [of _ previous]) (auto simp: regenerate_Suc simp del: regenerate.simps split: sum.split)
    then show ?thesis by (rule stop)
  next
    case True
    then obtain errors where errors: "?o = Inr (Inr (Inl errors))" by blast
    show ?thesis
    proof (cases rule: classify_exact [OF attempt_errors_nonempty [OF errors], of digest validator previous])
      case (1 q)
      have "rejected_run digest run parse validator (Suc k) [format_rejection_feedback q] (error_fingerprints digest validator errors)"
        using rejected_step [OF Suc.prems errors 1(1,2)] .
      from Suc.IH [OF this, of "py_join ''; '' errors"] show ?thesis
        by (auto simp: regenerate_Suc errors 1(3) Suc_le_eq simp del: regenerate.simps intro: less_imp_le)
    next
      case (2 err)
      then have "regenerated digest run parse validator label (k + Suc n) k ?r"
        unfolding regenerated_def using Suc.prems errors
        by (intro exI [of _ fb] exI [of _ previous]) (auto simp: regenerate_Suc simp del: regenerate.simps)
      then show ?thesis by (rule stop)
    qed
  qed
qed

lemma regenerate_outcomes:
  "\<exists>k \<le> 3. regenerated digest run parse validator label 3 k
     (regenerate digest run parse validator label (MAX_TECHNICAL_APPROACH_NODE_REGENERATIONS + 1) 0 [] {} [])"
  using regenerate_from [OF rejected_start, where n = 3 and last_error = "[]"]
  by (simp add: MAX_TECHNICAL_APPROACH_NODE_REGENERATIONS_def numeral_3_eq_3 del: regenerate.simps)

text \<open>
  C8: the attempt loop of a step makes at most three calls. Each of the first ones was rejected with
  errors no fingerprint of which was among those of the attempt just before it, and the next call got
  that rejection as its feedback; the loop ends with the exception of an attempt that raises, the error of
  a failed call, the first output that parses and has no empty slot, a permanent rejection exactly when
  an attempt repeats a fingerprint of the attempt before it (naming the repeated ones), or, after
  three fresh rejections, the error of giving up.
\<close>

theorem regenerate_outcome:
  "\<exists>k \<le> 3. regenerated digest run parse validator label 3 k
     (regenerate digest run parse validator label (MAX_TECHNICAL_APPROACH_NODE_REGENERATIONS + 1) 0 [] {} [])"
  by (rule regenerate_outcomes)

lemma regenerate_Inr:
  assumes "regenerate digest run parse validator label (MAX_TECHNICAL_APPROACH_NODE_REGENERATIONS + 1) 0 [] {} [] = Inr (Inr v)"
  shows "\<exists>k raw. parse raw = Inr (Inr v) \<and> lint_empty_slots v [] = [] \<and> (\<exists>fb. run k fb = Inr (Inr raw))"
proof -
  obtain k where r: "regenerated digest run parse validator label 3 k (Inr (Inr v))"
    using regenerate_outcomes [of digest run parse validator label] assms by auto
  then obtain fb where "attempt_outcome run parse k fb = Inr (Inr (Inr v))"
    by (auto simp: regenerated_def split: if_splits sum.splits)
  then show ?thesis by (auto simp: attempt_outcome_def rbind_def split: sum.split_asm if_split_asm)
qed

text \<open>What a call or the reading of its output raises.\<close>

definition call_raises :: "model_call \<Rightarrow> loads_call \<Rightarrow> py_exc \<Rightarrow> bool" where
  "call_raises run loads e \<longleftrightarrow>
     (\<exists>attempt fb. run attempt fb = Inl e \<or> (\<exists>raw. run attempt fb = Inr (Inr raw) \<and> loads raw = Inl e))"

lemma regenerate_raises:
  assumes "regenerate digest run (parse_raw loads l p) validator label (MAX_TECHNICAL_APPROACH_NODE_REGENERATIONS + 1) 0 [] {} [] = Inl e"
  shows "call_raises run loads e"
proof -
  obtain k where r: "regenerated digest run (parse_raw loads l p) validator label 3 k (Inl e)"
    using regenerate_outcomes [of digest run "parse_raw loads l p" validator label] assms by auto
  then obtain fb where "attempt_outcome run (parse_raw loads l p) k fb = Inl e"
    by (auto simp: regenerated_def split: if_splits sum.splits)
  then show ?thesis unfolding call_raises_def
    by (auto simp: attempt_outcome_def parse_raw_def rbind_def split: sum.split_asm)
qed

section \<open>Step 5 covers every candidate\<close>

lemma parse_candidate_evaluation_Inr:
  assumes "parse_candidate_evaluation v c = Inr w"
  shows "\<exists>ss. w = PDict [(''candidate_id'', PStr c), (''scores'', PDict ss)] \<and>
    map fst ss = CANDIDATE_EVALUATION_SCORE_FIELDS \<and>
    (\<forall>f s. map_of ss f = Some s \<longrightarrow> leaves_filled EVALUATION_SCORE_FIELDS s)"
proof -
  obtain scores ss where w: "w = PDict [(''candidate_id'', PStr c), (''scores'', PDict ss)]"
    and ss: "parse_scores scores CANDIDATE_EVALUATION_SCORE_FIELDS = Inr ss"
    using assms by (auto simp: parse_candidate_evaluation_def rbind_Inr_iff split: pyval.splits if_splits)
  have score: "leaves_filled EVALUATION_SCORE_FIELDS s" if "parse_score v = Inr s" for v s
    using that by (auto simp: parse_score_def leaves_filled_def EVALUATION_SCORE_FIELDS_def py_get_def
        split: pyval.splits if_splits option.splits)
  have "map fst ss = fs \<and> (\<forall>f s. map_of ss f = Some s \<longrightarrow> leaves_filled EVALUATION_SCORE_FIELDS s)"
    if "parse_scores scores fs = Inr ss" for fs ss
    using that by (induction fs arbitrary: ss) (auto simp: rbind_Inr_iff score split: if_splits)
  then show ?thesis using w ss by blast
qed

text \<open>A well-formed evaluation: read by the step-5 parser for its own id, no slot empty.\<close>

definition sound_evaluation :: "pyval \<Rightarrow> bool" where
  "sound_evaluation v \<longleftrightarrow>
     (\<exists>w. parse_candidate_evaluation w (item_id ''candidate_id'' v) = Inr v) \<and> lint_empty_slots v [] = []"

lemma sound_evaluationD:
  assumes "sound_evaluation v"
  shows "item_text ''candidate_id'' v = Some (item_id ''candidate_id'' v)"
    "\<exists>d. v = PDict d \<and> scores_filled CANDIDATE_EVALUATION_SCORE_FIELDS EVALUATION_SCORE_FIELDS (py_get d ''scores'')"
proof -
  obtain ss where v: "v = PDict [(''candidate_id'', PStr (item_id ''candidate_id'' v)), (''scores'', PDict ss)]"
    and ss: "map fst ss = CANDIDATE_EVALUATION_SCORE_FIELDS"
      "\<forall>f s. map_of ss f = Some s \<longrightarrow> leaves_filled EVALUATION_SCORE_FIELDS s"
    using assms parse_candidate_evaluation_Inr unfolding sound_evaluation_def by blast
  show "item_text ''candidate_id'' v = Some (item_id ''candidate_id'' v)"
    by (subst v) (simp add: item_text_def py_get_def)
  have "map_of ss f \<noteq> None" if "f \<in> set CANDIDATE_EVALUATION_SCORE_FIELDS" for f
    using that by (simp add: map_of_eq_None_iff flip: ss(1))
  then have "scores_filled CANDIDATE_EVALUATION_SCORE_FIELDS EVALUATION_SCORE_FIELDS (PDict ss)"
    using ss(2) by (auto simp: scores_filled_def list_all_iff CANDIDATE_EVALUATION_SCORE_FIELDS_def split: option.split)
  then show "\<exists>d. v = PDict d \<and> scores_filled CANDIDATE_EVALUATION_SCORE_FIELDS EVALUATION_SCORE_FIELDS (py_get d ''scores'')"
    by (subst (1) v) (auto simp: py_get_def)
qed

lemma sound_evaluationI:
  assumes "parse_candidate_evaluation w c = Inr v" "lint_empty_slots v [] = []"
  shows "sound_evaluation v \<and> item_id ''candidate_id'' v = c"
proof -
  have "item_id ''candidate_id'' v = c"
    using parse_candidate_evaluation_Inr [OF assms(1)] by (auto simp: item_id_def item_text_def py_get_def)
  then show ?thesis using assms by (auto simp: sound_evaluation_def)
qed

lemma parse_raw_Inr: "parse_raw loads label parse raw = Inr (Inr v) \<Longrightarrow> \<exists>w. parse w = Inr v"
  by (auto simp: parse_raw_def rbind_def split: sum.split_asm)

text \<open>An id that can stand in the name of a file.\<close>

definition file_id :: "string \<Rightarrow> bool" where
  "file_id c \<longleftrightarrow> CHR 0x00 \<notin> set c \<and> CHR ''/'' \<notin> set c"

lemma evaluation_run_json:
  "run_json (evaluation_schema_name c) call =
     (if CHR 0x00 \<in> set c then Inl ValueError else if CHR ''/'' \<in> set c then Inl OSError else call)"
  by (simp add: run_json_def evaluation_schema_name_def)

lemma evaluate_candidate_Inr:
  assumes "evaluate_candidate digest loads run c = Inr (Inr v)"
  shows "sound_evaluation v \<and> item_id ''candidate_id'' v = c \<and> file_id c"
proof -
  obtain k fb raw where p: "parse_raw loads ''Codex candidate evaluation'' (\<lambda>v. parse_candidate_evaluation v c) raw = Inr (Inr v)"
    and l: "lint_empty_slots v [] = []" and r: "run_json (evaluation_schema_name c) (run c k fb) = Inr (Inr raw)"
    using regenerate_Inr [OF assms [unfolded evaluate_candidate_def]] by blast
  obtain w where "parse_candidate_evaluation w c = Inr v" using parse_raw_Inr [OF p] by blast
  then show ?thesis using sound_evaluationI l r by (auto simp: evaluation_run_json file_id_def split: if_splits)
qed

lemma evaluate_each_Inr:
  "evaluate_each digest loads run cs = Inr (Inr vs) \<Longrightarrow>
   map (item_id ''candidate_id'') vs = cs \<and> (\<forall>v\<in>set vs. sound_evaluation v) \<and> list_all file_id cs"
  by (induction cs arbitrary: vs) (auto simp: rbind_def dest!: evaluate_candidate_Inr split: sum.split_asm)

text \<open>What step 5 raises for a candidate.\<close>

definition evaluation_raises :: "(string \<Rightarrow> model_call) \<Rightarrow> loads_call \<Rightarrow> string \<Rightarrow> py_exc \<Rightarrow> bool" where
  "evaluation_raises run loads c e \<longleftrightarrow>
     CHR 0x00 \<in> set c \<and> e = ValueError \<or> CHR ''/'' \<in> set c \<and> e = OSError \<or> call_raises (run c) loads e"

lemma evaluate_candidate_raises: "evaluate_candidate digest loads run c = Inl e \<Longrightarrow> evaluation_raises run loads c e"
  unfolding evaluate_candidate_def
  by (drule regenerate_raises) (auto simp: call_raises_def evaluation_raises_def evaluation_run_json split: if_splits)

lemma evaluate_each_raises: "evaluate_each digest loads run cs = Inl e \<Longrightarrow> \<exists>c\<in>set cs. evaluation_raises run loads c e"
  by (induction cs) (auto simp: rbind_def dest: evaluate_candidate_raises split: sum.splits)

text \<open>An id with a slash, which nothing refuses before, makes step 5 raise as soon as it comes to it.\<close>

lemma slash_id_raises:
  assumes "CHR 0x00 \<notin> set c" "CHR ''/'' \<in> set c"
  shows "evaluate_candidate digest loads run c = Inl OSError"
  using assms by (simp add: evaluate_candidate_def evaluation_run_json MAX_TECHNICAL_APPROACH_NODE_REGENERATIONS_def numeral_2_eq_2)

lemma ids_of_texts:
  assumes "\<forall>v\<in>set vs. item_text f v = Some (item_id f v)"
  shows "ids_of (item_text f) vs = Some (map (item_id f) vs)"
  using assms by (induction vs) auto

lemma distinct_candidate_ids: "distinct (candidate_ids cs)"
  by (simp add: candidate_ids_def text_ids_def split: pyval.split option.split)

lemma find_own_id:
  assumes "\<forall>v\<in>set vs. item_text f v = Some (item_id f v)" "distinct (map (item_id f) vs)" "v \<in> set vs"
  shows "find (\<lambda>x. item_text f x = Some (item_id f v)) vs = Some v"
  using assms
proof (induction vs)
  case (Cons x vs)
  then show ?case by (cases "v = x") (auto simp: image_iff)
qed simp

lemma sound_evaluations_evaluated:
  assumes "\<forall>v\<in>set vs. sound_evaluation v" "distinct (map (item_id ''candidate_id'') vs)" "c \<in> item_id ''candidate_id'' ` set vs"
  shows "evaluated CANDIDATE_EVALUATION_SCORE_FIELDS EVALUATION_SCORE_FIELDS vs c"
proof -
  obtain v where v: "v \<in> set vs" "c = item_id ''candidate_id'' v" using assms(3) by blast
  have "find (\<lambda>x. item_text ''candidate_id'' x = Some c) vs = Some v"
    using assms v sound_evaluationD(1) by (auto intro!: find_own_id)
  then show ?thesis using sound_evaluationD(2) [of v] assms(1) v(1) by (auto simp: evaluated_def)
qed

text \<open>
  C9: step 5 returns, when it succeeds, exactly one evaluation per candidate in the order of the
  candidates, each rated and reasoned in all nine fields without an empty text, and its final coverage
  check cannot fail. It raises only what the call for some candidate or the decoder raised, or because an
  id holds a slash or a null character and its schema file cannot be written; with such an id it
  never succeeds.
\<close>

theorem evaluate_candidates_covers:
  "case evaluate_candidates digest loads run (PDict cs) (PDict np) (PDict con) of
     Inl e \<Rightarrow> \<exists>c. c \<in> set (candidate_ids cs) \<and> evaluation_raises run loads c e
   | Inr (Inl err) \<Rightarrow> candidate_ids cs = [] \<or> evaluate_each digest loads run (candidate_ids cs) = Inr (Inl err)
   | Inr (Inr evs) \<Rightarrow>
       evaluation_ids evs = candidate_ids cs \<and> list_all file_id (candidate_ids cs) \<and>
       slot_satisfied (PDict [(''evaluations'', PList (map (evaluation_slot CANDIDATE_EVALUATION_SCORE_FIELDS
         EVALUATION_SCORE_FIELDS) (filter (\<lambda>c. c \<noteq> []) (candidate_ids cs))))]) (PDict evs) \<and>
       (\<exists>vs. evs = [(''evaluations'', PList vs)] \<and> map (item_id ''candidate_id'') vs = candidate_ids cs \<and>
          list_all sound_evaluation vs)"
proof (cases "candidate_ids cs = []")
  case True
  then show ?thesis by (simp add: evaluate_candidates_def)
next
  case False
  let ?ids = "candidate_ids cs"
  consider e where "evaluate_each digest loads run ?ids = Inl e" | err where "evaluate_each digest loads run ?ids = Inr (Inl err)"
    | vs where "evaluate_each digest loads run ?ids = Inr (Inr vs)"
    by (metis sum.exhaust)
  then show ?thesis
  proof cases
    case (1 e)
    then show ?thesis using False evaluate_each_raises [OF 1] by (auto simp: evaluate_candidates_def)
  next
    case (2 err)
    then show ?thesis using False by (simp add: evaluate_candidates_def)
  next
    case (3 vs)
    have vs: "map (item_id ''candidate_id'') vs = ?ids" "\<forall>v\<in>set vs. sound_evaluation v" "list_all file_id ?ids"
      using evaluate_each_Inr [OF 3] by auto
    have set_ids: "set ?ids = item_id ''candidate_id'' ` set vs" using vs(1) by (metis set_map)
    have ids: "ids_of (item_text ''candidate_id'') vs = Some ?ids"
      using ids_of_texts [of vs "''candidate_id''"] vs sound_evaluationD(1) by simp
    let ?ne = "filter (\<lambda>c. c \<noteq> []) ?ids"
    have e: "list_all (evaluated CANDIDATE_EVALUATION_SCORE_FIELDS EVALUATION_SCORE_FIELDS vs) ?ne"
      using sound_evaluations_evaluated [of vs] vs set_ids distinct_candidate_ids [of cs] by (simp add: list_all_iff)
    have sat: "slot_satisfied (PDict [(''evaluations'', PList (map (evaluation_slot CANDIDATE_EVALUATION_SCORE_FIELDS
         EVALUATION_SCORE_FIELDS) ?ne))]) (PDict [(''evaluations'', PList vs)])"
    proof (cases "?ne = []")
      case True
      then show ?thesis by (simp only: True list.map) (simp add: py_get_def)
    next
      case False
      have "distinct ?ne" "[] \<notin> set ?ne" using distinct_candidate_ids [of cs] by auto
      from matrix_satisfied [OF False this] e show ?thesis by (simp only: py_get_def) simp
    qed
    show ?thesis
      using False 3 vs sat ids distinct_candidate_ids [of cs]
      by (auto simp: evaluate_candidates_def set_ids evaluation_ids_def text_ids_def py_get_def list_all_iff
          simp del: slot_satisfied.simps)
  qed
qed

section \<open>The repair round restores coverage\<close>

abbreviation matrix_slot :: "string \<Rightarrow> pyval" where
  "matrix_slot \<equiv> evaluation_slot CANDIDATE_EVALUATION_SCORE_FIELDS EVALUATION_SCORE_FIELDS"

abbreviation matrix :: "string list \<Rightarrow> pydict" where
  "matrix ids \<equiv> [(''evaluations'', PList (map matrix_slot ids))]"

abbreviation rated :: "pyval list \<Rightarrow> string \<Rightarrow> bool" where
  "rated \<equiv> evaluated CANDIDATE_EVALUATION_SCORE_FIELDS EVALUATION_SCORE_FIELDS"

lemma ids_of_PStr:
  assumes "\<And>s. f (PStr s) = Some s \<or> f (PStr s) = None"
  shows "ids_of f (map PStr ss) = (if list_all (\<lambda>s. f (PStr s) = Some s) ss then Some ss else None)"
proof (induction ss)
  case (Cons s ss)
  then show ?case using assms [of s] by auto
qed simp

lemma id_entry_PStr: "id_entry (PStr s) = (if s = [] then None else Some s)"
  by (simp add: id_entry_def)

lemma skeleton_payload:
  assumes "distinct ids"
  shows "gadget_payload (evaluation_matrix_skeleton (PList (map PStr ids))
      (PList (map PStr CANDIDATE_EVALUATION_SCORE_FIELDS)) (PList (map PStr EVALUATION_SCORE_FIELDS))) ''skeleton'' =
    (if [] \<in> set ids then None else Some (PDict (matrix ids)))"
proof -
  have i: "ids_of id_entry (map PStr ids) = (if [] \<in> set ids then None else Some ids)"
    by (subst ids_of_PStr) (auto simp: id_entry_PStr list_all_iff)
  have f: "field_name_list (PList (map PStr CANDIDATE_EVALUATION_SCORE_FIELDS)) l = Inr CANDIDATE_EVALUATION_SCORE_FIELDS"
    "field_name_list (PList (map PStr EVALUATION_SCORE_FIELDS)) l = Inr EVALUATION_SCORE_FIELDS" for l
    by (simp_all add: field_name_list_def CANDIDATE_EVALUATION_SCORE_FIELDS_def EVALUATION_SCORE_FIELDS_def name_entry_def)
  show ?thesis using assms
    by (simp add: evaluation_matrix_skeleton_def string_id_list_def i f gadget_payload_def gadget_ok_def gadget_error_def
        py_get_def)
qed

lemma matrix_wf: "distinct ids \<Longrightarrow> wf_py (PDict (matrix ids))"
  by (simp add: list_all_iff evaluation_slot_def score_placeholder_def CANDIDATE_EVALUATION_SCORE_FIELDS_def EVALUATION_SCORE_FIELDS_def)

lemma delta_payload:
  "gadget_payload (repair_delta (PDict report) (PDict produced) (PDict (matrix ids))) ''delta'' =
     Some (PDict (delta_dict report (delta_run produced (matrix ids))))"
  by (simp add: repair_delta_def unwrap_def py_get_def gadget_payload_def gadget_ok_def)

lemma slot_state_rated:
  "item_state evs ''evaluations'' ''candidate_id'' (matrix_slot c) = Filled \<longleftrightarrow>
     rated (produced_list (py_get evs ''evaluations'')) c"
proof -
  let ?old = "produced_list (py_get evs ''evaluations'')"
  show ?thesis
  proof (cases "find (\<lambda>v. item_text ''candidate_id'' v = Some c) ?old")
    case (Some v)
    then have "item_text ''candidate_id'' v = Some c" by (auto simp: find_Some_iff)
    then show ?thesis using Some slot_matches [of v c CANDIDATE_EVALUATION_SCORE_FIELDS EVALUATION_SCORE_FIELDS]
      by (simp add: item_state_def slot_state_of_Filled evaluated_def split: pyval.splits)
  qed (simp add: item_state_def evaluated_def)
qed

lemma requested_slots:
  assumes "distinct ids" "[] \<notin> set ids" "ids \<noteq> []"
  shows "map (item_id ''candidate_id'') (produced_list (py_get (fragment_request (delta_run evs (matrix ids))) ''evaluations'')) =
    filter (\<lambda>c. \<not> rated (produced_list (py_get evs ''evaluations'')) c) ids"
proof -
  have k: "keyed_list_id_field (PList (map matrix_slot ids)) = Some ''candidate_id''"
    using assms by (intro keyed_matrix)
  have r: "fragment_request (delta_run evs (matrix ids)) = asked evs (''evaluations'', PList (map matrix_slot ids))"
    using delta_run_parts(3) [OF matrix_wf [OF assms(1)], of evs] by simp
  have q: "filter (\<lambda>i. item_state evs ''evaluations'' ''candidate_id'' i \<noteq> Filled) (map matrix_slot ids) =
      map matrix_slot (filter (\<lambda>c. \<not> rated (produced_list (py_get evs ''evaluations'')) c) ids)"
    by (simp add: filter_map o_def slot_state_rated)
  show ?thesis
  proof (cases "filter (\<lambda>c. \<not> rated (produced_list (py_get evs ''evaluations'')) c) ids = []")
    case True
    then show ?thesis using k r q by (simp add: asked_def produced_list_def [of "PList _"] py_get_def [of "[]"] produced_list_def [of PNone] Let_def)
  next
    case False
    then show ?thesis using k r q
      by (simp add: asked_def produced_list_def [of "PList _"] py_get_def [of "[(_, _)]"] Let_def o_def)
  qed
qed

lemma repair_items_Some:
  "repair_items requested seen items = Inr (Some vs) \<Longrightarrow>
   (\<forall>v\<in>set vs. sound_evaluation v \<and> item_id ''candidate_id'' v \<in> set requested \<and> item_id ''candidate_id'' v \<notin> set seen) \<and>
   distinct (map (item_id ''candidate_id'') vs)"
proof (induction items arbitrary: seen vs)
  case (Cons item items)
  then obtain d i v us where "item = PDict d" "i \<in> set requested" "i \<notin> set seen"
    "parse_candidate_evaluation item i = Inr v" "lint_empty_slots v [] = []"
    "repair_items requested (i # seen) items = Inr (Some us)" "vs = v # us"
    by (auto simp: rbind_def split: pyval.split_asm sum.split_asm if_split_asm)
  then show ?case using Cons.IH [of "i # seen" us] sound_evaluationI [of item i v] by fastforce
qed simp

lemma keyed_sound:
  assumes "vs \<noteq> []" "\<forall>v\<in>set vs. sound_evaluation v" "distinct (map (item_id ''candidate_id'') vs)"
    "\<forall>v\<in>set vs. item_id ''candidate_id'' v \<noteq> []"
  shows "keyed_list_id_field (PList vs) = Some ''candidate_id''"
proof -
  have shape: "\<exists>x ss. v = PDict [(''candidate_id'', x), (''scores'', ss)]" if "v \<in> set vs" for v
    using assms(2) that parse_candidate_evaluation_Inr unfolding sound_evaluation_def by blast
  have "nonempty_text ''candidate_id'' v = Some (item_id ''candidate_id'' v)" if "v \<in> set vs" for v
    using that assms(2,4) sound_evaluationD(1) by (simp add: nonempty_text_def)
  then have "ids_of (nonempty_text ''candidate_id'') vs = Some (map (item_id ''candidate_id'') vs)"
    by (induction vs) auto
  then have u: "unique_field vs ''candidate_id''" using assms(3) by (simp add: unique_field_def)
  obtain v ws where vs: "vs = v # ws" using assms(1) by (cases vs) auto
  obtain x ss where v: "v = PDict [(''candidate_id'', x), (''scores'', ss)]" using shape [of v] vs by auto
  have "list_all (\<lambda>i. as_dict i \<noteq> None) ws" using shape vs by (force simp: list_all_iff)
  moreover have "filter is_id_field [''candidate_id'', ''scores''] = [''candidate_id'']"
    by (simp add: is_id_field_def endswith_def)
  ultimately show ?thesis using u by (simp add: keyed_list_id_field_def vs v Let_def)
qed

lemma set_put_item: "set (put_item ov key f i t) \<subseteq> insert i (set t)"
  by (auto simp: put_item_def dest: set_update_subset_insert [THEN subsetD] split: option.splits if_splits)

lemma set_put_items: "set (fold (put_item ov key f) items t) \<subseteq> set items \<union> set t"
proof (induction items arbitrary: t)
  case (Cons i items)
  show ?case using Cons [of "put_item ov key f i t"] set_put_item [of ov key f i t] by auto
qed simp

text \<open>The merge of the validated evaluations into the matrix.\<close>

definition repaired_matrix :: "pydict \<Rightarrow> string list \<Rightarrow> pyval list \<Rightarrow> pydict" where
  "repaired_matrix evs ids validated =
     merged (merge_run evs (malformed_slots (delta_run evs (matrix ids))) [(''evaluations'', PList validated)])"

lemma merge_payload:
  assumes "delta = delta_dict report (delta_run evs (matrix ids))"
  shows "gadget_payload (merge_fragment (PDict evs) (PDict [(''evaluations'', PList validated)]) (PDict delta)) ''merged'' =
     Some (PDict (repaired_matrix evs ids validated))"
proof -
  have "overwritable_of (unwrap (PDict delta) ''delta'') = Inr (malformed_slots (delta_run evs (matrix ids)))"
    by (simp add: assms unwrap_def py_get_def overwritable_of_def delta_dict_def py_get_default_def list_all_iff o_def)
  then show ?thesis
    by (simp add: merge_fragment_def Let_def gadget_payload_def gadget_ok_def py_get_def repaired_matrix_def)
qed

lemma delta_request [simp]:
  "produced_dict (py_get_default (delta_dict report s) ''fragment_request'' (PDict [])) = fragment_request s"
  by (simp add: py_get_default_def delta_dict_def produced_dict_def)

text \<open>The round as a whole: what it asked for, what the model gave, and the merged matrix.\<close>

lemma repair_Some_parts:
  assumes "repair_evaluation_matrix_coverage loads run cs evs = Inr (Some final)"
  obtains items validated where
    "candidate_ids cs \<noteq> []" "[] \<notin> set (candidate_ids cs)"
    "repair_items (filter (\<lambda>c. \<not> rated (produced_list (py_get evs ''evaluations'')) c) (candidate_ids cs)) [] items = Inr (Some validated)"
    "final = repaired_matrix evs (candidate_ids cs) validated" "set (evaluation_ids final) = set (candidate_ids cs)"
proof -
  let ?ids = "candidate_ids cs"
  have e: "[] \<notin> set ?ids"
    using assms skeleton_payload [OF distinct_candidate_ids [of cs]]
    by (cases "[] \<in> set ?ids") (simp_all add: repair_evaluation_matrix_coverage_def Let_def)
  have ne: "?ids \<noteq> []"
  proof
    assume empty: "?ids = []"
    have "fragment_request (delta_run evs (matrix [])) = asked evs (''evaluations'', PList [])"
      using delta_run_parts(3) [OF matrix_wf [of "[]"], of evs] by simp
    then have "produced_list (py_get (fragment_request (delta_run evs (matrix []))) ''evaluations'') = []"
      by (simp add: asked_def py_get_def produced_list_def)
    then show False
      using assms skeleton_payload [OF distinct_candidate_ids [of cs]] empty
      by (simp add: repair_evaluation_matrix_coverage_def Let_def repair_report_def
          delta_payload [of _ evs "[]", simplified])
  qed
  note q = requested_slots [OF distinct_candidate_ids e ne, of evs]
  show thesis
    using assms that e ne merge_payload [OF refl]
    by (auto simp: repair_evaluation_matrix_coverage_def skeleton_payload distinct_candidate_ids Let_def repair_report_def
        delta_payload q rbind_def split: sum.split_asm pyval.split_asm option.split_asm if_split_asm)
qed

text \<open>
  C7: when the repair round returns a matrix, it holds exactly one evaluation per candidate; every
  evaluation in it is one the matrix already had or one the model supplied that passes the step-5
  parser without an empty slot; the evaluation a fully rated candidate had is untouched, and no
  other key of the matrix changes.
\<close>

theorem repair_restores_coverage:
  assumes "repair_evaluation_matrix_coverage loads run cs evs = Inr (Some final)"
  shows "\<exists>vs. py_get final ''evaluations'' = PList vs \<and> distinct (map (item_id ''candidate_id'') vs) \<and>
    set (map (item_id ''candidate_id'') vs) = set (candidate_ids cs) \<and>
    (\<forall>v\<in>set vs. v \<in> set (produced_list (py_get evs ''evaluations'')) \<or> sound_evaluation v) \<and>
    (\<forall>c. rated (produced_list (py_get evs ''evaluations'')) c \<longrightarrow>
       find (\<lambda>e. item_text ''candidate_id'' e = Some c) vs =
       find (\<lambda>e. item_text ''candidate_id'' e = Some c) (produced_list (py_get evs ''evaluations''))) \<and>
    (\<forall>k. k \<noteq> ''evaluations'' \<longrightarrow> map_of final k = map_of evs k)"
proof -
  let ?old = "produced_list (py_get evs ''evaluations'')"
  let ?ids = "candidate_ids cs"
  let ?ov = "malformed_slots (delta_run evs (matrix ?ids))"
  obtain items validated where ne: "?ids \<noteq> []" "[] \<notin> set ?ids"
    and it: "repair_items (filter (\<lambda>c. \<not> rated ?old c) ?ids) [] items = Inr (Some validated)"
    and final: "final = repaired_matrix evs ?ids validated" and cover: "set (evaluation_ids final) = set ?ids"
    using repair_Some_parts [OF assms] by metis
  have v: "\<forall>v\<in>set validated. sound_evaluation v \<and> item_id ''candidate_id'' v \<in> set ?ids \<and>
      \<not> rated ?old (item_id ''candidate_id'' v)"
    and dv: "distinct (map (item_id ''candidate_id'') validated)"
    using repair_items_Some [OF it] by auto
  have look: "map_of final k = (if k = ''evaluations'' then
      Some (merged_value ?ov ''evaluations'' (map_of evs ''evaluations'') (PList validated)) else map_of evs k)" for k
    using merge_run_merged [of "[(''evaluations'', PList validated)]" evs ?ov k] by (simp add: final repaired_matrix_def)
  obtain vs where vs: "py_get final ''evaluations'' = PList vs" "evaluation_ids final = map (item_id ''candidate_id'') vs"
    "distinct (map (item_id ''candidate_id'') vs)"
  proof -
    obtain vs ids where "py_get final ''evaluations'' = PList vs" "ids_of (item_text ''candidate_id'') vs = Some ids"
      "evaluation_ids final = ids" "distinct ids"
    proof -
      have "evaluation_ids final \<noteq> []" using cover ne(1) by auto
      then show thesis using that
        by (auto simp: evaluation_ids_def text_ids_def split: pyval.split_asm option.split_asm if_split_asm)
    qed
    moreover from this(2) have "ids = map (item_id ''candidate_id'') vs"
      by (induction vs arbitrary: ids) (auto simp: item_id_def split: option.splits)
    ultimately show thesis using that by simp
  qed
  have val: "PList vs = merged_value ?ov ''evaluations'' (map_of evs ''evaluations'') (PList validated)"
    using vs(1) look [of "''evaluations''"] by (simp add: py_get_def)
  have "set vs \<subseteq> set validated \<union> set ?old \<and>
    (\<forall>c. rated ?old c \<longrightarrow> find (\<lambda>e. item_text ''candidate_id'' e = Some c) vs = find (\<lambda>e. item_text ''candidate_id'' e = Some c) ?old)"
  proof (cases "validated = []")
    case True
    have "\<not> rated [] c" for c by (simp add: evaluated_def)
    moreover have "vs = [] \<or> vs = ?old"
      using val True by (auto simp: merged_value_def py_get_def produced_list_def split: option.splits if_splits)
    moreover have "vs \<noteq> []" using vs(2) cover ne(1) by auto
    ultimately show ?thesis by auto
  next
    case False
    have k: "keyed_list_id_field (PList validated) = Some ''candidate_id''"
      using False v dv ne(2) by (intro keyed_sound) auto
    have "vs = fold (put_item ?ov ''evaluations'' ''candidate_id'') validated ?old"
      using val k by (auto simp: merged_value_def py_get_def produced_list_def split: option.splits pyval.splits)
    moreover have "find (\<lambda>i. item_text ''candidate_id'' i = Some c) validated = None" if "rated ?old c" for c
      using v that sound_evaluationD(1) by (fastforce simp: find_None_iff)
    moreover have "\<forall>i\<in>set validated. item_text ''candidate_id'' i = Some (item_id ''candidate_id'' i)"
      using v sound_evaluationD(1) by blast
    ultimately show ?thesis using dv set_put_items [of ?ov] by (simp add: find_put_items)
  qed
  then show ?thesis using vs cover v look by auto
qed

definition example_candidates :: pydict where
  "example_candidates = [(''candidates'', PList [PDict [(''id'', PStr ''a'')]])]"

definition example_evaluation :: pyval where
  "example_evaluation = PDict [(''candidate_id'', PStr ''a''),
     (''scores'', PDict (map (\<lambda>f. (f, PDict [(''rating'', PStr ''1''), (''reason'', PStr ''r'')])) CANDIDATE_EVALUATION_SCORE_FIELDS))]"

definition example_matrix :: pydict where
  "example_matrix = [(''evaluations'', PList [example_evaluation])]"

theorem repair_restores_coverage_witness:
  "\<exists>vs. py_get example_matrix ''evaluations'' = PList vs \<and> distinct (map (item_id ''candidate_id'') vs) \<and>
    set (map (item_id ''candidate_id'') vs) = set (candidate_ids example_candidates)"
proof -
  have "repair_evaluation_matrix_coverage (\<lambda>_. Inr (Inr (PDict example_matrix))) (\<lambda>_. Inr (Inr [])) example_candidates [] =
      Inr (Some example_matrix)" by code_simp
  from repair_restores_coverage [OF this] show ?thesis by blast
qed

section \<open>The selection\<close>

lemma parse_rejections_Inr:
  "parse_rejections cids chosen seen vs = Inr rs \<Longrightarrow> distinct seen \<Longrightarrow>
   distinct (seen @ map (item_id ''candidate_id'') rs) \<and>
   set seen \<union> set (map (item_id ''candidate_id'') rs) = set cids - {chosen}"
proof (induction cids chosen seen vs arbitrary: rs rule: parse_rejections.induct)
  case (2 cids chosen seen v vs)
  then obtain d c objection us where v: "v = PDict d" "c \<in> set cids" "c \<noteq> chosen" "c \<notin> set seen"
    "py_get d ''candidate_id'' = PStr c" "py_get d ''objection'' = PStr objection" "fields_are d REJECTED_APPROACH_FIELDS"
    "parse_rejections cids chosen (c # seen) vs = Inr us"
    "rs = PDict [(''candidate_id'', PStr c), (''objection'', PStr objection)] # us"
    by (auto simp: rbind_def split: pyval.split_asm sum.split_asm if_split_asm)
  have "distinct ((c # seen) @ map (item_id ''candidate_id'') us) \<and>
      set (c # seen) \<union> set (map (item_id ''candidate_id'') us) = set cids - {chosen}"
    using v "2.prems" by (intro "2.IH") auto
  moreover have "item_id ''candidate_id'' (PDict [(''candidate_id'', PStr c), (''objection'', PStr objection)]) = c"
    by (simp add: item_id_def item_text_def py_get_def)
  ultimately show ?case using v(9) by auto
qed (auto split: if_split_asm)

lemma parse_argument_Inr:
  assumes "parse_argument cids v = Inr a"
  shows "item_id ''about_candidate_id'' a \<in> set cids"
proof -
  obtain d ts c where "texts_of (map (py_get d) TOULMIN_ARGUMENT_FIELDS) = Some ts"
    "a = PDict (zip TOULMIN_ARGUMENT_FIELDS (map PStr ts))" "py_get d ''about_candidate_id'' = PStr c" "c \<in> set cids"
    using assms by (auto simp: parse_argument_def text_among_def split: pyval.split_asm if_split_asm option.split_asm)
  then show ?thesis
    by (auto simp: texts_of_def TOULMIN_ARGUMENT_FIELDS_def item_id_def item_text_def py_get_def split: option.split_asm)
qed

lemma parse_all_Inr: "parse_all f vs = Inr xs \<Longrightarrow> x \<in> set xs \<Longrightarrow> \<exists>v. f v = Inr x"
  by (induction vs arbitrary: xs) (auto simp: rbind_Inr_iff)

text \<open>The pruned candidates of step 4 that carry an id and an objection, in their order.\<close>

fun pruned_pairs :: "pyval list \<Rightarrow> (string \<times> string) list" where
  "pruned_pairs [] = []"
| "pruned_pairs (v # vs) =
     (case v of
        PDict d \<Rightarrow>
          (case (py_get d ''candidate_id'', py_get d ''objection'') of
             (PStr c, PStr objection) \<Rightarrow> (c, objection) # pruned_pairs vs
           | _ \<Rightarrow> pruned_pairs vs)
      | _ \<Rightarrow> pruned_pairs vs)"

definition rejection_entry :: "string \<times> string \<Rightarrow> pyval" where
  "rejection_entry p = PDict [(''candidate_id'', PStr (fst p)), (''objection'', PStr (snd p))]"

text \<open>
  A decision: one candidate chosen, every other rejected once, behind them the pruned candidates that are
  not rejected already, each once with its first objection, and arguments about known candidates.
\<close>

definition sound_selection :: "string list \<Rightarrow> pyval list \<Rightarrow> pydict \<Rightarrow> bool" where
  "sound_selection cids pruned d \<longleftrightarrow>
     (\<exists>c rs extra args. py_get d ''selected_candidate_id'' = PStr c \<and> c \<in> set cids \<and>
        py_get d ''rejected'' = PList (rs @ map rejection_entry extra) \<and> distinct (map (item_id ''candidate_id'') rs) \<and>
        set (map (item_id ''candidate_id'') rs) = set cids - {c} \<and>
        distinct (map fst extra) \<and>
        (\<forall>i q. (i, q) \<in> set extra \<longleftrightarrow> i \<notin> set cids - {c} \<and> map_of (pruned_pairs pruned) i = Some q) \<and>
        py_get d ''arguments'' = PList args \<and> (\<forall>a\<in>set args. item_id ''about_candidate_id'' a \<in> set cids))"

lemma parse_approach_selection_Inr:
  assumes "parse_approach_selection cids v = Inr w"
  shows "\<exists>c args rationale axes rs questions.
    w = PDict [(''selected_candidate_id'', PStr c), (''arguments'', PList args), (''rationale'', rationale),
          (''stack_axes'', axes), (''rejected'', PList rs), (''open_questions'', questions)] \<and>
    c \<in> set cids \<and> distinct (map (item_id ''candidate_id'') rs) \<and>
    set (map (item_id ''candidate_id'') rs) = set cids - {c} \<and>
    (\<forall>a\<in>set args. item_id ''about_candidate_id'' a \<in> set cids) \<and>
    (\<forall>r\<in>set rs. item_text ''candidate_id'' r = Some (item_id ''candidate_id'' r))"
proof -
  obtain c args vs rationale axes questions rs rejected where w:
    "w = PDict [(''selected_candidate_id'', PStr c), (''arguments'', PList args), (''rationale'', rationale),
          (''stack_axes'', axes), (''rejected'', PList rs), (''open_questions'', questions)]"
    "c \<in> set cids" "parse_all (parse_argument cids) vs = Inr args" "parse_rejections cids c [] rejected = Inr rs"
    using assms by (auto simp: parse_approach_selection_def rbind_def split: pyval.split_asm if_split_asm sum.split_asm option.split_asm)
  have "\<forall>r\<in>set rs. item_text ''candidate_id'' r = Some (item_id ''candidate_id'' r)"
    if "parse_rejections cids c seen rejected = Inr rs" for seen
    using that
  proof (induction cids c seen rejected arbitrary: rs rule: parse_rejections.induct)
    case (2 cids chosen seen v vs)
    then show ?case
      by (auto simp: rbind_def item_id_def item_text_def py_get_def split: pyval.split_asm sum.split_asm if_split_asm)
  qed (auto split: if_split_asm)
  then show ?thesis
    using w parse_rejections_Inr [OF w(4)] parse_all_Inr [OF w(3)] parse_argument_Inr by fastforce
qed

lemma merge_pruned_extra:
  "\<exists>extra. merge_pruned ids rejected vs = rejected @ map rejection_entry extra \<and> distinct (map fst extra) \<and>
     (\<forall>i q. (i, q) \<in> set extra \<longleftrightarrow> i \<notin> set ids \<and> map_of (pruned_pairs vs) i = Some q)"
proof (induction vs arbitrary: ids rejected)
  case (Cons v vs)
  show ?case
  proof (cases "\<exists>d c q. v = PDict d \<and> py_get d ''candidate_id'' = PStr c \<and> py_get d ''objection'' = PStr q")
    case True
    then obtain d c q where v: "v = PDict d" "py_get d ''candidate_id'' = PStr c" "py_get d ''objection'' = PStr q"
      by blast
    show ?thesis
    proof (cases "c \<in> set ids")
      case True
      then show ?thesis using Cons [of ids rejected] v by (auto split: if_splits)
    next
      case False
      from Cons [of "c # ids" "rejected @ [rejection_entry (c, q)]"] obtain extra where e:
        "merge_pruned (c # ids) (rejected @ [rejection_entry (c, q)]) vs = (rejected @ [rejection_entry (c, q)]) @ map rejection_entry extra"
        "distinct (map fst extra)" "\<forall>i q. (i, q) \<in> set extra \<longleftrightarrow> i \<notin> set (c # ids) \<and> map_of (pruned_pairs vs) i = Some q" by blast
      then have "c \<notin> fst ` set extra" by auto
      then show ?thesis using v e False by (intro exI [of _ "(c, q) # extra"]) (auto simp: rejection_entry_def)
    qed
  next
    case False
    then have "merge_pruned ids rejected (v # vs) = merge_pruned ids rejected vs" "pruned_pairs (v # vs) = pruned_pairs vs"
      by (auto split: pyval.split)
    then show ?thesis using Cons by simp
  qed
qed simp

lemma merge_rejections_fields:
  assumes "merge_candidate_generation_rejections sel cs = Inr m"
  shows "py_get m ''selected_candidate_id'' = py_get sel ''selected_candidate_id''"
    "py_get m ''arguments'' = py_get sel ''arguments''"
    "py_get sel ''rejected'' = PList rs \<Longrightarrow> \<forall>r\<in>set rs. item_text ''candidate_id'' r = Some (item_id ''candidate_id'' r) \<Longrightarrow>
     \<exists>pruned extra. pruned_items (py_get_default cs ''pruned_candidates'' (PList [])) = Inr pruned \<and>
       py_get m ''rejected'' = PList (rs @ map rejection_entry extra) \<and> distinct (map fst extra) \<and>
       (\<forall>i q. (i, q) \<in> set extra \<longleftrightarrow> i \<notin> item_id ''candidate_id'' ` set rs \<and> map_of (pruned_pairs pruned) i = Some q)"
proof -
  let ?rej = "produced_list (py_get_default sel ''rejected'' (PList []))"
  let ?ids = "concat (map (\<lambda>v. case item_text ''candidate_id'' v of Some i \<Rightarrow> [i] | None \<Rightarrow> []) ?rej)"
  obtain pruned where p: "pruned_items (py_get_default cs ''pruned_candidates'' (PList [])) = Inr pruned"
    using assms by (auto simp: merge_candidate_generation_rejections_def Let_def rbind_Inr_iff)
  let ?new = "merge_pruned ?ids ?rej pruned"
  have m: "m = py_set sel ''rejected'' (PList ?new) \<or> (\<exists>r. m = py_set (py_set sel ''rejected'' (PList ?new)) ''rationale'' r)"
    using assms unfolding merge_candidate_generation_rejections_def
    by (auto simp: Let_def p split: pyval.splits option.splits)
  then show "py_get m ''selected_candidate_id'' = py_get sel ''selected_candidate_id''"
    "py_get m ''arguments'' = py_get sel ''arguments''" by (auto simp: py_get_py_set)
  assume r: "py_get sel ''rejected'' = PList rs" "\<forall>r\<in>set rs. item_text ''candidate_id'' r = Some (item_id ''candidate_id'' r)"
  then have rej: "?rej = rs" by (auto simp: py_get_def py_get_default_def produced_list_def split: option.splits)
  have ids: "set ?ids = item_id ''candidate_id'' ` set rs" using r(2) by (auto simp: rej)
  obtain extra where "?new = rs @ map rejection_entry extra" "distinct (map fst extra)"
    "\<forall>i q. (i, q) \<in> set extra \<longleftrightarrow> i \<notin> item_id ''candidate_id'' ` set rs \<and> map_of (pruned_pairs pruned) i = Some q"
    using merge_pruned_extra [of ?ids ?rej pruned] ids rej by metis
  then show "\<exists>pruned extra. pruned_items (py_get_default cs ''pruned_candidates'' (PList [])) = Inr pruned \<and>
       py_get m ''rejected'' = PList (rs @ map rejection_entry extra) \<and> distinct (map fst extra) \<and>
       (\<forall>i q. (i, q) \<in> set extra \<longleftrightarrow> i \<notin> item_id ''candidate_id'' ` set rs \<and> map_of (pruned_pairs pruned) i = Some q)"
    using m p by (auto simp: py_get_py_set)
qed

lemma merge_rejections_raises:
  "merge_candidate_generation_rejections sel cs = Inl e \<Longrightarrow>
   pruned_items (py_get_default cs ''pruned_candidates'' (PList [])) = Inl e"
  by (auto simp: merge_candidate_generation_rejections_def Let_def rbind_Inl_iff)

lemma pruned_items_raises: "pruned_items v = Inl e \<Longrightarrow> e = TypeError"
  by (auto simp: pruned_items_def split: pyval.splits)

lemma regenerate_error:
  assumes "regenerate digest run parse validator label (MAX_TECHNICAL_APPROACH_NODE_REGENERATIONS + 1) 0 [] {} [] = Inr (Inl err)"
  shows "py_get err ''ok'' = PBool False"
proof -
  have s: "py_get (step_error e) ''ok'' = PBool False" for e by (simp add: step_error_def py_get_def)
  obtain k where "regenerated digest run parse validator label 3 k (Inr (Inl err))"
    using regenerate_outcomes [of digest run parse validator label] assms by auto
  then show ?thesis using s by (auto simp: regenerated_def permanent_error_def split: if_splits sum.splits)
qed

lemma repair_items_raises: "repair_items requested seen items = Inl e \<Longrightarrow> e = TypeError"
  by (induction requested seen items rule: repair_items.induct)
    (auto simp: rbind_def split: pyval.split_asm sum.split_asm if_split_asm)

text \<open>What the repair round raises: the id of an item that cannot be hashed, its call, or the decoder.\<close>

definition repair_call_raises :: "(pydict \<Rightarrow> py_exc + (string + string)) \<Rightarrow> loads_call \<Rightarrow> py_exc \<Rightarrow> bool" where
  "repair_call_raises run loads e \<longleftrightarrow>
     e = TypeError \<or> (\<exists>request. run request = Inl e \<or> (\<exists>raw. run request = Inr (Inr raw) \<and> loads raw = Inl e))"

lemma repair_raises: "repair_evaluation_matrix_coverage loads run cs evs = Inl e \<Longrightarrow> repair_call_raises run loads e"
  by (auto simp: repair_evaluation_matrix_coverage_def Let_def rbind_def repair_call_raises_def
      dest: repair_items_raises split: option.split_asm pyval.split_asm if_split_asm sum.split_asm)

lemma merged_selection_sound:
  assumes "parse_approach_selection cids v = Inr w"
  obtains sel where "w = PDict sel"
    "\<And>m. merge_candidate_generation_rejections sel cs = Inr m \<Longrightarrow>
       \<exists>pruned. pruned_items (py_get_default cs ''pruned_candidates'' (PList [])) = Inr pruned \<and> sound_selection cids pruned m"
proof -
  obtain c args rationale axes rs questions where
    w: "w = PDict [(''selected_candidate_id'', PStr c), (''arguments'', PList args), (''rationale'', rationale),
         (''stack_axes'', axes), (''rejected'', PList rs), (''open_questions'', questions)]"
      (is "w = PDict ?sel")
    and c: "c \<in> set cids" "distinct (map (item_id ''candidate_id'') rs)"
      "set (map (item_id ''candidate_id'') rs) = set cids - {c}"
      "\<forall>a\<in>set args. item_id ''about_candidate_id'' a \<in> set cids"
      "\<forall>r\<in>set rs. item_text ''candidate_id'' r = Some (item_id ''candidate_id'' r)"
    using parse_approach_selection_Inr [OF assms] by (elim exE conjE) (rule that)
  have g: "py_get ?sel ''selected_candidate_id'' = PStr c" "py_get ?sel ''arguments'' = PList args"
    "py_get ?sel ''rejected'' = PList rs" by (simp_all add: py_get_def)
  have "\<exists>pruned. pruned_items (py_get_default cs ''pruned_candidates'' (PList [])) = Inr pruned \<and> sound_selection cids pruned m"
    if m: "merge_candidate_generation_rejections ?sel cs = Inr m" for m
  proof -
    have f: "py_get m ''selected_candidate_id'' = PStr c" "py_get m ''arguments'' = PList args"
      using merge_rejections_fields(1,2) [OF m] g(1,2) by (simp_all only:)
    obtain pruned extra where p: "pruned_items (py_get_default cs ''pruned_candidates'' (PList [])) = Inr pruned"
      and e: "py_get m ''rejected'' = PList (rs @ map rejection_entry extra)" "distinct (map fst extra)"
        "\<forall>i q. (i, q) \<in> set extra \<longleftrightarrow> i \<notin> item_id ''candidate_id'' ` set rs \<and> map_of (pruned_pairs pruned) i = Some q"
      using merge_rejections_fields(3) [OF m g(3) c(5)] by blast
    have "sound_selection cids pruned m"
      unfolding sound_selection_def using c(1-4) f e
      by (intro exI [of _ c] exI [of _ rs] exI [of _ extra] exI [of _ args] conjI) simp_all
    then show ?thesis using p by blast
  qed
  then show thesis using that w by blast
qed

text \<open>
  C32: a decision that step 6 returns chooses one of the candidates, rejects every other candidate
  exactly once, lists behind them the candidates step 4 pruned and that are not rejected already, each
  once with its first objection, and argues only about candidates. It raises only what a model call or the
  decoder raised, and \<open>TypeError\<close> for an id the repair round cannot hash or for pruned candidates that
  cannot be iterated over.
\<close>

theorem select_approach_sound:
  "case select_approach digest loads run_repair run (PDict cs) (PDict evs) (PDict con) of
     Inl e \<Rightarrow> repair_call_raises run_repair loads e \<and> repair_evaluation_matrix_coverage loads run_repair cs evs = Inl e \<or>
       (\<exists>matrix. call_raises (run matrix) loads e) \<or>
       e = TypeError \<and> pruned_items (py_get_default cs ''pruned_candidates'' (PList [])) = Inl e
   | Inr (Inl err) \<Rightarrow> py_get err ''ok'' = PBool False
   | Inr (Inr v) \<Rightarrow> \<exists>d pruned. v = PDict d \<and> pruned_items (py_get_default cs ''pruned_candidates'' (PList [])) = Inr pruned \<and>
       sound_selection (candidate_ids cs) pruned d"
proof (cases "candidate_ids cs = []")
  case True
  then show ?thesis by (simp add: select_approach_def step_error_def py_get_def)
next
  case False
  let ?ids = "candidate_ids cs"
  let ?ready = "if set (evaluation_ids evs) \<noteq> set ?ids then repair_evaluation_matrix_coverage loads run_repair cs evs else Inr (Some evs)"
  show ?thesis
  proof (cases ?ready)
    case (Inl e)
    then have e: "repair_evaluation_matrix_coverage loads run_repair cs evs = Inl e" by (simp split: if_splits)
    then show ?thesis using False Inl repair_raises [OF e] by (simp add: select_approach_def)
  next
    case (Inr ready)
    show ?thesis
    proof (cases ready)
      case None
      then show ?thesis using False Inr by (simp add: select_approach_def step_error_def py_get_def)
    next
      case (Some m)
      let ?parse = "parse_raw loads ''Codex approach selection'' (parse_approach_selection ?ids)"
      let ?loop = "regenerate digest (run m) ?parse ''receive.select_approach'' ''Codex approach selection''
                     (MAX_TECHNICAL_APPROACH_NODE_REGENERATIONS + 1) 0 [] {} []"
      have sel: "select_approach digest loads run_repair run (PDict cs) (PDict evs) (PDict con) =
          rbind ?loop (\<lambda>r. case r of
              Inl err \<Rightarrow> Inr (Inl err)
            | Inr (PDict selected) \<Rightarrow> rbind (merge_candidate_generation_rejections selected cs) (\<lambda>d. Inr (Inr (PDict d)))
            | Inr v \<Rightarrow> Inr (Inr v))"
        using False Inr Some by (simp add: select_approach_def del: regenerate.simps)
      consider e where "?loop = Inl e" | err where "?loop = Inr (Inl err)" | w where "?loop = Inr (Inr w)"
        by (metis sum.exhaust)
      then show ?thesis
      proof cases
        case (1 e)
        then show ?thesis using sel regenerate_raises [OF 1] by auto
      next
        case (2 err)
        then show ?thesis using sel regenerate_error [OF 2] by simp
      next
        case (3 w)
        obtain raw where raw: "?parse raw = Inr (Inr w)" using regenerate_Inr [OF 3] by blast
        then obtain v where "parse_approach_selection ?ids v = Inr w" using parse_raw_Inr by blast
        then obtain s where w: "w = PDict s" and s: "\<And>m. merge_candidate_generation_rejections s cs = Inr m \<Longrightarrow>
            \<exists>pruned. pruned_items (py_get_default cs ''pruned_candidates'' (PList [])) = Inr pruned \<and> sound_selection ?ids pruned m"
          using merged_selection_sound [where cs = cs] by metis
        show ?thesis
        proof (cases "merge_candidate_generation_rejections s cs")
          case (Inl e)
          then have "pruned_items (py_get_default cs ''pruned_candidates'' (PList [])) = Inl e"
            by (rule merge_rejections_raises)
          then show ?thesis using sel 3 w Inl pruned_items_raises by auto
        next
          case (Inr d)
          then show ?thesis using sel 3 w s [OF Inr] by auto
        qed
      qed
    qed
  qed
qed
end
