(* ===== verification/ReviewScope.thy ===== *)
theory ReviewScope imports StructureGadgets begin
text \<open>
  The review windows of \<open>src/ai_org/patchwork_queue/review.py\<close>: which nodes of the approach tree
  a reviewer call shows. The tree is a JSON value whose mappings may carry an \<open>id\<close>; a set of
  ids is a list read as a set. Shards split the tree by step, a revision delta selects the changed
  nodes and their neighbours, and a patrol rotates over the unchanged ones.
\<close>

section \<open>Nodes of the tree\<close>

definition node_id :: "pydict \<Rightarrow> string option" where
  "node_id d = (case py_get d ''id'' of PStr s \<Rightarrow> if s = [] then None else Some s | _ \<Rightarrow> None)"

definition own_ids :: "pydict \<Rightarrow> string list" where
  "own_ids d = (case node_id d of None \<Rightarrow> [] | Some i \<Rightarrow> [i])"

function (sequential) collect_node_ids :: "pyval \<Rightarrow> string list" where
  "collect_node_ids (PDict d) = own_ids d @ concat (map (\<lambda>kv. collect_node_ids (snd kv)) d)"
| "collect_node_ids (PList vs) = concat (map collect_node_ids vs)"
| "collect_node_ids v = []"
  by pat_completeness auto
termination
  by (relation "measure size") (auto dest: size_py_dict simp: less_Suc_eq_le size_list_estimation')

definition ID_TYPED_REFERENCE_FIELDS :: "string list" where
  "ID_TYPED_REFERENCE_FIELDS = [''candidate_id'', ''about_candidate_id'', ''selected_candidate_id'', ''target_id'']"

definition nonempty_field :: "pydict \<Rightarrow> string \<Rightarrow> string list" where
  "nonempty_field d k = (case py_get d k of PStr s \<Rightarrow> if s = [] then [] else [s] | _ \<Rightarrow> [])"

definition link_edges :: "pyval \<Rightarrow> (string \<times> string) list" where
  "link_edges v =
     (case v of
        PDict l \<Rightarrow> concat (map (\<lambda>s. map (Pair s) (nonempty_field l ''to'')) (nonempty_field l ''from''))
      | _ \<Rightarrow> [])"

text \<open>\<open>_walk(value, holder)\<close> of \<open>_reference_edges\<close>.\<close>

function (sequential) walk_edges :: "pyval \<Rightarrow> string \<Rightarrow> (string \<times> string) list" where
  "walk_edges (PDict d) holder =
     (let current = (case node_id d of None \<Rightarrow> holder | Some i \<Rightarrow> i) in
      (if current = [] then []
       else concat (map (\<lambda>f. map (Pair current) (nonempty_field d f)) ID_TYPED_REFERENCE_FIELDS))
      @ (case py_get d ''cross_links'' of PList ls \<Rightarrow> concat (map link_edges ls) | _ \<Rightarrow> [])
      @ concat (map (\<lambda>kv. if fst kv = ''cross_links'' then [] else walk_edges (snd kv) current) d))"
| "walk_edges (PList vs) holder = concat (map (\<lambda>v. walk_edges v holder) vs)"
| "walk_edges v holder = []"
  by pat_completeness auto
termination
  by (relation "measure (\<lambda>(v, h). size v)") (auto dest: size_py_dict simp: less_Suc_eq_le size_list_estimation')

definition reference_edges :: "pyval \<Rightarrow> (string \<times> string) list" where
  "reference_edges tree = walk_edges tree []"

text \<open>\<open>_walk(value, ancestors)\<close> of \<open>_descendant_node_ids\<close>: the pairs of an ancestor and a node inside it.\<close>

function (sequential) walk_descendants :: "pyval \<Rightarrow> string list \<Rightarrow> (string \<times> string) list" where
  "walk_descendants (PDict d) ancestors =
     concat (map (\<lambda>i. map (\<lambda>a. (a, i)) ancestors) (own_ids d))
     @ concat (map (\<lambda>kv. walk_descendants (snd kv) (ancestors @ own_ids d)) d)"
| "walk_descendants (PList vs) ancestors = concat (map (\<lambda>v. walk_descendants v ancestors) vs)"
| "walk_descendants v ancestors = []"
  by pat_completeness auto
termination
  by (relation "measure (\<lambda>(v, a). size v)") (auto dest: size_py_dict simp: less_Suc_eq_le size_list_estimation')

definition descendant_node_ids :: "pyval \<Rightarrow> string \<Rightarrow> string list" where
  "descendant_node_ids tree i = map snd (filter (\<lambda>p. fst p = i) (walk_descendants tree []))"

section \<open>Windows\<close>

text \<open>\<open>_collect\<close>: the first body of each id of the scope; what lies inside a collected body is not visited.\<close>

function (sequential) collect_bodies :: "string list \<Rightarrow> pyval \<Rightarrow> pydict \<Rightarrow> pydict" where
  "collect_bodies scope (PDict d) bodies =
     (case filter (\<lambda>i. i \<in> set scope \<and> i \<notin> fst ` set bodies) (own_ids d) of
        i # _ \<Rightarrow> bodies @ [(i, PDict d)]
      | [] \<Rightarrow> fold (\<lambda>kv b. collect_bodies scope (snd kv) b) d bodies)"
| "collect_bodies scope (PList vs) bodies = fold (collect_bodies scope) vs bodies"
| "collect_bodies scope v bodies = bodies"
  by pat_completeness auto
termination
  by (relation "measure (\<lambda>(s, v, b). size v)") (auto dest: size_py_dict simp: less_Suc_eq_le size_list_estimation')

record review_window =
  scope_node_ids :: "string list"
  changed_nodes :: pydict
  unchanged_node_ids :: "string list"

definition window_neighbours :: "(string \<times> string) list \<Rightarrow> string list \<Rightarrow> string list \<Rightarrow> string list" where
  "window_neighbours edges seeds current_ids =
     concat (map (\<lambda>(s, t). (if s \<in> set seeds \<and> t \<in> set current_ids then [t] else [])
                           @ (if t \<in> set seeds \<and> s \<in> set current_ids then [s] else [])) edges)"

definition scope_from_seeds :: "pyval \<Rightarrow> string list \<Rightarrow> review_window" where
  "scope_from_seeds approach wanted =
     (let current_ids = collect_node_ids approach;
          seeds = filter (\<lambda>i. i \<in> set current_ids) wanted;
          neighborhood = filter (\<lambda>i. i \<notin> set seeds \<and> list_all (\<lambda>x. x \<notin> set seeds) (descendant_node_ids approach i))
                           (window_neighbours (reference_edges approach) seeds current_ids);
          scope_ids = seeds @ neighborhood
      in \<lparr>scope_node_ids = sort (remdups scope_ids),
          changed_nodes = sort_key fst (collect_bodies scope_ids approach []),
          unchanged_node_ids = sort (remdups (filter (\<lambda>i. i \<notin> set scope_ids) current_ids))\<rparr>)"

text \<open>The ledger's lists are lists when present (iterating over null would raise).\<close>

definition texts_in :: "pyval \<Rightarrow> string list" where
  "texts_in v = (case v of PList vs \<Rightarrow> concat (map (\<lambda>x. case x of PStr s \<Rightarrow> [s] | _ \<Rightarrow> []) vs) | _ \<Rightarrow> [])"

definition successor_ids :: "pyval \<Rightarrow> string list" where
  "successor_ids v =
     (case v of
        PList vs \<Rightarrow> concat (map (\<lambda>x. case item_text ''successor_node_id'' x of Some s \<Rightarrow> [s] | None \<Rightarrow> []) vs)
      | _ \<Rightarrow> [])"

definition delta_seeds :: "pydict \<Rightarrow> string list" where
  "delta_seeds delta =
     texts_in (py_get delta ''changed_node_ids'') @ texts_in (py_get delta ''added_node_ids'')
     @ successor_ids (py_get delta ''node_replacements'')"

definition innermost_seeds :: "pyval \<Rightarrow> string list \<Rightarrow> string list" where
  "innermost_seeds approach seeds =
     filter (\<lambda>s. list_all (\<lambda>x. x = s \<or> x \<notin> set seeds) (descendant_node_ids approach s)) seeds"

definition delta_review_scope :: "pyval \<Rightarrow> pydict \<Rightarrow> review_window" where
  "delta_review_scope approach delta = scope_from_seeds approach (innermost_seeds approach (delta_seeds delta))"

section \<open>Shards\<close>

definition REFORM_STEP_ORDER :: "string list" where
  "REFORM_STEP_ORDER =
     [''problem'', ''constraints'', ''prior_art'', ''candidates'', ''decision'', ''implementation'',
      ''domain_specification'', ''patch_plan'', ''risks'']"

definition step_for_tree_key :: "string \<Rightarrow> string \<Rightarrow> string" where
  "step_for_tree_key key inherited_step =
     (case map_of [(''constraints'', ''constraints''), (''prior_art'', ''prior_art''), (''question'', ''candidates''),
         (''candidates'', ''candidates''), (''evaluation'', ''candidates''), (''decision'', ''decision''),
         (''implementation'', ''implementation''), (''domain_specification'', ''domain_specification''),
         (''patch_plan'', ''patch_plan''), (''risks'', ''risks'')] key of
        None \<Rightarrow> inherited_step | Some s \<Rightarrow> s)"

text \<open>The updates of the node map in their order; the last one of a node counts.\<close>

function (sequential) step_updates :: "pyval \<Rightarrow> string \<Rightarrow> (string \<times> string) list" where
  "step_updates (PDict d) inherited_step =
     map (\<lambda>i. (i, inherited_step)) (own_ids d)
     @ concat (map (\<lambda>kv. step_updates (snd kv) (step_for_tree_key (fst kv) inherited_step)) d)"
| "step_updates (PList vs) inherited_step = concat (map (\<lambda>v. step_updates v inherited_step) vs)"
| "step_updates v inherited_step = []"
  by pat_completeness auto
termination
  by (relation "measure (\<lambda>(v, a). size v)") (auto dest: size_py_dict simp: less_Suc_eq_le size_list_estimation')

definition node_step_map :: "pyval \<Rightarrow> string \<Rightarrow> string option" where
  "node_step_map tree = map_of (rev (step_updates tree ''problem''))"

record shard =
  shard_step :: string
  primary_node_ids :: "string list"
  shard_window :: review_window

definition shard_steps :: "pyval \<Rightarrow> string list" where
  "shard_steps approach =
     REFORM_STEP_ORDER
     @ sort (remdups (filter (\<lambda>s. s \<notin> set REFORM_STEP_ORDER)
               (map (\<lambda>i. the (node_step_map approach i)) (map fst (step_updates approach ''problem'')))))"

definition primary_nodes :: "pyval \<Rightarrow> string \<Rightarrow> string list" where
  "primary_nodes approach step =
     sort (remdups (filter (\<lambda>i. node_step_map approach i = Some step) (map fst (step_updates approach ''problem''))))"

definition round_one_shards :: "pyval \<Rightarrow> shard list" where
  "round_one_shards approach =
     concat (map (\<lambda>step. (let primary = primary_nodes approach step in
         if primary = [] then []
         else [\<lparr>shard_step = step, primary_node_ids = primary, shard_window = scope_from_seeds approach primary\<rparr>]))
       (shard_steps approach))"

section \<open>Patrol\<close>

definition PATROL_SLICE_SIZE :: nat where "PATROL_SLICE_SIZE = 8"

definition patrol_slice :: "string list \<Rightarrow> int \<Rightarrow> string list" where
  "patrol_slice unchanged_ids round_number =
     (let ids = sort unchanged_ids in
      if ids = [] \<or> round_number < 2 then []
      else (let n = length ids; size = min PATROL_SLICE_SIZE n;
                offset = (nat (round_number - 2) * PATROL_SLICE_SIZE) mod n
            in map (\<lambda>index. ids ! ((offset + index) mod n)) [0..<size]))"

section \<open>Every node of a window is shown\<close>

definition shown :: "pydict \<Rightarrow> string set" where
  "shown bodies = (\<Union>kv\<in>set bodies. set (collect_node_ids (snd kv)))"

lemma shown_append [simp]: "shown (xs @ ys) = shown xs \<union> shown ys"
  by (auto simp: shown_def)

lemma own_in_collect: "set (own_ids d) \<subseteq> set (collect_node_ids (PDict d))"
  by simp

lemma fold_bodies_grow:
  assumes "\<And>x b. x \<in> set xs \<Longrightarrow> set b \<subseteq> set (f x b)"
  shows "set b \<subseteq> set (fold f xs b)"
  using assms
proof (induction xs arbitrary: b)
  case (Cons x xs)
  have "set b \<subseteq> set (f x b)" using Cons.prems by simp
  also have "\<dots> \<subseteq> set (fold f xs (f x b))" using Cons by simp
  finally show ?case by simp
qed simp

lemma collect_bodies_grow: "set b \<subseteq> set (collect_bodies scope v b)"
proof (induction scope v b rule: collect_bodies.induct)
  case (1 scope d bodies)
  then show ?case by (auto split: list.split intro!: fold_bodies_grow [THEN subsetD])
next
  case (2 scope vs bodies)
  then show ?case by (auto intro!: fold_bodies_grow [THEN subsetD])
qed auto

lemma shown_mono: "set b \<subseteq> set b' \<Longrightarrow> shown b \<subseteq> shown b'"
  by (auto simp: shown_def)

text \<open>Keys of the collected bodies are ids of their own bodies.\<close>

definition keyed_bodies :: "pydict \<Rightarrow> bool" where
  "keyed_bodies bodies \<longleftrightarrow> (\<forall>(k, b)\<in>set bodies. k \<in> set (collect_node_ids b))"

lemma fold_keyed:
  assumes "\<And>x b. x \<in> set xs \<Longrightarrow> keyed_bodies b \<Longrightarrow> keyed_bodies (f x b)" "keyed_bodies b"
  shows "keyed_bodies (fold f xs b)"
  using assms by (induction xs arbitrary: b) auto

lemma collect_bodies_keyed: "keyed_bodies b \<Longrightarrow> keyed_bodies (collect_bodies scope v b)"
proof (induction scope v b rule: collect_bodies.induct)
  case (1 scope d bodies)
  show ?case
  proof (cases "filter (\<lambda>i. i \<in> set scope \<and> i \<notin> fst ` set bodies) (own_ids d)")
    case Nil
    then show ?thesis using 1 by (auto intro!: fold_keyed)
  next
    case (Cons i js)
    then have "i \<in> set (own_ids d)" using filter_is_subset [of _ "own_ids d"] by (metis list.set_intros(1) subset_iff)
    then show ?thesis using Cons 1(2) by (auto simp: keyed_bodies_def)
  qed
next
  case (2 scope vs bodies)
  then show ?case by (auto intro!: fold_keyed)
qed auto

lemma fold_bodies_show:
  assumes "\<And>x b. x \<in> set xs \<Longrightarrow> keyed_bodies b \<Longrightarrow> i \<in> set (collect_node_ids (g x)) \<Longrightarrow> i \<in> shown (collect_bodies scope (g x) b)"
    and "keyed_bodies b" "x \<in> set xs" "i \<in> set (collect_node_ids (g x))"
  shows "i \<in> shown (fold (\<lambda>x. collect_bodies scope (g x)) xs b)"
  using assms
proof (induction xs arbitrary: b)
  case (Cons y xs)
  show ?case
  proof (cases "x = y")
    case True
    have "set (collect_bodies scope (g x) b) \<subseteq> set (fold (\<lambda>x. collect_bodies scope (g x)) xs (collect_bodies scope (g x) b))"
      by (intro fold_bodies_grow collect_bodies_grow)
    then show ?thesis using True Cons.prems(1) [of x b] Cons.prems(2,4) shown_mono by auto
  next
    case False
    then show ?thesis using Cons.prems Cons.IH [of "collect_bodies scope (g y) b"] collect_bodies_keyed by auto
  qed
qed simp

lemma collect_bodies_show:
  "keyed_bodies b \<Longrightarrow> i \<in> set scope \<Longrightarrow> i \<in> set (collect_node_ids v) \<Longrightarrow> i \<in> shown (collect_bodies scope v b)"
proof (induction scope v b rule: collect_bodies.induct)
  case (1 scope d bodies)
  show ?case
  proof (cases "filter (\<lambda>j. j \<in> set scope \<and> j \<notin> fst ` set bodies) (own_ids d)")
    case (Cons j js)
    then show ?thesis using 1(4) by (simp add: shown_def)
  next
    case Nil
    show ?thesis
    proof (cases "i \<in> set (own_ids d)")
      case True
      then have "i \<in> fst ` set bodies" using Nil 1(3) by (auto simp: filter_empty_conv)
      then obtain v where "(i, v) \<in> set bodies" by auto
      then have "i \<in> shown bodies" using 1(2) by (fastforce simp: keyed_bodies_def shown_def)
      moreover have "shown bodies \<subseteq> shown (collect_bodies scope (PDict d) bodies)"
        by (rule shown_mono [OF collect_bodies_grow])
      ultimately show ?thesis by blast
    next
      case False
      then obtain kv where kv: "kv \<in> set d" "i \<in> set (collect_node_ids (snd kv))" using 1(4) by auto
      have "i \<in> shown (fold (\<lambda>kv. collect_bodies scope (snd kv)) d bodies)"
        by (rule fold_bodies_show [of d i snd, OF _ 1(2) kv]) (use 1(1) [OF Nil] 1(3) in blast)
      then show ?thesis using Nil by simp
    qed
  qed
next
  case (2 scope vs bodies)
  then obtain v where v: "v \<in> set vs" "i \<in> set (collect_node_ids v)" by auto
  have "i \<in> shown (fold (\<lambda>v. collect_bodies scope v) vs bodies)"
    by (rule fold_bodies_show [of vs i "\<lambda>v. v", OF _ 2(2) v]) (use 2(1,3) in blast)
  then show ?case by simp
qed auto

lemma scope_simps:
  "set (scope_node_ids (scope_from_seeds approach wanted)) \<supseteq> set wanted \<inter> set (collect_node_ids approach)"
  "set (scope_node_ids (scope_from_seeds approach wanted)) \<subseteq> set (collect_node_ids approach)"
  "set (unchanged_node_ids (scope_from_seeds approach wanted)) =
     set (collect_node_ids approach) - set (scope_node_ids (scope_from_seeds approach wanted))"
  by (auto simp: scope_from_seeds_def Let_def window_neighbours_def split: if_splits)

lemma scope_shown:
  assumes "i \<in> set (scope_node_ids (scope_from_seeds approach wanted))"
  shows "i \<in> shown (changed_nodes (scope_from_seeds approach wanted))"
proof -
  have "i \<in> set (collect_node_ids approach)" using assms scope_simps(2) by blast
  then have "i \<in> shown (collect_bodies scope approach [])" if "i \<in> set scope" for scope
    using that by (intro collect_bodies_show) (auto simp: keyed_bodies_def)
  moreover have "shown (sort_key fst xs) = shown xs" for xs by (simp add: shown_def)
  ultimately show ?thesis using assms by (simp add: scope_from_seeds_def Let_def)
qed

section \<open>Shards cover the tree\<close>

lemma step_updates_ids: "map fst (step_updates v step) = collect_node_ids v"
  by (induction v step rule: step_updates.induct) (simp_all add: map_concat o_def cong: map_cong)

lemma node_step_dom: "node_step_map tree i \<noteq> None \<longleftrightarrow> i \<in> set (collect_node_ids tree)"
  using step_updates_ids [of tree "''problem''"] by (metis map_of_eq_None_iff node_step_map_def set_map set_rev)

lemma shard_steps_facts:
  "distinct (shard_steps approach)"
  "node_step_map approach i = Some s \<Longrightarrow> s \<in> set (shard_steps approach)"
proof -
  show "distinct (shard_steps approach)"
    by (auto simp: shard_steps_def) (simp add: REFORM_STEP_ORDER_def)
  assume s: "node_step_map approach i = Some s"
  then have "i \<in> set (map fst (step_updates approach ''problem''))"
    using node_step_dom step_updates_ids by (metis option.distinct(1))
  then have "the (node_step_map approach i) \<in> set (map (\<lambda>i. the (node_step_map approach i)) (map fst (step_updates approach ''problem'')))"
    unfolding set_map [of "\<lambda>i. the (node_step_map approach i)"] by (rule imageI)
  then have "s \<in> set (map (\<lambda>i. the (node_step_map approach i)) (map fst (step_updates approach ''problem'')))"
    using s by (simp del: set_map)
  then show "s \<in> set (shard_steps approach)" by (simp add: shard_steps_def del: map_map set_map)
qed

lemma set_primary: "set (primary_nodes approach step) = {i. node_step_map approach i = Some step}"
  using node_step_dom [of approach] by (auto simp: primary_nodes_def step_updates_ids)

lemma map_concat_guard: "map g (concat (map (\<lambda>s. if P s then [] else [f s]) xs)) = map (g \<circ> f) (filter (\<lambda>s. \<not> P s) xs)"
  by (induction xs) auto

lemma shard_of:
  "sh \<in> set (round_one_shards approach) \<longleftrightarrow>
   (\<exists>step. step \<in> set (shard_steps approach) \<and> primary_nodes approach step \<noteq> [] \<and>
      sh = \<lparr>shard_step = step, primary_node_ids = primary_nodes approach step,
            shard_window = scope_from_seeds approach (primary_nodes approach step)\<rparr>)"
  by (auto simp: round_one_shards_def Let_def)

text \<open>
  C30: the windows of a review round cover the tree: every node is primary in exactly one shard, the
  steps of the shards are distinct, and every node of a shard's scope, its primary nodes included,
  lies inside a body the shard shows; what a shard does not show it lists as unchanged.
\<close>

theorem shards_cover_tree:
  "(\<forall>i. (i \<in> set (collect_node_ids approach)) = (\<exists>!sh. sh \<in> set (round_one_shards approach) \<and> i \<in> set (primary_node_ids sh))) \<and>
   distinct (map shard_step (round_one_shards approach)) \<and>
   list_all (\<lambda>sh. primary_node_ids sh \<noteq> [] \<and>
     set (primary_node_ids sh) \<subseteq> set (scope_node_ids (shard_window sh)) \<and>
     set (scope_node_ids (shard_window sh)) \<subseteq> shown (changed_nodes (shard_window sh)) \<and>
     set (unchanged_node_ids (shard_window sh)) = set (collect_node_ids approach) - set (scope_node_ids (shard_window sh)))
     (round_one_shards approach)"
proof (intro conjI allI)
  show "list_all (\<lambda>sh. primary_node_ids sh \<noteq> [] \<and>
     set (primary_node_ids sh) \<subseteq> set (scope_node_ids (shard_window sh)) \<and>
     set (scope_node_ids (shard_window sh)) \<subseteq> shown (changed_nodes (shard_window sh)) \<and>
     set (unchanged_node_ids (shard_window sh)) = set (collect_node_ids approach) - set (scope_node_ids (shard_window sh)))
     (round_one_shards approach)"
  proof -
    have "set (primary_nodes approach step) \<subseteq> set (scope_node_ids (scope_from_seeds approach (primary_nodes approach step)))" for step
      using scope_simps(1) [where wanted = "primary_nodes approach step"] node_step_dom [of approach] by (auto simp: set_primary)
    moreover have "set (scope_node_ids w) \<subseteq> shown (changed_nodes w)" if "w = scope_from_seeds approach p" for w p
      using scope_shown that by blast
    ultimately have "primary_node_ids sh \<noteq> [] \<and>
     set (primary_node_ids sh) \<subseteq> set (scope_node_ids (shard_window sh)) \<and>
     set (scope_node_ids (shard_window sh)) \<subseteq> shown (changed_nodes (shard_window sh)) \<and>
     set (unchanged_node_ids (shard_window sh)) = set (collect_node_ids approach) - set (scope_node_ids (shard_window sh))"
      if "sh \<in> set (round_one_shards approach)" for sh
      using that scope_simps(3) unfolding shard_of by force
    then show ?thesis unfolding list_all_iff by blast
  qed
  have ind: "map shard_step (round_one_shards approach) = filter (\<lambda>s. primary_nodes approach s \<noteq> []) (shard_steps approach)"
    unfolding round_one_shards_def Let_def by (subst map_concat_guard) (simp add: o_def)
  then show "distinct (map shard_step (round_one_shards approach))" using shard_steps_facts(1) by simp
  fix i
  show "(i \<in> set (collect_node_ids approach)) = (\<exists>!sh. sh \<in> set (round_one_shards approach) \<and> i \<in> set (primary_node_ids sh))"
  proof (cases "node_step_map approach i")
    case None
    then show ?thesis using node_step_dom [of approach i] by (auto simp: shard_of set_primary)
  next
    case (Some s)
    have "primary_nodes approach s \<noteq> []" using Some set_primary [of approach s] by auto
    then show ?thesis using Some node_step_dom [of approach i] shard_steps_facts(2) [OF Some]
      by (auto simp: shard_of set_primary)
  qed
qed

section \<open>The delta window\<close>

definition before :: "'a list \<Rightarrow> 'a \<Rightarrow> 'a \<Rightarrow> bool" where
  "before xs a b \<longleftrightarrow> (\<exists>us vs ws. xs = us @ a # vs @ b # ws)"

lemma before_append: "before xs a b \<Longrightarrow> before (ys @ xs @ zs) a b"
proof -
  assume "before xs a b"
  then obtain us vs ws where "xs = us @ a # vs @ b # ws" by (auto simp: before_def)
  then have "ys @ xs @ zs = (ys @ us) @ a # vs @ b # (ws @ zs)" by simp
  then show ?thesis unfolding before_def by blast
qed

lemma before_split: "a \<in> set xs \<Longrightarrow> b \<in> set ys \<Longrightarrow> before (xs @ ys) a b"
proof -
  assume "a \<in> set xs" "b \<in> set ys"
  then obtain us vs us' vs' where "xs = us @ a # vs" "ys = us' @ b # vs'" by (meson split_list)
  then have "xs @ ys = us @ a # (vs @ us') @ b # vs'" by simp
  then show ?thesis unfolding before_def by blast
qed

lemma before_concat: "x \<in> set xs \<Longrightarrow> before (f x) a b \<Longrightarrow> before (concat (map f xs)) a b"
proof -
  assume x: "x \<in> set xs" and b: "before (f x) a b"
  then obtain ys zs where "xs = ys @ x # zs" by (meson split_list)
  then show ?thesis using before_append [OF b, of "concat (map f ys)" "concat (map f zs)"] by simp
qed

lemma walk_descendants_order:
  "(a, b) \<in> set (walk_descendants v anc) \<Longrightarrow>
   b \<in> set (collect_node_ids v) \<and> (a \<in> set anc \<or> before (collect_node_ids v) a b)"
proof (induction v anc arbitrary: a b rule: walk_descendants.induct)
  case (1 d anc)
  show ?case
  proof (cases "a \<in> set anc \<and> b \<in> set (own_ids d)")
    case False
    then obtain kv where kv: "kv \<in> set d" "(a, b) \<in> set (walk_descendants (snd kv) (anc @ own_ids d))"
      using "1.prems" by auto
    let ?rest = "concat (map (\<lambda>kv. collect_node_ids (snd kv)) d)"
    have ih: "b \<in> set (collect_node_ids (snd kv))" "a \<in> set (anc @ own_ids d) \<or> before (collect_node_ids (snd kv)) a b"
      using "1.IH" [OF kv] by auto
    have "b \<in> set ?rest" using kv(1) ih(1) by auto
    moreover have "before (own_ids d @ ?rest) a b" if "a \<in> set (own_ids d)" using that \<open>b \<in> set ?rest\<close> by (rule before_split)
    moreover have "before (own_ids d @ ?rest) a b" if "before (collect_node_ids (snd kv)) a b"
      using before_append [OF before_concat [of kv d "\<lambda>kv. collect_node_ids (snd kv)", OF kv(1) that], of "own_ids d" "[]"] by simp
    ultimately show ?thesis using ih by auto
  qed auto
next
  case (2 vs anc)
  then obtain v where v: "v \<in> set vs" "(a, b) \<in> set (walk_descendants v anc)" by auto
  then show ?case using "2.IH" [OF v(1) v(2)] before_concat [OF v(1), of collect_node_ids a b] by auto
qed auto

definition pos :: "'a list \<Rightarrow> 'a \<Rightarrow> nat" where
  "pos xs a = length (takeWhile (\<lambda>x. x \<noteq> a) xs)"

lemma before_pos: "before xs a b \<Longrightarrow> distinct xs \<Longrightarrow> pos xs a < pos xs b \<and> pos xs b < length xs"
  by (auto simp: before_def pos_def takeWhile_tail takeWhile_append)

lemma innermost_below:
  assumes d: "distinct (collect_node_ids tree)"
  shows "c \<in> set seeds \<Longrightarrow> c \<in> set (collect_node_ids tree) \<Longrightarrow>
    \<exists>i. i \<in> set (innermost_seeds tree seeds) \<and> i \<in> set (collect_node_ids tree) \<and> (c, i) \<in> (set (walk_descendants tree []))\<^sup>*"
proof (induction "length (collect_node_ids tree) - pos (collect_node_ids tree) c" arbitrary: c rule: less_induct)
  case less
  show ?case
  proof (cases "c \<in> set (innermost_seeds tree seeds)")
    case True
    then show ?thesis using less.prems by blast
  next
    case False
    then obtain x where x: "x \<noteq> c" "x \<in> set seeds" "(c, x) \<in> set (walk_descendants tree [])"
      using less.prems(1) by (auto simp: innermost_seeds_def descendant_node_ids_def list_all_iff)
    have b: "x \<in> set (collect_node_ids tree)" "before (collect_node_ids tree) c x"
      using walk_descendants_order [OF x(3)] by auto
    then have "length (collect_node_ids tree) - pos (collect_node_ids tree) x < length (collect_node_ids tree) - pos (collect_node_ids tree) c"
      using before_pos [OF b(2) d] by linarith
    from less.hyps [OF this x(2) b(1)] show ?thesis using x(3) by (meson converse_rtrancl_into_rtrancl)
  qed
qed

text \<open>
  The window of a revision reaches every change: each changed or added node that is in the tree,
  or a changed node inside it (its content changed because that one did), is in the scope and lies
  in a body the reviewer is shown. Hypothesis: node ids are unique.
\<close>

theorem delta_window_reaches_changes:
  assumes "distinct (collect_node_ids approach)" "c \<in> set (delta_seeds delta)" "c \<in> set (collect_node_ids approach)"
  shows "\<exists>i. i \<in> set (delta_seeds delta) \<and> (c, i) \<in> (set (walk_descendants approach []))\<^sup>* \<and>
    i \<in> set (scope_node_ids (delta_review_scope approach delta)) \<and>
    i \<in> shown (changed_nodes (delta_review_scope approach delta))"
proof -
  obtain i where i: "i \<in> set (innermost_seeds approach (delta_seeds delta))" "i \<in> set (collect_node_ids approach)"
    "(c, i) \<in> (set (walk_descendants approach []))\<^sup>*"
    using innermost_below [OF assms] by blast
  then have "i \<in> set (scope_node_ids (delta_review_scope approach delta))"
    using scope_simps(1) unfolding delta_review_scope_def by blast
  moreover from this have "i \<in> shown (changed_nodes (delta_review_scope approach delta))"
    unfolding delta_review_scope_def by (rule scope_shown)
  moreover have "i \<in> set (delta_seeds delta)" using i(1) by (simp add: innermost_seeds_def)
  ultimately show ?thesis using i(3) by blast
qed

definition example_tree :: pyval where
  "example_tree = PDict [(''id'', PStr ''problem''),
     (''question'', PDict [(''id'', PStr ''q''), (''candidates'', PList [PDict [(''id'', PStr ''a'')]])])]"

definition example_delta :: pydict where
  "example_delta = [(''changed_node_ids'', PList [PStr ''problem'', PStr ''a''])]"

theorem delta_window_reaches_changes_witness:
  "\<exists>i. i \<in> set (delta_seeds example_delta) \<and> (''problem'', i) \<in> (set (walk_descendants example_tree []))\<^sup>* \<and>
    i \<in> set (scope_node_ids (delta_review_scope example_tree example_delta)) \<and>
    i \<in> shown (changed_nodes (delta_review_scope example_tree example_delta))"
  by (rule delta_window_reaches_changes) code_simp+

section \<open>The patrol reaches every node\<close>

lemma patrol_index:
  fixes p n A q :: nat
  assumes "p < n" "q = (p + n - (A * 8) mod n) mod n"
  shows "(A * 8 + q) mod n = p"
proof -
  have "(A * 8 + q) mod n = ((A * 8) mod n + (p + n - (A * 8) mod n)) mod n"
    by (simp add: assms(2) mod_simps)
  also have "(A * 8) mod n + (p + n - (A * 8) mod n) = p + n"
    using assms(1) mod_less_divisor [of n "A * 8"] by linarith
  finally show ?thesis using assms(1) by simp
qed

lemma nat_round: "2 \<le> r \<Longrightarrow> nat (r + int k - 2) = nat (r - 2) + k"
  by simp

lemma patrol_slice_at:
  assumes "2 \<le> r" "ids \<noteq> []"
  shows "patrol_slice ids (r + int k) =
    map (\<lambda>j. sort ids ! (((nat (r - 2) + k) * 8 + j) mod length ids)) [0..<min 8 (length ids)]"
  using assms by (simp add: patrol_slice_def Let_def PATROL_SLICE_SIZE_def nat_round mod_simps set_empty [symmetric] del: set_empty)

text \<open>
  The patrol over a fixed set of unchanged nodes visits every node within the first ceiling of
  count / 8 rounds from any round on.
\<close>

theorem patrol_visits_every_node:
  assumes "2 \<le> r" "x \<in> set ids"
  shows "\<exists>k. k < (length ids + 7) div 8 \<and> x \<in> set (patrol_slice ids (r + int k))"
proof -
  let ?n = "length ids" and ?A = "nat (r - 2)"
  have ne: "ids \<noteq> []" using assms by auto
  obtain p where p: "p < ?n" "sort ids ! p = x"
    using assms(2) by (metis in_set_conv_nth length_sort set_sort)
  define q where "q = (p + ?n - (?A * 8) mod ?n) mod ?n"
  have q: "q < ?n" using ne by (simp add: q_def)
  have idx: "((?A + q div 8) * 8 + q mod 8) mod ?n = p"
    using patrol_index [OF p(1) q_def] by (simp add: algebra_simps)
  have "q mod 8 < min 8 ?n" using q by (metis le_less_trans min_less_iff_conj mod_less_divisor mod_less_eq_dividend zero_less_numeral)
  then have "x \<in> set (patrol_slice ids (r + int (q div 8)))"
    unfolding patrol_slice_at [OF assms(1) ne] using idx p(2) by (auto intro!: image_eqI [of _ _ "q mod 8"])
  moreover have "q div 8 < (?n + 7) div 8" using q by linarith
  ultimately show ?thesis by blast
qed

theorem patrol_visits_every_node_witness:
  "\<exists>k. k < (length [''a'', ''b'']+ 7) div 8 \<and> ''b'' \<in> set (patrol_slice [''a'', ''b''] (3 + int k))"
  by (rule patrol_visits_every_node) simp_all

lemma patrol_slices_disjoint:
  assumes "2 \<le> r" "distinct ids" "i < j" "(j - i + 1) * 8 \<le> length ids"
  shows "set (patrol_slice ids (r + int i)) \<inter> set (patrol_slice ids (r + int j)) = {}"
proof -
  let ?n = "length ids" and ?A = "nat (r - 2)"
  have ne: "ids \<noteq> []" and n: "8 \<le> ?n" using assms by auto
  have False if "u < 8" "v < 8"
    "sort ids ! (((?A + i) * 8 + u) mod ?n) = sort ids ! (((?A + j) * 8 + v) mod ?n)" for u v
  proof -
    have "((?A + i) * 8 + u) mod ?n = ((?A + j) * 8 + v) mod ?n"
      using that(3) assms(2) ne by (subst (asm) nth_eq_iff_index_eq) auto
    then have "?n dvd ((?A + j) * 8 + v) - ((?A + i) * 8 + u)"
      using that(1) assms(3) by (intro mod_eq_dvd_iff_nat [THEN iffD1]) auto
    moreover have "((?A + j) * 8 + v) - ((?A + i) * 8 + u) = (j - i) * 8 + v - u" using assms(3) by (simp add: algebra_simps)
    moreover have "0 < (j - i) * 8 + v - u" "(j - i) * 8 + v - u < ?n" using that(1,2) assms(3,4) by auto
    ultimately show False by (metis nat_dvd_not_less)
  qed
  then show ?thesis unfolding patrol_slice_at [OF assms(1) ne] using n by auto blast
qed
end
