(* ===== verification/ReviewRound.thy ===== *)
theory ReviewRound imports ReviewScope Approach RequesterAssumptions begin
text \<open>
  One round of the direction review of \<open>src/ai_org/patchwork_queue/review.py\<close>: the lint and
  the parser of what a reviewer returns, the attempts of one call, the shards of one dimension, the
  consolidation, and the deterministic bookkeeping that turns the objections into the verdict and
  the round record. A model call is an argument (the number of the attempt and the feedback give an
  error or the raw output), as are \<open>json.loads\<close> and the terms consulted in the precedent
  store; prompts, the log and the git record around the round are left out.
\<close>

section \<open>Objections\<close>

record evidence =
  ev_source_type :: string
  ev_citation :: string
  ev_consulted_terms :: "string list"

record objection =
  ob_id :: string
  ob_anchors :: "string list"
  ob_axis :: string
  ob_type :: string
  ob_claim :: string
  ob_evidence :: "evidence list"
  ob_impact :: string
  ob_action :: string
  ob_authority :: string
  ob_status :: string
  ob_confidence :: string
  ob_scope :: string

record axis_review =
  ar_axis :: string
  ar_verdict :: string
  ar_objections :: "objection list"
  ar_attempts :: nat
  ar_errors :: "string list"

record consolidation =
  co_verdict :: string
  co_summary :: string
  co_objections :: "objection list"
  co_contradictions :: "pyval list"
  co_nak_reason :: string
  co_evidence :: "evidence list"
  co_errors :: "string list"

definition AXES :: "string list" where
  "AXES = [''need'', ''approach'', ''compat'', ''scope'', ''maintenance'']"

definition evidence_dict :: "evidence \<Rightarrow> pydict" where
  "evidence_dict e = [(''source_type'', PStr (ev_source_type e)), (''citation'', PStr (ev_citation e)),
     (''consulted_terms'', PList (map PStr (ev_consulted_terms e)))]"

definition objection_record :: "objection \<Rightarrow> pydict" where
  "objection_record ob =
     [(''objection_id'', PStr (ob_id ob)), (''anchor_node_ids'', PList (map PStr (ob_anchors ob))),
      (''axis'', PStr (ob_axis ob)), (''type'', PStr (ob_type ob)), (''claim'', PStr (ob_claim ob)),
      (''evidence'', PList (map (\<lambda>e. PDict (evidence_dict e)) (ob_evidence ob))), (''impact'', PStr (ob_impact ob)),
      (''requested_author_action'', PStr (ob_action ob)), (''resolution_authority'', PStr (ob_authority ob)),
      (''status'', PStr (ob_status ob)), (''reviewer_confidence'', PStr (ob_confidence ob)),
      (''reviewed_scope'', PStr (ob_scope ob))]"

section \<open>Schemas\<close>

datatype schema = SEnum "string list" | SString | SArray schema | SObject "(string \<times> schema) list"

definition evidence_schema :: schema where
  "evidence_schema = SObject
     [(''source_type'', SEnum [''reference'', ''prior_decision'', ''repo_fact'', ''tree_node'', ''patch_series_field'']),
      (''citation'', SString), (''consulted_terms'', SArray SString)]"

definition objection_item_schema :: schema where
  "objection_item_schema = SObject
     [(''objection_id'', SString), (''anchor_node_ids'', SArray SString), (''axis'', SEnum AXES),
      (''type'', SEnum [''blocking'', ''clarification'', ''nonblocking_suggestion'', ''style_defer'']),
      (''claim'', SString), (''evidence'', SArray evidence_schema), (''impact'', SString),
      (''requested_author_action'', SEnum [''re_explain'', ''provide_evidence'', ''revise_subtree'', ''split_scope'', ''withdraw'']),
      (''resolution_authority'', SEnum [''author'', ''requester'']),
      (''status'', SEnum [''open'', ''deferral_accepted'', ''deferral_rejected'']),
      (''reviewer_confidence'', SEnum [''high'', ''medium'', ''low'']), (''reviewed_scope'', SString)]"

definition objection_schema :: schema where
  "objection_schema = SObject
     [(''axis'', SEnum AXES), (''verdict'', SEnum [''Direction-reviewed-by'', ''objections_pending'']),
      (''objections'', SArray objection_item_schema)]"

definition contradiction_schema :: schema where
  "contradiction_schema = SObject
     [(''summary'', SString), (''resolution'', SString), (''affected_objection_ids'', SArray SString)]"

definition aufheben_schema :: schema where
  "aufheben_schema = SObject
     [(''verdict'', SEnum [''direction-ok'', ''needs_revision'', ''nak'']), (''summary'', SString),
      (''deduplicated_objections'', SArray objection_item_schema),
      (''contradiction_resolutions'', SArray contradiction_schema), (''nak_reason'', SString),
      (''evidence'', SArray evidence_schema)]"

lemma size_schema_props: "kv \<in> set d \<Longrightarrow> size (snd kv) < Suc (size_list (size_prod (\<lambda>_. 0) size) d)"
  by (induction d) auto

definition py_list_text :: "string list \<Rightarrow> string" where
  "py_list_text ss = py_repr (PList (map PStr ss))"

definition at_index :: "string \<Rightarrow> nat \<Rightarrow> string" where
  "at_index path i = path @ ''['' @ nat_str i @ '']''"

text \<open>\<open>_lint_object_schema\<close> with its cases for the children; arrays of arrays are not checked further.\<close>

function (sequential) lint_schema :: "schema \<Rightarrow> pyval \<Rightarrow> string \<Rightarrow> string list" where
  "lint_schema (SEnum es) v path = (if text_among v es then [] else [path @ '' must be one of '' @ py_list_text es])"
| "lint_schema SString v path = (if as_str v = None then [path @ '' must be a string''] else [])"
| "lint_schema (SArray (SArray s)) v path =
     (case v of PList vs \<Rightarrow> [] | _ \<Rightarrow> [path @ '' must be an array''])"
| "lint_schema (SArray s) v path =
     (case v of
        PList vs \<Rightarrow> concat (map (\<lambda>iv. lint_schema s (snd iv) (at_index path (fst iv))) (enumerate_from 0 vs))
      | _ \<Rightarrow> [path @ '' must be an array''])"
| "lint_schema (SObject props) v path =
     (case v of
        PDict d \<Rightarrow>
          if set (map fst d) \<noteq> set (map fst props)
          then [path @ '' keys must be exactly '' @ py_list_text (sort (map fst props))]
          else concat (map (\<lambda>ks. lint_schema (snd ks) (py_get d (fst ks)) (path @ ''.'' @ fst ks)) props)
      | _ \<Rightarrow> [path @ '' must be an object''])"
  by pat_completeness auto
termination
  by (relation "measure (\<lambda>(s, v, p). size s)") (auto dest: size_schema_props simp: less_Suc_eq_le size_list_estimation')

section \<open>Reading an objection\<close>

definition str_at :: "pydict \<Rightarrow> string \<Rightarrow> string" where
  "str_at d k = (case py_get d k of PStr s \<Rightarrow> s | _ \<Rightarrow> [])"

definition strs_at :: "pydict \<Rightarrow> string \<Rightarrow> string list" where
  "strs_at d k = texts_in (py_get d k)"

definition dicts_in :: "pyval \<Rightarrow> pydict list" where
  "dicts_in v = (case v of PList vs \<Rightarrow> concat (map (\<lambda>x. case x of PDict d \<Rightarrow> [d] | _ \<Rightarrow> []) vs) | _ \<Rightarrow> [])"

definition parse_evidence :: "pydict \<Rightarrow> evidence" where
  "parse_evidence d = \<lparr>ev_source_type = str_at d ''source_type'', ev_citation = str_at d ''citation'',
     ev_consulted_terms = strs_at d ''consulted_terms''\<rparr>"

definition parse_objection :: "pydict \<Rightarrow> objection" where
  "parse_objection d =
     \<lparr>ob_id = str_at d ''objection_id'', ob_anchors = strs_at d ''anchor_node_ids'', ob_axis = str_at d ''axis'',
      ob_type = str_at d ''type'', ob_claim = str_at d ''claim'',
      ob_evidence = map parse_evidence (dicts_in (py_get d ''evidence'')), ob_impact = str_at d ''impact'',
      ob_action = str_at d ''requested_author_action'', ob_authority = str_at d ''resolution_authority'',
      ob_status = str_at d ''status'', ob_confidence = str_or_empty (py_get d ''reviewer_confidence''),
      ob_scope = str_or_empty (py_get d ''reviewed_scope'')\<rparr>"

definition blank :: "string \<Rightarrow> bool" where
  "blank s \<longleftrightarrow> py_strip s = []"

text \<open>The checks behind the schema, on the parsed item.\<close>

definition objection_errors :: "objection \<Rightarrow> string list \<Rightarrow> string option \<Rightarrow> string \<Rightarrow> string list \<Rightarrow> string list" where
  "objection_errors ob node_ids expected_axis path consulted =
     (let dangling = filter (\<lambda>a. a \<notin> set node_ids) (ob_anchors ob);
          meaningful = list_ex (\<lambda>e. \<not> blank (ev_citation e) \<or> ev_consulted_terms e \<noteq> []) (ob_evidence ob)
      in (case expected_axis of Some a \<Rightarrow> if ob_axis ob \<noteq> a then [path @ ''.axis must be '' @ a] else [] | None \<Rightarrow> [])
       @ (if blank (ob_id ob) then [path @ ''.objection_id must be non-empty''] else [])
       @ (if ob_anchors ob = [] then [path @ ''.anchor_node_ids must contain at least one node id''] else [])
       @ (if dangling \<noteq> [] then [path @ ''.anchor_node_ids contains unknown node ids: '' @ py_join '', '' dangling] else [])
       @ (if blank (ob_claim ob) then [path @ ''.claim must be non-empty''] else [])
       @ (if consulted \<noteq> [] \<and> \<not> list_ex (\<lambda>e. list_ex (\<lambda>t. t \<in> set consulted) (ev_consulted_terms e)) (ob_evidence ob)
          then [path @ ''.evidence must record at least one precedent-store term consulted''] else [])
       @ (if ob_type ob = ''blocking'' \<and> blank (ob_impact ob)
          then [path @ ''.impact must be non-empty for blocking objections''] else [])
       @ (if blank (ob_scope ob) then [path @ ''.reviewed_scope must state what was examined for this objection''] else [])
       @ (if ob_type ob \<notin> {''nonblocking_suggestion'', ''style_defer''} \<and> (blank (ob_impact ob) \<or> \<not> meaningful)
          then [path @ '' must be nonblocking_suggestion or style_defer without evidence and impact''] else []))"

definition lint_objection :: "pyval \<Rightarrow> string list \<Rightarrow> string option \<Rightarrow> string \<Rightarrow> string list \<Rightarrow> string list" where
  "lint_objection item node_ids expected_axis path consulted =
     (let errors = lint_schema objection_item_schema item path in
      if errors \<noteq> [] then errors
      else (case item of
              PDict d \<Rightarrow> objection_errors (parse_objection d) node_ids expected_axis path consulted
            | _ \<Rightarrow> []))"

text \<open>The terms of the consultations; one consultation may join several terms with NUL.\<close>

definition consulted_terms :: "string list \<Rightarrow> string list" where
  "consulted_terms consultations =
     concat (map (\<lambda>t. filter (\<lambda>s. s \<noteq> []) (split_char (char_of (0 :: nat)) t)) consultations)"

definition lint_items :: "pyval \<Rightarrow> string \<Rightarrow> string list \<Rightarrow> string option \<Rightarrow> string list \<Rightarrow> string list" where
  "lint_items items path node_ids expected_axis consulted =
     concat (map (\<lambda>iv. lint_objection (snd iv) node_ids expected_axis (at_index path (fst iv)) consulted)
       (enumerate_from 0 (produced_list items)))"

definition is_blocking_item :: "pyval \<Rightarrow> bool" where
  "is_blocking_item v = (case v of PDict d \<Rightarrow> py_get d ''type'' = PStr ''blocking'' | _ \<Rightarrow> False)"

definition lint_axis_review :: "pyval \<Rightarrow> string \<Rightarrow> string list \<Rightarrow> string list \<Rightarrow> string list" where
  "lint_axis_review parsed_value axis node_ids consultations =
     (let errors = lint_schema objection_schema parsed_value ''review'' in
      if errors \<noteq> [] then errors
      else (case parsed_value of
              PDict d \<Rightarrow>
                (let blocking = list_ex is_blocking_item (produced_list (py_get d ''objections'')) in
                 (if py_get d ''axis'' \<noteq> PStr axis then [''axis must be '' @ axis] else [])
                 @ (if blocking \<and> py_get d ''verdict'' \<noteq> PStr ''objections_pending''
                    then [''blocking objections require objections_pending verdict''] else [])
                 @ (if \<not> blocking \<and> py_get d ''verdict'' = PStr ''objections_pending''
                    then [''objections_pending requires at least one blocking objection''] else [])
                 @ lint_items (py_get d ''objections'') ''objections'' node_ids (Some axis) (consulted_terms consultations))
            | _ \<Rightarrow> []))"

definition lint_consolidation :: "pyval \<Rightarrow> string list \<Rightarrow> string list" where
  "lint_consolidation parsed_value node_ids =
     (let errors = lint_schema aufheben_schema parsed_value ''aufheben'' in
      if errors \<noteq> [] then errors
      else (case parsed_value of
              PDict d \<Rightarrow>
                lint_items (py_get d ''deduplicated_objections'') ''deduplicated_objections'' node_ids None []
                @ (if py_get d ''verdict'' = PStr ''nak'' then
                     (if blank (str_at d ''nak_reason'') then [''nak verdict requires nak_reason''] else [])
                     @ (if produced_list (py_get d ''evidence'') = [] then [''nak verdict requires evidence''] else [])
                   else [])
            | _ \<Rightarrow> []))"

definition parse_axis_review ::
  "(string \<Rightarrow> string + pyval) \<Rightarrow> string \<Rightarrow> string \<Rightarrow> string list \<Rightarrow> string list \<Rightarrow> nat \<Rightarrow> string list + axis_review" where
  "parse_axis_review loads raw axis node_ids consultations attempt =
     (case loads raw of
        Inl exc \<Rightarrow> Inl [''invalid JSON: '' @ exc]
      | Inr v \<Rightarrow>
          (let errors = lint_axis_review v axis node_ids consultations in
           if errors \<noteq> [] then Inl errors
           else (case v of
                   PDict d \<Rightarrow> Inr \<lparr>ar_axis = axis, ar_verdict = str_at d ''verdict'',
                     ar_objections = map parse_objection (dicts_in (py_get d ''objections'')),
                     ar_attempts = attempt, ar_errors = []\<rparr>
                 | _ \<Rightarrow> Inl [])))"

definition parse_consolidation :: "(string \<Rightarrow> string + pyval) \<Rightarrow> string \<Rightarrow> string list \<Rightarrow> string list + consolidation" where
  "parse_consolidation loads raw node_ids =
     (case loads raw of
        Inl exc \<Rightarrow> Inl [''invalid JSON: '' @ exc]
      | Inr v \<Rightarrow>
          (let errors = lint_consolidation v node_ids in
           if errors \<noteq> [] then Inl errors
           else (case v of
                   PDict d \<Rightarrow> Inr \<lparr>co_verdict = str_at d ''verdict'', co_summary = str_at d ''summary'',
                     co_objections = map parse_objection (dicts_in (py_get d ''deduplicated_objections'')),
                     co_contradictions = produced_list (py_get d ''contradiction_resolutions''),
                     co_nak_reason = str_at d ''nak_reason'',
                     co_evidence = map parse_evidence (dicts_in (py_get d ''evidence'')), co_errors = []\<rparr>
                 | _ \<Rightarrow> Inl [])))"

section \<open>One reviewer call\<close>

definition process_objection :: "string \<Rightarrow> string \<Rightarrow> string list \<Rightarrow> string list \<Rightarrow> objection" where
  "process_objection axis reason node_ids consultations =
     \<lparr>ob_id = axis @ '':review-process'',
      ob_anchors = [if node_ids = [] \<or> ''problem'' \<in> set node_ids then ''problem'' else hd (sort node_ids)],
      ob_axis = (if axis \<in> set AXES then axis else ''need''), ob_type = ''blocking'',
      ob_claim = (if reason = [] then ''Review process failed closed.'' else reason),
      ob_evidence = [\<lparr>ev_source_type = ''repo_fact'',
         ev_citation = (if reason = [] then ''review process failed'' else reason),
         ev_consulted_terms = filter (\<lambda>t. t \<noteq> []) consultations\<rparr>],
      ob_impact = ''The direction review cannot be trusted until this review record is corrected.'',
      ob_action = ''re_explain'', ob_authority = ''author'', ob_status = ''open'', ob_confidence = [], ob_scope = []\<rparr>"

text \<open>
  The two attempts of \<open>_review_one\<close>. A failed call is retried with its error as feedback; a
  rejected output is classified, and a permanent rejection ends the attempts. When none is left the
  review fails closed with one blocking objection.
\<close>

definition failed_review :: "string \<Rightarrow> string list \<Rightarrow> string list \<Rightarrow> string list \<Rightarrow> axis_review" where
  "failed_review axis errors node_ids consultations =
     \<lparr>ar_axis = axis, ar_verdict = ''objections_pending'',
      ar_objections = [process_objection axis (py_join ''; '' errors) node_ids consultations],
      ar_attempts = 2, ar_errors = errors\<rparr>"

fun review_attempts ::
  "(string \<Rightarrow> string) \<Rightarrow> (string \<Rightarrow> string + pyval) \<Rightarrow> (nat \<Rightarrow> string \<Rightarrow> string + string) \<Rightarrow> string \<Rightarrow> string list \<Rightarrow> string list \<Rightarrow>
   nat \<Rightarrow> nat \<Rightarrow> string \<Rightarrow> string list \<Rightarrow> string set \<Rightarrow> py_exc + axis_review" where
  "review_attempts digest loads codex axis node_ids consultations 0 attempt feedback errors prev =
     Inr (failed_review axis errors node_ids consultations)"
| "review_attempts digest loads codex axis node_ids consultations (Suc n) attempt feedback errors prev =
     (case codex attempt feedback of
        Inl err \<Rightarrow> review_attempts digest loads codex axis node_ids consultations n (Suc attempt) err [err] prev
      | Inr raw \<Rightarrow>
          (case parse_axis_review loads raw axis node_ids consultations attempt of
             Inr review \<Rightarrow> Inr (review\<lparr>ar_errors := errors\<rparr>)
           | Inl es \<Rightarrow>
               rbind (validation_rejection digest (''review.axis.'' @ axis) [py_join ''; '' es]) (\<lambda>r.
                 case classify_rejection prev r of
                   (d, seen) \<Rightarrow>
                     if decision_permanent d
                     then Inr (failed_review axis [permanent_rejection_error d] node_ids consultations)
                     else review_attempts digest loads codex axis node_ids consultations n (Suc attempt)
                            (format_rejection_feedback r) es seen)))"

definition review_one ::
  "(string \<Rightarrow> string) \<Rightarrow> (string \<Rightarrow> string + pyval) \<Rightarrow> (nat \<Rightarrow> string \<Rightarrow> string + string) \<Rightarrow> string \<Rightarrow> string list \<Rightarrow> string list \<Rightarrow>
   py_exc + axis_review" where
  "review_one digest loads codex axis node_ids consultations =
     review_attempts digest loads codex axis node_ids consultations 2 1 [] [] {}"

section \<open>Duplicates\<close>

definition objection_key :: "objection \<Rightarrow> string list \<times> string" where
  "objection_key ob = (sort (ob_anchors ob), py_join '' '' (py_split (py_lower (ob_claim ob))))"

fun dedupe_loop :: "(string list \<times> string) list \<Rightarrow> objection list \<Rightarrow> objection list" where
  "dedupe_loop seen [] = []"
| "dedupe_loop seen (ob # obs) =
     (if objection_key ob \<in> set seen then dedupe_loop seen obs
      else ob # dedupe_loop (objection_key ob # seen) obs)"

definition dedupe_objections :: "objection list \<Rightarrow> objection list" where
  "dedupe_objections obs = dedupe_loop [] obs"

section \<open>One dimension, shard by shard\<close>

text \<open>The call of a shard is told apart by its step; without shards there is one call on the whole tree.\<close>

fun review_shards ::
  "(string \<Rightarrow> string) \<Rightarrow> (string \<Rightarrow> string + pyval) \<Rightarrow> (string option \<Rightarrow> nat \<Rightarrow> string \<Rightarrow> string + string) \<Rightarrow> string \<Rightarrow> string list \<Rightarrow>
   string list \<Rightarrow> shard list \<Rightarrow> py_exc + axis_review list" where
  "review_shards digest loads codex axis node_ids consultations [] = Inr []"
| "review_shards digest loads codex axis node_ids consultations (sh # shs) =
     rbind (review_one digest loads (codex (Some (shard_step sh))) axis node_ids consultations) (\<lambda>r.
       rbind (review_shards digest loads codex axis node_ids consultations shs) (\<lambda>rs. Inr (r # rs)))"

definition review_dimension_sharded ::
  "(string \<Rightarrow> string) \<Rightarrow> (string \<Rightarrow> string + pyval) \<Rightarrow> (string option \<Rightarrow> nat \<Rightarrow> string \<Rightarrow> string + string) \<Rightarrow> string \<Rightarrow> string list \<Rightarrow>
   pyval \<Rightarrow> py_exc + axis_review" where
  "review_dimension_sharded digest loads codex axis consultations approach =
     (let node_ids = collect_node_ids approach; shards = round_one_shards approach in
      if shards = [] then review_one digest loads (codex None) axis node_ids consultations
      else
        rbind (review_shards digest loads codex axis node_ids consultations shards) (\<lambda>rs.
          Inr \<lparr>ar_axis = axis,
               ar_verdict = (if list_ex (\<lambda>r. ar_verdict r \<noteq> ''Direction-reviewed-by'') rs
                             then ''objections_pending'' else ''Direction-reviewed-by''),
               ar_objections = dedupe_objections (concat (map ar_objections rs)),
               ar_attempts = sum_list (map ar_attempts rs), ar_errors = concat (map ar_errors rs)\<rparr>))"

section \<open>Consolidation\<close>

definition deterministic_consolidation :: "string \<Rightarrow> string list \<Rightarrow> objection list \<Rightarrow> consolidation" where
  "deterministic_consolidation summary errors objections =
     (let deduped = dedupe_objections objections in
      \<lparr>co_verdict = (if list_ex (\<lambda>ob. ob_type ob = ''blocking'') deduped then ''needs_revision'' else ''direction-ok''),
       co_summary = summary, co_objections = deduped, co_contradictions = [], co_nak_reason = [], co_evidence = [],
       co_errors = errors\<rparr>)"

definition aufheben_consolidate ::
  "(string \<Rightarrow> string + pyval) \<Rightarrow> string + string \<Rightarrow> string list \<Rightarrow> objection list \<Rightarrow> consolidation" where
  "aufheben_consolidate loads codex node_ids objections =
     (case codex of
        Inl err \<Rightarrow>
          deterministic_consolidation (''Aufheben failed validation and deterministic consolidation was used: '' @ err) [err] objections
      | Inr raw \<Rightarrow>
          (case parse_consolidation loads raw node_ids of
             Inl errors \<Rightarrow>
               deterministic_consolidation ''Aufheben output failed validation and deterministic consolidation was used.'' errors objections
           | Inr c \<Rightarrow> c))"

section \<open>Bookkeeping\<close>

text \<open>Deferral outcomes hold only with a committed proposal; rejected deferrals stay open.\<close>

definition normalize_deferral :: "string list \<Rightarrow> objection \<Rightarrow> objection" where
  "normalize_deferral proposals ob =
     (if ob_status ob = ''deferral_accepted'' then (if ob_id ob \<in> set proposals then ob else ob\<lparr>ob_status := ''open''\<rparr>)
      else if ob_status ob = ''deferral_rejected'' then ob\<lparr>ob_status := ''open''\<rparr> else ob)"

definition accepted_deferrals :: "string list \<Rightarrow> objection list \<Rightarrow> objection list" where
  "accepted_deferrals proposals obs = filter (\<lambda>ob. ob_status ob = ''deferral_accepted'' \<and> ob_id ob \<in> set proposals) obs"

definition rejected_deferral_ids :: "objection list \<Rightarrow> string list" where
  "rejected_deferral_ids obs = map ob_id (filter (\<lambda>ob. ob_status ob = ''deferral_rejected'') obs)"

definition open_blocking_objection :: "objection \<Rightarrow> bool" where
  "open_blocking_objection ob \<longleftrightarrow> ob_status ob = ''open'' \<and> ob_type ob = ''blocking''"

text \<open>Membership in \<open>recorded_assumption_objection_ids\<close>.\<close>

definition assumption_recorded :: "(string \<Rightarrow> pyval option) \<Rightarrow> pydict \<Rightarrow> string \<Rightarrow> bool" where
  "assumption_recorded loads view i \<longleftrightarrow> requester_assumption_entries_by_objection_id loads view i \<noteq> None"

definition with_assumption_status :: "(string \<Rightarrow> bool) \<Rightarrow> objection \<Rightarrow> objection" where
  "with_assumption_status recorded ob = (if recorded (ob_id ob) then ob\<lparr>ob_status := ''assumption_recorded''\<rparr> else ob)"

definition nak_rests_solely_on_requester_authority :: "objection list \<Rightarrow> bool" where
  "nak_rests_solely_on_requester_authority obs \<longleftrightarrow> obs \<noteq> [] \<and> list_all (\<lambda>ob. ob_authority ob = ''requester'') obs"

definition nak_rests_solely_on_superseded :: "objection list \<Rightarrow> bool" where
  "nak_rests_solely_on_superseded obs \<longleftrightarrow> obs \<noteq> [] \<and> list_all (\<lambda>ob. ob_status ob = ''superseded'') obs"

definition derive_verdict :: "consolidation \<Rightarrow> objection list \<Rightarrow> string" where
  "derive_verdict c obs =
     (if co_verdict c = ''nak'' \<and> \<not> blank (co_nak_reason c) \<and> co_evidence c \<noteq> [] \<and>
         \<not> nak_rests_solely_on_requester_authority obs \<and> \<not> nak_rests_solely_on_superseded obs
      then ''nak''
      else if list_ex open_blocking_objection obs then ''needs_revision''
      else ''direction-ok'')"

text \<open>Concerns of the round before: the same axis and a common anchor, whatever the claim says.\<close>

definition prior_key :: "pydict \<Rightarrow> string list list" where
  "prior_key d = [[str_or_empty (py_get d ''axis'')], [str_or_empty (py_get d ''objection_id'')],
     sort (texts_in (py_get d ''anchor_node_ids''))]"

definition prior_unresolved :: "pydict \<Rightarrow> pydict list" where
  "prior_unresolved record_dict =
     filter (\<lambda>d. py_get d ''status'' = PStr ''open'' \<or> py_get d ''status'' = PStr ''carried-forward'')
       (dicts_in (py_get record_dict ''objections''))"

definition cross_round_entry :: "objection list \<Rightarrow> pydict \<Rightarrow> pydict" where
  "cross_round_entry fresh prior =
     (let anchors = sort (remdups (texts_in (py_get prior ''anchor_node_ids'')));
          axis = str_or_empty (py_get prior ''axis'');
          fresh_ids = sort (remdups (map ob_id (filter (\<lambda>ob. ob_axis ob = axis \<and> list_ex (\<lambda>a. a \<in> set anchors) (ob_anchors ob)) fresh)))
      in [(''prior_objection_id'', PStr (str_or_empty (py_get prior ''objection_id''))), (''axis'', PStr axis),
          (''prior_anchor_node_ids'', PList (map PStr anchors)),
          (''status'', PStr (if fresh_ids \<noteq> [] then ''unresolved'' else ''resolved_by_construction'')),
          (''fresh_objection_ids'', PList (map PStr fresh_ids))])"

definition cross_round_objection_mapping :: "pydict list \<Rightarrow> objection list \<Rightarrow> pydict list" where
  "cross_round_objection_mapping prior fresh = map (cross_round_entry fresh) (sort_key prior_key prior)"

record round_decision =
  rd_status :: string
  rd_objections :: "objection list"
  rd_view :: pydict
  rd_mapping :: "pydict list"
  rd_accepted :: "objection list"
  rd_rejected_ids :: "string list"
  rd_consolidation :: consolidation
  rd_resolved_axes :: "string list"
  rd_backstop :: bool

definition backstop_reason :: "nat \<Rightarrow> string" where
  "backstop_reason max_rounds =
     ''patch series direction review reached the bounded-rounds backstop of '' @ nat_str max_rounds
     @ '' rounds with blocking objections still open after a full terminal-round hearing of the current tree. ''
     @ ''Kernel practice has no fixed cap; AI Org diverges here to prevent runaway patch series phase loops.''"

text \<open>
  From the axis reviews and the consolidation to the status of the round. \<open>terminal\<close> holds the cap
  when the round entered with that many records. Recording requester assumptions may raise.
\<close>

definition decide_round ::
  "(string \<Rightarrow> pyval option) \<Rightarrow> pydict \<Rightarrow> pyval \<Rightarrow> pydict list \<Rightarrow> string list \<Rightarrow> nat option \<Rightarrow> axis_review list \<Rightarrow> consolidation \<Rightarrow>
   py_exc + round_decision" where
  "decide_round loads view approach prior proposals terminal axis_reviews c =
     (let raw = concat (map ar_objections axis_reviews);
          deduped = dedupe_objections (if co_objections c \<noteq> [] then co_objections c else raw);
          normalized = map (normalize_deferral proposals) deduped
      in rbind (record_requester_authority_assumptions loads view approach
                  (requester_authority_objections (map objection_record (filter open_blocking_objection normalized))))
           (\<lambda>(revised, entries, changed).
              let finals = map (with_assumption_status (assumption_recorded loads revised)) normalized;
                  status = derive_verdict c finals;
                  backstop = (terminal \<noteq> None \<and> status = ''needs_revision'')
              in Inr \<lparr>rd_status = (if backstop then ''nak'' else status), rd_objections = finals, rd_view = revised,
                   rd_mapping = cross_round_objection_mapping prior normalized,
                   rd_accepted = accepted_deferrals proposals deduped, rd_rejected_ids = rejected_deferral_ids deduped,
                   rd_consolidation = (if backstop
                     then c\<lparr>co_objections := finals, co_verdict := ''nak'', co_nak_reason := backstop_reason (the terminal)\<rparr>
                     else c\<lparr>co_objections := finals\<rparr>),
                   rd_resolved_axes = map ar_axis (filter (\<lambda>r. \<not> list_ex (\<lambda>ob. ob_axis ob = ar_axis r \<and> open_blocking_objection ob) finals) axis_reviews),
                   rd_backstop = backstop\<rparr>))"

section \<open>The obligations of accepted deferrals\<close>

fun add_questions :: "(string \<times> string \<times> string) list \<Rightarrow> int \<Rightarrow> string list \<Rightarrow> objection list \<Rightarrow> pyval list" where
  "add_questions proposals round_number known [] = []"
| "add_questions proposals round_number known (ob # obs) =
     (if ob_id ob \<in> set known then add_questions proposals round_number known obs
      else
        (let (check, reason) = (case map_of proposals (ob_id ob) of None \<Rightarrow> ([], []) | Some p \<Rightarrow> p) in
         PDict [(''objection_id'', PStr (ob_id ob)), (''status'', PStr ''must_resolve_in_patch''),
           (''executable_check'', PStr check), (''why_resolved_in_patch'', PStr reason),
           (''if_check_fails_implement'', PStr []), (''claim'', PStr (ob_claim ob)),
           (''anchor_node_ids'', PList (map PStr (ob_anchors ob))), (''axis'', PStr (ob_axis ob)),
           (''accepted_in_review_round'', PInt round_number)]
         # add_questions proposals round_number known obs))"

text \<open>The artifact from the questions already committed; an unreadable artifact counts as empty.\<close>

definition questions_the_patch_must_answer ::
  "pyval option \<Rightarrow> objection list \<Rightarrow> (string \<times> string \<times> string) list \<Rightarrow> int \<Rightarrow> pydict" where
  "questions_the_patch_must_answer committed accepted proposals round_number =
     (let existing = (case committed of
            Some (PDict d) \<Rightarrow> dicts_in (py_get d ''questions_the_patch_must_answer'') | _ \<Rightarrow> [])
      in [(''questions_the_patch_must_answer'',
           PList (map PDict existing
             @ add_questions proposals round_number (map (\<lambda>d. str_or_empty (py_get d ''objection_id'')) existing) accepted))])"

section \<open>The bound on the rounds\<close>

text \<open>The cap from the environment variable, and whether a round is terminal.\<close>

definition max_review_rounds :: "string option \<Rightarrow> nat" where
  "max_review_rounds raw =
     (case py_int_text (case raw of None \<Rightarrow> ''5'' | Some s \<Rightarrow> s) of None \<Rightarrow> 5 | Some v \<Rightarrow> nat (max v 1))"

definition bounded_rounds_terminal :: "string option \<Rightarrow> nat \<Rightarrow> nat option" where
  "bounded_rounds_terminal raw previous_rounds =
     (if previous_rounds < max_review_rounds raw then None else Some (max_review_rounds raw))"

section \<open>The round\<close>

text \<open>The five dimensions in order, each with its own calls and consultations.\<close>

fun review_axes ::
  "(string \<Rightarrow> string) \<Rightarrow> (string \<Rightarrow> string + pyval) \<Rightarrow> (string \<Rightarrow> string option \<Rightarrow> nat \<Rightarrow> string \<Rightarrow> string + string) \<Rightarrow>
   (string \<Rightarrow> string list) \<Rightarrow> pyval \<Rightarrow> string list \<Rightarrow> py_exc + axis_review list" where
  "review_axes digest loads codex consultations approach [] = Inr []"
| "review_axes digest loads codex consultations approach (a # as) =
     rbind (review_dimension_sharded digest loads (codex a) a (consultations a) approach) (\<lambda>r.
       rbind (review_axes digest loads codex consultations approach as) (\<lambda>rs. Inr (r # rs)))"

definition review_round ::
  "(string \<Rightarrow> string) \<Rightarrow> (string \<Rightarrow> string + pyval) \<Rightarrow> (string \<Rightarrow> string option \<Rightarrow> nat \<Rightarrow> string \<Rightarrow> string + string) \<Rightarrow>
   (string \<Rightarrow> string list) \<Rightarrow> (axis_review list \<Rightarrow> string + string) \<Rightarrow> (string \<Rightarrow> pyval option) \<Rightarrow> pydict \<Rightarrow> pyval \<Rightarrow> pydict list \<Rightarrow>
   string list \<Rightarrow> nat option \<Rightarrow> py_exc + round_decision" where
  "review_round digest loads codex consultations aufheben read_assumption view approach prior proposals terminal =
     rbind (review_axes digest loads codex consultations approach AXES) (\<lambda>rs.
       decide_round read_assumption view approach prior proposals terminal rs
         (aufheben_consolidate loads (aufheben rs) (collect_node_ids approach) (concat (map ar_objections rs))))"

section \<open>What a reviewer call returns\<close>


lemma lint_concat_empty: "concat xss = [] \<longleftrightarrow> (\<forall>xs\<in>set xss. xs = [])"
  by auto
















section \<open>What direction-ok means\<close>

lemma dedupe_loop_keys:
  "ob \<in> set obs \<Longrightarrow> objection_key ob \<notin> set seen \<Longrightarrow> \<exists>ob'\<in>set (dedupe_loop seen obs). objection_key ob' = objection_key ob"
proof (induction seen obs rule: dedupe_loop.induct)
  case (2 seen x obs)
  then show ?case by (cases "objection_key ob = objection_key x") auto
qed simp

lemma dedupe_subset: "set (dedupe_loop seen obs) \<subseteq> set obs"
  by (induction seen obs rule: dedupe_loop.induct) auto

lemma dedupe_keys:
  assumes "ob \<in> set obs"
  shows "\<exists>ob'\<in>set (dedupe_objections obs). objection_key ob' = objection_key ob"
  using dedupe_loop_keys [OF assms, of "[]"] by (simp add: dedupe_objections_def)

lemma dedupe_in: "ob \<in> set (dedupe_objections obs) \<Longrightarrow> ob \<in> set obs"
  using dedupe_subset by (auto simp: dedupe_objections_def)

definition settled_objection :: "string list \<Rightarrow> (string \<Rightarrow> bool) \<Rightarrow> objection \<Rightarrow> bool" where
  "settled_objection proposals recorded ob \<longleftrightarrow>
     ob_type ob \<noteq> ''blocking'' \<or> recorded (ob_id ob) \<or> (ob_status ob = ''deferral_accepted'' \<and> ob_id ob \<in> set proposals)"

lemma decide_round_parts:
  assumes "decide_round loads view approach prior proposals terminal rs c = Inr d"
  defines "base \<equiv> (if co_objections c \<noteq> [] then co_objections c else concat (map ar_objections rs))"
  defines "finals \<equiv> map (with_assumption_status (assumption_recorded loads (rd_view d)))
     (map (normalize_deferral proposals) (dedupe_objections base))"
  shows "rd_objections d = finals" "rd_status d = (if terminal \<noteq> None \<and> derive_verdict c finals = ''needs_revision'' then ''nak'' else derive_verdict c finals)"
  using assms by (auto simp: decide_round_def Let_def rbind_Inr_iff)

lemma direction_ok_closed:
  "derive_verdict c obs = ''direction-ok'' \<Longrightarrow> \<not> list_ex open_blocking_objection obs"
  by (auto simp: derive_verdict_def split: if_splits)

text \<open>
  C5: a round that ends direction-ok has accounted for every blocking objection it consolidated: an
  objection with the same anchors and the same claim is not blocking, or has its id recorded as a
  requester assumption, or is an accepted deferral of a committed proposal.
\<close>

theorem direction_ok_accounts:
  assumes "decide_round loads view approach prior proposals terminal rs c = Inr d" "rd_status d = ''direction-ok''"
    and "ob \<in> set (if co_objections c \<noteq> [] then co_objections c else concat (map ar_objections rs))"
    and "list_all (\<lambda>x. ob_status x \<in> {''open'', ''deferral_accepted'', ''deferral_rejected''})
       (if co_objections c \<noteq> [] then co_objections c else concat (map ar_objections rs))"
  shows "\<exists>x\<in>set (if co_objections c \<noteq> [] then co_objections c else concat (map ar_objections rs)).
    objection_key x = objection_key ob \<and> settled_objection proposals (assumption_recorded loads (rd_view d)) x"
proof -
  let ?base = "if co_objections c \<noteq> [] then co_objections c else concat (map ar_objections rs)"
  let ?rec = "assumption_recorded loads (rd_view d)"
  obtain x where x: "x \<in> set (dedupe_objections ?base)" "objection_key x = objection_key ob"
    using dedupe_keys [OF assms(3)] by blast
  have "derive_verdict c (map (with_assumption_status ?rec) (map (normalize_deferral proposals) (dedupe_objections ?base))) = ''direction-ok''"
    using decide_round_parts(2) [OF assms(1)] assms(2) by (simp split: if_splits)
  from direction_ok_closed [OF this] have "\<not> open_blocking_objection (with_assumption_status ?rec (normalize_deferral proposals x))"
    using x(1) by (simp add: list_ex_iff)
  moreover have "ob_status x \<in> {''open'', ''deferral_accepted'', ''deferral_rejected''}"
    using assms(4) dedupe_in [OF x(1)] by (simp only: list_all_iff)
  ultimately have "settled_objection proposals ?rec x"
    by (auto simp: open_blocking_objection_def with_assumption_status_def normalize_deferral_def settled_objection_def split: if_splits)
  then show ?thesis using x dedupe_in by blast
qed

definition example_ob :: "string \<Rightarrow> string \<Rightarrow> string \<Rightarrow> objection" where
  "example_ob i t authority =
     \<lparr>ob_id = i, ob_anchors = [''problem''], ob_axis = ''need'', ob_type = t, ob_claim = ''c'', ob_evidence = [],
      ob_impact = ''i'', ob_action = ''withdraw'', ob_authority = authority, ob_status = ''open'', ob_confidence = [], ob_scope = ''s''\<rparr>"

definition example_review :: "objection list \<Rightarrow> axis_review" where
  "example_review obs = \<lparr>ar_axis = ''need'', ar_verdict = ''objections_pending'', ar_objections = obs, ar_attempts = 1, ar_errors = []\<rparr>"

definition example_consolidation :: consolidation where
  "example_consolidation = deterministic_consolidation [] [''unreadable''] []"

lemma assumption_recorded_iff: "assumption_recorded loads view i \<longleftrightarrow> i \<in> recorded_assumption_objection_ids loads view"
  by (auto simp: assumption_recorded_def recorded_assumption_objection_ids_def)

text \<open>The status of a round on concrete axis reviews.\<close>

definition status_of :: "py_exc + round_decision \<Rightarrow> string" where
  "status_of r = (case r of Inl _ \<Rightarrow> [] | Inr d \<Rightarrow> rd_status d)"

theorem direction_ok_accounts_witness:
  "\<exists>x\<in>set [example_ob ''O1'' ''clarification'' ''author''].
    objection_key x = objection_key (example_ob ''O1'' ''clarification'' ''author'') \<and>
    settled_objection [] (assumption_recorded (\<lambda>_. None) example_view) x"
proof -
  let ?obs = "[example_ob ''O1'' ''clarification'' ''author'']"
  let ?r = "decide_round (\<lambda>_. None) example_view (PDict []) [] [] None [example_review ?obs] example_consolidation"
  have "status_of ?r = ''direction-ok''" "(case ?r of Inl _ \<Rightarrow> False | Inr d \<Rightarrow> rd_view d = example_view)" by code_simp+
  then obtain d where d: "?r = Inr d" "rd_status d = ''direction-ok''" "rd_view d = example_view"
    by (cases ?r) (simp_all add: status_of_def)
  have base: "(if co_objections example_consolidation \<noteq> [] then co_objections example_consolidation
      else concat (map ar_objections [example_review ?obs])) = ?obs" by code_simp
  show ?thesis
    using direction_ok_accounts [OF d(1,2), of "example_ob ''O1'' ''clarification'' ''author''"]
    unfolding base d(3) by (simp add: example_ob_def)
qed

section \<open>Two ways past an open concern\<close>

text \<open>
  The recorded assumptions are matched by objection id alone: in a round whose consolidation is no
  nak, objections of the author's authority whose ids an earlier round recorded for the requester are
  all closed, blocking or not, and the round ends direction-ok with the view unchanged.
\<close>

theorem recorded_id_closes_author_objections:
  assumes "map fst view = WORK_ORDER_VIEW_FIELDS" "co_verdict c \<noteq> ''nak''"
    and "list_all (\<lambda>ob. ob_authority ob = ''author'' \<and> assumption_recorded loads view (ob_id ob)) (concat (map ar_objections rs))"
    and "co_objections c = []"
  shows "\<exists>d. decide_round loads view approach prior proposals terminal rs c = Inr d \<and> rd_status d = ''direction-ok'' \<and> rd_view d = view"
proof -
  let ?obs = "map (normalize_deferral proposals) (dedupe_objections (concat (map ar_objections rs)))"
  have each: "ob_authority ob = ''author'' \<and> assumption_recorded loads view (ob_id ob)" if "ob \<in> set ?obs" for ob
    using that assms(3) dedupe_in by (fastforce simp: list_all_iff normalize_deferral_def)
  have "requester_authority_objections (map objection_record (filter open_blocking_objection ?obs)) = []"
    using each by (auto simp: requester_authority_objections_def filter_empty_conv objection_record_def py_get_def)
  moreover have "\<not> list_ex open_blocking_objection (map (with_assumption_status (assumption_recorded loads view)) ?obs)"
  proof -
    have "ob_status (with_assumption_status (assumption_recorded loads view) ob) = ''assumption_recorded''" if "ob \<in> set ?obs" for ob
      using each [OF that] by (simp add: with_assumption_status_def)
    then show ?thesis by (simp add: list_ex_iff open_blocking_objection_def)
  qed
  ultimately show ?thesis
    using assms(2,4) view_fixed [OF assms(1)]
    by (simp add: decide_round_def Let_def record_requester_authority_assumptions_def derive_verdict_def)
qed

theorem recorded_id_closes_author_objections_witness:
  "\<exists>d. decide_round assumption_loads (store_assumption example_view example_assumption) (PDict []) [] [] None
     [example_review [example_ob ''O1'' ''blocking'' ''author'']] example_consolidation = Inr d \<and> rd_status d = ''direction-ok''"
proof -
  let ?view = "store_assumption example_view example_assumption"
  have "map fst ?view = WORK_ORDER_VIEW_FIELDS" by (rule store_keys) (simp add: example_view_def comp_def)
  moreover have "co_verdict example_consolidation \<noteq> ''nak''" "co_objections example_consolidation = []" by code_simp+
  moreover have "list_all (\<lambda>ob. ob_authority ob = ''author'' \<and> assumption_recorded assumption_loads ?view (ob_id ob))
      (concat (map ar_objections [example_review [example_ob ''O1'' ''blocking'' ''author'']]))"
    by (simp add: assumption_recorded_iff padded_id_has_no_note(1) example_review_def example_ob_def)
  ultimately show ?thesis using recorded_id_closes_author_objections by blast
qed

text \<open>
  The key of a duplicate leaves the type out: a blocking objection raised after a suggestion
  with the same anchors and the same claim is dropped with its type, and the verdict is direction-ok;
  in the other order it is held.
\<close>

lemma dedupe_order_decides:
  assumes "objection_key a = objection_key b" "\<not> open_blocking_objection a" "open_blocking_objection b" "co_verdict c \<noteq> ''nak''"
  shows "derive_verdict c (dedupe_objections [a, b]) = ''direction-ok''" "derive_verdict c (dedupe_objections [b, a]) = ''needs_revision''"
  using assms by (simp_all add: dedupe_objections_def derive_verdict_def)

section \<open>The terminal round\<close>

lemma max_review_rounds_pos: "1 \<le> max_review_rounds raw"
  by (auto simp: max_review_rounds_def split: option.splits)

lemma terminal_not_revised:
  assumes "decide_round loads view approach prior proposals (bounded_rounds_terminal raw n) rs c = Inr d"
    and "rd_status d = ''needs_revision''"
  shows "n < max_review_rounds raw"
  using decide_round_parts(2) [OF assms(1)] assms(2)
  by (auto simp: bounded_rounds_terminal_def split: if_splits)
end
