(* ===== verification/IntegrationEvidence.thy ===== *)
theory IntegrationEvidence imports Rejections begin
text \<open>
  The evidence that code-only integration commits carry, \<open>src/ai_org/maintainer_merge/evidence.py\<close>
  with \<open>changed_paths\<close> of \<open>src/ai_org/git_wrapper.py\<close>: the links from a sealed verdict to an
  implementation, the commit message that records them, the paths that may enter an integration tree,
  the exact cohort a sealed contribution needs, and the verification of the pending commits at the
  mainline. Reads of git, the readers of the sealed bodies, the acceptance authority and
  the root gate are fields of \<open>evidence_repo\<close>; SHA-256 is the argument \<open>digest\<close>.
\<close>

section \<open>Links\<close>

datatype evidence_link = EvidenceLink (el_coordinate: string) (el_verdict: string) (el_implementation: string)

text \<open>The order the dataclass declares: field by field.\<close>

definition link_key :: "evidence_link \<Rightarrow> string list" where
  "link_key l = [el_coordinate l, el_verdict l, el_implementation l]"

lemma link_key_inject: "link_key l = link_key m \<longleftrightarrow> l = m"
  by (cases l; cases m) (simp add: link_key_def)

instantiation evidence_link :: linorder
begin

definition less_eq_evidence_link :: "evidence_link \<Rightarrow> evidence_link \<Rightarrow> bool" where
  "less_eq_evidence_link l m \<longleftrightarrow> link_key l \<le> link_key m"

definition less_evidence_link :: "evidence_link \<Rightarrow> evidence_link \<Rightarrow> bool" where
  "less_evidence_link l m \<longleftrightarrow> link_key l < link_key m"

instance
proof
  fix l m n :: evidence_link
  show "l < m \<longleftrightarrow> l \<le> m \<and> \<not> m \<le> l"
    unfolding less_eq_evidence_link_def less_evidence_link_def by (rule less_le_not_le)
  show "l \<le> l" "l \<le> m \<or> m \<le> l"
    unfolding less_eq_evidence_link_def by (rule order_refl, rule linear)
  show "l \<le> m \<Longrightarrow> m \<le> n \<Longrightarrow> l \<le> n" "l \<le> m \<Longrightarrow> m \<le> l \<Longrightarrow> l = m"
    unfolding less_eq_evidence_link_def by (rule order_trans, simp_all flip: link_key_inject)
qed

end

definition trailer_value :: "evidence_link \<Rightarrow> string" where
  "trailer_value l = el_coordinate l @ '' '' @ el_verdict l @ '' '' @ el_implementation l"

text \<open>\<open>tuple(sorted(set(links)))\<close>.\<close>

definition ordered_links :: "evidence_link list \<Rightarrow> evidence_link list" where
  "ordered_links links = sort (remdups links)"

definition lower_hex :: "string \<Rightarrow> bool" where
  "lower_hex s \<longleftrightarrow> list_all is_hex_lower s"

definition object_id :: "string \<Rightarrow> bool" where
  "object_id s \<longleftrightarrow> (length s = 40 \<or> length s = 64) \<and> lower_hex s"

definition COORDINATE_VERSION :: string where "COORDINATE_VERSION = ''integrated-contribution-v1''"
definition EXCLUSION_POLICY_VERSION :: string where "EXCLUSION_POLICY_VERSION = ''producer-code-only-v1''"
definition EVIDENCE_LINK_TRAILER :: string where "EVIDENCE_LINK_TRAILER = ''Producer-Evidence-Link''"
definition EXCLUSION_POLICY_TRAILER :: string where "EXCLUSION_POLICY_TRAILER = ''Evidence-Exclusion-Policy-Version''"
definition COORDINATE_TRAILER :: string where "COORDINATE_TRAILER = ''Integrated-Contribution-Coordinate''"
definition SUBSYSTEM_INTEGRATION_SUBJECT :: string where
  "SUBSYSTEM_INTEGRATION_SUBJECT = ''subsystem-integration: code-only contribution''"
definition MAINLINE_INTEGRATION_SUBJECT :: string where
  "MAINLINE_INTEGRATION_SUBJECT = ''mainline-integration: promote subsystem''"

section \<open>The message of an integration commit\<close>

text \<open>Failures carry the text of the \<open>EvidenceError\<close>.\<close>

definition integration_message :: "string \<Rightarrow> evidence_link list \<Rightarrow> string + string" where
  "integration_message subject links =
     (let ordered = ordered_links links in
      rbind (guard (ordered \<noteq> []) ''integration commit requires producer evidence links'') (\<lambda>_.
      rbind (guard (distinct (map el_coordinate ordered)) ''integration commit has a coordinate collision'') (\<lambda>_.
      Inr (subject @ [newline, newline] @ py_join [newline]
        ([EXCLUSION_POLICY_TRAILER @ '': '' @ EXCLUSION_POLICY_VERSION]
         @ map (\<lambda>l. COORDINATE_TRAILER @ '': '' @ el_coordinate l) ordered
         @ map (\<lambda>l. EVIDENCE_LINK_TRAILER @ '': '' @ trailer_value l) ordered)))))"

definition trailer_values :: "string \<Rightarrow> string \<Rightarrow> string list" where
  "trailer_values message name =
     (let prefix = name @ '':'' in
      map (\<lambda>l. py_strip (drop (length prefix) l)) (filter (\<lambda>l. startswith l prefix) (py_splitlines message)))"

definition link_from_value :: "string \<Rightarrow> string + evidence_link" where
  "link_from_value v =
     (case py_split v of
        [coordinate, verdict_oid, implementation_oid] \<Rightarrow>
          (let prefix = COORDINATE_VERSION @ '':''; coordinate_digest = removeprefix coordinate prefix in
           rbind (guard (startswith coordinate prefix \<and> length coordinate_digest = 64 \<and> lower_hex coordinate_digest)
                    ''producer evidence link has an unsupported coordinate'') (\<lambda>_.
           rbind (guard (object_id verdict_oid \<and> object_id implementation_oid)
                    ''producer evidence link has an invalid object id'') (\<lambda>_.
           Inr (EvidenceLink coordinate verdict_oid implementation_oid))))
      | _ \<Rightarrow> Inl ''producer evidence link has an invalid shape'')"

fun links_from_values :: "string list \<Rightarrow> string + evidence_link list" where
  "links_from_values [] = Inr []"
| "links_from_values (v # vs) = rbind (link_from_value v) (\<lambda>l. rbind (links_from_values vs) (\<lambda>ls. Inr (l # ls)))"

definition links_from_message :: "string \<Rightarrow> string + evidence_link list" where
  "links_from_message message = links_from_values (trailer_values message EVIDENCE_LINK_TRAILER)"

definition validated_integration_links :: "string \<Rightarrow> string \<Rightarrow> string + evidence_link list" where
  "validated_integration_links message expected_subject =
     rbind (guard (take 1 (py_splitlines message) = [expected_subject]) ''integration commit subject is invalid'') (\<lambda>_.
     rbind (guard (trailer_values message EXCLUSION_POLICY_TRAILER = [EXCLUSION_POLICY_VERSION])
              ''integration exclusion policy is missing or unsupported'') (\<lambda>_.
     rbind (links_from_message message) (\<lambda>links.
     rbind (guard (links \<noteq> [] \<and> trailer_values message COORDINATE_TRAILER = map el_coordinate links)
              ''integration coordinates do not exactly match its links'') (\<lambda>_.
     rbind (guard (ordered_links links = links) ''producer evidence links are not sorted and unique'') (\<lambda>_.
     Inr links)))))"

definition has_current_integration_marker :: "string \<Rightarrow> bool" where
  "has_current_integration_marker message \<longleftrightarrow>
     (let lines = py_splitlines message; subject = (case lines of [] \<Rightarrow> [] | l # _ \<Rightarrow> l) in
      startswith subject ''subsystem-integration:'' \<or> startswith subject ''mainline-integration:'' \<or>
      list_ex (\<lambda>t. trailer_values message t \<noteq> [])
        [EVIDENCE_LINK_TRAILER, EXCLUSION_POLICY_TRAILER, COORDINATE_TRAILER])"

section \<open>Code paths\<close>

definition EXCLUDED_PATHS :: "string list" where
  "EXCLUDED_PATHS =
     [''patch-series-cover-letter.cue'', ''patch-series-request-provenance.cue'', ''technical-approach-plan.cue'',
      ''series-scope-decomposition.cue'', ''patch-series-cover-letter.json'', ''patch-series-request-provenance.json'',
      ''technical-approach-plan.json'', ''series-coverage-ledger.json'', ''series-coverage-ledger.cue'',
      ''announcement.cue'', ''announcement.json'', ''producer-task-binding.cue'', ''producer-completion-assertion.cue'',
      ''claim-admission.cue'', ''functional-acceptance-verdict.cue'',
      ''questions-the-patch-must-answer.cue'', ''questions-the-patch-must-answer.json'',
      ''implementation-experience-report.cue'', ''implementation-experience-report.json'',
      ''contributor-contract/implementation-result.cue'', ''contributor-contract/implementation-result.schema.json'',
      ''implementation-result.cue'', ''implementation-result.json'']"

definition EXCLUDED_PREFIXES :: "string list" where
  "EXCLUDED_PREFIXES = [''producer-evidence/'', ''ai-org/implementation-cue/'']"

definition is_excluded_path :: "string \<Rightarrow> bool" where
  "is_excluded_path path \<longleftrightarrow> path \<in> set EXCLUDED_PATHS \<or> list_ex (startswith path) EXCLUDED_PREFIXES"

text \<open>One record of \<open>git diff-tree --name-status -z\<close>: its status and its paths.\<close>

type_synonym path_change = "string \<times> string list"

text \<open>The parser of the output split at the NUL characters; a failed call is one record of status \<open>!\<close>.\<close>

fun parse_changes :: "string list \<Rightarrow> path_change list" where
  "parse_changes [] = []"
| "parse_changes (status # parts) =
     (if status = [] then parse_changes parts
      else
        (let needed = (if hd status = CHR ''R'' \<or> hd status = CHR ''C'' then 2 else 1);
             paths = filter (\<lambda>p. p \<noteq> []) (take needed parts)
         in (if length paths \<noteq> needed then (''!'', if paths = [] then [''<parse-error>''] else paths) else (status, paths))
            # parse_changes (drop needed parts)))"

definition nul :: char where "nul = char_of (0 :: nat)"

definition changed_paths :: "string + string \<Rightarrow> path_change list" where
  "changed_paths out =
     (case out of
        Inl message \<Rightarrow> [(''!'', [''<git-error:'' @ message @ ''>''])]
      | Inr stdout \<Rightarrow> parse_changes (split_char nul stdout))"

fun code_paths_of :: "path_change list \<Rightarrow> string + string list" where
  "code_paths_of [] = Inr []"
| "code_paths_of (c # cs) =
     (if fst c = ''!'' then Inl ''could not resolve sealed implementation changes''
      else rbind (code_paths_of cs) (\<lambda>ps. Inr (if list_ex is_excluded_path (snd c) then ps else snd c @ ps)))"

definition changed_code_paths :: "path_change list \<Rightarrow> string + string list" where
  "changed_code_paths changes = rbind (code_paths_of changes) (\<lambda>ps. Inr (sort (remdups ps)))"

section \<open>The repository as the module reads it\<close>

text \<open>
  A decision of the producer pair vet, and a root snapshot with its lifecycle activation: what the
  two integration boundaries read of them.
\<close>

record gate_decision =
  gd_blocked :: bool
  gd_diagnostic :: "(string \<times> string) option"
  gd_frozen_root :: string
  gd_root_generation :: string
  gd_root_sha256 :: string
  gd_scope_sha256 :: string

record root_snapshot =
  rs_generation :: string
  rs_lifecycle_ready :: bool
  rs_diagnostic :: string
  rs_identity :: pydict
  rs_dispatcher :: string
  rs_activated :: bool
  rs_authorable :: bool
  rs_open_gates :: "string list"

text \<open>A body of the codec is a dict whose numbers are exact lexemes (\<open>PFloat\<close>); a reader may fail.\<close>

record evidence_repo =
  er_head :: "string \<Rightarrow> string option"
  er_message :: "string \<Rightarrow> string"
  er_parents :: "string \<Rightarrow> string list"
  er_show :: "string \<Rightarrow> string \<Rightarrow> string option"
  er_last_commit :: "string \<Rightarrow> string \<Rightarrow> string option"
  er_ancestor :: "string \<Rightarrow> string \<Rightarrow> bool"
  er_diff :: "string \<Rightarrow> string \<Rightarrow> string + string"
  er_accepted :: "string \<Rightarrow> string \<Rightarrow> string option \<Rightarrow> bool"
  er_binding :: "string \<Rightarrow> string + pydict"
  er_assertion :: "string \<Rightarrow> string + pydict"
  er_admission :: "string \<Rightarrow> string + pydict"
  er_vet :: "string \<Rightarrow> string \<Rightarrow> string \<Rightarrow> gate_decision"
  er_snapshot :: "string \<Rightarrow> string \<Rightarrow> string \<Rightarrow> root_snapshot"
  er_revisions :: "string \<Rightarrow> string list option"

definition AUTHORITY_NOTES_REF :: string where "AUTHORITY_NOTES_REF = ''refs/notes/ai-org/acceptance-authority''"
definition TASK_BINDING_PATH :: string where "TASK_BINDING_PATH = ''producer-task-binding.cue''"
definition COMPLETION_ASSERTION_PATH :: string where "COMPLETION_ASSERTION_PATH = ''producer-completion-assertion.cue''"
definition CLAIM_ADMISSION_PATH :: string where "CLAIM_ADMISSION_PATH = ''claim-admission.cue''"
definition FUNCTIONAL_ACCEPTANCE_VERDICT_PATH :: string where
  "FUNCTIONAL_ACCEPTANCE_VERDICT_PATH = ''functional-acceptance-verdict.cue''"

text \<open>\<open>str(body.get(key) or "")\<close>: an exact number is an object, hence true.\<close>

definition body_field :: "pydict \<Rightarrow> string \<Rightarrow> string" where
  "body_field d k = (case py_get d k of PFloat lexeme \<Rightarrow> lexeme | v \<Rightarrow> str_or_empty v)"

text \<open>Equality of decoded bodies: dicts whatever their order, numbers by lexeme.\<close>

lemma size_py_value: "kv \<in> set d \<Longrightarrow> size (snd kv) < Suc (size_list (size_prod (\<lambda>_. 0) size) d)"
  by (induction d) auto

function (sequential) body_eq :: "pyval \<Rightarrow> pyval \<Rightarrow> bool" where
  "body_eq (PList xs) v =
     (case v of PList ys \<Rightarrow> length xs = length ys \<and> list_all (\<lambda>xy. body_eq (fst xy) (snd xy)) (zip xs ys) | _ \<Rightarrow> False)"
| "body_eq (PDict d) v =
     (case v of
        PDict e \<Rightarrow> length d = length e \<and>
          list_all (\<lambda>kv. case map_of e (fst kv) of None \<Rightarrow> False | Some w \<Rightarrow> body_eq (snd kv) w) d
      | _ \<Rightarrow> False)"
| "body_eq u v = (u = v)"
  by pat_completeness auto
termination
  by (relation "measure (\<lambda>(u, v). size u)")
    (auto dest: size_py_value set_zip_leftD simp: less_Suc_eq_le size_list_estimation')

section \<open>The root a contribution is bound to\<close>

definition ROOT_GENERATION_V2 :: string where "ROOT_GENERATION_V2 = ''complete_v2''"

definition require_migrated_integration_gate :: "root_snapshot \<Rightarrow> string \<Rightarrow> string + unit" where
  "require_migrated_integration_gate snapshot route =
     rbind (guard (route \<in> {''subsystem_integration'', ''mainline_integration''})
              (''unknown migrated integration route: '' @ route)) (\<lambda>_.
     guard (rs_dispatcher snapshot = ''producer-aware-v2'' \<and> rs_activated snapshot \<and> rs_authorable snapshot \<and>
            ''integration'' \<in> set (rs_open_gates snapshot))
       ''migrated lifecycle integration gate is closed'')"

definition vetted_root :: "evidence_repo \<Rightarrow> string \<Rightarrow> pydict \<Rightarrow> string + root_snapshot" where
  "vetted_root repo route binding =
     (let frozen = body_field binding ''series_snapshot_oid''; series = body_field binding ''series_branch'';
          decision = er_vet repo series route frozen; snapshot = er_snapshot repo series route frozen
      in
      rbind (guard (frozen \<noteq> [] \<and> series \<noteq> []) ''producer task binding source identity is incomplete'') (\<lambda>_.
      rbind (guard (\<not> gd_blocked decision)
        (replace_char (CHR ''_'') '' '' route @ '' gate closed: '' @
          (case gd_diagnostic decision of
             Some (detail, rule) \<Rightarrow> if detail \<noteq> [] then detail else rule
           | None \<Rightarrow> ''producer integration authorability is closed''))) (\<lambda>_.
      rbind (require_migrated_integration_gate snapshot route) (\<lambda>_.
      rbind (guard (rs_generation snapshot = ROOT_GENERATION_V2 \<and> rs_lifecycle_ready snapshot) (rs_diagnostic snapshot)) (\<lambda>_.
      rbind (guard (body_eq (PDict (rs_identity snapshot)) (PDict
               [(''representation'', PStr ROOT_GENERATION_V2), (''source_path'', PStr ''technical-approach-plan.cue''),
                (''source_oid'', PStr frozen), (''context'', PStr ''root-technical-approach-tree-v1''),
                (''canonical_digest'', py_get binding ''canonical_root_body_sha256'')]))
               ''producer task binding root identity does not match its frozen tree'') (\<lambda>_.
      rbind (guard (gd_frozen_root decision = frozen \<and> gd_root_generation decision = ROOT_GENERATION_V2 \<and>
                    gd_root_sha256 decision = body_field binding ''canonical_root_body_sha256'' \<and>
                    gd_scope_sha256 decision = body_field binding ''scope_decomposition_body_sha256'' \<and>
                    body_field binding ''scope_decomposition_commit_oid'' = frozen)
               ''producer task binding does not match the gated frozen source vector'') (\<lambda>_.
      Inr snapshot)))))))"

definition contribution_root_generation :: "evidence_repo \<Rightarrow> string \<Rightarrow> string \<Rightarrow> string + root_snapshot option" where
  "contribution_root_generation repo route ref =
     (case er_head repo ref of
        None \<Rightarrow> Inr None
      | Some tip \<Rightarrow>
          (case er_show repo tip TASK_BINDING_PATH of
             None \<Rightarrow>
               if list_ex (\<lambda>p. er_show repo tip p \<noteq> None)
                    [COMPLETION_ASSERTION_PATH, CLAIM_ADMISSION_PATH, FUNCTIONAL_ACCEPTANCE_VERDICT_PATH]
               then Inl ''producer lifecycle cohort is incomplete: task binding is missing'' else Inr None
           | Some raw \<Rightarrow>
               (case er_binding repo raw of
                  Inl detail \<Rightarrow> Inl (''producer task binding is invalid: '' @ detail)
                | Inr binding \<Rightarrow> rbind (vetted_root repo route binding) (\<lambda>s. Inr (Some s)))))"

definition is_migrated_tree :: "evidence_repo \<Rightarrow> string \<Rightarrow> string \<Rightarrow> string + bool" where
  "is_migrated_tree repo route ref =
     rbind (contribution_root_generation repo route ref) (\<lambda>s.
       Inr (case s of None \<Rightarrow> False | Some sn \<Rightarrow> rs_generation sn = ROOT_GENERATION_V2))"

section \<open>Sealed contributions\<close>

record sealed_contribution =
  sc_links :: "evidence_link list"
  sc_branch :: string
  sc_binding_commit :: string
  sc_paths :: "string list"
  sc_notes :: string

text \<open>The constructor with its checks; the accessors read the first link.\<close>

definition make_sealed :: "evidence_link list \<Rightarrow> string \<Rightarrow> string \<Rightarrow> string list \<Rightarrow> string \<Rightarrow> string + sealed_contribution" where
  "make_sealed links branch binding paths notes =
     (let ordered = ordered_links links in
      rbind (guard (ordered \<noteq> []) ''sealed contribution has no obligation evidence links'') (\<lambda>_.
      rbind (guard (length (remdups (map (\<lambda>l. (el_verdict l, el_implementation l)) ordered)) = 1)
               ''sealed contribution links do not share one sealed source'') (\<lambda>_.
      rbind (guard (distinct (map el_coordinate ordered)) ''sealed contribution coordinates are not distinct'') (\<lambda>_.
      rbind (guard (object_id notes \<and> length notes = length (el_verdict (hd ordered)))
               ''sealed contribution authority snapshot is invalid'') (\<lambda>_.
      Inr \<lparr>sc_links = ordered, sc_branch = branch, sc_binding_commit = binding, sc_paths = paths, sc_notes = notes\<rparr>)))))"

definition sc_verdict :: "sealed_contribution \<Rightarrow> string" where "sc_verdict s = el_verdict (hd (sc_links s))"
definition sc_implementation :: "sealed_contribution \<Rightarrow> string" where "sc_implementation s = el_implementation (hd (sc_links s))"

fun row_ids :: "pyval list \<Rightarrow> string list option" where
  "row_ids [] = Some []"
| "row_ids (row # rows) =
     (case row of
        PDict d \<Rightarrow>
          (case py_get d ''obligation_id'' of
             PStr i \<Rightarrow> if i = [] then None else map_option ((#) i) (row_ids rows)
           | _ \<Rightarrow> None)
      | _ \<Rightarrow> None)"

definition unique_obligation_ids :: "pyval \<Rightarrow> string list option" where
  "unique_obligation_ids v =
     (case v of
        PList rows \<Rightarrow>
          if rows = [] then None
          else (case row_ids rows of None \<Rightarrow> None | Some ids \<Rightarrow> if distinct ids then Some ids else None)
      | _ \<Rightarrow> None)"

fun text_list :: "pyval list \<Rightarrow> string list option" where
  "text_list [] = Some []"
| "text_list (PStr s # vs) = (if s = [] then None else map_option ((#) s) (text_list vs))"
| "text_list (_ # vs) = None"

text \<open>The nonempty list of distinct nonempty texts under \<open>required_obligation_ids\<close>.\<close>

definition required_obligations :: "pydict \<Rightarrow> string list option" where
  "required_obligations admission =
     (case py_get admission ''required_obligation_ids'' of
        PList vs \<Rightarrow>
          (case text_list vs of
             Some ids \<Rightarrow> if ids \<noteq> [] \<and> distinct ids then Some ids else None
           | None \<Rightarrow> None)
      | _ \<Rightarrow> None)"

text \<open>The coordinate of one obligation: a digest of everything that names it, and of nothing else.\<close>

definition producer_identity :: "pydict \<Rightarrow> string \<times> string" where
  "producer_identity binding =
     (case py_get binding ''producer'' of
        PDict p \<Rightarrow> (py_strip (body_field p ''name''), py_lower (py_strip (body_field p ''email'')))
      | _ \<Rightarrow> ([], []))"

definition coordinate_payload :: "pydict \<Rightarrow> string \<Rightarrow> string" where
  "coordinate_payload binding obligation =
     (case producer_identity binding of (name, email) \<Rightarrow>
       ''['' @ py_join '','' [json_plain_text COORDINATE_VERSION, json_plain_text (body_field binding ''series_branch''),
          json_plain_text (body_field binding ''node_path''), json_plain_text (body_field binding ''contribution_branch''),
          ''{'' @ json_plain_text ''email'' @ '':'' @ json_plain_text email @ '','' @ json_plain_text ''name'' @ '':'' @ json_plain_text name @ ''}'',
          json_plain_text (body_field binding ''canonical_root_body_sha256''), json_plain_text obligation] @ '']'')"

text \<open>The UTF-8 encoding of the code points 0 to 255.\<close>

definition utf8_char :: "char \<Rightarrow> string" where
  "utf8_char c = (let n = char_code c in if n < 128 then [c] else [char_of (192 + n div 64), char_of (128 + n mod 64)])"

definition utf8 :: "string \<Rightarrow> string" where
  "utf8 s = concat (map utf8_char s)"

definition integrated_contribution_coordinate :: "(string \<Rightarrow> string) \<Rightarrow> pydict \<Rightarrow> string \<Rightarrow> string + string" where
  "integrated_contribution_coordinate digest binding obligation =
     rbind (guard (body_field binding ''series_branch'' \<noteq> [] \<and> body_field binding ''node_path'' \<noteq> [] \<and>
                   body_field binding ''contribution_branch'' \<noteq> [] \<and>
                   fst (producer_identity binding) \<noteq> [] \<and> snd (producer_identity binding) \<noteq> [] \<and>
                   length (body_field binding ''canonical_root_body_sha256'') = 64 \<and>
                   lower_hex (body_field binding ''canonical_root_body_sha256'') \<and> obligation \<noteq> [])
              ''integrated contribution coordinate source is incomplete'') (\<lambda>_.
     Inr (COORDINATE_VERSION @ '':'' @ digest (utf8 (coordinate_payload binding obligation))))"

fun obligation_links :: "(string \<Rightarrow> string) \<Rightarrow> pydict \<Rightarrow> string \<Rightarrow> string \<Rightarrow> string list \<Rightarrow> string + evidence_link list" where
  "obligation_links digest binding verdict implementation [] = Inr []"
| "obligation_links digest binding verdict implementation (i # is) =
     rbind (integrated_contribution_coordinate digest binding i) (\<lambda>c.
     rbind (obligation_links digest binding verdict implementation is) (\<lambda>ls.
     Inr (EvidenceLink c verdict implementation # ls)))"

text \<open>The three bodies under a verdict commit.\<close>

record sealed_bodies =
  sb_assertion_raw :: string
  sb_binding_raw :: string
  sb_assertion :: pydict
  sb_binding :: pydict
  sb_admission :: pydict

definition read_sealed_bodies :: "evidence_repo \<Rightarrow> string \<Rightarrow> string + sealed_bodies" where
  "read_sealed_bodies repo verdict =
     (case (er_show repo verdict COMPLETION_ASSERTION_PATH, er_show repo verdict TASK_BINDING_PATH,
            er_show repo verdict CLAIM_ADMISSION_PATH) of
        (Some a, Some b, Some c) \<Rightarrow>
          (case rbind (er_assertion repo a) (\<lambda>assertion. rbind (er_binding repo b) (\<lambda>binding.
                rbind (er_admission repo c) (\<lambda>admission.
                Inr \<lparr>sb_assertion_raw = a, sb_binding_raw = b, sb_assertion = assertion, sb_binding = binding,
                     sb_admission = admission\<rparr>))) of
             Inl detail \<Rightarrow> Inl (''sealed producer lifecycle record is invalid: '' @ detail)
           | Inr bodies \<Rightarrow> Inr bodies)
      | _ \<Rightarrow> Inl ''sealed producer lifecycle records are missing'')"

text \<open>Whether the implementation of the assertion is the evaluated one, its records included.\<close>

definition admitted_row :: "(string \<Rightarrow> string) \<Rightarrow> string \<Rightarrow> string \<Rightarrow> pyval \<Rightarrow> bool" where
  "admitted_row digest commit raw row \<longleftrightarrow>
     (case row of
        PDict d \<Rightarrow> py_get d ''assertion_commit_oid'' = PStr commit \<and> py_get d ''assertion_body_sha256'' = PStr (digest raw)
      | _ \<Rightarrow> False)"

definition assertion_links_exact :: "(string \<Rightarrow> string) \<Rightarrow> evidence_repo \<Rightarrow> sealed_bodies \<Rightarrow> bool" where
  "assertion_links_exact digest repo b =
     (let evaluated = body_field (sb_admission b) ''evaluated_contribution_oid'' in
      case (if evaluated = [] then None else er_last_commit repo evaluated COMPLETION_ASSERTION_PATH) of
        None \<Rightarrow> False
      | Some commit \<Rightarrow>
          (case py_get (sb_admission b) ''assertions'' of
             PList rows \<Rightarrow> rows \<noteq> [] \<and> list_all (admitted_row digest commit (sb_assertion_raw b)) rows
           | _ \<Rightarrow> False))"

definition source_vector_resolvable :: "(string \<Rightarrow> string) \<Rightarrow> evidence_repo \<Rightarrow> string \<Rightarrow> sealed_bodies \<Rightarrow> bool" where
  "source_vector_resolvable digest repo verdict b =
     (let implementation = body_field (sb_assertion b) ''implementation_oid'';
          binding_commit = body_field (sb_assertion b) ''task_binding_commit_oid'';
          branch = body_field (sb_binding b) ''contribution_branch'';
          evaluated = body_field (sb_admission b) ''evaluated_contribution_oid''
      in implementation \<noteq> [] \<and> binding_commit \<noteq> [] \<and> branch \<noteq> [] \<and> er_parents repo verdict = [evaluated] \<and>
         assertion_links_exact digest repo b \<and>
         py_get (sb_assertion b) ''contribution_branch'' = PStr branch \<and>
         py_get (sb_assertion b) ''task_binding_body_sha256'' = PStr (digest (sb_binding_raw b)) \<and>
         er_last_commit repo implementation TASK_BINDING_PATH = Some binding_commit \<and>
         er_ancestor repo binding_commit implementation \<and> er_ancestor repo implementation evaluated)"

text \<open>The obligations of binding, assertion and admission are the required ones.\<close>

definition cohort_exact :: "(string \<Rightarrow> string) \<Rightarrow> sealed_bodies \<Rightarrow> string list \<Rightarrow> bool" where
  "cohort_exact digest b required =
     (let promises = py_get (sb_binding b) ''promise_bindings'' in
      case (unique_obligation_ids promises, unique_obligation_ids (py_get (sb_assertion b) ''assertions''),
            unique_obligation_ids (py_get (sb_admission b) ''assertions'')) of
        (Some bound, Some asserted, Some admitted) \<Rightarrow>
          body_eq (py_get (sb_admission b) ''promise_bindings'') promises \<and>
          py_get (sb_admission b) ''task_binding_body_sha256'' = PStr (digest (sb_binding_raw b)) \<and>
          body_eq (py_get (sb_assertion b) ''promise_bindings'') promises \<and>
          set bound = set required \<and> asserted = required \<and> admitted = required
      | _ \<Rightarrow> False)"

definition sealed_contribution_from_verdict ::
  "(string \<Rightarrow> string) \<Rightarrow> evidence_repo \<Rightarrow> string \<Rightarrow> string \<Rightarrow> string option \<Rightarrow> string + sealed_contribution" where
  "sealed_contribution_from_verdict digest repo route verdict frozen_notes =
     (let notes = (case frozen_notes of None \<Rightarrow> er_head repo AUTHORITY_NOTES_REF | Some n \<Rightarrow> Some n);
          notes_oid = (case notes of None \<Rightarrow> [] | Some n \<Rightarrow> n)
      in
      rbind (guard (notes_oid \<noteq> [] \<and> er_accepted repo verdict notes_oid None)
               (''producer evidence verdict is not sealed: '' @ verdict)) (\<lambda>_.
      rbind (read_sealed_bodies repo verdict) (\<lambda>b.
      rbind (contribution_root_generation repo route verdict) (\<lambda>_.
      rbind (guard (source_vector_resolvable digest repo verdict b) ''sealed implementation source vector is not resolvable'') (\<lambda>_.
      case required_obligations (sb_admission b) of
        None \<Rightarrow> Inl ''sealed obligation evidence cohort is not exact''
      | Some required \<Rightarrow>
          rbind (guard (cohort_exact digest b required) ''sealed obligation evidence cohort is not exact'') (\<lambda>_.
          (let implementation = body_field (sb_assertion b) ''implementation_oid'';
               binding_commit = body_field (sb_assertion b) ''task_binding_commit_oid'' in
           rbind (changed_code_paths (changed_paths (er_diff repo binding_commit implementation))) (\<lambda>paths.
           rbind (guard (paths \<noteq> []) ''sealed implementation has no code-only changes'') (\<lambda>_.
           rbind (obligation_links digest (sb_binding b) verdict implementation required) (\<lambda>links.
           make_sealed links (body_field (sb_binding b) ''contribution_branch'') binding_commit paths notes_oid))))))))))"

definition sealed_contribution_of :: "(string \<Rightarrow> string) \<Rightarrow> evidence_repo \<Rightarrow> string \<Rightarrow> string \<Rightarrow> string + sealed_contribution" where
  "sealed_contribution_of digest repo route ref =
     (case (er_head repo ref, er_head repo AUTHORITY_NOTES_REF) of
        (Some verdict, Some notes) \<Rightarrow>
          rbind (guard (er_accepted repo verdict notes (Some ref)) ''current contribution tip is not sealed by acceptance authority'') (\<lambda>_.
          rbind (sealed_contribution_from_verdict digest repo route verdict (Some notes)) (\<lambda>s.
          rbind (guard (sc_branch s = removeprefix ref ''refs/heads/'') ''sealed verdict belongs to a different contribution ref'') (\<lambda>_.
          Inr s)))
      | _ \<Rightarrow> Inl ''current contribution tip is not sealed by acceptance authority'')"

section \<open>Verification at the mainline\<close>

definition first_verdicts :: "evidence_link list \<Rightarrow> string list" where
  "first_verdicts links = rev (remdups (rev (map el_verdict links)))"

text \<open>Every verdict a commit names must resolve to exactly the links the commit carries for it.\<close>

fun carried_match :: "(string \<Rightarrow> string) \<Rightarrow> evidence_repo \<Rightarrow> string option \<Rightarrow> evidence_link list \<Rightarrow> string list \<Rightarrow> string + unit" where
  "carried_match digest repo notes links [] = Inr ()"
| "carried_match digest repo notes links (v # vs) =
     rbind (sealed_contribution_from_verdict digest repo ''mainline_integration'' v notes) (\<lambda>s.
     rbind (guard (filter (\<lambda>l. el_verdict l = v) links = sc_links s)
              ''subsystem producer evidence links changed their sealed source'') (\<lambda>_.
     carried_match digest repo notes links vs))"

fun collect_links :: "evidence_link list \<Rightarrow> evidence_link list \<Rightarrow> string + evidence_link list" where
  "collect_links acc [] = Inr acc"
| "collect_links acc (l # ls) =
     (case find (\<lambda>m. el_coordinate m = el_coordinate l) acc of
        None \<Rightarrow> collect_links (acc @ [l]) ls
      | Some m \<Rightarrow> rbind (guard (m = l) ''integrated contribution coordinate collision'') (\<lambda>_. collect_links acc ls))"

fun pending_links :: "(string \<Rightarrow> string) \<Rightarrow> evidence_repo \<Rightarrow> string option \<Rightarrow> string list \<Rightarrow> evidence_link list \<Rightarrow> string + evidence_link list" where
  "pending_links digest repo notes [] acc = Inr acc"
| "pending_links digest repo notes (message # messages) acc =
     rbind (guard (take 1 (py_splitlines message) = [SUBSYSTEM_INTEGRATION_SUBJECT])
              ''current subsystem history contains a commit without producer evidence'') (\<lambda>_.
     rbind (validated_integration_links message SUBSYSTEM_INTEGRATION_SUBJECT) (\<lambda>links.
     rbind (carried_match digest repo notes links (first_verdicts links)) (\<lambda>_.
     rbind (collect_links acc links) (\<lambda>acc'. pending_links digest repo notes messages acc'))))"

definition verified_links ::
  "(string \<Rightarrow> string) \<Rightarrow> evidence_repo \<Rightarrow> string list \<Rightarrow> bool \<Rightarrow> string option \<Rightarrow> string + evidence_link list" where
  "verified_links digest repo commits require_current frozen_notes =
     (let messages = map (er_message repo) commits in
      if \<not> require_current \<and> \<not> list_ex has_current_integration_marker messages then Inr []
      else if messages = [] then Inl ''current mainline integration requires subsystem evidence''
      else rbind (pending_links digest repo frozen_notes messages []) (\<lambda>ls. Inr (sort ls)))"

definition commits_for_refs :: "evidence_repo \<Rightarrow> string list \<Rightarrow> string list" where
  "commits_for_refs repo refs =
     sort (remdups (concat (map (\<lambda>r. if er_head repo r = None then []
       else (case er_revisions repo r of None \<Rightarrow> [] | Some cs \<Rightarrow> cs)) refs)))"

definition current_integration_required :: "evidence_repo \<Rightarrow> string list \<Rightarrow> bool" where
  "current_integration_required repo refs \<longleftrightarrow>
     list_ex (\<lambda>c. has_current_integration_marker (er_message repo c)) (commits_for_refs repo refs)"

text \<open>
  The scan of \<open>has_verified_link\<close>: \<open>None\<close> is its early return of false. \<open>notes_after\<close> is the
  notes ref when it is read again at the end.
\<close>

fun link_scan :: "(string \<Rightarrow> string) \<Rightarrow> evidence_repo \<Rightarrow> string \<Rightarrow> string \<Rightarrow> string list \<Rightarrow> bool \<Rightarrow> bool option" where
  "link_scan digest repo verdict notes [] hit = Some hit"
| "link_scan digest repo verdict notes (message # messages) hit =
     (let subject = (case py_splitlines message of [] \<Rightarrow> [] | l # _ \<Rightarrow> l) in
      if subject \<notin> {SUBSYSTEM_INTEGRATION_SUBJECT, MAINLINE_INTEGRATION_SUBJECT}
      then link_scan digest repo verdict notes messages hit
      else
        (case validated_integration_links message subject of
           Inl _ \<Rightarrow> link_scan digest repo verdict notes messages hit
         | Inr links \<Rightarrow>
             (let carried = filter (\<lambda>l. el_verdict l = verdict) links in
              if carried = [] then link_scan digest repo verdict notes messages hit
              else
                (case sealed_contribution_from_verdict digest repo ''mainline_integration'' verdict (Some notes) of
                   Inl _ \<Rightarrow> None
                 | Inr s \<Rightarrow>
                     if sc_links s \<noteq> carried then None
                     else link_scan digest repo verdict notes messages True))))"

definition has_verified_link ::
  "(string \<Rightarrow> string) \<Rightarrow> evidence_repo \<Rightarrow> string \<Rightarrow> string list \<Rightarrow> string option \<Rightarrow> bool" where
  "has_verified_link digest repo verdict refs notes_after =
     (case er_head repo AUTHORITY_NOTES_REF of
        None \<Rightarrow> False
      | Some notes \<Rightarrow>
          (case link_scan digest repo verdict notes (map (er_message repo) (commits_for_refs repo refs)) False of
             None \<Rightarrow> False
           | Some hit \<Rightarrow> hit \<and> notes_after = Some notes))"

section \<open>The message is read back\<close>

text \<open>A link as the code writes it: a coordinate of the version with a digest, two object ids.\<close>

definition good_link :: "evidence_link \<Rightarrow> bool" where
  "good_link l \<longleftrightarrow> (\<exists>h. el_coordinate l = COORDINATE_VERSION @ '':'' @ h \<and> length h = 64 \<and> lower_hex h) \<and>
     object_id (el_verdict l) \<and> object_id (el_implementation l)"

lemma link_from_value_good: "link_from_value v = Inr l \<Longrightarrow> good_link l"
  by (auto simp: link_from_value_def Let_def rbind_Inr_iff good_link_def startswith_iff removeprefix_def COORDINATE_VERSION_def
      split: list.splits if_splits)

lemma links_from_values_good: "links_from_values vs = Inr ls \<Longrightarrow> list_all good_link ls"
  by (induction vs arbitrary: ls) (auto simp: rbind_Inr_iff link_from_value_good)

lemma validated_good: "validated_integration_links m subject = Inr ls \<Longrightarrow> list_all good_link ls"
  by (auto simp: validated_integration_links_def rbind_Inr_iff links_from_message_def links_from_values_good)

text \<open>Words without white space joined by one space are split again.\<close>

definition word :: "string \<Rightarrow> bool" where
  "word s \<longleftrightarrow> s \<noteq> [] \<and> list_all (\<lambda>c. \<not> is_space c) s"

lemma py_split_word: "word w \<Longrightarrow> py_split w = [w]"
proof (cases w)
  case (Cons c t)
  assume "word w"
  then have t: "dropWhile (\<lambda>c. \<not> is_space c) t = []" "takeWhile (\<lambda>c. \<not> is_space c) t = t" "\<not> is_space c"
    using Cons by (auto simp: word_def list_all_iff dropWhile_eq_Nil_conv takeWhile_eq_all_conv)
  have "runs (\<lambda>c. \<not> is_space c) (c # t) = (c # takeWhile (\<lambda>c. \<not> is_space c) t) # runs (\<lambda>c. \<not> is_space c) (dropWhile (\<lambda>c. \<not> is_space c) t)"
    using t(3) by (subst runs.simps) simp
  moreover have "runs (\<lambda>c. \<not> is_space c) [] = []" by (subst runs.simps) simp
  ultimately show ?thesis unfolding Cons py_split_def t(1,2) by simp
qed (simp add: word_def)

lemma is_space_blank: "is_space (CHR '' '')"
  by code_simp

lemma runs_word_blank:
  assumes "word w"
  shows "runs (\<lambda>c. \<not> is_space c) (w @ CHR '' '' # r) = w # runs (\<lambda>c. \<not> is_space c) (CHR '' '' # r)"
  using assms is_space_blank
  by (cases w) (auto simp: word_def runs.simps [of _ "_ # _"] list_all_iff takeWhile_append2 dropWhile_append2)

lemma runs_blank: "runs (\<lambda>c. \<not> is_space c) (CHR '' '' # r) = runs (\<lambda>c. \<not> is_space c) r"
  using is_space_blank by (subst (1 2) runs.simps) simp

lemma py_split_words: "word u \<Longrightarrow> word v \<Longrightarrow> word w \<Longrightarrow> py_split (u @ '' '' @ v @ '' '' @ w) = [u, v, w]"
  using py_split_word [of w] runs_word_blank [of u "v @ '' '' @ w"] runs_word_blank [of v w]
  by (simp add: py_split_def runs_blank)

lemma hex_char_facts: "is_hex_lower c \<Longrightarrow> \<not> is_space c \<and> \<not> is_line_break c"
  by (auto simp: is_hex_lower_def is_digit_def is_space_def is_line_break_def Let_def)

lemma lower_hex_word: "lower_hex s \<Longrightarrow> s \<noteq> [] \<Longrightarrow> word s"
  by (auto simp: lower_hex_def word_def list_all_iff hex_char_facts)

lemma object_id_word: "object_id s \<Longrightarrow> word s"
  by (auto simp: object_id_def intro!: lower_hex_word)

lemma coordinate_word: "lower_hex h \<Longrightarrow> word (COORDINATE_VERSION @ '':'' @ h)"
proof -
  assume "lower_hex h"
  then have "list_all (\<lambda>c. \<not> is_space c) h" by (simp add: lower_hex_def list_all_iff hex_char_facts)
  moreover have "list_all (\<lambda>c. \<not> is_space c) (COORDINATE_VERSION @ '':'')" by code_simp
  ultimately show ?thesis by (simp add: word_def COORDINATE_VERSION_def)
qed

lemma good_link_words: "good_link l \<Longrightarrow> word (el_coordinate l) \<and> word (el_verdict l) \<and> word (el_implementation l)"
  by (auto simp: good_link_def object_id_word coordinate_word simp del: append.simps)

lemma prefix_of_three: "startswith (p @ q @ r) (p @ q)" "removeprefix (p @ q @ r) (p @ q) = r"
  using startswith_append [of "p @ q" r] by (simp_all add: removeprefix_def)

lemma link_value_roundtrip: "good_link l \<Longrightarrow> link_from_value (trailer_value l) = Inr l"
  using good_link_words [of l] py_split_words [of "el_coordinate l" "el_verdict l" "el_implementation l"]
  by (cases l) (auto simp: good_link_def link_from_value_def trailer_value_def Let_def prefix_of_three simp del: append.simps)

lemma link_values_roundtrip: "list_all good_link ls \<Longrightarrow> links_from_values (map trailer_value ls) = Inr ls"
  by (induction ls) (simp_all add: link_value_roundtrip)

text \<open>The lines of the message.\<close>

definition trailer_line :: "string \<Rightarrow> string \<Rightarrow> string" where
  "trailer_line name v = name @ '': '' @ v"

definition message_lines :: "evidence_link list \<Rightarrow> string list" where
  "message_lines ordered = trailer_line EXCLUSION_POLICY_TRAILER EXCLUSION_POLICY_VERSION
     # map (\<lambda>l. trailer_line COORDINATE_TRAILER (el_coordinate l)) ordered
     @ map (\<lambda>l. trailer_line EVIDENCE_LINK_TRAILER (trailer_value l)) ordered"

lemma integration_message_eq:
  "integration_message subject links =
     rbind (guard (ordered_links links \<noteq> []) ''integration commit requires producer evidence links'') (\<lambda>_.
     rbind (guard (distinct (map el_coordinate (ordered_links links))) ''integration commit has a coordinate collision'') (\<lambda>_.
     Inr (subject @ [newline, newline] @ py_join [newline] (message_lines (ordered_links links)))))"
  by (simp add: integration_message_def message_lines_def trailer_line_def Let_def)

text \<open>A value that stands after the blank of a trailer: no white space at its ends, no line break in it.\<close>

definition trailer_safe :: "string \<Rightarrow> bool" where
  "trailer_safe v \<longleftrightarrow> v \<noteq> [] \<and> \<not> is_space (hd v) \<and> \<not> is_space (last v) \<and> plain_line v"

lemma strip_blank: "trailer_safe v \<Longrightarrow> py_strip (CHR '' '' # v) = v"
proof -
  assume v: "trailer_safe v"
  then have "py_lstrip (CHR '' '' # v) = v"
    using is_space_blank by (cases v) (auto simp: py_lstrip_def trailer_safe_def)
  moreover have "py_rstrip v = v"
    using v by (cases v rule: rev_cases) (auto simp: py_rstrip_def trailer_safe_def)
  ultimately show ?thesis by (simp add: py_strip_def)
qed

lemma line_break_space: "is_line_break c \<Longrightarrow> is_space c"
  by (auto simp: is_line_break_def is_space_def Let_def)

lemma word_safe: "word w \<Longrightarrow> trailer_safe w"
  using line_break_space by (cases w) (auto simp: word_def trailer_safe_def plain_line_def list_all_iff)

lemma word_plain: "word w \<Longrightarrow> plain_line w"
  using word_safe by (simp add: trailer_safe_def)

lemma trailer_value_safe: "good_link l \<Longrightarrow> trailer_safe (trailer_value l)"
proof -
  assume "good_link l"
  then have w: "word (el_coordinate l)" "word (el_verdict l)" "word (el_implementation l)" using good_link_words by blast+
  moreover have "plain_line '' ''" by code_simp
  ultimately show ?thesis
    using word_safe [OF w(1)] word_safe [OF w(3)] word_plain [OF w(2)]
    by (simp add: trailer_value_def trailer_safe_def hd_append)
qed

lemma trailer_value_of_line:
  "trailer_safe v \<Longrightarrow> startswith (trailer_line name v) (name @ '':'') \<and> py_strip (drop (length (name @ '':'')) (trailer_line name v)) = v"
  using startswith_append [of "name @ '':''" "CHR '' '' # v"] by (simp add: trailer_line_def strip_blank)

lemma other_trailers:
  "\<not> startswith (trailer_line EXCLUSION_POLICY_TRAILER v) (COORDINATE_TRAILER @ '':'')"
  "\<not> startswith (trailer_line EXCLUSION_POLICY_TRAILER v) (EVIDENCE_LINK_TRAILER @ '':'')"
  "\<not> startswith (trailer_line COORDINATE_TRAILER v) (EXCLUSION_POLICY_TRAILER @ '':'')"
  "\<not> startswith (trailer_line COORDINATE_TRAILER v) (EVIDENCE_LINK_TRAILER @ '':'')"
  "\<not> startswith (trailer_line EVIDENCE_LINK_TRAILER v) (EXCLUSION_POLICY_TRAILER @ '':'')"
  "\<not> startswith (trailer_line EVIDENCE_LINK_TRAILER v) (COORDINATE_TRAILER @ '':'')"
  by (simp_all add: trailer_line_def EXCLUSION_POLICY_TRAILER_def COORDINATE_TRAILER_def EVIDENCE_LINK_TRAILER_def)

lemma trailer_line_plain: "plain_line name \<Longrightarrow> trailer_safe v \<Longrightarrow> plain_line (trailer_line name v) \<and> trailer_line name v \<noteq> []"
proof -
  assume "plain_line name" "trailer_safe v"
  moreover have "plain_line '': ''" by code_simp
  ultimately show ?thesis by (simp add: trailer_line_def trailer_safe_def)
qed

lemma trailer_names_plain: "plain_line EXCLUSION_POLICY_TRAILER" "plain_line COORDINATE_TRAILER" "plain_line EVIDENCE_LINK_TRAILER"
  and version_safe: "trailer_safe EXCLUSION_POLICY_VERSION"
  by code_simp+

lemma message_lines_plain:
  "list_all good_link ls \<Longrightarrow> list_all (\<lambda>l. plain_line l \<and> l \<noteq> []) (message_lines ls)"
  using good_link_words word_safe
  by (auto simp: message_lines_def list_all_iff trailer_names_plain trailer_line_plain version_safe trailer_value_safe)

lemma message_splitlines:
  assumes "plain_line subject" "list_all good_link ls"
  shows "py_splitlines (subject @ [newline, newline] @ py_join [newline] (message_lines ls)) = subject # [] # message_lines ls"
proof -
  let ?body = "py_join [newline] (message_lines ls)"
  have "splitlines_acc [] (subject @ newline # newline # ?body) = subject # splitlines_acc [] ([] @ newline # ?body)"
    using splitlines_acc_line [OF assms(1), of "[]" "newline # ?body"] by simp
  also have "splitlines_acc [] ([] @ newline # ?body) = [] # splitlines_acc [] ?body"
    using splitlines_acc_line [of "[]" "[]" ?body] by simp
  also have "splitlines_acc [] ?body = message_lines ls"
    using splitlines_join [OF message_lines_plain [OF assms(2)]] by (simp add: py_splitlines_def)
  finally show ?thesis by (simp add: py_splitlines_def)
qed

lemma trailer_values_message:
  assumes "plain_line subject" "list_all good_link ls" "name \<noteq> []"
    and "\<not> startswith subject (name @ '':'')"
    and m: "m = subject @ [newline, newline] @ py_join [newline] (message_lines ls)"
  shows "trailer_values m name =
    map (\<lambda>l. py_strip (drop (length (name @ '':'')) l)) (filter (\<lambda>l. startswith l (name @ '':'')) (message_lines ls))"
  using assms(3,4) unfolding m trailer_values_def message_splitlines [OF assms(1,2)]
  by (cases name) (simp_all add: Let_def)

lemma trailer_values_three:
  assumes "plain_line subject" "list_all good_link ls"
    and s: "list_all (\<lambda>name. \<not> startswith subject (name @ '':'')) [EXCLUSION_POLICY_TRAILER, COORDINATE_TRAILER, EVIDENCE_LINK_TRAILER]"
    and m: "m = subject @ [newline, newline] @ py_join [newline] (message_lines ls)"
  shows "trailer_values m EXCLUSION_POLICY_TRAILER = [EXCLUSION_POLICY_VERSION]"
    "trailer_values m COORDINATE_TRAILER = map el_coordinate ls"
    "trailer_values m EVIDENCE_LINK_TRAILER = map trailer_value ls"
proof -
  note name = trailer_values_message [OF assms(1,2) _ _ m]
  have safe: "trailer_safe (el_coordinate l)" "trailer_safe (trailer_value l)" if "l \<in> set ls" for l
    using that assms(2) good_link_words word_safe trailer_value_safe by (auto simp: list_all_iff)
  have line: "startswith (trailer_line n v) (n @ '':'')" "py_strip (drop (Suc (length n)) (trailer_line n v)) = v" if "trailer_safe v" for n v
    using trailer_value_of_line [OF that, of n] by simp_all
  have ne: "EXCLUSION_POLICY_TRAILER \<noteq> []" "COORDINATE_TRAILER \<noteq> []" "EVIDENCE_LINK_TRAILER \<noteq> []"
    by (simp_all add: EXCLUSION_POLICY_TRAILER_def COORDINATE_TRAILER_def EVIDENCE_LINK_TRAILER_def)
  show "trailer_values m EXCLUSION_POLICY_TRAILER = [EXCLUSION_POLICY_VERSION]"
    using s by (subst name) (simp_all add: ne message_lines_def other_trailers line version_safe comp_def)
  show "trailer_values m COORDINATE_TRAILER = map el_coordinate ls"
    using s by (subst name) (simp_all add: ne message_lines_def other_trailers line safe filter_map comp_def cong: filter_cong map_cong)
  show "trailer_values m EVIDENCE_LINK_TRAILER = map trailer_value ls"
    using s by (subst name) (simp_all add: ne message_lines_def other_trailers line safe filter_map comp_def cong: filter_cong map_cong)
qed

lemma ordered_links_simps [simp]:
  "set (ordered_links ls) = set ls" "sorted (ordered_links ls)" "distinct (ordered_links ls)"
  "ordered_links (ordered_links ls) = ordered_links ls" "ordered_links ls = [] \<longleftrightarrow> ls = []"
proof -
  show "ordered_links ls = [] \<longleftrightarrow> ls = []"
    by (metis ordered_links_def remdups_eq_nil_iff set_empty set_sort)
qed (simp_all add: ordered_links_def distinct_remdups_id sorted_sort_id)

text \<open>The two subjects the code writes.\<close>

definition integration_subject :: "string \<Rightarrow> bool" where
  "integration_subject s \<longleftrightarrow> s \<in> {SUBSYSTEM_INTEGRATION_SUBJECT, MAINLINE_INTEGRATION_SUBJECT}"

lemma integration_subject_facts:
  assumes "integration_subject s"
  shows "plain_line s" "s \<noteq> []"
    "list_all (\<lambda>name. \<not> startswith s (name @ '':'')) [EXCLUSION_POLICY_TRAILER, COORDINATE_TRAILER, EVIDENCE_LINK_TRAILER]"
proof -
  have "plain_line SUBSYSTEM_INTEGRATION_SUBJECT" "plain_line MAINLINE_INTEGRATION_SUBJECT" by code_simp+
  then show "plain_line s" using assms by (auto simp: integration_subject_def)
  show "s \<noteq> []" using assms by (auto simp: integration_subject_def SUBSYSTEM_INTEGRATION_SUBJECT_def MAINLINE_INTEGRATION_SUBJECT_def)
  show "list_all (\<lambda>name. \<not> startswith s (name @ '':'')) [EXCLUSION_POLICY_TRAILER, COORDINATE_TRAILER, EVIDENCE_LINK_TRAILER]"
    using assms by (auto simp: integration_subject_def SUBSYSTEM_INTEGRATION_SUBJECT_def MAINLINE_INTEGRATION_SUBJECT_def
        EXCLUSION_POLICY_TRAILER_def COORDINATE_TRAILER_def EVIDENCE_LINK_TRAILER_def)
qed

lemma message_validates:
  assumes "integration_subject subject" "list_all good_link links" "integration_message subject links = Inr m"
  shows "validated_integration_links m subject = Inr (ordered_links links) \<and> has_current_integration_marker m"
proof -
  let ?ls = "ordered_links links"
  have good: "list_all good_link ?ls" using assms(2) by (simp add: list_all_iff)
  have m: "m = subject @ [newline, newline] @ py_join [newline] (message_lines ?ls)" and ne: "?ls \<noteq> []"
    using assms(3) by (auto simp: integration_message_eq rbind_Inr_iff)
  note f = integration_subject_facts [OF assms(1)]
  note three = trailer_values_three [OF f(1) good f(3) m]
  have "take 1 (py_splitlines m) = [subject]" unfolding m message_splitlines [OF f(1) good] by simp
  then have "validated_integration_links m subject = Inr ?ls"
    using ne by (simp add: validated_integration_links_def three links_from_message_def link_values_roundtrip [OF good])
  moreover have "has_current_integration_marker m"
    using three(1) by (simp add: has_current_integration_marker_def Let_def)
  ultimately show ?thesis by simp
qed

text \<open>
  C12: the message of an integration commit is read back: whatever well-formed links are given in
  whatever order, if the message can be built then the validator returns exactly those links, sorted
  and without repetition, and the commit counts as current; it can be built exactly when there is a
  link and no two different links share a coordinate.
\<close>

theorem integration_message_roundtrip:
  assumes "integration_subject subject" "list_all good_link links"
  shows "(case integration_message subject links of
      Inr m \<Rightarrow> validated_integration_links m subject = Inr (ordered_links links) \<and> has_current_integration_marker m
    | Inl e \<Rightarrow> links = [] \<or> \<not> inj_on el_coordinate (set links)) \<and>
    ((\<exists>m. integration_message subject links = Inr m) = (links \<noteq> [] \<and> inj_on el_coordinate (set links)))"
proof -
  have "distinct (map el_coordinate (ordered_links links)) \<longleftrightarrow> inj_on el_coordinate (set links)"
    by (simp add: distinct_map)
  then show ?thesis
    using message_validates [OF assms] by (auto simp: integration_message_eq rbind_Inl_iff rbind_Inr_iff split: sum.split)
qed

theorem integration_message_roundtrip_witness:
  "\<exists>m. integration_message MAINLINE_INTEGRATION_SUBJECT
        [EvidenceLink (COORDINATE_VERSION @ '':'' @ replicate 64 (CHR ''b'')) (replicate 40 (CHR ''1'')) (replicate 40 (CHR ''2'')),
         EvidenceLink (COORDINATE_VERSION @ '':'' @ replicate 64 (CHR ''a'')) (replicate 40 (CHR ''1'')) (replicate 40 (CHR ''2''))] = Inr m \<and>
      validated_integration_links m MAINLINE_INTEGRATION_SUBJECT = Inr
        [EvidenceLink (COORDINATE_VERSION @ '':'' @ replicate 64 (CHR ''a'')) (replicate 40 (CHR ''1'')) (replicate 40 (CHR ''2'')),
         EvidenceLink (COORDINATE_VERSION @ '':'' @ replicate 64 (CHR ''b'')) (replicate 40 (CHR ''1'')) (replicate 40 (CHR ''2''))]"
proof -
  let ?l = "\<lambda>c. EvidenceLink (COORDINATE_VERSION @ '':'' @ replicate 64 c) (replicate 40 (CHR ''1'')) (replicate 40 (CHR ''2''))"
  have h: "is_hex_lower (CHR ''a'')" "is_hex_lower (CHR ''b'')" "is_hex_lower (CHR ''1'')" "is_hex_lower (CHR ''2'')" by code_simp+
  have "replicate 64 (CHR ''a'') \<noteq> replicate 64 (CHR ''b'')" by (simp add: replicate_eq_replicate)
  then have d: "el_coordinate (?l (CHR ''a'')) \<noteq> el_coordinate (?l (CHR ''b''))" by simp
  have good: "good_link (?l (CHR ''a''))" "good_link (?l (CHR ''b''))"
    using h by (auto simp: good_link_def lower_hex_def object_id_def list_all_iff)
  have "ordered_links [?l (CHR ''b''), ?l (CHR ''a'')] = [?l (CHR ''a''), ?l (CHR ''b'')]" by code_simp
  then show ?thesis
    using integration_message_roundtrip [of MAINLINE_INTEGRATION_SUBJECT "[?l (CHR ''b''), ?l (CHR ''a'')]"] good d
    by (auto simp: integration_subject_def)
qed

section \<open>What the mainline promotes\<close>

lemma find_coordinate:
  "find (\<lambda>m. el_coordinate m = c) acc = None \<longleftrightarrow> c \<notin> el_coordinate ` set acc"
  "find (\<lambda>m. el_coordinate m = c) acc = Some m \<Longrightarrow> m \<in> set acc"
  by (auto simp: find_None_iff find_Some_iff)

lemma collect_links_result:
  "collect_links acc ls = Inr r \<Longrightarrow> distinct (map el_coordinate acc) \<Longrightarrow>
   distinct (map el_coordinate r) \<and> set r = set acc \<union> set ls"
proof (induction acc ls arbitrary: r rule: collect_links.induct)
  case (2 acc l ls)
  show ?case
  proof (cases "find (\<lambda>m. el_coordinate m = el_coordinate l) acc")
    case None
    then have "el_coordinate l \<notin> el_coordinate ` set acc" by (simp only: find_coordinate(1) not_False_eq_True)
    then show ?thesis using "2.IH"(1) [OF None] "2.prems" None by simp
  next
    case (Some m)
    then have "collect_links acc ls = Inr r" "m = l" "m \<in> set acc"
      using "2.prems" find_coordinate(2) by (auto simp: rbind_Inr_iff)
    then show ?thesis using "2.IH"(2) [OF Some, of "()"] "2.prems" by (auto simp: insert_absorb)
  qed
qed simp

lemma carried_match_result:
  "carried_match digest repo notes links vs = Inr u \<Longrightarrow> v \<in> set vs \<Longrightarrow>
   \<exists>s. sealed_contribution_from_verdict digest repo ''mainline_integration'' v notes = Inr s \<and>
     sc_links s = filter (\<lambda>l. el_verdict l = v) links"
  by (induction vs) (auto simp: rbind_Inr_iff)

lemma set_first_verdicts [simp]: "set (first_verdicts links) = el_verdict ` set links"
  by (simp add: first_verdicts_def)

text \<open>A link that resolves, with every link of its sealed contribution among the promoted ones.\<close>

definition promoted :: "(string \<Rightarrow> string) \<Rightarrow> evidence_repo \<Rightarrow> string option \<Rightarrow> evidence_link set \<Rightarrow> evidence_link \<Rightarrow> bool" where
  "promoted digest repo notes all l \<longleftrightarrow>
     (\<exists>s. sealed_contribution_from_verdict digest repo ''mainline_integration'' (el_verdict l) notes = Inr s \<and>
        l \<in> set (sc_links s) \<and> set (sc_links s) \<subseteq> all)"

lemma promoted_mono: "promoted digest repo notes A l \<Longrightarrow> A \<subseteq> B \<Longrightarrow> promoted digest repo notes B l"
  by (auto simp: promoted_def)

definition carries :: "evidence_link list \<Rightarrow> string \<Rightarrow> bool" where
  "carries all message \<longleftrightarrow>
     (\<exists>links. validated_integration_links message SUBSYSTEM_INTEGRATION_SUBJECT = Inr links \<and> set links \<subseteq> set all)"

lemma pending_links_result:
  assumes "pending_links digest repo notes messages acc = Inr r" "distinct (map el_coordinate acc)"
    and "list_all good_link acc" "\<forall>l\<in>set acc. promoted digest repo notes (set acc) l"
  shows "distinct (map el_coordinate r) \<and> set acc \<subseteq> set r \<and> list_all good_link r \<and>
    (\<forall>l\<in>set r. promoted digest repo notes (set r) l) \<and> list_all (carries r) messages \<and> (messages = [] \<or> r \<noteq> [])"
  using assms
proof (induction messages arbitrary: acc)
  case (Cons m ms)
  obtain links acc' where v: "validated_integration_links m SUBSYSTEM_INTEGRATION_SUBJECT = Inr links"
    and c: "carried_match digest repo notes links (first_verdicts links) = Inr ()"
    and a: "collect_links acc links = Inr acc'" and p: "pending_links digest repo notes ms acc' = Inr r"
    using Cons.prems(1) by (auto simp: rbind_Inr_iff)
  have acc': "distinct (map el_coordinate acc')" "set acc' = set acc \<union> set links"
    using collect_links_result [OF a Cons.prems(2)] by simp_all
  have ne: "links \<noteq> []" using v by (auto simp: validated_integration_links_def rbind_Inr_iff)
  have "promoted digest repo notes (set acc') l" if l: "l \<in> set links" for l
  proof -
    obtain s where "sealed_contribution_from_verdict digest repo ''mainline_integration'' (el_verdict l) notes = Inr s"
      "sc_links s = filter (\<lambda>k. el_verdict k = el_verdict l) links"
      using carried_match_result [OF c, of "el_verdict l"] imageI [OF l, of el_verdict] unfolding set_first_verdicts by blast
    then show ?thesis using l acc'(2) by (auto simp: promoted_def)
  qed
  then have "\<forall>l\<in>set acc'. promoted digest repo notes (set acc') l"
    using Cons.prems(4) acc'(2) promoted_mono [where A = "set acc" and B = "set acc'"] by auto
  moreover have "list_all good_link acc'"
    using Cons.prems(3) validated_good [OF v] acc'(2) by (auto simp: list_all_iff)
  ultimately have r: "distinct (map el_coordinate r) \<and> set acc' \<subseteq> set r \<and> list_all good_link r \<and>
      (\<forall>l\<in>set r. promoted digest repo notes (set r) l) \<and> list_all (carries r) ms"
    using Cons.IH [OF p acc'(1)] by blast
  moreover have "carries r m" using v r acc'(2) by (auto simp: carries_def)
  moreover have "r \<noteq> []" using r acc'(2) ne by (cases links) auto
  ultimately show ?case using acc'(2) by auto
qed simp

lemma distinct_coordinates: "distinct (map el_coordinate ls) \<Longrightarrow> distinct ls"
  by (simp add: distinct_map)

text \<open>
  C10: what the mainline promotes: the verified links of the pending commits are sorted, have distinct
  coordinates, and each resolves now to a sealed contribution that names it and whose other links
  are promoted with it; every pending commit is an evidence record. A message over them can always
  be built, and it reads back as those links. Nothing is promoted only when nothing current is
  pending.
\<close>

theorem verified_links_sound:
  "case verified_links digest repo commits require_current notes of
     Inl e \<Rightarrow> require_current \<or> list_ex (\<lambda>c. has_current_integration_marker (er_message repo c)) commits
   | Inr ls \<Rightarrow>
       if \<not> require_current \<and> \<not> list_ex (\<lambda>c. has_current_integration_marker (er_message repo c)) commits then ls = []
       else commits \<noteq> [] \<and> ls \<noteq> [] \<and> sorted ls \<and> distinct (map el_coordinate ls) \<and>
         list_all (promoted digest repo notes (set ls)) ls \<and>
         list_all (\<lambda>c. carries ls (er_message repo c)) commits \<and>
         (\<exists>m. integration_message MAINLINE_INTEGRATION_SUBJECT ls = Inr m \<and>
            validated_integration_links m MAINLINE_INTEGRATION_SUBJECT = Inr ls)"
proof (cases "\<not> require_current \<and> \<not> list_ex (\<lambda>c. has_current_integration_marker (er_message repo c)) commits")
  case True
  then show ?thesis by (simp add: verified_links_def list_ex_iff)
next
  case False
  show ?thesis
  proof (cases "verified_links digest repo commits require_current notes")
    case (Inl e)
    then show ?thesis using False by auto
  next
    case (Inr ls)
    have "verified_links digest repo commits require_current notes =
        (if commits = [] then Inl ''current mainline integration requires subsystem evidence''
         else rbind (pending_links digest repo notes (map (er_message repo) commits) []) (\<lambda>ls. Inr (sort ls)))"
      using False by (auto simp: verified_links_def Let_def list_ex_iff)
    from this [symmetric] have "commits \<noteq> [] \<and> rbind (pending_links digest repo notes (map (er_message repo) commits) []) (\<lambda>ls. Inr (sort ls)) = Inr ls"
      unfolding Inr by (simp split: if_splits)
    then obtain r where ne: "commits \<noteq> []" and p: "pending_links digest repo notes (map (er_message repo) commits) [] = Inr r"
      and ls: "ls = sort r"
      by (auto simp: rbind_Inr_iff)
    have r: "distinct (map el_coordinate r)" "list_all good_link r" "\<forall>l\<in>set r. promoted digest repo notes (set r) l"
      "list_all (carries r) (map (er_message repo) commits)" "r \<noteq> []"
      using pending_links_result [OF p] ne by simp_all
    have inj: "inj_on el_coordinate (set r)" "distinct r" using r(1) by (simp_all add: distinct_map)
    then have ord: "ordered_links ls = ls" "distinct (map el_coordinate ls)"
      by (simp_all add: ls ordered_links_def distinct_remdups_id sorted_sort_id distinct_map)
    have "ls \<noteq> []" using r(5) by (metis ls set_empty set_sort)
    moreover obtain m where m: "integration_message MAINLINE_INTEGRATION_SUBJECT ls = Inr m"
      using ord \<open>ls \<noteq> []\<close> by (auto simp: integration_message_eq)
    moreover have "validated_integration_links m MAINLINE_INTEGRATION_SUBJECT = Inr ls"
      using message_validates [OF _ _ m] r(2) ord(1) by (simp add: integration_subject_def list_all_iff ls)
    moreover have "list_all (promoted digest repo notes (set ls)) ls" "list_all (\<lambda>c. carries ls (er_message repo c)) commits"
      using r(3,4) by (simp_all add: ls list_all_iff carries_def)
    ultimately show ?thesis using Inr False ne ord(2) by (auto simp: ls)
  qed
qed

section \<open>What enters an integration tree\<close>

text \<open>A change as git reports it, and the output that reports a list of changes.\<close>

definition git_change :: "path_change \<Rightarrow> bool" where
  "git_change c \<longleftrightarrow> fst c \<noteq> [] \<and> fst c \<noteq> ''!'' \<and> nul \<notin> set (fst c) \<and>
     length (snd c) = (if hd (fst c) = CHR ''R'' \<or> hd (fst c) = CHR ''C'' then 2 else 1) \<and>
     list_all (\<lambda>p. p \<noteq> [] \<and> nul \<notin> set p) (snd c)"

definition change_words :: "path_change list \<Rightarrow> string list" where
  "change_words cs = concat (map (\<lambda>c. fst c # snd c) cs)"

definition name_status_output :: "path_change list \<Rightarrow> string" where
  "name_status_output cs = concat (map (\<lambda>w. w @ [nul]) (change_words cs))"

lemma split_char_words:
  "list_all (\<lambda>w. nul \<notin> set w) ws \<Longrightarrow> split_char nul (concat (map (\<lambda>w. w @ [nul]) ws)) = ws @ [[]]"
proof (induction ws)
  case (Cons w ws)
  then have "split_char nul (w @ nul # concat (map (\<lambda>w. w @ [nul]) ws)) = w # split_char nul (concat (map (\<lambda>w. w @ [nul]) ws))"
    by (intro split_char_append) simp
  then show ?case using Cons by simp
qed simp

lemma parse_changes_words:
  "list_all git_change cs \<Longrightarrow> parse_changes (change_words cs @ [[]]) = cs"
proof (induction cs)
  case (Cons c cs)
  obtain st ps where c: "c = (st, ps)" by (cases c)
  let ?n = "if hd st = CHR ''R'' \<or> hd st = CHR ''C'' then 2 else 1 :: nat"
  have st: "st \<noteq> []" "length ps = ?n" "\<forall>p\<in>set ps. p \<noteq> []" using Cons.prems c by (auto simp: git_change_def list_all_iff)
  let ?rest = "change_words cs @ [[]]"
  have "take ?n (ps @ ?rest) = ps" "drop ?n (ps @ ?rest) = ?rest" using st(2) by simp_all
  moreover have "filter (\<lambda>p. p \<noteq> []) ps = ps" using st(3) by (simp add: filter_id_conv)
  ultimately have "parse_changes (st # (ps @ ?rest)) = (st, ps) # parse_changes ?rest"
    using st(1,2) by (simp only: parse_changes.simps Let_def if_False if_True simp_thms refl)
  then show ?case using Cons c by (simp add: change_words_def)
qed (simp add: change_words_def)

lemma changed_paths_output: "list_all git_change cs \<Longrightarrow> changed_paths (Inr (name_status_output cs)) = cs"
proof -
  assume cs: "list_all git_change cs"
  then have "list_all (\<lambda>w. nul \<notin> set w) (change_words cs)"
    by (auto simp: change_words_def git_change_def list_all_iff)
  then show ?thesis
    using cs by (simp add: changed_paths_def name_status_output_def split_char_words parse_changes_words)
qed

definition code_only :: "path_change list \<Rightarrow> string list" where
  "code_only cs = concat (map snd (filter (\<lambda>c. \<not> list_ex is_excluded_path (snd c)) cs))"

lemma code_paths_of_Inr: "code_paths_of cs = Inr ps \<Longrightarrow> ps = code_only cs \<and> list_all (\<lambda>c. fst c \<noteq> ''!'') cs"
  by (induction cs arbitrary: ps) (auto simp: code_only_def rbind_Inr_iff split: if_splits)

lemma code_paths_of_defined: "list_all (\<lambda>c. fst c \<noteq> ''!'') cs \<Longrightarrow> \<exists>ps. code_paths_of cs = Inr ps"
  by (induction cs) auto

lemma changed_code_paths_Inr:
  "changed_code_paths cs = Inr ps \<Longrightarrow> set ps = set (code_only cs) \<and> sorted ps \<and> distinct ps \<and> list_all (\<lambda>p. \<not> is_excluded_path p) ps"
proof -
  assume "changed_code_paths cs = Inr ps"
  then obtain qs where q: "code_paths_of cs = Inr qs" "ps = sort (remdups qs)" by (auto simp: changed_code_paths_def rbind_Inr_iff)
  moreover have "\<not> is_excluded_path p" if "p \<in> set (code_only cs)" for p
    using that by (auto simp: code_only_def list_ex_iff)
  ultimately show ?thesis using code_paths_of_Inr [OF q(1)] by (simp add: list_all_iff)
qed

text \<open>
  The code paths of an implementation are exact: for every list of changes that git reports, the
  parser and the filter return, sorted and once each, exactly the paths of the changes none of whose
  paths is a lifecycle record; so no such record enters an integration tree, not even as the other
  end of a rename.
\<close>

theorem code_paths_exact:
  assumes "list_all git_change cs"
  shows "\<exists>ps. changed_code_paths (changed_paths (Inr (name_status_output cs))) = Inr ps \<and> sorted ps \<and> distinct ps \<and>
    list_all (\<lambda>p. \<not> is_excluded_path p) ps \<and>
    set ps = set (concat (map snd (filter (\<lambda>c. \<not> list_ex is_excluded_path (snd c)) cs)))"
proof -
  have "list_all (\<lambda>c. fst c \<noteq> ''!'') cs" using assms by (auto simp: list_all_iff git_change_def)
  then obtain qs where "code_paths_of cs = Inr qs" using code_paths_of_defined by blast
  then have ok: "changed_code_paths cs = Inr (sort (remdups qs))" by (simp add: changed_code_paths_def)
  then show ?thesis using changed_code_paths_Inr [OF ok] by (simp add: changed_paths_output [OF assms] code_only_def)
qed

theorem code_paths_exact_witness:
  "\<exists>ps. changed_code_paths (changed_paths (Inr (name_status_output
      [(''M'', [''src/b.py'']), (''R100'', [''implementation-result.cue'', ''notes.cue'']), (''A'', [''a.py''])]))) = Inr ps
    \<and> set ps = {''src/b.py'', ''a.py''}"
proof -
  let ?cs = "[(''M'', [''src/b.py'']), (''R100'', [''implementation-result.cue'', ''notes.cue'']), (''A'', [''a.py''])]"
  have cs: "list_all git_change ?cs" by code_simp
  have "concat (map snd (filter (\<lambda>c. \<not> list_ex is_excluded_path (snd c)) ?cs)) = [''src/b.py'', ''a.py'']" by code_simp
  then show ?thesis using code_paths_exact [OF cs] by auto
qed

section \<open>The coordinate of an obligation\<close>

text \<open>\<open>utf8\<close> is injective: what is hashed determines the text.\<close>

definition utf8_read :: "string \<Rightarrow> (char \<times> string) option" where
  "utf8_read s =
     (case s of
        [] \<Rightarrow> None
      | c # t \<Rightarrow>
          if char_code c < 128 then Some (c, t)
          else (case t of [] \<Rightarrow> None | d # u \<Rightarrow> Some (char_of (64 * (char_code c - 192) + (char_code d - 128)), u)))"

lemma utf8_read_char: "utf8_read (utf8_char c @ r) = Some (c, r)"
proof (cases "char_code c < 128")
  case True
  then show ?thesis by (simp add: utf8_read_def utf8_char_def Let_def)
next
  case False
  have "char_code c < 64 * 64" by (rule less_trans [OF char_code_bound]) simp
  then have "char_code c div 64 < 64" "char_code c mod 64 < 128"
    by (rule less_mult_imp_div_less) (rule less_trans [of _ 64], simp_all)
  moreover have "64 * (char_code c div 64) + char_code c mod 64 = char_code c" by simp
  ultimately show ?thesis using False by (simp add: utf8_read_def utf8_char_def Let_def)
qed

lemma utf8_char_nonempty: "utf8_char c \<noteq> []"
  by (simp add: utf8_char_def Let_def)

lemma utf8_inject: "utf8 s = utf8 t \<longleftrightarrow> s = t"
proof
  show "utf8 s = utf8 t \<Longrightarrow> s = t"
  proof (induction s arbitrary: t)
    case Nil
    then show ?case using utf8_char_nonempty by (cases t) (auto simp: utf8_def)
  next
    case (Cons c s)
    obtain d u where t: "t = d # u" using Cons.prems utf8_char_nonempty [of c] by (cases t) (auto simp: utf8_def)
    have "utf8_read (utf8_char c @ utf8 s) = utf8_read (utf8_char d @ utf8 u)" using Cons.prems t by (simp add: utf8_def)
    then show ?case using Cons.IH [of u] t by (simp add: utf8_read_char)
  qed
qed simp

definition same_obligation :: "pydict \<Rightarrow> string \<Rightarrow> pydict \<Rightarrow> string \<Rightarrow> bool" where
  "same_obligation b i b' i' \<longleftrightarrow> i = i' \<and> producer_identity b = producer_identity b' \<and>
     list_all (\<lambda>k. body_field b k = body_field b' k)
       [''series_branch'', ''node_path'', ''contribution_branch'', ''canonical_root_body_sha256'']"

text \<open>
  The coordinate of an obligation hashes exactly its identity: two obligations hash the same bytes
  exactly when series branch, node path, contribution branch, producer (name stripped, address
  stripped and lowered), root digest and obligation id agree; no verdict and no other field of the
  binding enters, so an accepted obligation keeps its coordinate through every later verdict.
\<close>

theorem coordinate_exact:
  "utf8 (coordinate_payload b i) = utf8 (coordinate_payload b' i') \<longleftrightarrow> same_obligation b i b' i'"
proof -
  obtain n e n' e' where p: "producer_identity b = (n, e)" "producer_identity b' = (n', e')" by fastforce
  show ?thesis
    unfolding utf8_inject using json_plain_text_inject [of _ "[]" _ "[]"]
    by (auto simp: coordinate_payload_def p same_obligation_def json_plain_text_inject)
qed

section \<open>Sealed contributions are exact\<close>

definition coordinate_of :: "(string \<Rightarrow> string) \<Rightarrow> pydict \<Rightarrow> string \<Rightarrow> string" where
  "coordinate_of digest b i = COORDINATE_VERSION @ '':'' @ digest (utf8 (coordinate_payload b i))"

lemma obligation_links_Inr:
  "obligation_links digest b v w is = Inr ls \<Longrightarrow> ls = map (\<lambda>i. EvidenceLink (coordinate_of digest b i) v w) is"
  by (induction "is" arbitrary: ls) (auto simp: rbind_Inr_iff integrated_contribution_coordinate_def coordinate_of_def)

lemma make_sealed_Inr:
  "make_sealed links branch binding paths notes = Inr s \<Longrightarrow>
   sc_links s = ordered_links links \<and> sc_branch s = branch \<and> sc_binding_commit s = binding \<and> sc_paths s = paths \<and>
   sc_notes s = notes \<and> distinct (map el_coordinate (sc_links s)) \<and> sc_links s \<noteq> []"
  by (auto simp: make_sealed_def Let_def rbind_Inr_iff)

text \<open>The notes a sealed contribution is read under.\<close>

definition frozen_or_head :: "evidence_repo \<Rightarrow> string option \<Rightarrow> string" where
  "frozen_or_head repo notes =
     (case (case notes of None \<Rightarrow> er_head repo AUTHORITY_NOTES_REF | Some n \<Rightarrow> Some n) of None \<Rightarrow> [] | Some n \<Rightarrow> n)"

lemma sealed_parts:
  assumes "sealed_contribution_from_verdict digest repo route verdict notes = Inr s"
  shows "\<exists>b required links paths. frozen_or_head repo notes \<noteq> [] \<and> er_accepted repo verdict (frozen_or_head repo notes) None \<and>
    read_sealed_bodies repo verdict = Inr b \<and> source_vector_resolvable digest repo verdict b \<and>
    required_obligations (sb_admission b) = Some required \<and>
    changed_code_paths (changed_paths (er_diff repo (body_field (sb_assertion b) ''task_binding_commit_oid'')
        (body_field (sb_assertion b) ''implementation_oid''))) = Inr paths \<and> paths \<noteq> [] \<and>
    obligation_links digest (sb_binding b) verdict (body_field (sb_assertion b) ''implementation_oid'') required = Inr links \<and>
    make_sealed links (body_field (sb_binding b) ''contribution_branch'') (body_field (sb_assertion b) ''task_binding_commit_oid'')
        paths (frozen_or_head repo notes) = Inr s"
  using assms by (auto simp: sealed_contribution_from_verdict_def Let_def rbind_Inr_iff frozen_or_head_def split: option.splits)

text \<open>What a sealed contribution is, over the bodies under its verdict commit.\<close>

definition exact_seal :: "(string \<Rightarrow> string) \<Rightarrow> evidence_repo \<Rightarrow> string \<Rightarrow> sealed_bodies \<Rightarrow> string list \<Rightarrow> sealed_contribution \<Rightarrow> bool" where
  "exact_seal digest repo verdict b required s \<longleftrightarrow>
     required_obligations (sb_admission b) = Some required \<and>
     set (sc_links s) = (\<lambda>i. EvidenceLink (coordinate_of digest (sb_binding b) i) verdict (body_field (sb_assertion b) ''implementation_oid'')) ` set required \<and>
     sorted (sc_links s) \<and> distinct (map el_coordinate (sc_links s)) \<and> sc_links s \<noteq> [] \<and>
     sc_branch s = body_field (sb_binding b) ''contribution_branch'' \<and>
     sc_paths s \<noteq> [] \<and> list_all (\<lambda>p. \<not> is_excluded_path p) (sc_paths s) \<and>
     er_parents repo verdict = [body_field (sb_admission b) ''evaluated_contribution_oid''] \<and>
     er_ancestor repo (sc_binding_commit s) (sc_implementation s) \<and>
     er_ancestor repo (sc_implementation s) (body_field (sb_admission b) ''evaluated_contribution_oid'')"

text \<open>
  C18: a sealed contribution is exact: it is accepted by the authority whose notes it names, its bodies are the ones
  under the verdict commit, it has one link for each required obligation and no other, all to the
  verdict and to the implementation of the assertion, which descends from the binding commit and
  precedes the evaluated commit that is the only parent of the verdict; and its code paths are some,
  none of them a lifecycle record.
\<close>

theorem sealed_contribution_exact:
  "case sealed_contribution_from_verdict digest repo route verdict notes of
     Inl e \<Rightarrow> True
   | Inr s \<Rightarrow> er_accepted repo verdict (sc_notes s) None \<and>
       (\<exists>b required. read_sealed_bodies repo verdict = Inr b \<and> exact_seal digest repo verdict b required s)"
proof (cases "sealed_contribution_from_verdict digest repo route verdict notes")
  case (Inr s)
  from sealed_parts [OF Inr] obtain b required links paths where acc: "er_accepted repo verdict (frozen_or_head repo notes) None"
    and b: "read_sealed_bodies repo verdict = Inr b"
    and v: "source_vector_resolvable digest repo verdict b"
    and r: "required_obligations (sb_admission b) = Some required"
    and p: "changed_code_paths (changed_paths (er_diff repo (body_field (sb_assertion b) ''task_binding_commit_oid'')
        (body_field (sb_assertion b) ''implementation_oid''))) = Inr paths" "paths \<noteq> []"
    and l: "obligation_links digest (sb_binding b) verdict (body_field (sb_assertion b) ''implementation_oid'') required = Inr links"
    and m: "make_sealed links (body_field (sb_binding b) ''contribution_branch'') (body_field (sb_assertion b) ''task_binding_commit_oid'')
        paths (frozen_or_head repo notes) = Inr s" by blast
  note s = make_sealed_Inr [OF m]
  have links: "set (sc_links s) = (\<lambda>i. EvidenceLink (coordinate_of digest (sb_binding b) i) verdict (body_field (sb_assertion b) ''implementation_oid'')) ` set required"
    using s obligation_links_Inr [OF l] by simp
  have "hd (sc_links s) \<in> set (sc_links s)" using s by (intro hd_in_set) blast
  then have "sc_implementation s = body_field (sb_assertion b) ''implementation_oid''"
    unfolding links sc_implementation_def by auto
  then have "exact_seal digest repo verdict b required s"
    using s links r v p changed_code_paths_Inr [OF p(1)] by (auto simp: exact_seal_def source_vector_resolvable_def Let_def)
  then show ?thesis using Inr acc b s by auto
qed simp
end
