(* ===== verification/MaintainerMerge.thy ===== *)
theory MaintainerMerge imports IntegrationEvidence begin
text \<open>
  The two maintainer stages, \<open>src/ai_org/maintainer_merge/subsystem.py\<close>,
  \<open>src/ai_org/maintainer_merge/mainline.py\<close> and \<open>pull\<close> of
  \<open>src/ai_org/maintainer_merge/__init__.py\<close>, over the compare-and-swap publication
  \<open>publish_prepared_integration_commit\<close> of \<open>src/ai_org/git_wrapper.py\<close>.

  The refs are the shared state. A stage reads heads at its start (\<open>er_head\<close>), works in throwaway
  worktrees, and publishes into the refs as they are by then: they are an argument of their own, so
  every theorem covers whatever other processes did in between. Worktrees, patches, commits and
  the reviewing model are fields of \<open>merge_host\<close>. A ref transaction of git is the argument \<open>txn\<close>.

  Every process a stage starts itself and every file it writes or reads may raise (\<open>mh_raises\<close>): a
  missing executable, an argument list that is too long, an output that is not UTF-8, a full disk.
  Such an exception leaves the stage, as does a base branch that cannot be determined. The reads that go
  through \<open>git_wrapper\<close> (\<open>er_head\<close> and the other fields of \<open>evidence_repo\<close>, \<open>mh_branch_exists\<close>,
  \<open>mh_ref_format\<close>, \<open>mh_is_commit\<close>) turn a launch that fails into an answer there and are total.
\<close>

section \<open>Exceptions\<close>

text \<open>
  What a call may raise: an \<open>OSError\<close>, text that is not UTF-8, an integer of too many digits or a
  nesting that is too deep for \<open>json.loads\<close>. \<open>NoDefaultBranch\<close> is the \<open>RuntimeError\<close> of
  \<open>_default_branch\<close>, \<open>EvidenceErr\<close> an \<open>EvidenceError\<close>.
\<close>

datatype host_exn = OSErr | Undecodable | BadNumber | TooDeep
datatype stage_exn = NoDefaultBranch | HostErr host_exn | EvidenceErr string

text \<open>The calls that may raise, one constructor for each place a stage makes one.\<close>

datatype host_call =
    At_origin_head | At_current_head | At_pending | At_mkdtemp | At_read_worktree | At_diff | At_codex | At_loads
  | At_worktree | At_patch | At_apply_check | At_apply | At_reverse_check | At_staged | At_commit | At_merge | At_rev_parse
  | At_update_ref | At_update_ref_output | At_show_ref | At_branch | At_checkout | At_cleanup

section \<open>Ref transactions\<close>

type_synonym refs = "string \<Rightarrow> string option"

text \<open>The lines \<open>verify ref oid\<close> and \<open>update ref new old\<close> between \<open>start\<close> and \<open>prepare\<close>, \<open>commit\<close>.\<close>

datatype ref_command = Verify string string | Update string string string

definition zero_oid :: "nat \<Rightarrow> string" where "zero_oid n = replicate n (CHR ''0'')"

definition command_holds :: "refs \<Rightarrow> ref_command \<Rightarrow> bool" where
  "command_holds refs c =
     (case c of
        Verify r oid \<Rightarrow> refs r = Some oid
      | Update r new old \<Rightarrow> if old = zero_oid (length new) then refs r = None else refs r = Some old)"

definition command_writes :: "ref_command \<Rightarrow> refs \<Rightarrow> refs" where
  "command_writes c refs = (case c of Verify r oid \<Rightarrow> refs | Update r new old \<Rightarrow> refs(r \<mapsto> new))"

definition apply_ref_commands :: "ref_command list \<Rightarrow> refs \<Rightarrow> refs option" where
  "apply_ref_commands cmds refs = (if list_all (command_holds refs) cmds then Some (fold command_writes cmds refs) else None)"

text \<open>
  The documented contract of \<open>git update-ref --stdin\<close>: a transaction that commits found every expected
  value in place and wrote all of its updates and nothing else. Git may refuse for reasons of its own.
\<close>

definition transactional :: "(ref_command list \<Rightarrow> refs \<Rightarrow> refs option) \<Rightarrow> bool" where
  "transactional txn \<longleftrightarrow> (\<forall>cmds refs after. txn cmds refs = Some after \<longrightarrow> apply_ref_commands cmds refs = Some after)"

section \<open>Publication of a prepared commit\<close>

record ref_publication =
  pub_status :: string
  pub_commit :: string
  pub_failure :: "(string \<times> string \<times> string) option"
  pub_expected :: "(string \<times> string) list"
  pub_resulting :: "(string \<times> string) list"

definition pub_ok :: "ref_publication \<Rightarrow> bool" where
  "pub_ok p \<longleftrightarrow> pub_status p \<in> {''created'', ''updated'', ''migrated'', ''deleted''}"

text \<open>\<open>str(failure)\<close>.\<close>

definition failure_text :: "string \<times> string \<times> string \<Rightarrow> string" where
  "failure_text f = (case f of (code, location, rule) \<Rightarrow>
     code @ '' location='' @ repr_str location @ '' rule='' @ repr_str rule)"

definition rejected_publication :: "string \<times> string \<times> string \<Rightarrow> (string \<times> string) list \<Rightarrow> ref_publication" where
  "rejected_publication failure expected =
     \<lparr>pub_status = ''rejected'', pub_commit = [], pub_failure = Some failure, pub_expected = expected, pub_resulting = []\<rparr>"

definition publishable ::
  "(string \<Rightarrow> bool) \<Rightarrow> (string \<Rightarrow> bool) \<Rightarrow> string \<Rightarrow> string \<Rightarrow> string \<Rightarrow> (string \<times> string) list \<Rightarrow> bool" where
  "publishable ref_format is_commit ref commit expected sources \<longleftrightarrow>
     startswith ref ''refs/heads/'' \<and> ref_format ref \<and> object_id commit \<and>
     (expected = [] \<or> object_id expected \<and> length expected = length commit) \<and> is_commit commit \<and>
     list_all (\<lambda>s. ref_format (fst s) \<and> object_id (snd s) \<and> length (snd s) = length commit) sources"

text \<open>A value, unless the call that gives it raises.\<close>

definition raised :: "host_exn option \<Rightarrow> 'a \<Rightarrow> host_exn + 'a" where
  "raised e x = (case e of None \<Rightarrow> Inr x | Some err \<Rightarrow> Inl err)"

text \<open>
  \<open>launch\<close> is what starting \<open>git update-ref\<close> raises, \<open>output\<close> what reading its output raises: by
  then the transaction is over.
\<close>

definition publish_prepared_integration_commit ::
  "host_exn option \<Rightarrow> host_exn option \<Rightarrow> (string \<Rightarrow> bool) \<Rightarrow> (string \<Rightarrow> bool) \<Rightarrow> (ref_command list \<Rightarrow> refs \<Rightarrow> refs option) \<Rightarrow>
   string \<Rightarrow> string \<Rightarrow> string \<Rightarrow> (string \<times> string) list \<Rightarrow> refs \<Rightarrow> (host_exn + ref_publication) \<times> refs" where
  "publish_prepared_integration_commit launch output ref_format is_commit txn ref commit expected source_oids refs =
     (let sources = sort_key (\<lambda>s. [fst s, snd s]) (filter (\<lambda>s. fst s \<noteq> ref) source_oids);
          expected_pairs = (ref, expected) # sources
      in if \<not> publishable ref_format is_commit ref commit expected sources
         then (Inr (rejected_publication (''GIT_IDENTITY'', ref, ''prepared-integration-commit'') expected_pairs), refs)
         else
           (let old = (if expected = [] then zero_oid (length commit) else expected) in
            case launch of
              Some e \<Rightarrow> (Inl e, refs)
            | None \<Rightarrow>
                (case txn (map (\<lambda>s. Verify (fst s) (snd s)) sources @ [Update ref commit old]) refs of
                   None \<Rightarrow> (raised output (rejected_publication (''GIT_CAS'', ref, ''integration-ref-cas'') expected_pairs), refs)
                 | Some after \<Rightarrow>
                     (raised output
                        \<lparr>pub_status = (if expected = [] then ''created'' else ''updated''), pub_commit = commit, pub_failure = None,
                         pub_expected = expected_pairs, pub_resulting = (ref, commit) # sources\<rparr>, after))))"

section \<open>The verdict of the reviewing model\<close>

record merge_host =
  mh_ref_format :: "string \<Rightarrow> bool"
  mh_is_commit :: "string \<Rightarrow> bool"
  mh_branch_exists :: "string \<Rightarrow> bool"
  mh_read_worktree :: "string \<Rightarrow> bool"
  mh_diff :: "string \<Rightarrow> string \<Rightarrow> string list option \<Rightarrow> string option"
  mh_codex :: "string \<Rightarrow> string option"
  mh_loads :: "string \<Rightarrow> pyval option"
  mh_worktree :: "string \<Rightarrow> bool"
  mh_patch :: "string \<Rightarrow> string \<Rightarrow> string list \<Rightarrow> string option"
  mh_apply_check :: "string \<Rightarrow> string \<Rightarrow> bool"
  mh_apply :: "string \<Rightarrow> string \<Rightarrow> bool"
  mh_reverse_check :: "string \<Rightarrow> string \<Rightarrow> bool"
  mh_staged :: "string \<Rightarrow> string \<Rightarrow> bool \<Rightarrow> string list option"
  mh_commit :: "string \<Rightarrow> string \<Rightarrow> bool \<Rightarrow> string \<Rightarrow> string option"
  mh_merge :: "string \<Rightarrow> string \<Rightarrow> string \<Rightarrow> string option"
  mh_pending :: "string \<Rightarrow> string \<Rightarrow> string list"
  mh_branch :: "string \<Rightarrow> string \<Rightarrow> string option"
  mh_checkout :: "string \<Rightarrow> bool"
  mh_origin_head :: "string option"
  mh_current_head :: "string option"
  mh_raises :: "host_call \<Rightarrow> host_exn option"

text \<open>The value of a call of the stage, when the call does not raise.\<close>

definition calling :: "merge_host \<Rightarrow> host_call \<Rightarrow> 'a \<Rightarrow> stage_exn + 'a" where
  "calling host c x = map_sum HostErr id (raised (mh_raises host c) x)"

text \<open>Sequencing of a step that may raise, with the refs as they are.\<close>

definition attempt :: "'e + 'a \<Rightarrow> 's \<Rightarrow> ('a \<Rightarrow> ('e + 'b) \<times> 's) \<Rightarrow> ('e + 'b) \<times> 's" where
  "attempt r refs f = (case r of Inl e \<Rightarrow> (Inl e, refs) | Inr x \<Rightarrow> f x)"

lemma attempt_simps [simp]: "attempt (Inl e) refs f = (Inl e, refs)" "attempt (Inr x) refs f = f x"
  by (simp_all add: attempt_def)

text \<open>
  \<open>_default_branch\<close>: the branch \<open>origin/HEAD\<close> points at, else the branch that is checked out (the
  outputs, stripped; \<open>None\<close> when git fails), else the \<open>RuntimeError\<close>.
\<close>

definition default_branch :: "merge_host \<Rightarrow> stage_exn + string" where
  "default_branch host =
     rbind (calling host At_origin_head (mh_origin_head host)) (\<lambda>origin.
       if (case origin of Some r \<Rightarrow> startswith r ''origin/'' | None \<Rightarrow> False) then Inr (the origin)
       else rbind (calling host At_current_head (mh_current_head host)) (\<lambda>current.
         (case current of
            Some b \<Rightarrow> if b \<noteq> [] then Inr b else Inl NoDefaultBranch
          | None \<Rightarrow> Inl NoDefaultBranch)))"

text \<open>\<open>base or _default_branch(repo)\<close>; the empty text stands for \<open>None\<close>, which is what \<open>pull\<close> passes.\<close>

definition resolve_base :: "merge_host \<Rightarrow> string \<Rightarrow> stage_exn + string" where
  "resolve_base host base = (if base \<noteq> [] then Inr base else default_branch host)"

record merge_result =
  mr_accept :: bool
  mr_ref :: "string option"
  mr_reasons :: "string list"
  mr_publication :: "ref_publication option"

definition mr_reject :: "string \<Rightarrow> merge_result" where
  "mr_reject reason = \<lparr>mr_accept = False, mr_ref = None, mr_reasons = [reason], mr_publication = None\<rparr>"

fun all_texts :: "pyval list \<Rightarrow> string list option" where
  "all_texts [] = Some []"
| "all_texts (PStr s # vs) = map_option ((#) s) (all_texts vs)"
| "all_texts (_ # vs) = None"

text \<open>The verdict, when the value has the two keys with a truth value and a list of texts, and nothing else.\<close>

definition valid_verdict :: "pyval \<Rightarrow> (bool \<times> string list) option" where
  "valid_verdict v =
     (case v of
        PDict d \<Rightarrow>
          (if set (map fst d) \<noteq> {''accept'', ''reasons''} then None
           else (case (py_get d ''accept'', py_get d ''reasons'') of
               (PBool b, PList vs) \<Rightarrow> map_option (Pair b) (all_texts vs)
             | _ \<Rightarrow> None))
      | _ \<Rightarrow> None)"

definition codex_verdict :: "merge_host \<Rightarrow> string \<Rightarrow> stage_exn + bool \<times> string list" where
  "codex_verdict host diff =
     rbind (calling host At_codex (mh_codex host diff)) (\<lambda>output.
       (case output of
          None \<Rightarrow> Inr (False, [''codex did not produce a valid verdict''])
        | Some out \<Rightarrow>
            rbind (calling host At_loads (mh_loads host out)) (\<lambda>loaded.
              (case loaded of
                 None \<Rightarrow> Inr (False, [''codex verdict was not valid JSON''])
               | Some v \<Rightarrow>
                   (case valid_verdict v of
                      None \<Rightarrow> Inr (False, [''codex verdict did not match schema''])
                    | Some r \<Rightarrow> Inr r)))))"

text \<open>From the outcome of the integration to the result of the stage.\<close>

definition stage_result :: "string \<Rightarrow> string list \<Rightarrow> ref_publication option \<Rightarrow> merge_result" where
  "stage_result ref reasons outcome =
     (case outcome of
        None \<Rightarrow> mr_reject ''git merge failed''
      | Some p \<Rightarrow>
          if pub_ok p then \<lparr>mr_accept = True, mr_ref = Some ref, mr_reasons = reasons, mr_publication = Some p\<rparr>
          else (case pub_failure p of
              Some f \<Rightarrow> (mr_reject (failure_text f))\<lparr>mr_publication := Some p\<rparr>
            | None \<Rightarrow> mr_reject ''git merge failed''))"

text \<open>The stage result of the path without evidence: no ref expectations are reported.\<close>

definition legacy_result :: "string \<Rightarrow> string list \<Rightarrow> bool \<Rightarrow> merge_result" where
  "legacy_result ref reasons ok =
     (if ok then \<lparr>mr_accept = True, mr_ref = Some ref, mr_reasons = reasons, mr_publication = None\<rparr>
      else mr_reject ''git merge failed'')"

section \<open>The subsystem stage\<close>

definition heads :: "string \<Rightarrow> string" where "heads name = ''refs/heads/'' @ name"

text \<open>\<open>a or b\<close> on texts.\<close>

definition or_text :: "string \<Rightarrow> string \<Rightarrow> string" where
  "or_text a b = (if a \<noteq> [] then a else b)"

text \<open>
  The merge without evidence of both stages: the target branch is created from the base when it does
  not exist, checked out, and merged into; git moves the branch from the head it merged into when the
  merge commit is made. The answer is whether it was merged.
\<close>

definition merge_contribution ::
  "merge_host \<Rightarrow> string \<Rightarrow> string \<Rightarrow> string \<Rightarrow> string \<Rightarrow> refs \<Rightarrow> (stage_exn + bool) \<times> refs" where
  "merge_contribution host source target base message refs =
     attempt (calling host At_show_ref (refs (heads target))) refs (\<lambda>existing.
       attempt (if existing = None then calling host At_branch (mh_branch host target base) else Inr existing) refs (\<lambda>oid.
         (case oid of
            None \<Rightarrow> (Inr False, refs)
          | Some head \<Rightarrow>
              (let created = refs(heads target \<mapsto> head) in
               attempt (calling host At_checkout (mh_checkout host target)) created (\<lambda>ok.
                 if \<not> ok then (Inr False, created)
                 else attempt (calling host At_merge (mh_merge host head source message)) created (\<lambda>merged.
                   (case merged of
                      None \<Rightarrow> (Inr False, created)
                    | Some new \<Rightarrow> (Inr True, created(heads target \<mapsto> new)))))))))"

text \<open>A dict display with later entries replacing earlier ones.\<close>

fun put_source :: "string \<times> string \<Rightarrow> (string \<times> string) list \<Rightarrow> (string \<times> string) list" where
  "put_source s [] = [s]"
| "put_source s (t # ts) = (if fst t = fst s then s # ts else t # put_source s ts)"

text \<open>The refs that must not have moved since the stage read them.\<close>

definition with_base :: "merge_host \<Rightarrow> string \<Rightarrow> string \<Rightarrow> string \<Rightarrow> (string \<times> string) list \<Rightarrow> (string \<times> string) list" where
  "with_base host base base_oid expected sources =
     (if expected = [] \<and> mh_branch_exists host base then put_source (heads base, base_oid) sources else sources)"

definition with_notes :: "string \<Rightarrow> (string \<times> string) list \<Rightarrow> (string \<times> string) list" where
  "with_notes notes sources = (if notes \<noteq> [] then put_source (AUTHORITY_NOTES_REF, notes) sources else sources)"

definition subsystem_sources :: "merge_host \<Rightarrow> sealed_contribution \<Rightarrow> string \<Rightarrow> string \<Rightarrow> string \<Rightarrow> (string \<times> string) list" where
  "subsystem_sources host s base base_oid expected =
     with_base host base base_oid expected
       (with_notes (sc_notes s) [(heads (removeprefix (sc_branch s) ''refs/heads/''), sc_verdict s)])"

text \<open>
  The patch and how it stands in the worktree: \<open>None\<close> when git refuses, else the patch, whether it was
  applied, and whether its content is there already.
\<close>

definition place_patch :: "merge_host \<Rightarrow> sealed_contribution \<Rightarrow> string \<Rightarrow> stage_exn + (string \<times> bool \<times> bool) option" where
  "place_patch host s parent =
     (if sc_paths s = [] then Inr (Some ([], False, True))
      else rbind (calling host At_patch (mh_patch host (sc_binding_commit s) (sc_implementation s) (sc_paths s))) (\<lambda>diffed.
        (case diffed of
           None \<Rightarrow> Inr None
         | Some patch \<Rightarrow>
             if patch = [] then Inr None
             else rbind (calling host At_apply_check (mh_apply_check host parent patch)) (\<lambda>applicable.
               if \<not> applicable then
                 rbind (calling host At_reverse_check (mh_reverse_check host parent patch)) (\<lambda>reversible.
                   Inr (if reversible then Some (patch, False, True) else None))
               else rbind (calling host At_apply (mh_apply host parent patch)) (\<lambda>applied.
                 Inr (if applied then Some (patch, True, False) else None))))))"

text \<open>
  The commit prepared in the worktree: nothing but code may be staged, and something has to be, unless
  the patch is there already. \<open>None\<close> is the plain failure.
\<close>

definition prepare_commit :: "merge_host \<Rightarrow> sealed_contribution \<Rightarrow> string \<Rightarrow> string \<Rightarrow> bool \<Rightarrow> bool \<Rightarrow> stage_exn + string option" where
  "prepare_commit host s parent patch applied already =
     rbind (calling host At_staged (mh_staged host parent patch applied)) (\<lambda>names.
       let staged = (case names of None \<Rightarrow> [] | Some ps \<Rightarrow> filter (\<lambda>p. p \<noteq> []) ps) in
       rbind (if staged = [] \<and> \<not> already then calling host At_reverse_check (mh_reverse_check host parent patch) else Inr already) (\<lambda>there.
         if staged = [] \<and> \<not> there \<or> list_ex is_excluded_path staged then Inr None
         else rbind (map_sum EvidenceErr id (integration_message SUBSYSTEM_INTEGRATION_SUBJECT (sc_links s))) (\<lambda>message.
           rbind (calling host At_commit (mh_commit host parent patch applied message)) (\<lambda>committed.
             (case committed of
                None \<Rightarrow> Inr None
              | Some oid \<Rightarrow> rbind (calling host At_rev_parse oid) (\<lambda>prepared. Inr (if prepared = [] then None else Some prepared)))))))"

text \<open>The publication of a prepared commit, \<open>None\<close> when there is none.\<close>

definition publish_stage ::
  "merge_host \<Rightarrow> (ref_command list \<Rightarrow> refs \<Rightarrow> refs option) \<Rightarrow> string \<Rightarrow> string option \<Rightarrow> string \<Rightarrow> (string \<times> string) list \<Rightarrow> refs \<Rightarrow>
   (stage_exn + ref_publication option) \<times> refs" where
  "publish_stage host txn ref prepared expected sources refs =
     (case prepared of
        None \<Rightarrow> (Inr None, refs)
      | Some oid \<Rightarrow>
          map_prod (map_sum HostErr Some) id
            (publish_prepared_integration_commit (mh_raises host At_update_ref) (mh_raises host At_update_ref_output)
               (mh_ref_format host) (mh_is_commit host) txn ref oid expected sources refs))"

definition integrate_sealed_contribution ::
  "merge_host \<Rightarrow> (ref_command list \<Rightarrow> refs \<Rightarrow> refs option) \<Rightarrow> sealed_contribution \<Rightarrow> string \<Rightarrow> string \<Rightarrow> string \<Rightarrow> string \<Rightarrow> refs \<Rightarrow>
   (stage_exn + ref_publication option) \<times> refs" where
  "integrate_sealed_contribution host txn s subsystem base base_oid expected refs =
     (let parent = or_text expected base_oid in
      attempt (calling host At_worktree (mh_worktree host parent)) refs (\<lambda>added.
        if \<not> added then (Inr None, refs)
        else attempt (place_patch host s parent) refs (\<lambda>placed.
          (case placed of
             None \<Rightarrow> (Inr None, refs)
           | Some (patch, applied, already) \<Rightarrow>
               attempt (prepare_commit host s parent patch applied already) refs (\<lambda>prepared.
                 publish_stage host txn (heads subsystem) prepared expected (subsystem_sources host s base base_oid expected) refs)))))"

definition text_of :: "string option \<Rightarrow> string" where
  "text_of v = (case v of None \<Rightarrow> [] | Some s \<Rightarrow> s)"

definition code_diff :: "merge_host \<Rightarrow> sealed_contribution \<Rightarrow> stage_exn + string" where
  "code_diff host s =
     (if sc_paths s = [] then Inr []
      else calling host At_diff (text_of (mh_diff host (sc_binding_commit s) (sc_implementation s) (Some (sc_paths s)))))"

text \<open>
  The removal of the worktrees in the \<open>finally\<close> block of both stages; what it raises replaces whatever
  the block was to return or raise.
\<close>

definition cleaned :: "merge_host \<Rightarrow> (stage_exn + 'a) \<times> refs \<Rightarrow> (stage_exn + 'a) \<times> refs" where
  "cleaned host out =
     (case mh_raises host At_cleanup of None \<Rightarrow> out | Some e \<Rightarrow> (Inl (HostErr e), snd out))"

definition not_accepted :: "string list \<Rightarrow> merge_result" where
  "not_accepted reasons = \<lparr>mr_accept = False, mr_ref = None, mr_reasons = reasons, mr_publication = None\<rparr>"

text \<open>The judgment and the integration of one contribution: the body of the \<open>try\<close> block.\<close>

definition subsystem_judged ::
  "merge_host \<Rightarrow> (ref_command list \<Rightarrow> refs \<Rightarrow> refs option) \<Rightarrow> string \<Rightarrow> string \<Rightarrow> string \<Rightarrow> sealed_contribution option \<Rightarrow>
   string \<Rightarrow> string \<Rightarrow> refs \<Rightarrow> (stage_exn + merge_result) \<times> refs" where
  "subsystem_judged host txn branch subsystem base candidate expected base_oid refs =
     attempt (calling host At_read_worktree
         (mh_read_worktree host (case candidate of Some s \<Rightarrow> sc_implementation s | None \<Rightarrow> branch))) refs (\<lambda>added.
       if \<not> added then (Inr (mr_reject ''could not add contribution worktree''), refs)
       else attempt (case candidate of Some s \<Rightarrow> code_diff host s | None \<Rightarrow> calling host At_diff (text_of (mh_diff host base branch None))) refs (\<lambda>diff.
         attempt (codex_verdict host diff) refs (\<lambda>verdict.
           if \<not> fst verdict then (Inr (not_accepted (snd verdict)), refs)
           else (case candidate of
               None \<Rightarrow>
                 (case merge_contribution host branch subsystem base (''subsystem: merge '' @ branch) refs of
                    (ok, after) \<Rightarrow> (map_sum id (legacy_result (heads subsystem) (snd verdict)) ok, after))
             | Some s \<Rightarrow>
                 (case integrate_sealed_contribution host txn s subsystem base base_oid expected refs of
                    (outcome, after) \<Rightarrow> (map_sum id (stage_result (heads subsystem) (snd verdict)) outcome, after))))))"

text \<open>\<open>review_and_integrate\<close> of the subsystem; the left side is an exception that leaves the stage.\<close>

definition subsystem_review ::
  "(string \<Rightarrow> string) \<Rightarrow> evidence_repo \<Rightarrow> merge_host \<Rightarrow> (ref_command list \<Rightarrow> refs \<Rightarrow> refs option) \<Rightarrow> string \<Rightarrow> string \<Rightarrow> string \<Rightarrow> refs \<Rightarrow>
   (stage_exn + merge_result) \<times> refs" where
  "subsystem_review digest repo host txn branch subsystem given_base refs =
     attempt (resolve_base host given_base) refs (\<lambda>base.
       (case is_migrated_tree repo ''subsystem_integration'' branch of
          Inl e \<Rightarrow> (Inr (mr_reject e), refs)
        | Inr migrated \<Rightarrow>
            (case (if migrated then map_sum id Some (sealed_contribution_of digest repo ''subsystem_integration'' branch) else Inr None) of
               Inl e \<Rightarrow> (Inr (mr_reject e), refs)
             | Inr candidate \<Rightarrow>
                 (let expected = text_of (er_head repo (heads subsystem)); base_oid = text_of (er_head repo base) in
                  if candidate \<noteq> None \<and> base_oid = [] then (Inr (mr_reject ''could not resolve subsystem integration base''), refs)
                  else attempt (calling host At_mkdtemp ()) refs (\<lambda>_.
                    cleaned host (subsystem_judged host txn branch subsystem base candidate expected base_oid refs))))))"

section \<open>The mainline stage\<close>

definition mainline_sources :: "merge_host \<Rightarrow> string \<Rightarrow> string \<Rightarrow> string \<Rightarrow> string \<Rightarrow> string \<Rightarrow> string \<Rightarrow> (string \<times> string) list" where
  "mainline_sources host subsystem subsystem_oid notes base base_oid expected =
     with_base host base base_oid expected
       (with_notes notes [(heads (removeprefix subsystem ''refs/heads/''), subsystem_oid)])"

text \<open>The merge with evidence; \<open>None\<close> is its plain failure.\<close>

definition merge_subsystem ::
  "merge_host \<Rightarrow> (ref_command list \<Rightarrow> refs \<Rightarrow> refs option) \<Rightarrow> evidence_link list \<Rightarrow> string \<Rightarrow> string \<Rightarrow> string \<Rightarrow>
   string \<Rightarrow> string \<Rightarrow> string \<Rightarrow> string \<Rightarrow> refs \<Rightarrow> (stage_exn + ref_publication option) \<times> refs" where
  "merge_subsystem host txn links subsystem mainline base subsystem_oid expected base_oid notes refs =
     attempt (map_sum EvidenceErr id (integration_message MAINLINE_INTEGRATION_SUBJECT links)) refs (\<lambda>message.
       (let parent = or_text expected base_oid in
        if parent = [] \<or> subsystem_oid = [] then (Inr None, refs)
        else attempt (calling host At_worktree (mh_worktree host parent)) refs (\<lambda>added.
          if \<not> added then (Inr None, refs)
          else attempt (calling host At_merge (mh_merge host parent subsystem_oid message)) refs (\<lambda>merged.
            (case merged of
               None \<Rightarrow> (Inr None, refs)
             | Some oid \<Rightarrow>
                 attempt (calling host At_rev_parse oid) refs (\<lambda>prepared.
                   publish_stage host txn (heads mainline) (if prepared = [] then None else Some prepared) expected
                     (mainline_sources host subsystem subsystem_oid notes base base_oid expected) refs))))))"

text \<open>The links the mainline merge must carry, over the commits pending at the start.\<close>

definition mainline_links :: "(string \<Rightarrow> string) \<Rightarrow> evidence_repo \<Rightarrow> merge_host \<Rightarrow> string \<Rightarrow> string \<Rightarrow> string \<Rightarrow> string + evidence_link list" where
  "mainline_links digest repo host subsystem mainline base =
     (let subsystem_oid = text_of (er_head repo subsystem); expected = text_of (er_head repo (heads mainline));
          base_oid = text_of (er_head repo base); notes = text_of (er_head repo AUTHORITY_NOTES_REF)
      in verified_links digest repo (mh_pending host (or_text subsystem_oid subsystem) (or_text expected base_oid))
           (current_integration_required repo (filter (\<lambda>r. r \<noteq> []) [subsystem_oid, expected])) (Some notes))"

definition mainline_diff :: "evidence_repo \<Rightarrow> merge_host \<Rightarrow> string \<Rightarrow> string \<Rightarrow> string \<Rightarrow> stage_exn + string" where
  "mainline_diff repo host subsystem mainline base =
     calling host At_diff
       (text_of (mh_diff host (or_text (text_of (er_head repo (heads mainline))) (or_text (text_of (er_head repo base)) base))
         (or_text (text_of (er_head repo subsystem)) subsystem) None))"

definition mainline_judged ::
  "evidence_repo \<Rightarrow> merge_host \<Rightarrow> (ref_command list \<Rightarrow> refs \<Rightarrow> refs option) \<Rightarrow> string \<Rightarrow> string \<Rightarrow> string \<Rightarrow> evidence_link list \<Rightarrow>
   refs \<Rightarrow> (stage_exn + merge_result) \<times> refs" where
  "mainline_judged repo host txn subsystem mainline base links refs =
     (let subsystem_oid = text_of (er_head repo subsystem); expected = text_of (er_head repo (heads mainline));
          base_oid = text_of (er_head repo base); notes = text_of (er_head repo AUTHORITY_NOTES_REF)
      in attempt (calling host At_read_worktree (mh_read_worktree host (or_text subsystem_oid subsystem))) refs (\<lambda>added.
           if \<not> added then (Inr (mr_reject ''could not add subsystem worktree''), refs)
           else attempt (mainline_diff repo host subsystem mainline base) refs (\<lambda>diff.
             attempt (codex_verdict host diff) refs (\<lambda>verdict.
               if \<not> fst verdict then (Inr (not_accepted (snd verdict)), refs)
               else if links = []
               then (case merge_contribution host subsystem mainline base (''mainline: merge '' @ subsystem) refs of
                   (ok, after) \<Rightarrow> (map_sum id (legacy_result (heads mainline) (snd verdict)) ok, after))
               else (case merge_subsystem host txn links subsystem mainline base subsystem_oid expected base_oid notes refs of
                   (outcome, after) \<Rightarrow> (map_sum id (stage_result (heads mainline) (snd verdict)) outcome, after))))))"

text \<open>\<open>review_and_integrate\<close> of the mainline.\<close>

definition mainline_review ::
  "(string \<Rightarrow> string) \<Rightarrow> evidence_repo \<Rightarrow> merge_host \<Rightarrow> (ref_command list \<Rightarrow> refs \<Rightarrow> refs option) \<Rightarrow> string \<Rightarrow> string \<Rightarrow> string \<Rightarrow> refs \<Rightarrow>
   (stage_exn + merge_result) \<times> refs" where
  "mainline_review digest repo host txn subsystem mainline given_base refs =
     attempt (resolve_base host given_base) refs (\<lambda>base.
       attempt (calling host At_pending ()) refs (\<lambda>_.
         (case mainline_links digest repo host subsystem mainline base of
            Inl e \<Rightarrow> (Inr (mr_reject e), refs)
          | Inr links \<Rightarrow>
              attempt (calling host At_mkdtemp ()) refs (\<lambda>_.
                cleaned host (mainline_judged repo host txn subsystem mainline base links refs)))))"

section \<open>What to integrate next\<close>

definition SUBSYSTEM_BRANCH :: string where "SUBSYSTEM_BRANCH = ''ai-org/subsystem''"
definition MAINLINE_BRANCH :: string where "MAINLINE_BRANCH = ''ai-org/mainline''"

text \<open>
  The choice of \<open>pull\<close>: a rejection, a blocked root, a contribution for the subsystem stage, the
  mainline stage, or nothing. \<open>reachable\<close> says whether a branch has an acceptance commit, \<open>blocker\<close> is
  \<open>_root_generation_blocker\<close>.
\<close>

datatype pull_choice = PullRejected string | PullBlocked string | PullSubsystem string | PullMainline | PullNothing

fun pull_scan ::
  "(string \<Rightarrow> string) \<Rightarrow> evidence_repo \<Rightarrow> (string \<Rightarrow> bool) \<Rightarrow> (string \<Rightarrow> bool) \<Rightarrow> string list \<Rightarrow> pull_choice option" where
  "pull_scan digest repo reachable blocker [] = None"
| "pull_scan digest repo reachable blocker (b # bs) =
     (if \<not> reachable b then pull_scan digest repo reachable blocker bs
      else (case is_migrated_tree repo ''subsystem_integration'' b of
          Inl e \<Rightarrow> Some (PullRejected e)
        | Inr migrated \<Rightarrow>
            if \<not> migrated \<and> blocker b then Some (PullBlocked b)
            else if migrated \<and> (case er_head repo b of None \<Rightarrow> False
                   | Some tip \<Rightarrow> has_verified_link digest repo tip [SUBSYSTEM_BRANCH, MAINLINE_BRANCH] (er_head repo AUTHORITY_NOTES_REF))
            then pull_scan digest repo reachable blocker bs
            else if \<not> migrated \<and> er_ancestor repo b SUBSYSTEM_BRANCH then pull_scan digest repo reachable blocker bs
            else Some (PullSubsystem b)))"

definition pull :: "(string \<Rightarrow> string) \<Rightarrow> evidence_repo \<Rightarrow> (string \<Rightarrow> bool) \<Rightarrow> (string \<Rightarrow> bool) \<Rightarrow> (string \<Rightarrow> bool) \<Rightarrow> string list \<Rightarrow> pull_choice" where
  "pull digest repo reachable blocker branch_exists branches =
     (case pull_scan digest repo reachable blocker (sort branches) of
        Some c \<Rightarrow> c
      | None \<Rightarrow>
          if branch_exists SUBSYSTEM_BRANCH \<and> \<not> er_ancestor repo SUBSYSTEM_BRANCH MAINLINE_BRANCH then PullMainline
          else PullNothing)"

section \<open>What a stage publishes\<close>

text \<open>The ref holds the expected value; the empty text and the null id stand for an absent ref.\<close>

definition expected_at :: "refs \<Rightarrow> string \<Rightarrow> string \<Rightarrow> bool" where
  "expected_at refs r e \<longleftrightarrow> (if e = [] \<or> e = zero_oid (length e) then refs r = None else refs r = Some e)"

lemma fold_verify: "fold command_writes (map (\<lambda>s. Verify (fst s) (snd s)) ss) refs = refs"
  by (induction ss arbitrary: refs) (simp_all add: command_writes_def)

lemma raised_Inr [simp]: "raised e x = Inr y \<longleftrightarrow> e = None \<and> y = x"
  by (auto simp: raised_def split: option.splits)

lemma calling_Inr [simp]: "calling host c x = Inr y \<longleftrightarrow> mh_raises host c = None \<and> y = x"
  by (auto simp: calling_def raised_def split: option.splits)

lemma calling_Inl: "calling host c x = Inl e \<longleftrightarrow> (\<exists>h. mh_raises host c = Some h \<and> e = HostErr h)"
  by (auto simp: calling_def raised_def split: option.splits)

lemma publish_result:
  assumes "transactional txn"
    and "publish_prepared_integration_commit launch output fmt is_commit txn ref commit expected sources refs = (p, after)"
  shows "after = refs \<and> (\<forall>q. p = Inr q \<longrightarrow> \<not> pub_ok q \<and> pub_failure q \<noteq> None) \<or>
    after = refs(ref \<mapsto> commit) \<and> expected_at refs ref expected \<and> is_commit commit \<and>
      (\<forall>s\<in>set sources. fst s = ref \<or> refs (fst s) = Some (snd s)) \<and> (\<forall>q. p = Inr q \<longrightarrow> pub_ok q)"
proof -
  let ?ss = "sort_key (\<lambda>s. [fst s, snd s]) (filter (\<lambda>s. fst s \<noteq> ref) sources)"
  let ?old = "if expected = [] then zero_oid (length commit) else expected"
  let ?cmds = "map (\<lambda>s. Verify (fst s) (snd s)) ?ss @ [Update ref commit ?old]"
  show ?thesis
  proof (cases "publishable fmt is_commit ref commit expected ?ss \<and> launch = None")
    case False
    then show ?thesis using assms(2)
      by (auto simp: publish_prepared_integration_commit_def Let_def rejected_publication_def pub_ok_def split: if_splits)
  next
    case True
    show ?thesis
    proof (cases "txn ?cmds refs")
      case None
      then show ?thesis using assms(2) True
        by (auto simp: publish_prepared_integration_commit_def Let_def rejected_publication_def pub_ok_def)
    next
      case (Some q)
      then have "apply_ref_commands ?cmds refs = Some q" using assms(1) by (simp add: transactional_def)
      then have q: "q = refs(ref \<mapsto> commit)" "list_all (command_holds refs) ?cmds"
        by (auto simp: apply_ref_commands_def fold_verify command_writes_def split: if_splits)
      have "refs (fst s) = Some (snd s)" if "s \<in> set sources" "fst s \<noteq> ref" for s
        using q(2) that by (simp add: list_all_iff command_holds_def)
      then have v: "\<forall>s\<in>set sources. fst s = ref \<or> refs (fst s) = Some (snd s)" by blast
      have c: "is_commit commit" "expected = [] \<or> length expected = length commit" using True by (auto simp: publishable_def)
      have "command_holds refs (Update ref commit ?old)" using q(2) by simp
      then have e: "expected_at refs ref expected"
        using c(2) by (auto simp: command_holds_def expected_at_def zero_oid_def split: if_splits)
      have "\<forall>q. p = Inr q \<longrightarrow> pub_ok q" "after = q"
        using assms(2) True Some by (auto simp: publish_prepared_integration_commit_def Let_def pub_ok_def split: if_splits)
      then show ?thesis using q(1) v c(1) e by simp
    qed
  qed
qed

lemma publish_stage_result:
  assumes "transactional txn" "publish_stage host txn ref prepared expected sources refs = (out, after)"
  shows "after = refs \<and> (\<forall>x. out = Inr x \<longrightarrow> \<not> (\<exists>p. x = Some p \<and> pub_ok p)) \<and> (\<forall>e. out = Inl e \<longrightarrow> (\<exists>h. e = HostErr h)) \<or>
    (\<exists>oid. prepared = Some oid \<and> after = refs(ref \<mapsto> oid) \<and> expected_at refs ref expected \<and>
      (\<forall>s\<in>set sources. fst s = ref \<or> refs (fst s) = Some (snd s)) \<and>
      (\<forall>x. out = Inr x \<longrightarrow> (\<exists>p. x = Some p \<and> pub_ok p)) \<and> (\<forall>e. out = Inl e \<longrightarrow> (\<exists>h. e = HostErr h)))"
proof (cases prepared)
  case (Some oid)
  obtain p a where p: "publish_prepared_integration_commit (mh_raises host At_update_ref) (mh_raises host At_update_ref_output)
      (mh_ref_format host) (mh_is_commit host) txn ref oid expected sources refs = (p, a)"
    by fastforce
  then have "out = map_sum HostErr Some p" "after = a" using assms(2) Some by (simp_all add: publish_stage_def)
  then show ?thesis using publish_result [OF assms(1) p] Some by (cases p) auto
qed (use assms(2) in \<open>auto simp: publish_stage_def\<close>)

lemma publish_stage_raises:
  assumes "publish_stage host txn ref prepared expected sources refs = (Inl e, after)"
  shows "\<exists>h. e = HostErr h"
proof (cases prepared)
  case (Some oid)
  then have "map_sum HostErr Some (fst (publish_prepared_integration_commit (mh_raises host At_update_ref) (mh_raises host At_update_ref_output)
      (mh_ref_format host) (mh_is_commit host) txn ref oid expected sources refs)) = Inl e"
    using assms by (simp add: publish_stage_def map_prod_def split: prod.splits)
  then show ?thesis by (auto simp: map_sum_def split: sum.splits)
qed (use assms in \<open>simp add: publish_stage_def\<close>)

section \<open>All or nothing\<close>

text \<open>
  What every stage promises of its outcome. It raises only a \<open>raisable\<close> exception, and then no ref has
  moved or the integration was published in full; it answers not accepted, and no ref has moved; or it
  answers accepted, with the ref, and the integration was published.
\<close>

definition all_or_nothing ::
  "(stage_exn \<Rightarrow> bool) \<Rightarrow> (refs \<Rightarrow> bool) \<Rightarrow> string \<Rightarrow> refs \<Rightarrow> (stage_exn + merge_result) \<times> refs \<Rightarrow> bool" where
  "all_or_nothing raisable published ref refs out =
     (case fst out of
        Inl e \<Rightarrow> raisable e \<and> (snd out = refs \<or> published (snd out))
      | Inr r \<Rightarrow> if mr_accept r then mr_ref r = Some ref \<and> published (snd out) else snd out = refs)"

lemma all_or_nothing_reject [simp]:
  "all_or_nothing raisable published ref refs (Inr (mr_reject reason), refs)"
  "all_or_nothing raisable published ref refs (Inr (not_accepted reasons), refs)"
  by (simp_all add: all_or_nothing_def mr_reject_def not_accepted_def)

lemma all_or_nothing_attempt:
  assumes "\<And>e. r = Inl e \<Longrightarrow> raisable e"
    and "\<And>x. r = Inr x \<Longrightarrow> all_or_nothing raisable published ref refs (f x)"
  shows "all_or_nothing raisable published ref refs (attempt r refs f)"
  using assms by (cases r) (simp_all add: all_or_nothing_def)

lemma all_or_nothing_cleaned:
  "all_or_nothing raisable published ref refs out \<Longrightarrow> (\<And>h. raisable (HostErr h)) \<Longrightarrow>
   all_or_nothing raisable published ref refs (cleaned host out)"
  by (auto simp: all_or_nothing_def cleaned_def split: option.split sum.split_asm if_split_asm)

lemma calling_raises: "calling host c x = Inl e \<Longrightarrow> \<exists>h. e = HostErr h"
  by (auto simp: calling_Inl)

lemma resolve_base_raises:
  "resolve_base host base = Inl e \<Longrightarrow> (\<exists>h. e = HostErr h) \<or> e = NoDefaultBranch"
  by (auto simp: resolve_base_def default_branch_def rbind_Inl_iff calling_Inl split: if_splits option.splits)

lemma code_diff_raises: "code_diff host s = Inl e \<Longrightarrow> \<exists>h. e = HostErr h"
  by (auto simp: code_diff_def calling_Inl split: if_splits)

lemma mainline_diff_raises: "mainline_diff repo host subsystem mainline base = Inl e \<Longrightarrow> \<exists>h. e = HostErr h"
  by (auto simp: mainline_diff_def calling_Inl)

lemma codex_verdict_raises: "codex_verdict host diff = Inl e \<Longrightarrow> \<exists>h. e = HostErr h"
  by (auto simp: codex_verdict_def rbind_Inl_iff calling_Inl split: option.splits)

lemma place_patch_raises: "place_patch host s parent = Inl e \<Longrightarrow> \<exists>h. e = HostErr h"
  by (auto simp: place_patch_def rbind_Inl_iff calling_Inl split: if_splits option.splits)

lemma prepare_commit_raises:
  assumes "prepare_commit host s parent patch applied already = Inl e" "integration_message SUBSYSTEM_INTEGRATION_SUBJECT (sc_links s) = Inr m"
  shows "\<exists>h. e = HostErr h"
  using assms by (auto simp: prepare_commit_def Let_def rbind_Inl_iff calling_Inl split: if_splits option.splits)

lemma prepare_commit_Some:
  assumes "prepare_commit host s parent patch applied already = Inr (Some prepared)"
  shows "(\<forall>ps. mh_staged host parent patch applied = Some ps \<longrightarrow> \<not> list_ex is_excluded_path (filter (\<lambda>p. p \<noteq> []) ps)) \<and>
    (\<exists>message. integration_message SUBSYSTEM_INTEGRATION_SUBJECT (sc_links s) = Inr message \<and>
       mh_commit host parent patch applied message = Some prepared)"
proof -
  obtain m where "integration_message SUBSYSTEM_INTEGRATION_SUBJECT (sc_links s) = Inr m"
    using assms by (cases "integration_message SUBSYSTEM_INTEGRATION_SUBJECT (sc_links s)")
      (auto simp: prepare_commit_def Let_def rbind_Inr_iff split: if_splits)
  then show ?thesis using assms
    by (auto simp: prepare_commit_def Let_def rbind_Inr_iff split: if_splits option.splits)
qed

lemma put_source_set: "set (put_source s ts) \<subseteq> insert s (set ts)" "s \<in> set (put_source s ts)"
  by (induction ts) auto

lemma put_source_keeps: "t \<in> set ts \<Longrightarrow> fst t \<noteq> fst s \<Longrightarrow> t \<in> set (put_source s ts)"
  by (induction ts) auto

lemma heads_not_notes: "heads x \<noteq> AUTHORITY_NOTES_REF"
  by (simp add: heads_def AUTHORITY_NOTES_REF_def)

lemma stage_result_accept: "mr_accept (stage_result ref reasons outcome) \<longleftrightarrow> (\<exists>p. outcome = Some p \<and> pub_ok p)"
  by (auto simp: stage_result_def mr_reject_def split: option.splits)

text \<open>
  What a published subsystem integration is: the patch of the code paths placed on the head that was
  read, nothing but code staged, a commit with the message of all links, written exactly when
  the target, the contribution and the notes are still where the stage read them.
\<close>

definition subsystem_published ::
  "merge_host \<Rightarrow> sealed_contribution \<Rightarrow> string \<Rightarrow> string \<Rightarrow> string \<Rightarrow> string \<Rightarrow> refs \<Rightarrow> refs \<Rightarrow> bool" where
  "subsystem_published host s subsystem base base_oid expected refs after \<longleftrightarrow>
     (\<exists>patch applied already message prepared.
        place_patch host s (or_text expected base_oid) = Inr (Some (patch, applied, already)) \<and>
        (\<forall>ps. mh_staged host (or_text expected base_oid) patch applied = Some ps \<longrightarrow> \<not> list_ex is_excluded_path (filter (\<lambda>p. p \<noteq> []) ps)) \<and>
        integration_message SUBSYSTEM_INTEGRATION_SUBJECT (sc_links s) = Inr message \<and>
        mh_commit host (or_text expected base_oid) patch applied message = Some prepared \<and>
        after = refs(heads subsystem \<mapsto> prepared) \<and> expected_at refs (heads subsystem) expected \<and>
        (\<forall>t\<in>set (subsystem_sources host s base base_oid expected). fst t = heads subsystem \<or> refs (fst t) = Some (snd t)))"

lemma integrate_result:
  assumes "transactional txn"
    and "integrate_sealed_contribution host txn s subsystem base base_oid expected refs = (out, after)"
  shows "after = refs \<and> (\<forall>x. out = Inr x \<longrightarrow> \<not> (\<exists>p. x = Some p \<and> pub_ok p)) \<or>
    subsystem_published host s subsystem base base_oid expected refs after \<and> (\<forall>x. out = Inr x \<longrightarrow> (\<exists>p. x = Some p \<and> pub_ok p))"
proof -
  let ?parent = "or_text expected base_oid" and ?sources = "subsystem_sources host s base base_oid expected"
  consider "after = refs" "\<forall>x. out = Inr x \<longrightarrow> \<not> (\<exists>p. x = Some p \<and> pub_ok p)"
    | patch applied already prepared where "place_patch host s ?parent = Inr (Some (patch, applied, already))"
      "prepare_commit host s ?parent patch applied already = Inr prepared"
      "publish_stage host txn (heads subsystem) prepared expected ?sources refs = (out, after)"
    using assms(2) by (auto simp: integrate_sealed_contribution_def Let_def attempt_def split: if_splits option.splits prod.splits sum.splits)
  then show ?thesis
  proof cases
    case 2
    show ?thesis using publish_stage_result [OF assms(1) 2(3)]
    proof (elim disjE exE conjE)
      fix oid
      assume o: "prepared = Some oid" "after = refs(heads subsystem \<mapsto> oid)" "expected_at refs (heads subsystem) expected"
        "\<forall>s\<in>set ?sources. fst s = heads subsystem \<or> refs (fst s) = Some (snd s)" "\<forall>x. out = Inr x \<longrightarrow> (\<exists>p. x = Some p \<and> pub_ok p)"
      from prepare_commit_Some [OF 2(2) [unfolded o(1)]] show ?thesis
        using 2(1) o(2-5) unfolding subsystem_published_def by blast
    qed simp
  qed simp
qed

lemma integrate_raises:
  assumes "sc_links s \<noteq> []" "distinct (map el_coordinate (sc_links s))"
    and "integrate_sealed_contribution host txn s subsystem base base_oid expected refs = (Inl e, after)"
  shows "\<exists>h. e = HostErr h"
proof -
  obtain m where "integration_message SUBSYSTEM_INTEGRATION_SUBJECT (sc_links s) = Inr m"
    using assms(1,2) by (auto simp: integration_message_eq distinct_map)
  then show ?thesis
    using assms(3)
    by (auto simp: integrate_sealed_contribution_def Let_def attempt_def
        dest: calling_raises place_patch_raises prepare_commit_raises publish_stage_raises split: if_splits option.splits prod.splits sum.splits)
qed

lemma integrate_all_or_nothing:
  assumes "transactional txn" "sc_links s \<noteq> []" "distinct (map el_coordinate (sc_links s))"
    and "integrate_sealed_contribution host txn s subsystem base base_oid expected refs = (out, after)"
    and "\<And>h. raisable (HostErr h)"
    and "subsystem_published host s subsystem base base_oid expected refs after \<Longrightarrow> published after"
  shows "all_or_nothing raisable published ref refs (map_sum id (stage_result ref reasons) out, after)"
proof (cases out)
  case (Inl e)
  then show ?thesis using integrate_raises [OF assms(2,3)] integrate_result [OF assms(1,4)] assms(4-6)
    by (fastforce simp: all_or_nothing_def)
next
  case (Inr x)
  have "mr_ref (stage_result ref reasons x) = Some ref" if "\<exists>p. x = Some p \<and> pub_ok p"
    using that by (auto simp: stage_result_def)
  then show ?thesis using Inr integrate_result [OF assms(1,4)] assms(6)
    by (auto simp: all_or_nothing_def stage_result_accept)
qed

lemma sealed_from_verdict_facts:
  assumes "sealed_contribution_from_verdict digest repo route v (Some n) = Inr s"
  shows "sc_verdict s = v \<and> sc_notes s = n \<and> n \<noteq> [] \<and> sc_links s \<noteq> [] \<and> distinct (map el_coordinate (sc_links s)) \<and> sc_paths s \<noteq> []"
proof -
  have f: "frozen_or_head repo (Some n) = n" by (simp add: frozen_or_head_def)
  obtain b :: sealed_bodies and required links paths where n: "n \<noteq> []" and p: "paths \<noteq> []"
    and l: "obligation_links digest (sb_binding b) v (body_field (sb_assertion b) ''implementation_oid'') required = Inr links"
    and m: "make_sealed links (body_field (sb_binding b) ''contribution_branch'') (body_field (sb_assertion b) ''task_binding_commit_oid'') paths n = Inr s"
    using sealed_parts [OF assms, unfolded f] by (elim exE conjE) (rule that; assumption)
  note s = make_sealed_Inr [OF m]
  have "hd (sc_links s) \<in> set (sc_links s)" using s by (intro hd_in_set) blast
  then have "sc_verdict s = v" using s obligation_links_Inr [OF l] by (auto simp: sc_verdict_def)
  then show ?thesis using s n p by metis
qed

lemma sealed_of_facts:
  assumes "sealed_contribution_of digest repo route ref = Inr s"
  shows "er_head repo ref = Some (sc_verdict s) \<and> er_head repo AUTHORITY_NOTES_REF = Some (sc_notes s) \<and> sc_notes s \<noteq> [] \<and>
    sc_branch s = removeprefix ref ''refs/heads/'' \<and> sc_links s \<noteq> [] \<and> distinct (map el_coordinate (sc_links s)) \<and> sc_paths s \<noteq> []"
proof -
  obtain v n where h: "er_head repo ref = Some v" "er_head repo AUTHORITY_NOTES_REF = Some n"
    and s: "sealed_contribution_from_verdict digest repo route v (Some n) = Inr s" and b: "sc_branch s = removeprefix ref ''refs/heads/''"
    using assms by (auto simp: sealed_contribution_of_def rbind_Inr_iff split: option.splits)
  have "sc_verdict s = v \<and> sc_notes s = n \<and> n \<noteq> [] \<and> sc_links s \<noteq> [] \<and> distinct (map el_coordinate (sc_links s)) \<and> sc_paths s \<noteq> []"
    using s by (rule sealed_from_verdict_facts)
  then show ?thesis using h b by simp
qed

lemma subsystem_sources_notes:
  "sc_notes s \<noteq> [] \<Longrightarrow> (AUTHORITY_NOTES_REF, sc_notes s) \<in> set (subsystem_sources host s base base_oid expected)"
  using heads_not_notes [of base]
  by (auto simp: subsystem_sources_def with_base_def with_notes_def put_source_set intro!: put_source_keeps)

lemma subsystem_sources_contribution:
  "heads (removeprefix (sc_branch s) ''refs/heads/'') \<noteq> heads base \<Longrightarrow>
   (heads (removeprefix (sc_branch s) ''refs/heads/''), sc_verdict s) \<in> set (subsystem_sources host s base base_oid expected)"
  using heads_not_notes [of "removeprefix (sc_branch s) ''refs/heads/''"]
  by (auto simp: subsystem_sources_def with_base_def with_notes_def put_source_set intro!: put_source_keeps)

lemma published_source:
  "subsystem_published host s subsystem base base_oid expected refs after \<Longrightarrow>
   (x, v) \<in> set (subsystem_sources host s base base_oid expected) \<Longrightarrow> x = heads subsystem \<or> refs x = Some v"
  unfolding subsystem_published_def by fastforce

text \<open>
  An accepted contribution: the tip of the branch was a sealed contribution, the model accepted the diff
  of its code paths, and it was published as above, with the contribution and the authority notes
  still where they were read.
\<close>

definition subsystem_accepted ::
  "(string \<Rightarrow> string) \<Rightarrow> evidence_repo \<Rightarrow> merge_host \<Rightarrow> string \<Rightarrow> string \<Rightarrow> string \<Rightarrow> refs \<Rightarrow> refs \<Rightarrow> bool" where
  "subsystem_accepted digest repo host branch subsystem base refs after \<longleftrightarrow>
     (\<exists>s diff reasons. sealed_contribution_of digest repo ''subsystem_integration'' branch = Inr s \<and>
        code_diff host s = Inr diff \<and> codex_verdict host diff = Inr (True, reasons) \<and>
        subsystem_published host s subsystem base (text_of (er_head repo base)) (text_of (er_head repo (heads subsystem))) refs after \<and>
        refs AUTHORITY_NOTES_REF = Some (sc_notes s) \<and>
        sc_branch s = removeprefix branch ''refs/heads/'' \<and>
        (heads (removeprefix (sc_branch s) ''refs/heads/'') \<in> {heads subsystem, heads base} \<or>
         refs (heads (removeprefix (sc_branch s) ''refs/heads/'')) = Some (sc_verdict s)))"

lemma published_accepted:
  assumes "sealed_contribution_of digest repo ''subsystem_integration'' branch = Inr s" "code_diff host s = Inr diff"
    "codex_verdict host diff = Inr (True, reasons)"
    and p: "subsystem_published host s subsystem base (text_of (er_head repo base)) (text_of (er_head repo (heads subsystem))) refs after"
  shows "subsystem_accepted digest repo host branch subsystem base refs after"
proof -
  note f = sealed_of_facts [OF assms(1)]
  have "refs AUTHORITY_NOTES_REF = Some (sc_notes s)"
    using published_source [OF p subsystem_sources_notes] heads_not_notes f by metis
  moreover have "heads (removeprefix (sc_branch s) ''refs/heads/'') \<in> {heads subsystem, heads base} \<or>
      refs (heads (removeprefix (sc_branch s) ''refs/heads/'')) = Some (sc_verdict s)"
    using published_source [OF p subsystem_sources_contribution] by auto
  ultimately show ?thesis unfolding subsystem_accepted_def using assms f by blast
qed

lemma subsystem_judged_safe:
  assumes "transactional txn" "sealed_contribution_of digest repo ''subsystem_integration'' branch = Inr s" "\<And>h. raisable (HostErr h)"
  shows "all_or_nothing raisable (subsystem_accepted digest repo host branch subsystem base refs) (heads subsystem) refs
    (subsystem_judged host txn branch subsystem base (Some s) (text_of (er_head repo (heads subsystem))) (text_of (er_head repo base)) refs)"
proof -
  note f = sealed_of_facts [OF assms(2)]
  let ?int = "integrate_sealed_contribution host txn s subsystem base (text_of (er_head repo base)) (text_of (er_head repo (heads subsystem))) refs"
  have "all_or_nothing raisable (subsystem_accepted digest repo host branch subsystem base refs) (heads subsystem) refs
      (case ?int of (outcome, after) \<Rightarrow> (map_sum id (stage_result (heads subsystem) reasons) outcome, after))"
    if v: "code_diff host s = Inr diff" "codex_verdict host diff = Inr (True, reasons)" for diff reasons
  proof -
    obtain out after where i: "?int = (out, after)" by fastforce
    have "all_or_nothing raisable (subsystem_accepted digest repo host branch subsystem base refs) (heads subsystem) refs
        (map_sum id (stage_result (heads subsystem) reasons) out, after)"
      by (rule integrate_all_or_nothing [where s = s, OF assms(1)]) (use f i assms(3) published_accepted [OF assms(2) v] in auto)
    then show ?thesis by (simp add: i)
  qed
  then show ?thesis unfolding subsystem_judged_def
    by (auto intro!: all_or_nothing_attempt dest!: calling_raises code_diff_raises codex_verdict_raises simp: assms(3))
qed

text \<open>
  C3: the subsystem stage on a contribution with evidence is all or nothing, also when it raises. It
  answers not accepted and no ref has moved; or it answers accepted: then the tip was a sealed
  contribution, the model accepted the diff of its code paths, and the one ref that moved is the
  subsystem branch, from the head the stage read to a commit prepared on that head (or the base, for
  a new branch) that stages nothing but code and carries all the evidence links, with the
  contribution and the authority notes still where they were read; or it raises, and either no
  ref has moved or such a contribution was published in full before. What it raises is an exception of
  a process or a file, or the missing default branch when no base is given; never an evidence error.
  All of this whatever others did to the refs while the model was judging.
\<close>

theorem subsystem_accept_safe:
  assumes "transactional txn" "is_migrated_tree repo ''subsystem_integration'' branch = Inr True"
  shows "all_or_nothing
      (\<lambda>e. (\<exists>h. e = HostErr h) \<or> e = NoDefaultBranch \<and> given_base = [] \<and> default_branch host = Inl NoDefaultBranch)
      (\<lambda>after. \<exists>base. resolve_base host given_base = Inr base \<and> subsystem_accepted digest repo host branch subsystem base refs after)
      (heads subsystem) refs (subsystem_review digest repo host txn branch subsystem given_base refs)"
    (is "all_or_nothing ?raisable ?published ?ref refs _")
  unfolding subsystem_review_def
proof (rule all_or_nothing_attempt)
  fix e assume "resolve_base host given_base = Inl e"
  then show "?raisable e" using resolve_base_raises [of host given_base e] by (auto simp: resolve_base_def split: if_splits)
next
  fix base assume b: "resolve_base host given_base = Inr base"
  have weaken: "all_or_nothing ?raisable ?published ?ref refs out"
    if "all_or_nothing ?raisable (subsystem_accepted digest repo host branch subsystem base refs) ?ref refs out" for out
    using that b by (auto simp: all_or_nothing_def split: sum.splits if_splits)
  show "all_or_nothing ?raisable ?published ?ref refs
    (case is_migrated_tree repo ''subsystem_integration'' branch of
       Inl e \<Rightarrow> (Inr (mr_reject e), refs)
     | Inr migrated \<Rightarrow>
         (case (if migrated then map_sum id Some (sealed_contribution_of digest repo ''subsystem_integration'' branch) else Inr None) of
            Inl e \<Rightarrow> (Inr (mr_reject e), refs)
          | Inr candidate \<Rightarrow>
              (let expected = text_of (er_head repo (heads subsystem)); base_oid = text_of (er_head repo base) in
               if candidate \<noteq> None \<and> base_oid = [] then (Inr (mr_reject ''could not resolve subsystem integration base''), refs)
               else attempt (calling host At_mkdtemp ()) refs (\<lambda>_.
                 cleaned host (subsystem_judged host txn branch subsystem base candidate expected base_oid refs)))))"
  proof (cases "sealed_contribution_of digest repo ''subsystem_integration'' branch")
    case (Inl e)
    then show ?thesis by (simp add: assms(2))
  next
    case (Inr s)
    have "all_or_nothing ?raisable ?published ?ref refs
        (cleaned host (subsystem_judged host txn branch subsystem base (Some s) (text_of (er_head repo (heads subsystem))) (text_of (er_head repo base)) refs))"
      by (intro weaken all_or_nothing_cleaned subsystem_judged_safe assms(1) Inr) auto
    then show ?thesis
      by (auto simp: assms(2) Inr Let_def intro!: all_or_nothing_attempt dest!: calling_raises)
  qed
qed

lemma verified_links_distinct:
  assumes "verified_links digest repo commits require_current notes = Inr ls"
  shows "ls = [] \<or> distinct (map el_coordinate ls)"
proof (cases "ls = []")
  case False
  then have "rbind (pending_links digest repo notes (map (er_message repo) commits) []) (\<lambda>ls. Inr (sort ls)) = Inr ls"
    using assms by (auto simp: verified_links_def Let_def split: if_splits)
  then obtain r where "pending_links digest repo notes (map (er_message repo) commits) [] = Inr r" "ls = sort r"
    by (auto simp: rbind_Inr_iff)
  then show ?thesis using pending_links_result [where acc = "[]"]
    by (auto simp: distinct_map)
qed simp

text \<open>An accepted mainline: the model accepted the diff, and the merge was published with exactly the links.\<close>

definition mainline_accepted ::
  "evidence_repo \<Rightarrow> merge_host \<Rightarrow> string \<Rightarrow> string \<Rightarrow> string \<Rightarrow> evidence_link list \<Rightarrow> refs \<Rightarrow> refs \<Rightarrow> bool" where
  "mainline_accepted repo host subsystem mainline base links refs after \<longleftrightarrow>
     (\<exists>diff reasons. mainline_diff repo host subsystem mainline base = Inr diff \<and> codex_verdict host diff = Inr (True, reasons)) \<and>
     (\<exists>message prepared. integration_message MAINLINE_INTEGRATION_SUBJECT links = Inr message \<and>
        mh_merge host (or_text (text_of (er_head repo (heads mainline))) (text_of (er_head repo base)))
          (text_of (er_head repo subsystem)) message = Some prepared \<and>
        after = refs(heads mainline \<mapsto> prepared)) \<and>
     expected_at refs (heads mainline) (text_of (er_head repo (heads mainline))) \<and>
     list_all (\<lambda>t. fst t = heads mainline \<or> refs (fst t) = Some (snd t))
       (mainline_sources host subsystem (text_of (er_head repo subsystem)) (text_of (er_head repo AUTHORITY_NOTES_REF))
          base (text_of (er_head repo base)) (text_of (er_head repo (heads mainline))))"

lemma merge_subsystem_result:
  assumes "transactional txn"
    and "merge_subsystem host txn links subsystem mainline base subsystem_oid expected base_oid notes refs = (out, after)"
  shows "after = refs \<and> (\<forall>x. out = Inr x \<longrightarrow> \<not> (\<exists>p. x = Some p \<and> pub_ok p)) \<or>
    (\<exists>message prepared. integration_message MAINLINE_INTEGRATION_SUBJECT links = Inr message \<and>
       mh_merge host (or_text expected base_oid) subsystem_oid message = Some prepared \<and>
       after = refs(heads mainline \<mapsto> prepared) \<and> expected_at refs (heads mainline) expected \<and>
       (\<forall>t\<in>set (mainline_sources host subsystem subsystem_oid notes base base_oid expected). fst t = heads mainline \<or> refs (fst t) = Some (snd t)) \<and>
       (\<forall>x. out = Inr x \<longrightarrow> (\<exists>p. x = Some p \<and> pub_ok p)))"
proof -
  let ?parent = "or_text expected base_oid" and ?sources = "mainline_sources host subsystem subsystem_oid notes base base_oid expected"
  consider "after = refs" "\<forall>x. out = Inr x \<longrightarrow> \<not> (\<exists>p. x = Some p \<and> pub_ok p)"
    | message prepared where "integration_message MAINLINE_INTEGRATION_SUBJECT links = Inr message"
      "mh_merge host ?parent subsystem_oid message = Some prepared"
      "publish_stage host txn (heads mainline) (if prepared = [] then None else Some prepared) expected ?sources refs = (out, after)"
    using assms(2) by (cases "integration_message MAINLINE_INTEGRATION_SUBJECT links")
      (auto simp: merge_subsystem_def Let_def attempt_def split: if_splits option.splits sum.splits)
  then show ?thesis
  proof cases
    case 2
    show ?thesis using publish_stage_result [OF assms(1) 2(3)] 2(1,2) by (auto split: if_splits)
  qed simp
qed

lemma merge_subsystem_raises:
  assumes "links \<noteq> []" "distinct (map el_coordinate links)"
    and "merge_subsystem host txn links subsystem mainline base subsystem_oid expected base_oid notes refs = (Inl e, after)"
  shows "\<exists>h. e = HostErr h"
proof -
  obtain m where "integration_message MAINLINE_INTEGRATION_SUBJECT links = Inr m"
    using assms(1,2) by (auto simp: integration_message_eq distinct_map)
  then show ?thesis
    using assms(3)
    by (auto simp: merge_subsystem_def Let_def attempt_def dest: calling_raises publish_stage_raises
        split: if_splits option.splits sum.splits)
qed

lemma mainline_judged_safe:
  assumes "transactional txn" "links \<noteq> []" "distinct (map el_coordinate links)" "\<And>h. raisable (HostErr h)"
  shows "all_or_nothing raisable (mainline_accepted repo host subsystem mainline base links refs) (heads mainline) refs
    (mainline_judged repo host txn subsystem mainline base links refs)"
proof -
  let ?merge = "merge_subsystem host txn links subsystem mainline base (text_of (er_head repo subsystem)) (text_of (er_head repo (heads mainline)))
    (text_of (er_head repo base)) (text_of (er_head repo AUTHORITY_NOTES_REF)) refs"
  obtain out after where m: "?merge = (out, after)" by fastforce
  have "all_or_nothing raisable (mainline_accepted repo host subsystem mainline base links refs) (heads mainline) refs
      (map_sum id (stage_result (heads mainline) reasons) out, after)"
    if v: "mainline_diff repo host subsystem mainline base = Inr diff" "codex_verdict host diff = Inr (True, reasons)" for diff reasons
  proof -
    have a: "after = refs \<and> (\<forall>x. out = Inr x \<longrightarrow> \<not> (\<exists>p. x = Some p \<and> pub_ok p)) \<or>
        mainline_accepted repo host subsystem mainline base links refs after \<and> (\<forall>x. out = Inr x \<longrightarrow> (\<exists>p. x = Some p \<and> pub_ok p))"
      using merge_subsystem_result [OF assms(1) m] v unfolding mainline_accepted_def list_all_iff by blast
    have ref: "mr_ref (stage_result (heads mainline) reasons x) = Some (heads mainline)" if "\<exists>p. x = Some p \<and> pub_ok p" for x
      using that by (auto simp: stage_result_def)
    show ?thesis
    proof (cases out)
      case (Inl e)
      then obtain h where "e = HostErr h" using merge_subsystem_raises [OF assms(2,3)] m by blast
      then show ?thesis using a Inl assms(4) by (auto simp: all_or_nothing_def)
    next
      case (Inr x)
      show ?thesis
      proof (cases "\<exists>p. x = Some p \<and> pub_ok p")
        case True
        then show ?thesis using a Inr ref [OF True] by (simp add: all_or_nothing_def stage_result_accept) blast
      next
        case False
        then show ?thesis using a Inr by (auto simp: all_or_nothing_def stage_result_accept)
      qed
    qed
  qed
  then show ?thesis unfolding mainline_judged_def Let_def
    by (auto intro!: all_or_nothing_attempt dest!: calling_raises mainline_diff_raises codex_verdict_raises simp: assms(2,4) m)
qed

text \<open>
  C11: the mainline stage over a history that carries evidence is all or nothing, also when it raises: it
  answers not accepted with every ref where it was; or it answers accepted, the model accepted the diff
  and the one ref that moved is the mainline branch, from the head the stage read to the merge of the
  subsystem head with a message of exactly the verified links, with the subsystem branch, the
  authority notes and, for a new branch, the base still where they were read; or it raises an
  exception of a process or a file, or the missing default branch when no base is given, never an
  evidence error, and either no ref has moved or such a merge was published in full before.
\<close>

theorem mainline_accept_safe:
  assumes "transactional txn"
    and "\<And>base. resolve_base host given_base = Inr base \<Longrightarrow>
      \<exists>links. mainline_links digest repo host subsystem mainline base = Inr links \<and> links \<noteq> []"
  shows "all_or_nothing
      (\<lambda>e. (\<exists>h. e = HostErr h) \<or> e = NoDefaultBranch \<and> given_base = [] \<and> default_branch host = Inl NoDefaultBranch)
      (\<lambda>after. \<exists>base links. resolve_base host given_base = Inr base \<and> mainline_links digest repo host subsystem mainline base = Inr links \<and>
         mainline_accepted repo host subsystem mainline base links refs after)
      (heads mainline) refs (mainline_review digest repo host txn subsystem mainline given_base refs)"
    (is "all_or_nothing ?raisable ?published ?ref refs _")
  unfolding mainline_review_def
proof (rule all_or_nothing_attempt)
  fix e assume "resolve_base host given_base = Inl e"
  then show "?raisable e" using resolve_base_raises [of host given_base e] by (auto simp: resolve_base_def split: if_splits)
next
  fix base assume b: "resolve_base host given_base = Inr base"
  then obtain links where l: "mainline_links digest repo host subsystem mainline base = Inr links" "links \<noteq> []"
    using assms(2) by blast
  have d: "distinct (map el_coordinate links)"
    using l verified_links_distinct unfolding mainline_links_def Let_def by metis
  have weaken: "all_or_nothing ?raisable ?published ?ref refs out"
    if "all_or_nothing ?raisable (mainline_accepted repo host subsystem mainline base links refs) ?ref refs out" for out
    using that b l by (auto simp: all_or_nothing_def split: sum.splits if_splits)
  have "all_or_nothing ?raisable ?published ?ref refs (cleaned host (mainline_judged repo host txn subsystem mainline base links refs))"
    by (intro weaken all_or_nothing_cleaned mainline_judged_safe assms(1) l(2) d) auto
  then show "all_or_nothing ?raisable ?published ?ref refs
      (attempt (calling host At_pending ()) refs (\<lambda>_.
         (case mainline_links digest repo host subsystem mainline base of
            Inl e \<Rightarrow> (Inr (mr_reject e), refs)
          | Inr links \<Rightarrow>
              attempt (calling host At_mkdtemp ()) refs (\<lambda>_.
                cleaned host (mainline_judged repo host txn subsystem mainline base links refs)))))"
    by (auto simp: l(1) intro!: all_or_nothing_attempt dest!: calling_raises)
qed

text \<open>A reviewing process that cannot be started is an exception of the stage, not a rejection.\<close>

lemma codex_launch_escapes:
  assumes "is_migrated_tree repo ''subsystem_integration'' branch = Inr True"
    and "sealed_contribution_of digest repo ''subsystem_integration'' branch = Inr s"
    and "resolve_base host given_base = Inr base" "er_head repo base = Some oid" "oid \<noteq> []"
    and "mh_read_worktree host (sc_implementation s)" "\<And>c. mh_raises host c = (if c = At_codex then Some OSErr else None)"
  shows "subsystem_review digest repo host txn branch subsystem given_base refs = (Inl (HostErr OSErr), refs)"
proof -
  have "codex_verdict host diff = Inl (HostErr OSErr)" for diff
    using assms(7) by (simp add: codex_verdict_def rbind_def calling_def raised_def)
  moreover have c: "calling host c x = Inr x" if "c \<noteq> At_codex" for c x
    using assms(7) that by simp
  ultimately show ?thesis using assms
    by (simp add: subsystem_review_def subsystem_judged_def code_diff_def cleaned_def text_of_def c Let_def del: calling_Inr)
qed
section \<open>The integration branches only advance\<close>

text \<open>
  \<open>descends\<close> is what git documents of a commit and of a merge in a worktree: the new commit has the
  checked-out head among its ancestors.
\<close>

definition descends :: "(string \<Rightarrow> string \<Rightarrow> bool) \<Rightarrow> merge_host \<Rightarrow> bool" where
  "descends anc host \<longleftrightarrow>
     (\<forall>parent patch applied message c. mh_commit host parent patch applied message = Some c \<longrightarrow> anc parent c) \<and>
     (\<forall>parent source message c. mh_merge host parent source message = Some c \<longrightarrow> anc parent c)"

lemma descends_commit: "descends anc host \<Longrightarrow> mh_commit host parent patch applied message = Some c \<Longrightarrow> anc parent c"
  by (simp add: descends_def)

lemma descends_merge: "descends anc host \<Longrightarrow> mh_merge host parent source message = Some c \<Longrightarrow> anc parent c"
  by (simp add: descends_def)

text \<open>Only the target ref moves, and only to a descendant.\<close>

definition advances :: "(string \<Rightarrow> string \<Rightarrow> bool) \<Rightarrow> string \<Rightarrow> refs \<Rightarrow> refs \<Rightarrow> bool" where
  "advances anc target refs after \<longleftrightarrow>
     (\<forall>r. r \<noteq> target \<longrightarrow> after r = refs r) \<and> (\<forall>old. refs target = Some old \<longrightarrow> (\<exists>new. after target = Some new \<and> anc old new))"

lemma advances_refl: "reflp anc \<Longrightarrow> advances anc target refs refs"
  by (simp add: advances_def reflpD)

lemma advances_update: "(\<And>old. refs target = Some old \<Longrightarrow> anc old new) \<Longrightarrow> advances anc target refs (refs(target \<mapsto> new))"
  by (simp add: advances_def)

lemma expected_advances:
  "expected_at refs target expected \<Longrightarrow> anc (or_text expected base_oid) new \<Longrightarrow> advances anc target refs (refs(target \<mapsto> new))"
  by (rule advances_update) (auto simp: expected_at_def or_text_def split: if_splits)

lemma merge_contribution_advances:
  assumes "descends anc host" "reflp anc"
  shows "advances anc (heads target) refs (snd (merge_contribution host source target base message refs))"
  using assms
  by (auto simp: merge_contribution_def attempt_def Let_def advances_def descends_def reflpD calling_def raised_def
      split: if_splits option.splits sum.splits)

lemma integrate_advances:
  assumes "transactional txn" "descends anc host" "reflp anc"
  shows "advances anc (heads subsystem) refs (snd (integrate_sealed_contribution host txn s subsystem base base_oid expected refs))"
proof -
  obtain out after where i: "integrate_sealed_contribution host txn s subsystem base base_oid expected refs = (out, after)" by fastforce
  from integrate_result [OF assms(1) i] show ?thesis
  proof (elim disjE conjE)
    assume "subsystem_published host s subsystem base base_oid expected refs after"
    then obtain patch applied message prepared where "mh_commit host (or_text expected base_oid) patch applied message = Some prepared"
      "after = refs(heads subsystem \<mapsto> prepared)" "expected_at refs (heads subsystem) expected"
      unfolding subsystem_published_def by blast
    then show ?thesis using expected_advances [OF _ descends_commit [OF assms(2)]] i by simp
  qed (simp add: i advances_refl [OF assms(3)])
qed

lemma merge_subsystem_advances:
  assumes "transactional txn" "descends anc host" "reflp anc"
  shows "advances anc (heads mainline) refs (snd (merge_subsystem host txn links subsystem mainline base subsystem_oid expected base_oid notes refs))"
proof -
  obtain out after where i: "merge_subsystem host txn links subsystem mainline base subsystem_oid expected base_oid notes refs = (out, after)"
    by fastforce
  from merge_subsystem_result [OF assms(1) i] show ?thesis
    using expected_advances [OF _ descends_merge [OF assms(2)]] advances_refl [OF assms(3)] i by auto
qed

lemma advances_attempt:
  "reflp anc \<Longrightarrow> (\<And>x. advances anc target refs (snd (f x))) \<Longrightarrow> advances anc target refs (snd (attempt r refs f))"
  by (cases r) (simp_all add: advances_refl)

lemma snd_cleaned [simp]: "snd (cleaned host out) = snd out"
  by (simp add: cleaned_def split: option.split)

lemma subsystem_review_advances:
  assumes "transactional txn" "descends anc host" "reflp anc"
  shows "advances anc (heads subsystem) refs (snd (subsystem_review digest repo host txn branch subsystem base refs))"
proof -
  have "advances anc (heads subsystem) refs (snd (subsystem_judged host txn branch subsystem b candidate expected base_oid refs))"
    for b candidate expected base_oid
    unfolding subsystem_judged_def
    by (auto intro!: advances_attempt [OF assms(3)] advances_refl [OF assms(3)]
        simp: case_prod_beta merge_contribution_advances [OF assms(2,3)] integrate_advances [OF assms] split: option.split)
  then show ?thesis unfolding subsystem_review_def Let_def
    by (auto intro!: advances_attempt [OF assms(3)] advances_refl [OF assms(3)] split: sum.split)
qed

lemma mainline_review_advances:
  assumes "transactional txn" "descends anc host" "reflp anc"
  shows "advances anc (heads mainline) refs (snd (mainline_review digest repo host txn subsystem mainline base refs))"
proof -
  have "advances anc (heads mainline) refs (snd (mainline_judged repo host txn subsystem mainline b links refs))" for b links
    unfolding mainline_judged_def Let_def
    by (auto intro!: advances_attempt [OF assms(3)] advances_refl [OF assms(3)]
        simp: case_prod_beta merge_contribution_advances [OF assms(2,3)] merge_subsystem_advances [OF assms])
  then show ?thesis unfolding mainline_review_def
    by (auto intro!: advances_attempt [OF assms(3)] advances_refl [OF assms(3)] split: sum.split)
qed

lemma integration_heads_distinct: "heads SUBSYSTEM_BRANCH \<noteq> heads MAINLINE_BRANCH"
  by (simp add: heads_def SUBSYSTEM_BRANCH_def MAINLINE_BRANCH_def)

section \<open>A stage that accepts\<close>

definition sample_oid :: "char \<Rightarrow> string" where "sample_oid c = replicate 40 c"

definition sample_digest :: "string \<Rightarrow> string" where "sample_digest s = replicate 64 (CHR ''0'')"

definition sample_binding :: pydict where
  "sample_binding =
     [(''series_branch'', PStr ''s''), (''series_snapshot_oid'', PStr ''f''), (''node_path'', PStr ''n''),
      (''contribution_branch'', PStr ''c''), (''producer'', PDict [(''name'', PStr ''p''), (''email'', PStr ''e'')]),
      (''canonical_root_body_sha256'', PStr (replicate 64 (CHR ''0''))), (''scope_decomposition_commit_oid'', PStr ''f''),
      (''promise_bindings'', PList [PDict [(''obligation_id'', PStr ''o'')]])]"

definition sample_assertion :: pydict where
  "sample_assertion =
     [(''implementation_oid'', PStr (sample_oid (CHR ''c''))), (''task_binding_commit_oid'', PStr (sample_oid (CHR ''d''))),
      (''contribution_branch'', PStr ''c''), (''task_binding_body_sha256'', PStr (replicate 64 (CHR ''0''))),
      (''promise_bindings'', PList [PDict [(''obligation_id'', PStr ''o'')]]),
      (''assertions'', PList [PDict [(''obligation_id'', PStr ''o'')]])]"

definition sample_admission :: pydict where
  "sample_admission =
     [(''required_obligation_ids'', PList [PStr ''o'']), (''evaluated_contribution_oid'', PStr (sample_oid (CHR ''b''))),
      (''task_binding_body_sha256'', PStr (replicate 64 (CHR ''0''))),
      (''promise_bindings'', PList [PDict [(''obligation_id'', PStr ''o'')]]),
      (''assertions'', PList [PDict [(''obligation_id'', PStr ''o''), (''assertion_commit_oid'', PStr (sample_oid (CHR ''d''))),
         (''assertion_body_sha256'', PStr (replicate 64 (CHR ''0'')))]])]"

definition sample_head :: "string \<Rightarrow> string option" where
  "sample_head r =
     (if r = ''c'' \<or> r = heads ''c'' then Some (sample_oid (CHR ''a''))
      else if r = AUTHORITY_NOTES_REF then Some (sample_oid (CHR ''e''))
      else if r = heads SUBSYSTEM_BRANCH then Some (sample_oid (CHR ''9''))
      else if r = ''b'' then Some (sample_oid (CHR ''f'')) else None)"

definition sample_message :: string where
  "sample_message =
     (case integration_message SUBSYSTEM_INTEGRATION_SUBJECT
         [EvidenceLink (COORDINATE_VERSION @ '':'' @ replicate 64 (CHR ''0'')) (sample_oid (CHR ''a'')) (sample_oid (CHR ''c''))] of
        Inl e \<Rightarrow> e | Inr m \<Rightarrow> m)"

definition sample_repo :: evidence_repo where
  "sample_repo =
     \<lparr>er_head = sample_head, er_message = (\<lambda>_. sample_message), er_parents = (\<lambda>_. [sample_oid (CHR ''b'')]),
      er_show = (\<lambda>_ p. Some p), er_last_commit = (\<lambda>_ _. Some (sample_oid (CHR ''d''))), er_ancestor = (\<lambda>_ _. True),
      er_diff = (\<lambda>_ _. Inr [CHR ''M'', nul, CHR ''a'', nul]), er_accepted = (\<lambda>_ _ _. True),
      er_binding = (\<lambda>_. Inr sample_binding), er_assertion = (\<lambda>_. Inr sample_assertion),
      er_admission = (\<lambda>_. Inr sample_admission),
      er_vet = (\<lambda>_ _ _. \<lparr>gd_blocked = False, gd_diagnostic = None, gd_frozen_root = ''f'', gd_root_generation = ROOT_GENERATION_V2,
         gd_root_sha256 = replicate 64 (CHR ''0''), gd_scope_sha256 = []\<rparr>),
      er_snapshot = (\<lambda>_ _ _. \<lparr>rs_generation = ROOT_GENERATION_V2, rs_lifecycle_ready = True, rs_diagnostic = [],
         rs_identity = [(''representation'', PStr ROOT_GENERATION_V2), (''source_path'', PStr ''technical-approach-plan.cue''),
                (''source_oid'', PStr ''f''), (''context'', PStr ''root-technical-approach-tree-v1''),
                (''canonical_digest'', PStr (replicate 64 (CHR ''0'')))],
         rs_dispatcher = ''producer-aware-v2'', rs_activated = True, rs_authorable = True, rs_open_gates = [''integration'']\<rparr>),
      er_revisions = (\<lambda>_. None)\<rparr>"

definition sample_host :: merge_host where
  "sample_host =
     \<lparr>mh_ref_format = (\<lambda>_. True), mh_is_commit = (\<lambda>_. True), mh_branch_exists = (\<lambda>_. False), mh_read_worktree = (\<lambda>_. True),
      mh_diff = (\<lambda>_ _ _. Some ''d''), mh_codex = (\<lambda>_. Some ''v''),
      mh_loads = (\<lambda>_. Some (PDict [(''accept'', PBool True), (''reasons'', PList [])])), mh_worktree = (\<lambda>_. True),
      mh_patch = (\<lambda>_ _ _. Some ''p''), mh_apply_check = (\<lambda>_ _. True), mh_apply = (\<lambda>_ _. True), mh_reverse_check = (\<lambda>_ _. False),
      mh_staged = (\<lambda>_ _ _. Some [''a'']), mh_commit = (\<lambda>_ _ _ _. Some (sample_oid (CHR ''1''))),
      mh_merge = (\<lambda>_ _ _. Some (sample_oid (CHR ''1''))), mh_pending = (\<lambda>_ _. [''x'']),
      mh_branch = (\<lambda>_ _. None), mh_checkout = (\<lambda>_. False), mh_origin_head = None, mh_current_head = Some ''b'',
      mh_raises = (\<lambda>_. None)\<rparr>"

lemma sample_migrated: "is_migrated_tree sample_repo ''subsystem_integration'' ''c'' = Inr True"
  by code_simp

lemma sample_base: "resolve_base sample_host [] = Inr ''b''"
  by code_simp

lemma sample_accepts:
  "case subsystem_review sample_digest sample_repo sample_host apply_ref_commands ''c'' SUBSYSTEM_BRANCH [] sample_head of
     (out, after) \<Rightarrow> after (heads SUBSYSTEM_BRANCH) = Some (sample_oid (CHR ''1'')) \<and> (case out of Inr r \<Rightarrow> mr_accept r | Inl e \<Rightarrow> False)"
  by code_simp

lemma sample_pulled:
  "pull sample_digest sample_repo (\<lambda>_. True) (\<lambda>_. False) (\<lambda>_. True) [''c''] = PullSubsystem ''c''"
  by code_simp

definition sample_link :: evidence_link where
  "sample_link = EvidenceLink (COORDINATE_VERSION @ '':'' @ replicate 64 (CHR ''0'')) (sample_oid (CHR ''a'')) (sample_oid (CHR ''c''))"

lemma sample_carried:
  "carried_match sample_digest sample_repo (Some (sample_oid (CHR ''e''))) [sample_link] [sample_oid (CHR ''a'')] = Inr ()"
  by code_simp

lemma sample_validates:
  "validated_integration_links sample_message SUBSYSTEM_INTEGRATION_SUBJECT = Inr [sample_link] \<and> has_current_integration_marker sample_message"
proof -
  have o: "ordered_links [sample_link] = [sample_link]" by (simp add: ordered_links_def)
  obtain m where m: "integration_message SUBSYSTEM_INTEGRATION_SUBJECT [sample_link] = Inr m"
    by (simp add: integration_message_eq o)
  then have "sample_message = m" by (simp add: sample_message_def sample_link_def)
  moreover have "is_hex_lower (CHR ''0'')" "is_hex_lower (CHR ''a'')" "is_hex_lower (CHR ''c'')" by code_simp+
  then have "good_link sample_link"
    by (auto simp: good_link_def sample_link_def sample_oid_def lower_hex_def object_id_def list_all_iff)
  ultimately show ?thesis using message_validates [OF _ _ m] o by (simp add: integration_subject_def)
qed

lemma sample_links: "mainline_links sample_digest sample_repo sample_host ''c'' MAINLINE_BRANCH ''b'' = Inr [sample_link]"
proof -
  have n: "text_of (er_head sample_repo AUTHORITY_NOTES_REF) = sample_oid (CHR ''e'')" by code_simp
  have "take 1 (py_splitlines sample_message) = [SUBSYSTEM_INTEGRATION_SUBJECT]"
    using sample_validates by (auto simp: validated_integration_links_def rbind_Inr_iff)
  then have "pending_links sample_digest sample_repo (Some (sample_oid (CHR ''e''))) [sample_message] [] = Inr [sample_link]"
    using sample_validates sample_carried by (simp add: rbind_Inr_iff first_verdicts_def sample_link_def)
  then show ?thesis using sample_validates
    by (simp add: mainline_links_def Let_def n verified_links_def sample_host_def) (simp add: sample_repo_def)
qed

lemma sample_mainline_judged:
  "case mainline_judged sample_repo sample_host apply_ref_commands ''c'' MAINLINE_BRANCH ''b'' [sample_link] sample_head of
     (out, after) \<Rightarrow> (case out of Inr r \<Rightarrow> mr_accept r | Inl e \<Rightarrow> False)"
  by code_simp

lemma sample_calls: "calling sample_host c x = Inr x" "cleaned sample_host out = out"
  by (simp_all add: cleaned_def sample_host_def)

lemma sample_mainline_accepts:
  "case mainline_review sample_digest sample_repo sample_host apply_ref_commands ''c'' MAINLINE_BRANCH [] sample_head of
     (out, after) \<Rightarrow> (case out of Inr r \<Rightarrow> mr_accept r | Inl e \<Rightarrow> False)"
  using sample_mainline_judged by (simp add: mainline_review_def sample_base sample_links sample_calls)

lemma apply_transactional: "transactional apply_ref_commands"
  by (simp add: transactional_def)

theorem subsystem_accept_safe_witness:
  "\<exists>r after. subsystem_review sample_digest sample_repo sample_host apply_ref_commands ''c'' SUBSYSTEM_BRANCH [] sample_head = (Inr r, after) \<and>
     mr_accept r \<and> subsystem_accepted sample_digest sample_repo sample_host ''c'' SUBSYSTEM_BRANCH ''b'' sample_head after"
  using subsystem_accept_safe [OF apply_transactional sample_migrated,
      of "[]" sample_host sample_digest SUBSYSTEM_BRANCH sample_head] sample_accepts
  by (auto simp: all_or_nothing_def sample_base split: sum.splits prod.splits)

theorem mainline_accept_safe_witness:
  "\<exists>r after prepared. mainline_review sample_digest sample_repo sample_host apply_ref_commands ''c'' MAINLINE_BRANCH [] sample_head = (Inr r, after) \<and>
     mr_accept r \<and> after = sample_head(heads MAINLINE_BRANCH \<mapsto> prepared)"
  using mainline_accept_safe [OF apply_transactional, of sample_host "[]" sample_digest sample_repo "''c''" MAINLINE_BRANCH sample_head]
    sample_mainline_accepts sample_links
  by (auto simp: all_or_nothing_def sample_base mainline_accepted_def split: sum.splits prod.splits)

end
