(* ===== verification/JudgeBody.thy ===== *)
theory JudgeBody imports Rejections begin
text \<open>
  Locating a target inside a committed JSON body, \<open>src/judge/body.py\<close>: a scanner that records the
  position and the path of every scalar, the navigation helpers, and the search for a term.

  A pair of \<open>s\<close> and \<open>i\<close> of the code is the offset \<open>i\<close> and the text that is left from it on. The
  scanner recurses with fuel, two for every character left and two more; \<open>index_scalars_spans\<close> shows
  that it does not run out. Python's limits on recursion depth and on the digits of a number
  are left out. An escape above the code point 255 ends the scan with \<open>WideEscape\<close>: the texts of the model
  are within 0 to 255. The \<open>repr\<close> of a float is the argument \<open>flt\<close> of its lexeme.
\<close>

section \<open>Tokens\<close>

datatype body_error = BodyParseError nat | DecodeError nat | WideEscape | NoFuel

definition is_ws :: "char \<Rightarrow> bool" where
  "is_ws c \<longleftrightarrow> char_code c \<in> {32, 9, 10, 13}"

fun skip_ws :: "nat \<Rightarrow> string \<Rightarrow> nat \<times> string" where
  "skip_ws i [] = (i, [])"
| "skip_ws i (c # s) = (if is_ws c then skip_ws (Suc i) s else (i, c # s))"

definition hex_digit_of :: "char \<Rightarrow> nat option" where
  "hex_digit_of c =
     (let n = char_code c in
      if 48 \<le> n \<and> n \<le> 57 then Some (n - 48)
      else if 97 \<le> n \<and> n \<le> 102 then Some (n - 87)
      else if 65 \<le> n \<and> n \<le> 70 then Some (n - 55) else None)"

definition hex4 :: "char \<Rightarrow> char \<Rightarrow> char \<Rightarrow> char \<Rightarrow> nat option" where
  "hex4 a b c d =
     (case (hex_digit_of a, hex_digit_of b, hex_digit_of c, hex_digit_of d) of
        (Some w, Some x, Some y, Some z) \<Rightarrow> Some (((w * 16 + x) * 16 + y) * 16 + z)
      | _ \<Rightarrow> None)"

definition simple_escape :: "char \<Rightarrow> char option" where
  "simple_escape c =
     (let n = char_code c in
      if n \<in> {34, 92, 47} then Some c
      else if n = 98 then Some (char_of (8 :: nat))
      else if n = 102 then Some (char_of (12 :: nat))
      else if n = 110 then Some (char_of (10 :: nat))
      else if n = 114 then Some (char_of (13 :: nat))
      else if n = 116 then Some (char_of (9 :: nat)) else None)"

definition scan_cons :: "char \<Rightarrow> body_error + string \<times> nat \<times> string \<Rightarrow> body_error + string \<times> nat \<times> string" where
  "scan_cons c r = rbind r (\<lambda>(v, j, rest). Inr (c # v, j, rest))"

text \<open>\<open>json.decoder.scanstring(s, i)\<close>, strict: the value, the offset past the closing quote, what is left.\<close>

fun scanstring :: "nat \<Rightarrow> string \<Rightarrow> body_error + string \<times> nat \<times> string" where
  "scanstring i [] = Inl (DecodeError i)"
| "scanstring i (c # s) =
     (if char_code c = 34 then Inr ([], Suc i, s)
      else if char_code c = 92 then
        (case s of
           [] \<Rightarrow> Inl (DecodeError i)
         | d # t \<Rightarrow>
             if char_code d = 117 then
               (case t of
                  w # x # y # z # u \<Rightarrow>
                    (case hex4 w x y z of
                       None \<Rightarrow> Inl (DecodeError i)
                     | Some n \<Rightarrow> if n < 256 then scan_cons (char_of n) (scanstring (i + 6) u) else Inl WideEscape)
                | _ \<Rightarrow> Inl (DecodeError i))
             else (case simple_escape d of
                 None \<Rightarrow> Inl (DecodeError i)
               | Some e \<Rightarrow> scan_cons e (scanstring (i + 2) t)))
      else if char_code c < 32 then Inl (DecodeError i)
      else scan_cons c (scanstring (Suc i) s))"

text \<open>The number pattern: the lexeme, whether it is an integer, and what is left.\<close>

definition span_digits :: "string \<Rightarrow> string \<times> string" where
  "span_digits s = (takeWhile is_digit s, dropWhile is_digit s)"

definition scan_int :: "string \<Rightarrow> (string \<times> string) option" where
  "scan_int s =
     (let sign = (case s of c # _ \<Rightarrow> if c = CHR ''-'' then [c] else [] | [] \<Rightarrow> []);
          r = drop (length sign) s
      in case r of
           [] \<Rightarrow> None
         | c # t \<Rightarrow>
             if c = CHR ''0'' then Some (sign @ [c], t)
             else if is_digit c then (case span_digits t of (ds, u) \<Rightarrow> Some (sign @ c # ds, u)) else None)"

definition scan_frac :: "string \<Rightarrow> string \<times> string" where
  "scan_frac s =
     (case s of
        c # d # t \<Rightarrow>
          if c = CHR ''.'' \<and> is_digit d then (case span_digits t of (ds, u) \<Rightarrow> (c # d # ds, u)) else ([], s)
      | _ \<Rightarrow> ([], s))"

definition scan_exp :: "string \<Rightarrow> string \<times> string" where
  "scan_exp s =
     (case s of
        c # t \<Rightarrow>
          if c = CHR ''e'' \<or> c = CHR ''E'' then
            (let sign = (case t of d # _ \<Rightarrow> if d = CHR ''-'' \<or> d = CHR ''+'' then [d] else [] | [] \<Rightarrow> []) in
             case span_digits (drop (length sign) t) of
               (ds, u) \<Rightarrow> if ds = [] then ([], s) else (c # sign @ ds, u))
          else ([], s)
      | [] \<Rightarrow> ([], s))"

definition scan_number :: "string \<Rightarrow> (string \<times> bool \<times> string) option" where
  "scan_number s =
     (case scan_int s of
        None \<Rightarrow> None
      | Some (n, t) \<Rightarrow>
          (case scan_frac t of (f, u) \<Rightarrow> (case scan_exp u of (e, w) \<Rightarrow> Some (n @ f @ e, f = [] \<and> e = [], w))))"

definition number_value :: "(string \<Rightarrow> string) \<Rightarrow> string \<Rightarrow> bool \<Rightarrow> pyval" where
  "number_value flt lexeme is_int =
     (if is_int then
        PInt (if startswith lexeme ''-'' then - int (dec_value (tl lexeme)) else int (dec_value lexeme))
      else PFloat (flt lexeme))"

definition literals :: "(string \<times> pyval) list" where
  "literals = [(''true'', PBool True), (''false'', PBool False), (''null'', PNone)]"

definition scan_literal :: "string \<Rightarrow> (nat \<times> pyval) option" where
  "scan_literal s = map_option (\<lambda>l. (length (fst l), snd l)) (find (\<lambda>l. startswith s (fst l)) literals)"

section \<open>The index of the scalars\<close>

datatype seg = Key string | Idx nat

record scalar_loc =
  sl_path :: "seg list"
  sl_start :: nat
  sl_end :: nat
  sl_value :: pyval

definition scalar_at :: "seg list \<Rightarrow> nat \<Rightarrow> nat \<Rightarrow> pyval \<Rightarrow> scalar_loc" where
  "scalar_at path i j v = \<lparr>sl_path = path, sl_start = i, sl_end = j, sl_value = v\<rparr>"

definition head_is :: "string \<Rightarrow> nat \<Rightarrow> bool" where
  "head_is s n \<longleftrightarrow> (case s of [] \<Rightarrow> False | c # _ \<Rightarrow> char_code c = n)"

type_synonym scan_result = "body_error + scalar_loc list \<times> nat \<times> string"

text \<open>A token that is not a container, at its offset.\<close>

definition scan_scalar :: "(string \<Rightarrow> string) \<Rightarrow> nat \<Rightarrow> string \<Rightarrow> body_error + pyval \<times> nat \<times> string" where
  "scan_scalar flt i s =
     (if head_is s 34 then rbind (scanstring (Suc i) (tl s)) (\<lambda>(v, j, r). Inr (PStr v, j, r))
      else (case scan_literal s of
          Some (k, v) \<Rightarrow> Inr (v, i + k, drop k s)
        | None \<Rightarrow>
            (case scan_number s of
               Some (raw, is_int, r) \<Rightarrow> Inr (number_value flt raw is_int, i + length raw, r)
             | None \<Rightarrow> Inl (BodyParseError i))))"

definition add_scalars :: "scalar_loc list \<Rightarrow> scan_result \<Rightarrow> scan_result" where
  "add_scalars ls r = rbind r (\<lambda>(ms, j, rest). Inr (ls @ ms, j, rest))"

text \<open>A key and its colon: the key, the offset and the text of the value.\<close>

definition scan_key :: "nat \<Rightarrow> string \<Rightarrow> body_error + string \<times> nat \<times> string" where
  "scan_key i s =
     (if \<not> head_is s 34 then Inl (BodyParseError i)
      else rbind (scanstring (Suc i) (tl s)) (\<lambda>(key, j, r).
        (case skip_ws j r of (j', r') \<Rightarrow>
           if \<not> head_is r' 58 then Inl (BodyParseError j')
           else (case skip_ws (Suc j') (tl r') of (j'', r'') \<Rightarrow> Inr (key, j'', r'')))))"

function (sequential) parse_value :: "(string \<Rightarrow> string) \<Rightarrow> nat \<Rightarrow> nat \<Rightarrow> string \<Rightarrow> seg list \<Rightarrow> scan_result"
and parse_members :: "(string \<Rightarrow> string) \<Rightarrow> nat \<Rightarrow> nat \<Rightarrow> string \<Rightarrow> seg list \<Rightarrow> scan_result"
and parse_items :: "(string \<Rightarrow> string) \<Rightarrow> nat \<Rightarrow> nat \<Rightarrow> string \<Rightarrow> seg list \<Rightarrow> nat \<Rightarrow> scan_result" where
  "parse_value flt 0 i s path = Inl NoFuel"
| "parse_value flt (Suc n) i s path =
     (if s = [] then Inl (BodyParseError i)
      else if head_is s 123 then
        (case skip_ws (Suc i) (tl s) of (j, r) \<Rightarrow>
           if head_is r 125 then Inr ([], Suc j, tl r) else parse_members flt n j r path)
      else if head_is s 91 then
        (case skip_ws (Suc i) (tl s) of (j, r) \<Rightarrow>
           if head_is r 93 then Inr ([], Suc j, tl r) else parse_items flt n j r path 0)
      else rbind (scan_scalar flt i s) (\<lambda>(v, j, r). Inr ([scalar_at path i j v], j, r)))"
| "parse_members flt 0 i s path = Inl NoFuel"
| "parse_members flt (Suc n) i s path =
     rbind (scan_key i s) (\<lambda>(key, j, r).
     rbind (parse_value flt n j r (path @ [Key key])) (\<lambda>(ls, k, t).
       (case skip_ws k t of (k', t') \<Rightarrow>
          if head_is t' 44 then
            (case skip_ws (Suc k') (tl t') of (m, u) \<Rightarrow> add_scalars ls (parse_members flt n m u path))
          else if head_is t' 125 then Inr (ls, Suc k', tl t')
          else Inl (BodyParseError k'))))"
| "parse_items flt 0 i s path idx = Inl NoFuel"
| "parse_items flt (Suc n) i s path idx =
     rbind (parse_value flt n i s (path @ [Idx idx])) (\<lambda>(ls, k, t).
       (case skip_ws k t of (k', t') \<Rightarrow>
          if head_is t' 44 then
            (case skip_ws (Suc k') (tl t') of (m, u) \<Rightarrow> add_scalars ls (parse_items flt n m u path (Suc idx)))
          else if head_is t' 93 then Inr (ls, Suc k', tl t')
          else Inl (BodyParseError k')))"
  by pat_completeness auto
termination
  by (relation "measure (\<lambda>x. case x of Inl (_, n, _) \<Rightarrow> n | Inr (Inl (_, n, _)) \<Rightarrow> n | Inr (Inr (_, n, _)) \<Rightarrow> n)") auto

definition scan_fuel :: "string \<Rightarrow> nat" where "scan_fuel s = 2 * length s + 2"

definition index_scalars :: "(string \<Rightarrow> string) \<Rightarrow> string \<Rightarrow> body_error + scalar_loc list" where
  "index_scalars flt text =
     (case skip_ws 0 text of (i, s) \<Rightarrow> rbind (parse_value flt (scan_fuel text) i s []) (\<lambda>(ls, _, _). Inr ls))"

section \<open>The document\<close>

text \<open>
  \<open>json.loads\<close>: the grammar of the standard library, with its three constants outside JSON. The
  pairs of an object are kept as written (\<open>load_value\<close>), then each object becomes a dict in which a
  later pair replaces the value of an earlier one (\<open>as_dicts\<close>).
\<close>

definition constants :: "(string \<times> string) list" where
  "constants = [(''NaN'', ''nan''), (''Infinity'', ''inf''), (''-Infinity'', ''-inf'')]"

definition load_scalar :: "(string \<Rightarrow> string) \<Rightarrow> nat \<Rightarrow> string \<Rightarrow> body_error + pyval \<times> nat \<times> string" where
  "load_scalar flt i s =
     (case scan_scalar flt i s of
        Inl (BodyParseError k) \<Rightarrow>
          (case find (\<lambda>c. startswith s (fst c)) constants of
             None \<Rightarrow> Inl (DecodeError i)
           | Some c \<Rightarrow> Inr (PFloat (snd c), i + length (fst c), drop (length (fst c)) s))
      | r \<Rightarrow> r)"

function (sequential) load_value :: "(string \<Rightarrow> string) \<Rightarrow> nat \<Rightarrow> nat \<Rightarrow> string \<Rightarrow> body_error + pyval \<times> nat \<times> string"
and load_members :: "(string \<Rightarrow> string) \<Rightarrow> nat \<Rightarrow> nat \<Rightarrow> string \<Rightarrow> body_error + (string \<times> pyval) list \<times> nat \<times> string"
and load_items :: "(string \<Rightarrow> string) \<Rightarrow> nat \<Rightarrow> nat \<Rightarrow> string \<Rightarrow> body_error + pyval list \<times> nat \<times> string" where
  "load_value flt 0 i s = Inl NoFuel"
| "load_value flt (Suc n) i s =
     (if s = [] then Inl (DecodeError i)
      else if head_is s 123 then
        (case skip_ws (Suc i) (tl s) of (j, r) \<Rightarrow>
           if head_is r 125 then Inr (PDict [], Suc j, tl r)
           else rbind (load_members flt n j r) (\<lambda>(d, k, t). Inr (PDict d, k, t)))
      else if head_is s 91 then
        (case skip_ws (Suc i) (tl s) of (j, r) \<Rightarrow>
           if head_is r 93 then Inr (PList [], Suc j, tl r)
           else rbind (load_items flt n j r) (\<lambda>(xs, k, t). Inr (PList xs, k, t)))
      else load_scalar flt i s)"
| "load_members flt 0 i s = Inl NoFuel"
| "load_members flt (Suc n) i s =
     rbind (scan_key i s) (\<lambda>(key, j, r).
     rbind (load_value flt n j r) (\<lambda>(v, k, t).
       (case skip_ws k t of (k', t') \<Rightarrow>
          if head_is t' 44 then
            (case skip_ws (Suc k') (tl t') of (m, u) \<Rightarrow>
              rbind (load_members flt n m u) (\<lambda>(d, l, w). Inr ((key, v) # d, l, w)))
          else if head_is t' 125 then Inr ([(key, v)], Suc k', tl t')
          else Inl (DecodeError k'))))"
| "load_items flt 0 i s = Inl NoFuel"
| "load_items flt (Suc n) i s =
     rbind (load_value flt n i s) (\<lambda>(v, k, t).
       (case skip_ws k t of (k', t') \<Rightarrow>
          if head_is t' 44 then
            (case skip_ws (Suc k') (tl t') of (m, u) \<Rightarrow>
              rbind (load_items flt n m u) (\<lambda>(xs, l, w). Inr (v # xs, l, w)))
          else if head_is t' 93 then Inr ([v], Suc k', tl t')
          else Inl (DecodeError k')))"
  by pat_completeness auto
termination
  by (relation "measure (\<lambda>x. case x of Inl (_, n, _) \<Rightarrow> n | Inr (Inl (_, n, _)) \<Rightarrow> n | Inr (Inr (_, n, _)) \<Rightarrow> n)") auto

fun as_dicts :: "pyval \<Rightarrow> pyval" where
  "as_dicts (PList xs) = PList (map as_dicts xs)"
| "as_dicts (PDict d) = PDict (foldl (\<lambda>e kv. py_set e (fst kv) (snd kv)) [] (map (\<lambda>kv. (fst kv, as_dicts (snd kv))) d))"
| "as_dicts v = v"

definition load_pairs :: "(string \<Rightarrow> string) \<Rightarrow> string \<Rightarrow> body_error + pyval" where
  "load_pairs flt text =
     (case skip_ws 0 text of (i, s) \<Rightarrow>
       rbind (load_value flt (scan_fuel text) i s) (\<lambda>(v, j, r).
         (case skip_ws j r of (k, t) \<Rightarrow> if t = [] then Inr v else Inl (DecodeError k))))"

definition body_loads :: "(string \<Rightarrow> string) \<Rightarrow> string \<Rightarrow> body_error + pyval" where
  "body_loads flt text = rbind (load_pairs flt text) (\<lambda>v. Inr (as_dicts v))"

text \<open>The scalars of a value with their paths, in document order.\<close>

fun index_leaves :: "nat \<Rightarrow> (seg list \<times> pyval) list list \<Rightarrow> (seg list \<times> pyval) list" where
  "index_leaves k [] = []"
| "index_leaves k (l # ls) = map (\<lambda>(p, v). (Idx k # p, v)) l @ index_leaves (Suc k) ls"

fun leaves :: "pyval \<Rightarrow> (seg list \<times> pyval) list" where
  "leaves (PList xs) = index_leaves 0 (map leaves xs)"
| "leaves (PDict d) = concat (map (\<lambda>kv. map (\<lambda>(p, v). (Key (fst kv) # p, v)) (leaves (snd kv))) d)"
| "leaves v = [([], v)]"

text \<open>No number of the document is one of the constants (or a float beyond the range).\<close>

fun finite_doc :: "pyval \<Rightarrow> bool" where
  "finite_doc (PFloat r) = (r \<notin> snd ` set constants)"
| "finite_doc (PList xs) = list_all finite_doc xs"
| "finite_doc (PDict d) = list_all (\<lambda>kv. finite_doc (snd kv)) d"
| "finite_doc v = True"

definition under :: "seg list \<Rightarrow> (seg list \<times> pyval) list \<Rightarrow> (seg list \<times> pyval) list" where
  "under path ls = map (\<lambda>(p, v). (path @ p, v)) ls"

definition located :: "scalar_loc list \<Rightarrow> (seg list \<times> pyval) list" where
  "located ls = map (\<lambda>l. (sl_path l, sl_value l)) ls"

lemma located_simps [simp]:
  "located [] = []" "located (ls @ ms) = located ls @ located ms" "located [scalar_at path i j v] = [(path, v)]"
  by (simp_all add: located_def scalar_at_def)

lemma under_simps [simp]:
  "under path [] = []" "under path (ls @ ms) = under path ls @ under path ms"
  "under (path @ [x]) ls = under path (map (\<lambda>(p, v). (x # p, v)) ls)" "under [] ls = ls"
  by (auto simp: under_def)

lemma scan_scalar_leaf: "scan_scalar flt i s = Inr (v, j, r) \<Longrightarrow> leaves v = [([], v)]"
  by (auto simp: scan_scalar_def scan_literal_def literals_def number_value_def rbind_Inr_iff split: if_splits option.splits)

lemma load_scalar_finite:
  "load_scalar flt i s = Inr (v, j, r) \<Longrightarrow> finite_doc v \<Longrightarrow> scan_scalar flt i s = Inr (v, j, r)"
  by (auto simp: load_scalar_def find_Some_iff split: sum.splits body_error.splits option.splits)

lemma lockstep:
  "load_value flt n i s = Inr (v, j, r) \<Longrightarrow> finite_doc v \<Longrightarrow>
     \<exists>ls. parse_value flt n i s path = Inr (ls, j, r) \<and> located ls = under path (leaves v)"
  "load_members flt n i s = Inr (d, j, r) \<Longrightarrow> list_all (\<lambda>kv. finite_doc (snd kv)) d \<Longrightarrow>
     \<exists>ls. parse_members flt n i s path = Inr (ls, j, r) \<and> located ls = under path (leaves (PDict d))"
  "load_items flt n i s = Inr (xs, j, r) \<Longrightarrow> list_all finite_doc xs \<Longrightarrow>
     \<exists>ls. parse_items flt n i s path idx = Inr (ls, j, r) \<and> located ls = under path (index_leaves idx (map leaves xs))"
proof (induction flt n i s and flt n i s and flt n i s arbitrary: v d xs j r path and v d xs j r path and v d xs j r path idx
    rule: load_value_load_members_load_items.induct)
  case (2 flt n i s)
  show ?case
  proof (cases "s = [] \<or> head_is s 123 \<or> head_is s 91")
    case False
    then have "scan_scalar flt i s = Inr (v, j, r)" using 2 load_scalar_finite by simp
    then show ?thesis using False scan_scalar_leaf [of flt i s v j r] by (simp add: under_def)
  next
    case True
    then show ?thesis using 2 by (auto simp: rbind_Inr_iff split: if_splits prod.splits)
  qed
next
  case (4 flt n i s)
  obtain key a b w k t where k: "scan_key i s = Inr (key, a, b)" and w: "load_value flt n a b = Inr (w, k, t)"
    using "4.prems"(1) by (auto simp: rbind_Inr_iff)
  obtain k' t' where ws: "skip_ws k t = (k', t')" by fastforce
  show ?case
  proof (cases "head_is t' 44")
    case False
    then have "d = [(key, w)]" "head_is t' 125" "j = Suc k'" "r = tl t'" using "4.prems"(1) k w ws by (auto split: if_splits)
    then show ?thesis using "4.IH"(1) [OF k refl refl w, of "path @ [Key key]"] "4.prems"(2) False k ws by auto
  next
    case True
    obtain m u where m: "skip_ws (Suc k') (tl t') = (m, u)" by fastforce
    obtain e where e: "load_members flt n m u = Inr (e, j, r)" "d = (key, w) # e"
      using "4.prems"(1) k w ws True m by (auto simp: rbind_Inr_iff)
    obtain ls where ls: "parse_value flt n a b (path @ [Key key]) = Inr (ls, k, t)" "located ls = under (path @ [Key key]) (leaves w)"
      using "4.IH"(1) [OF k refl refl w, of "path @ [Key key]"] "4.prems"(2) e(2) by auto
    obtain ms where "parse_members flt n m u path = Inr (ms, j, r)" "located ms = under path (leaves (PDict e))"
      using "4.IH"(2) [OF k refl refl w refl refl ws [symmetric] True m [symmetric] e(1), of path] "4.prems"(2) e(2) by auto
    then show ?thesis using k ls ws True m e(2) by (auto simp: add_scalars_def)
  qed
next
  case (6 flt n i s)
  obtain w k t where w: "load_value flt n i s = Inr (w, k, t)" using "6.prems"(1) by (auto simp: rbind_Inr_iff)
  obtain k' t' where ws: "skip_ws k t = (k', t')" by fastforce
  show ?case
  proof (cases "head_is t' 44")
    case False
    then have "xs = [w]" "head_is t' 93" "j = Suc k'" "r = tl t'" using "6.prems"(1) w ws by (auto split: if_splits)
    then show ?thesis using "6.IH"(1) [OF w, of "path @ [Idx idx]"] "6.prems"(2) False ws by auto
  next
    case True
    obtain m u where m: "skip_ws (Suc k') (tl t') = (m, u)" by fastforce
    obtain e where e: "load_items flt n m u = Inr (e, j, r)" "xs = w # e"
      using "6.prems"(1) w ws True m by (auto simp: rbind_Inr_iff)
    obtain ls where ls: "parse_value flt n i s (path @ [Idx idx]) = Inr (ls, k, t)" "located ls = under (path @ [Idx idx]) (leaves w)"
      using "6.IH"(1) [OF w, of "path @ [Idx idx]"] "6.prems"(2) e(2) by auto
    obtain ms where "parse_items flt n m u path (Suc idx) = Inr (ms, j, r)" "located ms = under path (index_leaves (Suc idx) (map leaves e))"
      using "6.IH"(2) [OF w refl refl ws [symmetric] True m [symmetric] e(1), of path "Suc idx"] "6.prems"(2) e(2) by auto
    then show ?thesis using ls ws True m e(2) by (auto simp: add_scalars_def)
  qed
qed simp_all

section \<open>Spans\<close>

lemma skip_ws_consumes: "skip_ws i s = (j, r) \<Longrightarrow> \<exists>c. s = c @ r \<and> j = i + length c"
proof (induction i s rule: skip_ws.induct)
  case (2 i c s)
  then show ?case by (fastforce split: if_splits intro: exI [of _ "c # d" for d])
qed simp

lemma head_is_tl: "head_is s n \<Longrightarrow> \<exists>c. s = c # tl s \<and> char_code c = n"
  by (cases s) (simp_all add: head_is_def)

lemma scanstring_consumes:
  "scanstring i s = Inr (v, j, r) \<Longrightarrow>
   \<exists>c. s = c @ r \<and> j = i + length c \<and> (\<forall>k r'. scanstring k (c @ r') = Inr (v, k + length c, r'))"
proof (induction i s arbitrary: v j rule: scanstring.induct)
  case (2 i c s)
  consider (quote) "char_code c = 34" | (escape) "char_code c = 92" | (plain) "char_code c \<noteq> 34" "char_code c \<noteq> 92" "\<not> char_code c < 32"
    using "2.prems" by (auto split: if_splits)
  then show ?case
  proof cases
    case quote
    then show ?thesis using "2.prems" by (auto intro: exI [of _ "[c]"])
  next
    case plain
    then obtain w where w: "scanstring (Suc i) s = Inr (w, j, r)" "v = c # w"
      using "2.prems" by (auto simp: scan_cons_def rbind_Inr_iff)
    obtain d where "s = d @ r" "j = Suc i + length d" "\<forall>k r'. scanstring k (d @ r') = Inr (w, k + length d, r')"
      using "2.IH"(3) [OF _ _ _ w(1)] plain by auto
    then show ?thesis using plain w(2) by (intro exI [of _ "c # d"]) (simp add: scan_cons_def)
  next
    case escape
    then obtain e t where s: "s = e # t" using "2.prems" by (cases s) auto
    show ?thesis
    proof (cases "char_code e = 117")
      case False
      then obtain x w where x: "simple_escape e = Some x" "scanstring (i + 2) t = Inr (w, j, r)" "v = x # w"
        using "2.prems" escape s by (auto simp: scan_cons_def rbind_Inr_iff split: option.splits)
      obtain d where "t = d @ r" "j = i + 2 + length d" "\<forall>k r'. scanstring k (d @ r') = Inr (w, k + length d, r')"
        using "2.IH"(2) [OF _ escape s False x(1,2)] escape by auto
      then show ?thesis using escape s False x by (intro exI [of _ "c # e # d"]) (simp add: scan_cons_def)
    next
      case True
      then obtain a1 a2 a3 a4 u n w where t: "t = a1 # a2 # a3 # a4 # u" "hex4 a1 a2 a3 a4 = Some n" "n < 256"
        "scanstring (i + 6) u = Inr (w, j, r)" "v = char_of n # w"
        using "2.prems" escape s by (auto simp: scan_cons_def rbind_Inr_iff split: option.splits list.splits if_splits)
      obtain d where "u = d @ r" "j = i + 6 + length d" "\<forall>k r'. scanstring k (d @ r') = Inr (w, k + length d, r')"
        using "2.IH"(1) [OF _ escape s True t(1) refl refl refl t(2-4)] escape by auto
      then show ?thesis using escape s True t by (intro exI [of _ "c # e # a1 # a2 # a3 # a4 # d"]) (simp add: scan_cons_def)
    qed
  qed
qed simp

lemma span_digits_ext:
  "span_digits s = (ds, u) \<Longrightarrow> s = ds @ u \<and> list_all is_digit ds"
  "list_all is_digit ds \<Longrightarrow> x = [] \<or> \<not> is_digit (hd x) \<Longrightarrow> span_digits (ds @ x) = (ds, x)"
  by (auto simp: span_digits_def list_all_iff dest: set_takeWhileD) (cases x; simp)+

lemma scan_int_ext:
  assumes "scan_int s = Some (n, t)"
  shows "s = n @ t \<and> n \<noteq> []" "x = [] \<or> \<not> is_digit (hd x) \<Longrightarrow> scan_int (n @ x) = Some (n, x)"
proof -
  let ?sign = "case s of c # _ \<Rightarrow> if c = CHR ''-'' then [c] else [] | [] \<Rightarrow> []"
  obtain c u where r: "s = ?sign @ c # u" "c \<noteq> CHR ''-'' \<or> ?sign \<noteq> []"
    and n: "if c = CHR ''0'' then n = ?sign @ [c] \<and> t = u
      else is_digit c \<and> (\<exists>ds. span_digits u = (ds, t) \<and> n = ?sign @ c # ds)"
    using assms by (auto simp: scan_int_def Let_def split: list.splits if_splits prod.splits)
  have sign: "?sign = [] \<or> ?sign = [CHR ''-'']" by (auto split: list.splits)
  show "s = n @ t \<and> n \<noteq> []"
    using r(1) n span_digits_ext(1) [of u] by (auto split: if_splits)
  assume x: "x = [] \<or> \<not> is_digit (hd x)"
  show "scan_int (n @ x) = Some (n, x)"
    using sign r(2) n span_digits_ext(1) [of u _ t] span_digits_ext(2) [OF _ x]
    by (auto simp: scan_int_def Let_def split: if_splits)
qed

lemma scan_frac_ext:
  "scan_frac s = (f, u) \<Longrightarrow> s = f @ u \<and> (f = [] \<or> hd f = CHR ''.'')"
  "scan_frac s = (f, u) \<Longrightarrow> x = [] \<or> \<not> is_digit (hd x) \<and> hd x \<noteq> CHR ''.'' \<Longrightarrow> scan_frac (f @ x) = (f, x)"
  using span_digits_ext(1) span_digits_ext(2) [of _ x]
  by (auto simp: scan_frac_def split: list.splits if_splits prod.splits)

lemma scan_exp_lexeme:
  assumes "c = CHR ''e'' \<or> c = CHR ''E''" "sign \<in> {[], ''-'', ''+''}" "list_all is_digit ds" "ds \<noteq> []" "x = [] \<or> \<not> is_digit (hd x)"
  shows "scan_exp (c # sign @ ds @ x) = (c # sign @ ds, x)"
proof -
  obtain d es where ds: "ds = d # es" "is_digit d" using assms(3,4) by (cases ds) auto
  then have "d \<noteq> CHR ''-''" "d \<noteq> CHR ''+''" by (auto simp: is_digit_def char_code_def)
  then show ?thesis using assms ds span_digits_ext(2) [OF assms(3,5)] by (auto simp: scan_exp_def Let_def)
qed

text \<open>What may follow a number: nothing, or a character that does not continue it.\<close>

definition ends_number :: "string \<Rightarrow> bool" where
  "ends_number x \<longleftrightarrow> (case x of [] \<Rightarrow> True | c # _ \<Rightarrow> \<not> is_digit c \<and> c \<noteq> CHR ''.'' \<and> c \<noteq> CHR ''e'' \<and> c \<noteq> CHR ''E'')"

lemma scan_exp_ext:
  assumes "scan_exp s = (e, u)"
  shows "s = e @ u \<and> (e = [] \<or> hd e = CHR ''e'' \<or> hd e = CHR ''E'')" "ends_number x \<Longrightarrow> scan_exp (e @ x) = (e, x)"
proof -
  consider "e = []" "u = s" | c sign ds where "c = CHR ''e'' \<or> c = CHR ''E''" "sign \<in> {[], ''-'', ''+''}"
    "span_digits (drop (length sign) (tl s)) = (ds, u)" "ds \<noteq> []" "e = c # sign @ ds" "s = c # sign @ drop (length sign) (tl s)"
  proof (cases "e = []")
    case True
    then show ?thesis using assms that(1) by (auto simp: scan_exp_def Let_def split: list.splits if_splits prod.splits)
  next
    case False
    then obtain c t where s: "s = c # t" "c = CHR ''e'' \<or> c = CHR ''E''"
      using assms by (auto simp: scan_exp_def split: list.splits if_splits)
    define sign where "sign = (case t of d # _ \<Rightarrow> if d = CHR ''-'' \<or> d = CHR ''+'' then [d] else [] | [] \<Rightarrow> [])"
    have g: "sign \<in> {[], ''-'', ''+''}" "t = sign @ drop (length sign) t" by (auto simp: sign_def split: list.splits)
    obtain ds w where ds: "span_digits (drop (length sign) t) = (ds, w)" by fastforce
    then have "ds \<noteq> []" "e = c # sign @ ds" "w = u"
      using assms s False unfolding scan_exp_def Let_def sign_def [symmetric] by (auto simp flip: sign_def split: if_splits)
    then show ?thesis using that(2) [OF s(2) g(1)] ds s(1) g(2) by simp
  qed
  then have "(s = e @ u \<and> (e = [] \<or> hd e = CHR ''e'' \<or> hd e = CHR ''E'')) \<and> (ends_number x \<longrightarrow> scan_exp (e @ x) = (e, x))"
  proof cases
    case 1
    then show ?thesis by (auto simp: scan_exp_def ends_number_def split: list.splits)
  next
    case 2
    have ds: "drop (length sign) (tl s) = ds @ u" "list_all is_digit ds" using span_digits_ext(1) [OF 2(3)] by simp_all
    have "s = e @ u" by (subst 2(6), simp only: ds(1) 2(5) append_Cons append_assoc)
    moreover have "scan_exp (e @ x) = (e, x)" if "ends_number x"
      using scan_exp_lexeme [OF 2(1,2) ds(2) 2(4), of x] that 2(5) by (auto simp: ends_number_def split: list.splits)
    ultimately show ?thesis using 2(1,5) by auto
  qed
  then show "s = e @ u \<and> (e = [] \<or> hd e = CHR ''e'' \<or> hd e = CHR ''E'')" "ends_number x \<Longrightarrow> scan_exp (e @ x) = (e, x)" by blast+
qed

lemma scan_number_ext:
  assumes "scan_number s = Some (raw, is_int, r)"
  shows "s = raw @ r \<and> raw \<noteq> []" "ends_number x \<Longrightarrow> scan_number (raw @ x) = Some (raw, is_int, x)"
proof -
  obtain n t f u e where i: "scan_int s = Some (n, t)" and f: "scan_frac t = (f, u)" and e: "scan_exp u = (e, r)"
    and raw: "raw = n @ f @ e" "is_int = (f = [] \<and> e = [])"
    using assms by (auto simp: scan_number_def split: option.splits prod.splits)
  show "s = raw @ r \<and> raw \<noteq> []"
    using scan_int_ext(1) [OF i] scan_frac_ext(1) [OF f] scan_exp_ext(1) [OF e] raw by simp
  assume x: "ends_number x"
  have d: "\<not> is_digit (CHR ''.'')" "\<not> is_digit (CHR ''e'')" "\<not> is_digit (CHR ''E'')" by (simp_all add: is_digit_def char_code_def)
  have xf: "f = [] \<or> hd f = CHR ''.''" and xe: "e = [] \<or> hd e = CHR ''e'' \<or> hd e = CHR ''E''"
    using scan_frac_ext(1) [OF f] scan_exp_ext(1) [OF e] by simp_all
  have x': "e @ x = [] \<or> \<not> is_digit (hd (e @ x)) \<and> hd (e @ x) \<noteq> CHR ''.''"
    using x xe d by (cases e; cases x) (auto simp: ends_number_def)
  then have "scan_frac (f @ e @ x) = (f, e @ x)" by (rule scan_frac_ext(2) [OF f])
  moreover have "scan_int (n @ f @ e @ x) = Some (n, f @ e @ x)"
    by (rule scan_int_ext(2) [OF i]) (use xf x' d in \<open>cases f; auto\<close>)
  ultimately show "scan_number (raw @ x) = Some (raw, is_int, x)"
    using scan_exp_ext(2) [OF e x] raw by (simp add: scan_number_def)
qed

lemma scan_number_consumes:
  "scan_number s = Some (raw, is_int, r) \<Longrightarrow> s = raw @ r \<and> raw \<noteq> [] \<and> scan_number raw = Some (raw, is_int, [])"
  using scan_number_ext(1) [of s raw is_int r] scan_number_ext(2) [of s raw is_int r "[]"] by (simp add: ends_number_def)

lemma scan_scalar_consumes:
  assumes "scan_scalar flt i s = Inr (v, j, r)"
  shows "\<exists>c. s = c @ r \<and> c \<noteq> [] \<and> j = i + length c \<and> (\<forall>k. scan_scalar flt k c = Inr (v, k + length c, []))"
proof -
  consider (quoted) w where "head_is s 34" "scanstring (Suc i) (tl s) = Inr (w, j, r)" "v = PStr w"
    | (literal) k where "\<not> head_is s 34" "scan_literal s = Some (k, v)" "j = i + k" "r = drop k s"
    | (number) raw is_int where "\<not> head_is s 34" "scan_literal s = None" "scan_number s = Some (raw, is_int, r)"
        "v = number_value flt raw is_int" "j = i + length raw"
    using assms by (auto simp: scan_scalar_def rbind_Inr_iff split: if_splits option.splits prod.splits)
  then show ?thesis
  proof cases
    case quoted
    obtain q where q: "s = q # tl s" "char_code q = 34" using head_is_tl [OF quoted(1)] by blast
    obtain c where c: "tl s = c @ r" "j = Suc i + length c" "\<forall>k r'. scanstring k (c @ r') = Inr (w, k + length c, r')"
      using scanstring_consumes [OF quoted(2)] by blast
    have "\<forall>k. scan_scalar flt k (q # c) = Inr (v, k + length (q # c), [])"
      using c(3) [rule_format, of _ "[]"] q(2) quoted(3) by (simp add: scan_scalar_def head_is_def)
    then show ?thesis using q c by (intro exI [of _ "q # c"]) auto
  next
    case literal
    then obtain l where l: "find (\<lambda>l. startswith s (fst l)) literals = Some l" "k = length (fst l)" "v = snd l"
      by (auto simp: scan_literal_def)
    then have "s = fst l @ r" using literal(4) by (auto simp: find_Some_iff startswith_iff)
    moreover have "l \<in> set literals" using l(1) by (auto simp: find_Some_iff)
    then have "fst l \<noteq> [] \<and> (\<forall>k. scan_scalar flt k (fst l) = Inr (v, k + length (fst l), []))"
      using l(3) by (auto simp: literals_def scan_scalar_def scan_literal_def head_is_def char_code_def)
    ultimately show ?thesis using literal(3) l(2) by (intro exI [of _ "fst l"]) simp
  next
    case number
    note n = scan_number_consumes [OF number(3)]
    have "scan_literal raw = None"
      using number(2) n by (auto simp: scan_literal_def find_None_iff startswith_iff)
    moreover have "\<not> head_is raw 34" using number(1) n by (cases raw) (auto simp: head_is_def)
    ultimately show ?thesis using n number(4,5) by (intro exI [of _ raw]) (simp add: scan_scalar_def)
  qed
qed

lemma scan_key_consumes:
  assumes "scan_key i s = Inr (key, j, r)"
  shows "\<exists>c. s = c @ r \<and> j = i + length c \<and> length c \<noteq> 0"
proof -
  have h: "head_is s 34" using assms by (auto simp: scan_key_def split: if_splits)
  then obtain w a b where w: "scanstring (Suc i) (tl s) = Inr (w, a, b)"
    using assms by (auto simp: scan_key_def rbind_Inr_iff)
  obtain a' b' where ws: "skip_ws a b = (a', b')" by fastforce
  have k: "head_is s 34" "scanstring (Suc i) (tl s) = Inr (key, a, b)" "skip_ws a b = (a', b')" "head_is b' 58"
    "skip_ws (Suc a') (tl b') = (j, r)"
    using assms h w ws by (auto simp: scan_key_def split: if_splits prod.splits)
  obtain q where "s = q # tl s" using head_is_tl [OF k(1)] by blast
  moreover obtain p where "b' = p # tl b'" using head_is_tl [OF k(4)] by blast
  moreover obtain c d e where "tl s = c @ b" "a = Suc i + length c" "b = d @ b'" "a' = a + length d" "tl b' = e @ r" "j = Suc a' + length e"
    using scanstring_consumes [OF k(2)] skip_ws_consumes [OF k(3)] skip_ws_consumes [OF k(5)] by blast
  ultimately show ?thesis by (intro exI [of _ "q # c @ d @ p # e"]) (metis append.assoc append_Cons length_Cons length_append add_Suc_right add_Suc add.assoc nat.distinct(1))
qed

text \<open>The spans of \<open>ls\<close> in the text \<open>c\<close> that starts at offset \<open>i\<close>: in order, disjoint, each one the token of its value.\<close>

definition token_at :: "(string \<Rightarrow> string) \<Rightarrow> nat \<Rightarrow> string \<Rightarrow> scalar_loc \<Rightarrow> bool" where
  "token_at flt i c l \<longleftrightarrow> i \<le> sl_start l \<and> sl_start l < sl_end l \<and> sl_end l \<le> i + length c \<and>
     scan_scalar flt 0 (take (sl_end l - sl_start l) (drop (sl_start l - i) c)) = Inr (sl_value l, sl_end l - sl_start l, [])"

definition spans :: "(string \<Rightarrow> string) \<Rightarrow> nat \<Rightarrow> string \<Rightarrow> scalar_loc list \<Rightarrow> bool" where
  "spans flt i c ls \<longleftrightarrow> list_all (token_at flt i c) ls \<and> sorted_wrt (\<lambda>a b. sl_end a \<le> sl_start b) ls"

lemma spans_Nil [simp]: "spans flt i c []"
  by (simp add: spans_def)

lemma token_at_left: "token_at flt i c l \<Longrightarrow> token_at flt i (c @ d) l"
  by (auto simp: token_at_def)

lemma token_at_right: "token_at flt (i + length c) d l \<Longrightarrow> token_at flt i (c @ d) l"
  by (auto simp: token_at_def)

lemma spans_append:
  assumes "spans flt i c ls" "spans flt (i + length c) d ms"
  shows "spans flt i (c @ d) (ls @ ms)"
proof -
  have "sl_end a \<le> sl_start b" if "a \<in> set ls" "b \<in> set ms" for a b
    using assms that unfolding spans_def list_all_iff token_at_def by (metis le_trans)
  then show ?thesis using assms
    by (auto simp: spans_def list_all_iff sorted_wrt_append token_at_left token_at_right)
qed

lemma spans_skip: "spans flt (i + length c) d ls \<Longrightarrow> spans flt i (c @ d) ls" "spans flt i c ls \<Longrightarrow> spans flt i (c @ d) ls"
  using spans_append [of flt i c "[]" d ls] spans_append [of flt i c ls d "[]"] by simp_all

text \<open>What a successful scan consumed.\<close>

definition consumed :: "(string \<Rightarrow> string) \<Rightarrow> nat \<Rightarrow> string \<Rightarrow> scalar_loc list \<Rightarrow> nat \<Rightarrow> string \<Rightarrow> bool" where
  "consumed flt i s ls j r \<longleftrightarrow> (\<exists>c. s = c @ r \<and> j = i + length c \<and> spans flt i c ls)"

lemma consumed_trans: "consumed flt i s ls j r \<Longrightarrow> consumed flt j r ms k t \<Longrightarrow> consumed flt i s (ls @ ms) k t"
  unfolding consumed_def by (metis append.assoc length_append add.assoc spans_append)

lemma consumed_skip:
  "skip_ws i s = (j, r) \<Longrightarrow> consumed flt i s [] j r"
  "head_is s n \<Longrightarrow> consumed flt i s [] (Suc i) (tl s)"
  "scan_key i s = Inr (key, j, r) \<Longrightarrow> consumed flt i s [] j r"
proof -
  show "skip_ws i s = (j, r) \<Longrightarrow> consumed flt i s [] j r" using skip_ws_consumes by (fastforce simp: consumed_def)
  show "head_is s n \<Longrightarrow> consumed flt i s [] (Suc i) (tl s)"
    using head_is_tl by (fastforce simp: consumed_def intro: exI [of _ "[c]" for c])
  show "scan_key i s = Inr (key, j, r) \<Longrightarrow> consumed flt i s [] j r" using scan_key_consumes by (fastforce simp: consumed_def)
qed

lemma consumed_scalar:
  assumes "scan_scalar flt i s = Inr (v, j, r)"
  shows "consumed flt i s [scalar_at path i j v] j r"
proof -
  obtain c where "s = c @ r" "c \<noteq> []" "j = i + length c" "scan_scalar flt 0 c = Inr (v, length c, [])"
    using scan_scalar_consumes [OF assms] by (metis add_0)
  then show ?thesis by (auto simp: consumed_def spans_def token_at_def scalar_at_def)
qed

lemma separator_consumed:
  assumes "(case skip_ws k t of (k', t') \<Rightarrow>
      if head_is t' 44 then (case skip_ws (Suc k') (tl t') of (m, u) \<Rightarrow> add_scalars ms (rest m u))
      else if head_is t' e then Inr (ms, Suc k', tl t') else Inl (BodyParseError k')) = Inr (ls, j, r)"
    and "consumed flt i s ms k t"
    and "\<And>k' t' m u ns. (k', t') = skip_ws k t \<Longrightarrow> head_is t' 44 \<Longrightarrow> (m, u) = skip_ws (Suc k') (tl t') \<Longrightarrow>
      rest m u = Inr (ns, j, r) \<Longrightarrow> consumed flt m u ns j r"
  shows "consumed flt i s ls j r"
proof -
  obtain k' t' where ws: "skip_ws k t = (k', t')" by fastforce
  have c: "consumed flt i s ms k' t'" using consumed_trans [OF assms(2) consumed_skip(1) [OF ws]] by simp
  show ?thesis
  proof (cases "head_is t' 44")
    case False
    then have "ls = ms" "head_is t' e" "j = Suc k'" "r = tl t'" using assms(1) ws by (auto split: if_splits)
    then show ?thesis using consumed_trans [OF c consumed_skip(2)] by simp
  next
    case True
    obtain m u where m: "skip_ws (Suc k') (tl t') = (m, u)" by fastforce
    obtain ns where "rest m u = Inr (ns, j, r)" "ls = ms @ ns"
      using assms(1) ws True m by (auto simp: rbind_Inr_iff add_scalars_def)
    moreover have "consumed flt i s ms m u"
      using consumed_trans [OF consumed_trans [OF c consumed_skip(2) [OF True]] consumed_skip(1) [OF m]] by simp
    ultimately show ?thesis using consumed_trans assms(3) [OF ws [symmetric] True m [symmetric]] by blast
  qed
qed

lemma brackets_consumed:
  assumes "(case skip_ws (Suc i) (tl s) of (a, b) \<Rightarrow> if head_is b e then Inr ([], Suc a, tl b) else inner a b) = Inr (ls, j, r)"
    and "head_is s n"
    and "\<And>a b. (a, b) = skip_ws (Suc i) (tl s) \<Longrightarrow> \<not> head_is b e \<Longrightarrow> inner a b = Inr (ls, j, r) \<Longrightarrow> consumed flt a b ls j r"
  shows "consumed flt i s ls j r"
proof -
  obtain a b where ws: "skip_ws (Suc i) (tl s) = (a, b)" by fastforce
  then have "consumed flt a b ls j r"
    using assms(1,3) consumed_skip(2) [of b e] by (auto split: if_splits)
  then show ?thesis using consumed_trans [OF consumed_trans [OF consumed_skip(2) [OF assms(2)] consumed_skip(1) [OF ws]]] by simp
qed

lemma parse_consumed:
  "parse_value flt n i s path = Inr (ls, j, r) \<Longrightarrow> consumed flt i s ls j r"
  "parse_members flt n i s path = Inr (ls, j, r) \<Longrightarrow> consumed flt i s ls j r"
  "parse_items flt n i s path idx = Inr (ls, j, r) \<Longrightarrow> consumed flt i s ls j r"
proof (induction flt n i s path and flt n i s path and flt n i s path idx arbitrary: ls j r and ls j r and ls j r
    rule: parse_value_parse_members_parse_items.induct)
  case (2 flt n i s path)
  have ne: "s \<noteq> []" using "2.prems" by auto
  consider (obj) "head_is s 123" | (arr) "\<not> head_is s 123" "head_is s 91" | (scal) "\<not> head_is s 123" "\<not> head_is s 91" by blast
  then show ?case
  proof cases
    case obj
    then show ?thesis using "2.prems" ne by (auto intro!: brackets_consumed [OF _ obj] "2.IH"(1) [OF ne obj])
  next
    case arr
    then show ?thesis using "2.prems" ne by (auto intro!: brackets_consumed [OF _ arr(2)] "2.IH"(2) [OF ne arr])
  next
    case scal
    then obtain v where "scan_scalar flt i s = Inr (v, j, r)" "ls = [scalar_at path i j v]"
      using "2.prems" ne by (auto simp: rbind_Inr_iff)
    then show ?thesis by (simp add: consumed_scalar)
  qed
next
  case (4 flt n i s path)
  obtain key a b ms k t where k: "scan_key i s = Inr (key, a, b)" and v: "parse_value flt n a b (path @ [Key key]) = Inr (ms, k, t)"
    using "4.prems" by (auto simp: rbind_Inr_iff)
  have "consumed flt i s ms k t" using consumed_trans [OF consumed_skip(3) [OF k] "4.IH"(1) [OF k refl refl v]] by simp
  then show ?case using separator_consumed [OF _ _ "4.IH"(2) [OF k refl refl v refl refl]] "4.prems" k v by simp
next
  case (6 flt n i s path idx)
  obtain ms k t where v: "parse_value flt n i s (path @ [Idx idx]) = Inr (ms, k, t)"
    using "6.prems" by (auto simp: rbind_Inr_iff)
  show ?case using separator_consumed [OF _ "6.IH"(1) [OF v] "6.IH"(2) [OF v refl refl]] "6.prems" v by simp
qed simp_all

lemma scan_cons_no_fuel [simp]: "scan_cons c r = Inl NoFuel \<longleftrightarrow> r = Inl NoFuel"
  by (auto simp: scan_cons_def rbind_Inl_iff)

lemma scan_no_fuel: "scanstring i s \<noteq> Inl NoFuel" "scan_scalar flt i s \<noteq> Inl NoFuel" "scan_key i s \<noteq> Inl NoFuel"
proof -
  show g: "scanstring i s \<noteq> Inl NoFuel" for i s
  proof (induction i s rule: scanstring.induct)
    case (2 i c s)
    show ?case
    proof (cases "char_code c = 92")
      case False
      then show ?thesis using "2.IH"(3) by simp
    next
      case escape: True
      show ?thesis
      proof (cases s)
        case (Cons e t)
        show ?thesis
        proof (cases "char_code e = 117")
          case False
          then show ?thesis using "2.IH"(2) [OF _ escape Cons False] escape Cons by (simp split: option.split)
        next
          case True
          then show ?thesis using "2.IH"(1) [OF _ escape Cons True] escape Cons by (simp split: list.split option.split)
        qed
      qed (use escape in simp)
    qed
  qed simp
  then show "scan_scalar flt i s \<noteq> Inl NoFuel" "scan_key i s \<noteq> Inl NoFuel"
    by (auto simp: scan_scalar_def scan_key_def rbind_Inl_iff split: option.splits prod.splits)
qed

lemma consumed_length: "consumed flt i s ls j r \<Longrightarrow> length r \<le> length s"
  by (auto simp: consumed_def)

lemma lengths:
  "skip_ws i s = (j, r) \<Longrightarrow> length r \<le> length s"
  "head_is s n \<Longrightarrow> Suc (length (tl s)) = length s"
  "scan_key i s = Inr (key, j, r) \<Longrightarrow> length r < length s"
proof -
  show "skip_ws i s = (j, r) \<Longrightarrow> length r \<le> length s" using skip_ws_consumes by fastforce
  show "head_is s n \<Longrightarrow> Suc (length (tl s)) = length s" by (cases s) (simp_all add: head_is_def)
  show "scan_key i s = Inr (key, j, r) \<Longrightarrow> length r < length s" using scan_key_consumes by fastforce
qed

lemma separator_fuel:
  assumes "(case skip_ws k t of (k', t') \<Rightarrow>
      if head_is t' 44 then (case skip_ws (Suc k') (tl t') of (m, u) \<Rightarrow> add_scalars ms (rest m u))
      else if head_is t' e then Inr (ms, Suc k', tl t') else Inl (BodyParseError k')) = Inl NoFuel"
  shows "\<exists>k' t' m u. (k', t') = skip_ws k t \<and> head_is t' 44 \<and> (m, u) = skip_ws (Suc k') (tl t') \<and> length u < length t \<and> rest m u = Inl NoFuel"
proof -
  obtain k' t' where ws: "skip_ws k t = (k', t')" by fastforce
  obtain m u where m: "skip_ws (Suc k') (tl t') = (m, u)" by fastforce
  have "head_is t' 44" "rest m u = Inl NoFuel" using assms ws m by (auto simp: add_scalars_def rbind_Inl_iff split: if_splits)
  moreover have "length u < length t" using lengths(1) [OF ws] lengths(1) [OF m] lengths(2) [OF calculation(1)] by simp
  ultimately show ?thesis using ws m by metis
qed

lemma parse_fuel:
  "2 * length s < n \<Longrightarrow> parse_value flt n i s path \<noteq> Inl NoFuel"
  "2 * length s < n \<Longrightarrow> parse_members flt n i s path \<noteq> Inl NoFuel"
  "2 * length s + 1 < n \<Longrightarrow> parse_items flt n i s path idx \<noteq> Inl NoFuel"
proof (induction flt n i s path and flt n i s path and flt n i s path idx rule: parse_value_parse_members_parse_items.induct)
  case (2 flt n i s path)
  obtain a b where ws: "skip_ws (Suc i) (tl s) = (a, b)" by fastforce
  show ?case
  proof (cases "s = []")
    case False
    then have "2 * length b + 1 < n" using lengths(1) [OF ws] "2.prems" by (cases s) auto
    then show ?thesis using "2.IH"(1) [OF False _ ws [symmetric]] "2.IH"(2) [OF False _ _ ws [symmetric]] ws scan_no_fuel(2) [of flt i s]
      by (auto simp: rbind_Inl_iff)
  qed simp
next
  case (4 flt n i s path)
  show ?case
  proof
    assume a: "parse_members flt (Suc n) i s path = Inl NoFuel"
    obtain key x b where k: "scan_key i s = Inr (key, x, b)"
      using a scan_no_fuel(3) [of i s] by (auto simp: rbind_Inl_iff)
    note l = lengths(3) [OF k]
    obtain ms k' t where v: "parse_value flt n x b (path @ [Key key]) = Inr (ms, k', t)"
      using a k l "4.IH"(1) [OF k refl refl] "4.prems" by (auto simp: rbind_Inl_iff)
    note lt = consumed_length [OF parse_consumed(1) [OF v]]
    have sep: "(case skip_ws k' t of (k', t') \<Rightarrow>
        if head_is t' 44 then (case skip_ws (Suc k') (tl t') of (m, u) \<Rightarrow> add_scalars ms (parse_members flt n m u path))
        else if head_is t' 125 then Inr (ms, Suc k', tl t') else Inl (BodyParseError k')) = Inl NoFuel"
      using a k v by simp
    obtain k'' t' m u where "(k'', t') = skip_ws k' t" "head_is t' 44" "(m, u) = skip_ws (Suc k'') (tl t')" "length u < length t"
      "parse_members flt n m u path = Inl NoFuel"
      using separator_fuel [OF sep] by blast
    then show False using "4.IH"(2) [OF k refl refl v refl refl] l lt "4.prems" by fastforce
  qed
next
  case (6 flt n i s path idx)
  show ?case
  proof
    assume a: "parse_items flt (Suc n) i s path idx = Inl NoFuel"
    obtain ms k' t where v: "parse_value flt n i s (path @ [Idx idx]) = Inr (ms, k', t)"
      using a "6.IH"(1) "6.prems" by (auto simp: rbind_Inl_iff)
    note lt = consumed_length [OF parse_consumed(1) [OF v]]
    have sep: "(case skip_ws k' t of (k', t') \<Rightarrow>
        if head_is t' 44 then (case skip_ws (Suc k') (tl t') of (m, u) \<Rightarrow> add_scalars ms (parse_items flt n m u path (Suc idx)))
        else if head_is t' 93 then Inr (ms, Suc k', tl t') else Inl (BodyParseError k')) = Inl NoFuel"
      using a v by simp
    obtain k'' t' m u where "(k'', t') = skip_ws k' t" "head_is t' 44" "(m, u) = skip_ws (Suc k'') (tl t')" "length u < length t"
      "parse_items flt n m u path (Suc idx) = Inl NoFuel"
      using separator_fuel [OF sep] by blast
    then show False using "6.IH"(2) [OF v refl refl] lt "6.prems" by fastforce
  qed
qed simp_all

text \<open>
  C16: the scanner returns on every text, and what it returns is an index of the text: the spans are
  in order, disjoint and inside the text, and each slice is, by itself, one complete token whose value
  is the recorded one.
\<close>

theorem index_scalars_spans:
  "case index_scalars flt s of Inl e \<Rightarrow> e \<noteq> NoFuel | Inr ls \<Rightarrow> spans flt 0 s ls"
proof -
  obtain i t where ws: "skip_ws 0 s = (i, t)" by fastforce
  have f: "parse_value flt (scan_fuel s) i t [] \<noteq> Inl NoFuel"
    by (rule parse_fuel(1)) (use lengths(1) [OF ws] in \<open>simp add: scan_fuel_def\<close>)
  show ?thesis
  proof (cases "parse_value flt (scan_fuel s) i t []")
    case (Inl e)
    then show ?thesis using f ws by (simp add: index_scalars_def)
  next
    case (Inr x)
    obtain ls j r where x: "x = (ls, j, r)" by (cases x)
    have "consumed flt 0 s ls j r" using consumed_trans [OF consumed_skip(1) [OF ws] parse_consumed(1)] Inr x by simp
    then have "spans flt 0 s ls" by (auto simp: consumed_def spans_skip(2))
    then show ?thesis using Inr x ws by (simp add: index_scalars_def)
  qed
qed

text \<open>The reading of documents does not run out of fuel either.\<close>

lemma load_scalar_lengths: "load_scalar flt i s \<noteq> Inl NoFuel" "load_scalar flt i s = Inr (v, j, r) \<Longrightarrow> length r \<le> length s"
proof -
  show "load_scalar flt i s \<noteq> Inl NoFuel"
    using scan_no_fuel(2) [of flt i s] by (auto simp: load_scalar_def split: sum.splits body_error.splits option.splits)
  assume a: "load_scalar flt i s = Inr (v, j, r)"
  show "length r \<le> length s"
  proof (cases "scan_scalar flt i s")
    case (Inl e)
    then show ?thesis using a by (auto simp: load_scalar_def split: body_error.splits option.splits)
  next
    case (Inr x)
    then show ?thesis using a scan_scalar_consumes [of flt i s v j r] by (auto simp: load_scalar_def)
  qed
qed

lemma load_separator:
  assumes "(case skip_ws k t of (k', t') \<Rightarrow>
      if head_is t' 44 then (case skip_ws (Suc k') (tl t') of (m, u) \<Rightarrow> rbind (rest m u) (\<lambda>(x, l, w). Inr (f x, l, w)))
      else if head_is t' e then Inr (y, Suc k', tl t') else Inl (DecodeError k')) = R"
  shows "(\<exists>k' t' m u. (k', t') = skip_ws k t \<and> head_is t' 44 \<and> (m, u) = skip_ws (Suc k') (tl t') \<and> length u < length t \<and>
      (rest m u = Inl NoFuel \<or> R \<noteq> Inl NoFuel) \<and> (\<forall>z j r. R = Inr (z, j, r) \<longrightarrow> (\<exists>x l. rest m u = Inr (x, l, r)))) \<or>
    R \<noteq> Inl NoFuel \<and> (\<forall>z j r. R = Inr (z, j, r) \<longrightarrow> length r \<le> length t)"
proof -
  obtain k' t' where ws: "skip_ws k t = (k', t')" by fastforce
  obtain m u where m: "skip_ws (Suc k') (tl t') = (m, u)" by fastforce
  show ?thesis
  proof (cases "head_is t' 44")
    case True
    then have "R = rbind (rest m u) (\<lambda>(x, l, w). Inr (f x, l, w))" using assms ws m by simp
    moreover have "length u < length t" using lengths(1) [OF ws] lengths(1) [OF m] lengths(2) [OF True] by simp
    ultimately show ?thesis using ws m True by (intro disjI1 exI [of _ k'] exI [of _ t'] exI [of _ m] exI [of _ u])
      (auto simp: rbind_Inr_iff rbind_Inl_iff)
  next
    case False
    then show ?thesis using assms ws lengths(1) [OF ws] by (auto split: if_splits)
  qed
qed

lemma load_length:
  "load_value flt n i s = Inr (v, j, r) \<Longrightarrow> length r \<le> length s"
  "load_members flt n i s = Inr (d, j, r) \<Longrightarrow> length r \<le> length s"
  "load_items flt n i s = Inr (xs, j, r) \<Longrightarrow> length r \<le> length s"
proof (induction flt n i s and flt n i s and flt n i s arbitrary: v j r and d j r and xs j r rule: load_value_load_members_load_items.induct)
  case (2 flt n i s)
  obtain a b where ws: "skip_ws (Suc i) (tl s) = (a, b)" by fastforce
  have b: "length b \<le> length s" "length (tl b) \<le> length s" using lengths(1) [OF ws] by (cases s; cases b; auto)+
  show ?case using 2 ws b load_scalar_lengths(2) [of flt i s v j r] by (fastforce simp: rbind_Inr_iff split: if_splits)
next
  case (4 flt n i s)
  obtain key a b w k t where k: "scan_key i s = Inr (key, a, b)" and w: "load_value flt n a b = Inr (w, k, t)"
    using "4.prems" by (auto simp: rbind_Inr_iff)
  have t: "length t \<le> length s" using "4.IH"(1) [OF k refl refl w] lengths(3) [OF k] by simp
  have "(case skip_ws k t of (k', t') \<Rightarrow>
      if head_is t' 44 then (case skip_ws (Suc k') (tl t') of (m, u) \<Rightarrow> rbind (load_members flt n m u) (\<lambda>(x, l, w'). Inr ((key, w) # x, l, w')))
      else if head_is t' 125 then Inr ([(key, w)], Suc k', tl t') else Inl (DecodeError k')) = Inr (d, j, r)" using "4.prems" k w by simp
  from load_separator [OF this] show ?case using "4.IH"(2) [OF k refl refl w refl refl] t by fastforce
next
  case (6 flt n i s)
  obtain w k t where w: "load_value flt n i s = Inr (w, k, t)" using "6.prems" by (auto simp: rbind_Inr_iff)
  have t: "length t \<le> length s" using "6.IH"(1) [OF w] .
  have "(case skip_ws k t of (k', t') \<Rightarrow>
      if head_is t' 44 then (case skip_ws (Suc k') (tl t') of (m, u) \<Rightarrow> rbind (load_items flt n m u) (\<lambda>(x, l, w'). Inr (w # x, l, w')))
      else if head_is t' 93 then Inr ([w], Suc k', tl t') else Inl (DecodeError k')) = Inr (xs, j, r)" using "6.prems" w by simp
  from load_separator [OF this] show ?case using "6.IH"(2) [OF w refl refl] t by fastforce
qed simp_all

lemma load_fuel:
  "2 * length s < n \<Longrightarrow> load_value flt n i s \<noteq> Inl NoFuel"
  "2 * length s < n \<Longrightarrow> load_members flt n i s \<noteq> Inl NoFuel"
  "2 * length s + 1 < n \<Longrightarrow> load_items flt n i s \<noteq> Inl NoFuel"
proof (induction flt n i s and flt n i s and flt n i s rule: load_value_load_members_load_items.induct)
  case (2 flt n i s)
  obtain a b where ws: "skip_ws (Suc i) (tl s) = (a, b)" by fastforce
  show ?case
  proof (cases "s = []")
    case False
    then have "2 * length b + 1 < n" using lengths(1) [OF ws] "2.prems" by (cases s) auto
    then show ?thesis using "2.IH"(1) [OF False _ ws [symmetric]] "2.IH"(2) [OF False _ _ ws [symmetric]] ws load_scalar_lengths(1) [of flt i s]
      by (auto simp: rbind_Inl_iff)
  qed simp
next
  case (4 flt n i s)
  show ?case
  proof
    assume f: "load_members flt (Suc n) i s = Inl NoFuel"
    obtain key a b where k: "scan_key i s = Inr (key, a, b)" using f scan_no_fuel(3) [of i s] by (auto simp: rbind_Inl_iff)
    note l = lengths(3) [OF k]
    obtain w k' t where w: "load_value flt n a b = Inr (w, k', t)" using f k l "4.IH"(1) [OF k refl refl] "4.prems" by (auto simp: rbind_Inl_iff)
    have "(case skip_ws k' t of (k', t') \<Rightarrow>
      if head_is t' 44 then (case skip_ws (Suc k') (tl t') of (m, u) \<Rightarrow> rbind (load_members flt n m u) (\<lambda>(x, l, w'). Inr ((key, w) # x, l, w')))
      else if head_is t' 125 then Inr ([(key, w)], Suc k', tl t') else Inl (DecodeError k')) = Inl NoFuel" using f k w by simp
    from load_separator [OF this] show False
      using "4.IH"(2) [OF k refl refl w refl refl] l load_length(1) [OF w] "4.prems" by fastforce
  qed
next
  case (6 flt n i s)
  show ?case
  proof
    assume f: "load_items flt (Suc n) i s = Inl NoFuel"
    obtain w k' t where w: "load_value flt n i s = Inr (w, k', t)" using f "6.IH"(1) "6.prems" by (auto simp: rbind_Inl_iff)
    have "(case skip_ws k' t of (k', t') \<Rightarrow>
      if head_is t' 44 then (case skip_ws (Suc k') (tl t') of (m, u) \<Rightarrow> rbind (load_items flt n m u) (\<lambda>(x, l, w'). Inr (w # x, l, w')))
      else if head_is t' 93 then Inr ([w], Suc k', tl t') else Inl (DecodeError k')) = Inl NoFuel" using f w by simp
    from load_separator [OF this] show False
      using "6.IH"(2) [OF w refl refl] load_length(1) [OF w] "6.prems" by fastforce
  qed
qed simp_all

lemma body_loads_returns: "body_loads flt s \<noteq> Inl NoFuel"
proof -
  obtain i t where ws: "skip_ws 0 s = (i, t)" by fastforce
  have "load_value flt (scan_fuel s) i t \<noteq> Inl NoFuel"
    by (rule load_fuel(1)) (use lengths(1) [OF ws] in \<open>simp add: scan_fuel_def\<close>)
  then show ?thesis using ws by (auto simp: body_loads_def load_pairs_def rbind_Inl_iff split: prod.splits if_splits)
qed

section \<open>Navigation\<close>

text \<open>\<open>node[seg]\<close>: the keys of a dict are texts; a list and a text take an index.\<close>

definition seg_get :: "pyval \<Rightarrow> seg \<Rightarrow> py_exc + pyval" where
  "seg_get v x =
     (case v of
        PDict d \<Rightarrow>
          (case x of
             Key k \<Rightarrow> (case map_of d k of None \<Rightarrow> Inl KeyError | Some w \<Rightarrow> Inr w)
           | Idx n \<Rightarrow> Inl KeyError)
      | PList xs \<Rightarrow>
          (case x of
             Key k \<Rightarrow> Inl TypeError
           | Idx n \<Rightarrow> if n < length xs then Inr (xs ! n) else Inl IndexError)
      | PStr s \<Rightarrow>
          (case x of
             Key k \<Rightarrow> Inl TypeError
           | Idx n \<Rightarrow> if n < length s then Inr (PStr [s ! n]) else Inl IndexError)
      | _ \<Rightarrow> Inl TypeError)"

fun navigate :: "pyval \<Rightarrow> seg list \<Rightarrow> py_exc + pyval" where
  "navigate v [] = Inr v"
| "navigate v (x # p) = rbind (seg_get v x) (\<lambda>w. navigate w p)"

definition parse_node_arg :: "string \<Rightarrow> seg list" where
  "parse_node_arg arg =
     map (\<lambda>p. if list_all is_digit p then Idx (dec_value p) else Key p)
       (filter (\<lambda>p. p \<noteq> []) (split_char (CHR ''/'') arg))"

text \<open>The \<open>id\<close> a node carries itself.\<close>

definition own_id :: "pyval \<Rightarrow> string option" where
  "own_id v =
     (case v of
        PDict d \<Rightarrow> (case py_get d ''id'' of PStr s \<Rightarrow> if s = [] then None else Some s | _ \<Rightarrow> None)
      | _ \<Rightarrow> None)"

definition id_at :: "pyval \<Rightarrow> seg list \<Rightarrow> string option" where
  "id_at data path = (case navigate data path of Inl e \<Rightarrow> None | Inr v \<Rightarrow> own_id v)"

fun enclosing_cut :: "pyval \<Rightarrow> seg list \<Rightarrow> nat \<Rightarrow> (string \<times> seg list) option" where
  "enclosing_cut data path 0 = map_option (\<lambda>i. (i, [])) (id_at data [])"
| "enclosing_cut data path (Suc n) =
     (case id_at data (take (Suc n) path) of
        Some i \<Rightarrow> Some (i, take (Suc n) path)
      | None \<Rightarrow> enclosing_cut data path n)"

definition enclosing_id_node :: "pyval \<Rightarrow> seg list \<Rightarrow> (string \<times> seg list) option" where
  "enclosing_id_node data path = enclosing_cut data path (length path)"

definition child_values :: "pyval \<Rightarrow> pyval list" where
  "child_values v = (case v of PDict d \<Rightarrow> map snd d | PList xs \<Rightarrow> xs | _ \<Rightarrow> [])"

definition has_id :: "string \<Rightarrow> pyval \<Rightarrow> bool" where
  "has_id node_id v = (case v of PDict d \<Rightarrow> py_get d ''id'' = PStr node_id | _ \<Rightarrow> False)"

lemma sum_size_list: "sum_list (map (\<lambda>v. Suc (size v)) xs) = size_list size xs"
  by (induction xs) auto

lemma child_values_size: "sum_list (map (\<lambda>v. Suc (size v)) (child_values v)) < Suc (size v)"
proof (cases v)
  case (PDict d)
  have "sum_list (map (\<lambda>v. Suc (size v)) (map snd d)) \<le> size_list (size_prod (\<lambda>_. 0) size) d" by (induction d) auto
  then show ?thesis using PDict by (simp add: child_values_def)
qed (simp_all add: child_values_def sum_size_list)

text \<open>The stack loop of \<open>find_node_by_id\<close>.\<close>

function find_on_stack :: "string \<Rightarrow> pyval list \<Rightarrow> pyval option" where
  "find_on_stack node_id [] = None"
| "find_on_stack node_id (v # stack) = (if has_id node_id v then Some v else find_on_stack node_id (child_values v @ stack))"
  by pat_completeness auto
termination
  by (relation "measure (\<lambda>(_, stack). sum_list (map (\<lambda>v. Suc (size v)) stack))") (use child_values_size in \<open>auto simp: less_Suc_eq_le\<close>)

definition find_node_by_id :: "pyval \<Rightarrow> string \<Rightarrow> pyval option" where
  "find_node_by_id data node_id = find_on_stack node_id [data]"

text \<open>\<open>json.dumps(node, sort_keys=True, ensure_ascii=False)\<close>.\<close>

fun canonical :: "pyval \<Rightarrow> string" where
  "canonical PNone = ''null''"
| "canonical (PBool b) = (if b then ''true'' else ''false'')"
| "canonical (PInt i) = int_str i"
| "canonical (PFloat r) = r"
| "canonical (PStr s) = json_plain_text s"
| "canonical (PList xs) = ''['' @ py_join '', '' (map canonical xs) @ '']''"
| "canonical (PDict d) =
     ''{'' @ py_join '', '' (map snd (sort_key fst (map (\<lambda>kv. (fst kv, json_plain_text (fst kv) @ '': '' @ canonical (snd kv))) d))) @ ''}''"

section \<open>Locating a term\<close>

definition holds_term :: "string \<Rightarrow> scalar_loc \<Rightarrow> bool" where
  "holds_term term l = (case sl_value l of PStr s \<Rightarrow> py_find term s \<noteq> None | _ \<Rightarrow> False)"

definition locate_term :: "(string \<Rightarrow> string) \<Rightarrow> string \<Rightarrow> string \<Rightarrow> body_error + scalar_loc option" where
  "locate_term flt s term =
     rbind (index_scalars flt s) (\<lambda>scalars. Inr (
       case (case py_find term s of
               None \<Rightarrow> None
             | Some pos \<Rightarrow> find (\<lambda>l. sl_start l \<le> pos \<and> pos < sl_end l) scalars) of
         Some l \<Rightarrow> Some l
       | None \<Rightarrow> find (holds_term term) scalars))"

section \<open>The index is the document\<close>

lemma navigate_append: "navigate v (p @ q) = rbind (navigate v p) (\<lambda>w. navigate w q)"
  by (induction v p rule: navigate.induct) (simp_all add: rbind_def split: sum.split)

lemma index_leaves_set:
  "(p, x) \<in> set (index_leaves k ls) \<longleftrightarrow> (\<exists>n q. n < length ls \<and> p = Idx (k + n) # q \<and> (q, x) \<in> set (ls ! n))"
proof (induction ls arbitrary: k)
  case (Cons l ls)
  show ?case (is "_ \<longleftrightarrow> ?r")
  proof
    assume "(p, x) \<in> set (index_leaves k (l # ls))"
    then show ?r using Cons.IH [of "Suc k"] by (auto intro: exI [of _ 0] exI [of _ "Suc n" for n])
  next
    assume ?r
    then obtain n q where n: "n < length (l # ls)" "p = Idx (k + n) # q" "(q, x) \<in> set ((l # ls) ! n)" by blast
    then show "(p, x) \<in> set (index_leaves k (l # ls))" using Cons.IH [of "Suc k"] by (cases n) auto
  qed
qed simp

lemma leaves_navigate: "wf_py v \<Longrightarrow> (p, x) \<in> set (leaves v) \<Longrightarrow> navigate v p = Inr x"
proof (induction v arbitrary: p rule: leaves.induct)
  case (1 xs)
  then obtain n q where "n < length xs" "p = Idx n # q" "(q, x) \<in> set (leaves (xs ! n))" by (auto simp: index_leaves_set)
  then show ?case using 1 by (auto simp: seg_get_def list_all_iff)
next
  case (2 d)
  then obtain k w q where "(k, w) \<in> set d" "p = Key k # q" "(q, x) \<in> set (leaves w)" by auto
  then show ?case using 2 by (auto simp: seg_get_def list_all_iff)
qed auto

lemma index_leaves_distinct:
  "list_all (\<lambda>l. distinct (map fst l)) ls \<Longrightarrow> distinct (map fst (index_leaves k ls))"
proof (induction ls arbitrary: k)
  case (Cons l ls)
  have m: "map fst (map (\<lambda>(p, v). (Idx k # p, v)) l) = map ((#) (Idx k)) (map fst l)" by auto
  have "Idx k # q \<notin> fst ` set (index_leaves (Suc k) ls)" for q by (auto simp: index_leaves_set)
  then show ?case using Cons unfolding index_leaves.simps map_append m by (auto simp: distinct_map inj_on_def)
qed simp

lemma cons_disjoint: "(\<And>q. x # q \<notin> set B) \<Longrightarrow> set (map ((#) x) A) \<inter> set B = {}"
  by auto

lemma member_leaves_distinct:
  fixes f :: "pyval \<Rightarrow> (seg list \<times> pyval) list"
  shows "distinct (map fst d) \<Longrightarrow> list_all (\<lambda>kv. distinct (map fst (f (snd kv)))) d \<Longrightarrow>
   distinct (map fst (concat (map (\<lambda>kv. map (\<lambda>(p, v). (Key (fst kv) # p, v)) (f (snd kv))) d)))"
proof (induction d)
  case (Cons kv d)
  have m: "map fst (map (\<lambda>(p, v). (Key k # p, v)) l) = map ((#) (Key k)) (map fst l)" for k and l :: "(seg list \<times> pyval) list"
    by auto
  let ?rest = "map fst (concat (map (\<lambda>kv. map (\<lambda>(p, v). (Key (fst kv) # p, v)) (f (snd kv))) d))"
  have "Key (fst kv) # q \<notin> set ?rest" for q using Cons.prems(1) by (auto simp: image_iff)
  then have "set (map ((#) (Key (fst kv))) (map fst (f (snd kv)))) \<inter> set ?rest = {}" by (rule cons_disjoint)
  moreover have "distinct (map ((#) (Key (fst kv))) (map fst (f (snd kv))))" using Cons.prems(2) by (simp add: distinct_map inj_on_def)
  moreover have "distinct ?rest" using Cons by simp
  ultimately show ?case by (simp only: list.map concat.simps map_append m distinct_append)
qed simp

lemma leaves_distinct: "wf_py v \<Longrightarrow> distinct (map fst (leaves v))"
proof (induction v rule: leaves.induct)
  case (1 xs)
  then show ?case by (auto intro!: index_leaves_distinct simp: list_all_iff)
next
  case (2 d)
  then show ?case by (simp add: member_leaves_distinct list_all_iff)
qed auto

lemma foldl_py_set: "distinct (map fst (e @ d)) \<Longrightarrow> foldl (\<lambda>e kv. py_set e (fst kv) (snd kv)) e d = e @ d"
proof (induction d arbitrary: e)
  case (Cons kv d)
  have "py_set e k v = e @ [(k, v)]" if "k \<notin> fst ` set e" for k v using that by (induction e) auto
  then show ?case using Cons by (cases kv) auto
qed simp

lemma as_dicts_wf: "wf_py v \<Longrightarrow> as_dicts v = v"
proof (induction v rule: as_dicts.induct)
  case (2 d)
  then have "map (\<lambda>kv. (fst kv, as_dicts (snd kv))) d = d" by (intro map_idI) (auto simp: list_all_iff)
  then show ?case using 2 foldl_py_set [of "[]" d] by simp
qed (auto simp: list_all_iff intro: map_idI)

lemma load_pairs_index:
  assumes "load_pairs flt s = Inr v" "finite_doc v"
  shows "\<exists>ls. index_scalars flt s = Inr ls \<and> located ls = leaves v"
proof -
  obtain i t where ws: "skip_ws 0 s = (i, t)" by fastforce
  obtain w j r where w: "load_value flt (scan_fuel s) i t = Inr (w, j, r)"
    using assms(1) ws by (auto simp: load_pairs_def rbind_Inr_iff)
  obtain k u where "skip_ws j r = (k, u)" by fastforce
  then have "load_value flt (scan_fuel s) i t = Inr (v, j, r)"
    using assms(1) ws w by (auto simp: load_pairs_def split: if_splits)
  then show ?thesis using lockstep(1) [OF _ assms(2), of flt "scan_fuel s" i t j r "[]"] ws by (auto simp: index_scalars_def)
qed

lemma index_navigates:
  assumes "located ls = leaves v" "wf_py v" "l \<in> set ls"
  shows "navigate v (sl_path l) = Inr (sl_value l)"
proof -
  have "(sl_path l, sl_value l) \<in> set (located ls)" using assms(3) by (auto simp: located_def)
  then show ?thesis using leaves_navigate [OF assms(2)] assms(1) by simp
qed

text \<open>
  C15: for every text that \<open>json.loads\<close> reads as a document whose numbers are finite and whose objects
  have distinct keys, the scanner reads it too and its index is the document: the values of the scalars
  in document order with their paths, every path once, each leading in the loaded document to
  the recorded value.
\<close>

theorem index_scalars_exact:
  assumes "load_pairs flt s = Inr v" "finite_doc v" "wf_py v"
  shows "body_loads flt s = Inr v \<and>
    (\<exists>ls. index_scalars flt s = Inr ls \<and> map (\<lambda>l. (sl_path l, sl_value l)) ls = leaves v \<and> distinct (map sl_path ls) \<and>
       list_all (\<lambda>l. navigate v (sl_path l) = Inr (sl_value l)) ls)"
proof -
  obtain ls where ls: "index_scalars flt s = Inr ls" "located ls = leaves v" using load_pairs_index [OF assms(1,2)] by blast
  have "map sl_path ls = map fst (leaves v)" unfolding ls(2) [symmetric] by (simp add: located_def)
  then show ?thesis
    using ls assms(1) as_dicts_wf [OF assms(3)] leaves_distinct [OF assms(3)] index_navigates [OF ls(2) assms(3)]
    by (simp add: body_loads_def located_def list_all_iff)
qed

theorem index_scalars_exact_witness:
  "\<exists>ls. index_scalars id (''{'' @ json_plain_text ''a'' @ '': [1, true], '' @ json_plain_text ''b'' @ '' :null}'') = Inr ls \<and>
     map (\<lambda>l. (sl_path l, sl_value l)) ls = [([Key ''a'', Idx 0], PInt 1), ([Key ''a'', Idx 1], PBool True), ([Key ''b''], PNone)]"
proof -
  let ?v = "PDict [(''a'', PList [PInt 1, PBool True]), (''b'', PNone)]"
  have "load_pairs id (''{'' @ json_plain_text ''a'' @ '': [1, true], '' @ json_plain_text ''b'' @ '' :null}'') = Inr ?v" by code_simp
  from index_scalars_exact [OF this] show ?thesis by auto
qed

text \<open>The three constants are read by \<open>json.loads\<close> and refused by the scanner.\<close>

lemma constant_refused: "body_loads id ''[NaN]'' = Inr (PList [PFloat ''nan'']) \<and> index_scalars id ''[NaN]'' = Inl (BodyParseError 1)"
  by code_simp

section \<open>The searches\<close>

text \<open>The nodes of a value in document order, each before its children.\<close>

fun nodes_of :: "pyval \<Rightarrow> pyval list" where
  "nodes_of (PList xs) = PList xs # concat (map nodes_of xs)"
| "nodes_of (PDict d) = PDict d # concat (map (\<lambda>kv. nodes_of (snd kv)) d)"
| "nodes_of v = [v]"

lemma nodes_of_eq: "nodes_of v = v # concat (map nodes_of (child_values v))"
  by (cases v) (simp_all add: child_values_def comp_def)

lemma find_append_case: "find P (xs @ ys) = (case find P xs of Some x \<Rightarrow> Some x | None \<Rightarrow> find P ys)"
  by (induction xs) auto

lemma find_on_stack_eq: "find_on_stack node_id stack = find (has_id node_id) (concat (map nodes_of stack))"
proof (induction node_id stack rule: find_on_stack.induct)
  case (2 node_id v stack)
  show ?case using 2 by (subst list.map, subst concat.simps, subst nodes_of_eq) (simp add: find_append_case)
qed simp

text \<open>
  The stack search ends and returns the first node of the document, in document order and before
  its descendants, that carries the id, and nothing exactly when no node does.
\<close>

theorem find_node_by_id_first: "find_node_by_id data node_id = find (has_id node_id) (nodes_of data)"
  by (simp add: find_node_by_id_def find_on_stack_eq)

lemma enclosing_cut_Some:
  "enclosing_cut data path n = Some (i, p) \<Longrightarrow> n \<le> length path \<Longrightarrow>
   \<exists>m\<le>n. p = take m path \<and> id_at data p = Some i \<and> (\<forall>k. m < k \<and> k \<le> n \<longrightarrow> id_at data (take k path) = None)"
proof (induction n)
  case 0
  then show ?case by auto
next
  case (Suc n)
  show ?case
  proof (cases "id_at data (take (Suc n) path)")
    case None
    then obtain m where "m \<le> n" "p = take m path" "id_at data p = Some i" "\<forall>k. m < k \<and> k \<le> n \<longrightarrow> id_at data (take k path) = None"
      using Suc by auto
    then show ?thesis using None by (intro exI [of _ m]) (auto simp: le_Suc_eq)
  next
    case (Some x)
    then show ?thesis using Suc.prems by (intro exI [of _ "Suc n"]) auto
  qed
qed

lemma enclosing_cut_None: "enclosing_cut data path n = None \<longleftrightarrow> (\<forall>k\<le>n. id_at data (take k path) = None)"
  by (induction n) (auto simp: le_Suc_eq split: option.splits)

section \<open>The canonical form\<close>

text \<open>A value as \<open>json.loads\<close> makes it: distinct keys, floats that are the \<open>repr\<close> of their own lexeme.\<close>

fun printable :: "(string \<Rightarrow> string) \<Rightarrow> pyval \<Rightarrow> bool" where
  "printable flt (PFloat r) = (scan_number r = Some (r, False, []) \<and> flt r = r)"
| "printable flt (PList xs) = list_all (printable flt) xs"
| "printable flt (PDict d) = (distinct (map fst d) \<and> list_all (\<lambda>kv. printable flt (snd kv)) d)"
| "printable flt v = True"

text \<open>The value with the entries of every dict in the order of their keys.\<close>

fun sorted_doc :: "pyval \<Rightarrow> pyval" where
  "sorted_doc (PList xs) = PList (map sorted_doc xs)"
| "sorted_doc (PDict d) = PDict (sort_key fst (map (\<lambda>kv. (fst kv, sorted_doc (snd kv))) d))"
| "sorted_doc v = v"

lemma insort_key_map: "insort_key f (g x) (map g xs) = map g (insort_key (\<lambda>x. f (g x)) x xs)"
  by (induction xs) simp_all

lemma sort_key_map: "sort_key f (map g xs) = map g (sort_key (\<lambda>x. f (g x)) xs)"
proof -
  have "foldr (insort_key f) (map g xs) [] = map g (foldr (insort_key (\<lambda>x. f (g x))) xs [])"
    by (induction xs) (simp_all add: insort_key_map)
  then show ?thesis by (simp add: sort_key_def)
qed

definition member_text :: "string \<times> pyval \<Rightarrow> string" where
  "member_text kv = json_plain_text (fst kv) @ '': '' @ canonical (snd kv)"

lemma canonical_dict:
  "canonical (PDict d) = ''{'' @ py_join '', '' (map member_text (sort_key fst d)) @ ''}''"
  "sorted_doc (PDict d) = PDict (map (\<lambda>kv. (fst kv, sorted_doc (snd kv))) (sort_key fst d))"
  by (simp_all add: sort_key_map comp_def member_text_def [abs_def])

lemma hex_digit_of_digit: "d < 16 \<Longrightarrow> hex_digit_of (hex_digit d) = Some d"
  by (auto simp: hex_digit_of_def hex_digit_def Let_def)

lemma scanstring_plain_char:
  "scanstring i (json_plain_char c @ r) = scan_cons c (scanstring (i + length (json_plain_char c)) r)"
proof -
  have h: "(char_code c div 16) * 16 + char_code c mod 16 = char_code c" by simp
  have d: "char_code c div 16 < 16" "char_code c mod 16 < 16" using char_code_bound [of c] by (auto simp: less_mult_imp_div_less)
  have z: "hex_digit_of (CHR ''0'') = Some 0" "char_code (CHR ''u'') = 117" by code_simp+
  have s: "simple_escape (CHR ''b'') = Some (char_of (8 :: nat))" "simple_escape (CHR ''t'') = Some (char_of (9 :: nat))"
    "simple_escape (CHR ''n'') = Some (char_of (10 :: nat))" "simple_escape (CHR ''f'') = Some (char_of (12 :: nat))"
    "simple_escape (CHR ''r'') = Some (char_of (13 :: nat))" by code_simp+
  have q: "simple_escape c = Some c" if "char_code c = 34 \<or> char_code c = 92" using that by (auto simp: simple_escape_def Let_def)
  consider (quoted) "char_code c = 34 \<or> char_code c = 92" | (named) "char_code c \<in> {8, 9, 10, 12, 13}"
    | (control) "char_code c < 32" "char_code c \<notin> {8, 9, 10, 12, 13}" | (plain) "32 \<le> char_code c" "char_code c \<noteq> 34" "char_code c \<noteq> 92"
    by fastforce
  then show ?thesis
  proof cases
    case quoted
    then show ?thesis using q by (auto simp: json_plain_char_def json_char_def Let_def)
  next
    case named
    have e: "char_code c = n \<Longrightarrow> char_of n = c" for n by (metis char_of_code)
    show ?thesis using named s char_code_lits by (auto simp: e json_plain_char_def json_char_def Let_def char_eq_code)
  next
    case control
    have i: "Suc (Suc (Suc (Suc (Suc (Suc i))))) = i + 6" by simp
    show ?thesis using control z d h by (simp add: i json_plain_char_def json_char_def json_hex_def Let_def hex4_def hex_digit_of_digit)
  next
    case plain
    then show ?thesis by (simp add: json_plain_char_def json_char_def Let_def)
  qed
qed

lemma scanstring_plain:
  "scanstring i (concat (map json_plain_char s) @ char_of (34 :: nat) # r) = Inr (s, i + length (concat (map json_plain_char s)) + 1, r)"
  by (induction s arbitrary: i) (simp_all add: scanstring_plain_char scan_cons_def)

text \<open>Numbers.\<close>

lemma nat_str_head: "0 < n \<Longrightarrow> \<exists>d ds. nat_str n = d # ds \<and> is_digit d \<and> d \<noteq> CHR ''0'' \<and> list_all is_digit ds"
proof (induction n rule: nat_str.induct)
  case (1 n)
  show ?case
  proof (cases "n < 10")
    case True
    have "char_code (CHR ''0'') = 48" by (simp add: char_code_def)
    then have "digit_char n \<noteq> CHR ''0''" using char_code_digit [OF True] 1(2) by auto
    then show ?thesis using True by (subst nat_str.simps) auto
  next
    case False
    then have "0 < n div 10" by (simp add: div_greater_zero_iff)
    then obtain d ds where "nat_str (n div 10) = d # ds" "is_digit d" "d \<noteq> CHR ''0''" "list_all is_digit ds" using 1(1) [OF False] by auto
    then show ?thesis using False by (subst nat_str.simps) simp
  qed
qed

lemma scan_int_nat:
  assumes "sign \<in> {[], ''-''}" "x = [] \<or> \<not> is_digit (hd x)"
  shows "scan_int (sign @ nat_str n @ x) = Some (sign @ nat_str n, x)"
proof (cases "n = 0")
  case True
  have "nat_str 0 = ''0''" by code_simp
  then show ?thesis using True assms by (auto simp: scan_int_def)
next
  case False
  then obtain d ds where d: "nat_str n = d # ds" "is_digit d" "d \<noteq> CHR ''0''" "list_all is_digit ds" using nat_str_head by blast
  then have "d \<noteq> CHR ''-''" by (auto simp: is_digit_def char_code_def)
  then show ?thesis using d assms span_digits_ext(2) [OF d(4) assms(2)] by (auto simp: scan_int_def Let_def)
qed

lemma ends_number_scans: "ends_number x \<Longrightarrow> scan_frac x = ([], x) \<and> scan_exp x = ([], x) \<and> (x = [] \<or> \<not> is_digit (hd x))"
  by (auto simp: ends_number_def scan_frac_def scan_exp_def split: list.splits)

lemma int_str_sign: "\<exists>sign n. int_str i = sign @ nat_str n \<and> sign \<in> {[], ''-''} \<and> i = (if sign = [] then int n else - int n)"
proof (cases "i < 0")
  case True
  then show ?thesis by (intro exI [of _ "''-''"] exI [of _ "nat (- i)"]) (simp add: int_str_def)
next
  case False
  then show ?thesis by (intro exI [of _ "[]"] exI [of _ "nat i"]) (simp add: int_str_def)
qed

lemma number_no_token:
  assumes "scan_number s \<noteq> None"
  shows "\<not> head_is s 34" "\<not> head_is s 123" "\<not> head_is s 91" "scan_literal s = None" "s \<noteq> []" "\<not> is_ws (hd s)"
    "is_digit (hd s) \<or> hd s = CHR ''-''"
proof -
  obtain c t where s: "s = c # t" "is_digit c \<or> c = CHR ''-''"
    using assms by (auto simp: scan_number_def scan_int_def Let_def is_digit_def char_code_def split: option.splits list.splits if_splits)
  then show "\<not> head_is s 34" "\<not> head_is s 123" "\<not> head_is s 91" "scan_literal s = None" "s \<noteq> []" "\<not> is_ws (hd s)"
    "is_digit (hd s) \<or> hd s = CHR ''-''"
    by (auto simp: head_is_def scan_literal_def literals_def is_ws_def is_digit_def char_code_def)
qed

lemma scan_int_str:
  shows "ends_number x \<Longrightarrow> scan_number (int_str i @ x) = Some (int_str i, True, x)" "number_value flt (int_str i) True = PInt i"
proof -
  obtain sign n where i: "int_str i = sign @ nat_str n" "sign \<in> {[], ''-''}" "i = (if sign = [] then int n else - int n)"
    using int_str_sign by blast
  show "ends_number x \<Longrightarrow> scan_number (int_str i @ x) = Some (int_str i, True, x)"
    using scan_int_nat [OF i(2), of x n] ends_number_scans [of x] i(1) by (simp add: scan_number_def)
  have "\<not> startswith (nat_str n) ''-''"
    using nat_str_digits [of n] by (cases "nat_str n") (auto simp: is_digit_def char_code_def)
  then show "number_value flt (int_str i) True = PInt i" using i by (auto simp: number_value_def)
qed

text \<open>Reading back what the canonical form prints.\<close>

lemma skip_ws_head: "s \<noteq> [] \<Longrightarrow> \<not> is_ws (hd s) \<Longrightarrow> skip_ws i s = (i, s)"
  by (cases s) auto

lemma code_lits [simp]:
  "char_code (CHR ''{'') = 123" "char_code (CHR ''}'') = 125" "char_code (CHR ''['') = 91" "char_code (CHR '']'') = 93"
  "char_code (CHR '','') = 44" "char_code (CHR '':'') = 58" "char_code (CHR '' '') = 32"
  by (simp_all add: char_code_def)

definition scalar :: "pyval \<Rightarrow> bool" where
  "scalar v = (case v of PList xs \<Rightarrow> False | PDict d \<Rightarrow> False | _ \<Rightarrow> True)"

lemma text_no_token: "\<not> head_is (json_plain_text s @ x) 123" "\<not> head_is (json_plain_text s @ x) 91" "head_is (json_plain_text s @ x) 34"
  "\<not> is_ws (hd (json_plain_text s))" "json_plain_text s \<noteq> []"
  by (simp_all add: json_plain_text_def Let_def head_is_def is_ws_def)

lemma scan_plain_text: "scanstring (Suc i) (tl (json_plain_text s @ x)) = Inr (s, i + length (json_plain_text s), x)"
  using scanstring_plain [of "Suc i" s x] by (simp add: json_plain_text_def Let_def)

lemma scalar_read:
  assumes "printable flt v" "scalar v" "ends_number x"
  shows "\<not> head_is (canonical v @ x) 123" "\<not> head_is (canonical v @ x) 91" "canonical v \<noteq> []" "\<not> is_ws (hd (canonical v))"
    "hd (canonical v) \<noteq> CHR '']''" "scan_scalar flt i (canonical v @ x) = Inr (v, i + length (canonical v), x)"
proof -
  have number: "\<not> head_is (r @ x) 123 \<and> \<not> head_is (r @ x) 91 \<and> r \<noteq> [] \<and> \<not> is_ws (hd r) \<and> hd r \<noteq> CHR '']'' \<and>
      scan_scalar flt i (r @ x) = Inr (number_value flt r b, i + length r, x)"
    if n: "scan_number (r @ x) = Some (r, b, x)" for r b
  proof -
    have ne: "r \<noteq> []" using scan_number_ext(1) [OF n] by simp
    then have "is_digit (hd r) \<or> hd r = CHR ''-''" "\<not> is_ws (hd r)" using number_no_token(6,7) [of "r @ x"] n by simp_all
    then have "hd r \<noteq> CHR '']''" by (auto simp: is_digit_def)
    then show ?thesis using n number_no_token(1-4) [of "r @ x"] ne \<open>\<not> is_ws (hd r)\<close> by (simp add: scan_scalar_def)
  qed
  have "\<not> head_is (canonical v @ x) 123 \<and> \<not> head_is (canonical v @ x) 91 \<and> canonical v \<noteq> [] \<and> \<not> is_ws (hd (canonical v)) \<and>
      hd (canonical v) \<noteq> CHR '']'' \<and> scan_scalar flt i (canonical v @ x) = Inr (v, i + length (canonical v), x)"
  proof (cases v)
    case (PInt n)
    then show ?thesis using number [OF scan_int_str(1) [OF assms(3)], of n] scan_int_str(2) [where flt = flt and i = n] by simp
  next
    case (PFloat r)
    then have "scan_number (r @ x) = Some (r, False, x)" using assms(1) scan_number_ext(2) [OF _ assms(3), of r r False "[]"] by simp
    then show ?thesis using number [of r False] PFloat assms(1) by (simp add: number_value_def)
  next
    case (PStr s)
    have "hd (json_plain_text s) \<noteq> CHR '']''" by (simp add: json_plain_text_def Let_def char_eq_code)
    then show ?thesis using PStr text_no_token(1-3) [of s x] text_no_token(4,5) [of s] scan_plain_text [of i s x] by (simp add: scan_scalar_def)
  qed (use assms(2) in \<open>auto simp: scalar_def scan_scalar_def scan_literal_def literals_def head_is_def is_ws_def char_code_def\<close>)
  then show "\<not> head_is (canonical v @ x) 123" "\<not> head_is (canonical v @ x) 91" "canonical v \<noteq> []" "\<not> is_ws (hd (canonical v))"
    "hd (canonical v) \<noteq> CHR '']''" "scan_scalar flt i (canonical v @ x) = Inr (v, i + length (canonical v), x)" by blast+
qed

lemma canonical_head:
  assumes "printable flt v"
  shows "canonical v \<noteq> []" "\<not> is_ws (hd (canonical v))" "hd (canonical v) \<noteq> CHR '']''"
proof -
  have "canonical v \<noteq> [] \<and> \<not> is_ws (hd (canonical v)) \<and> hd (canonical v) \<noteq> CHR '']''"
  proof (cases "scalar v")
    case True
    then show ?thesis using scalar_read [OF assms True, of "[]"] by (simp add: ends_number_def)
  next
    case False
    then show ?thesis by (cases v) (simp_all add: scalar_def is_ws_def)
  qed
  then show "canonical v \<noteq> []" "\<not> is_ws (hd (canonical v))" "hd (canonical v) \<noteq> CHR '']''" by blast+
qed

lemma ends_closing [simp]: "ends_number (CHR '','' # x)" "ends_number (CHR '']'' # x)" "ends_number (CHR ''}'' # x)"
  by (simp_all add: ends_number_def is_digit_def)

lemma head_is_Cons [simp]: "head_is (c # x) n \<longleftrightarrow> char_code c = n"
  by (simp add: head_is_def)

lemma head_is_append: "s \<noteq> [] \<Longrightarrow> head_is (s @ x) n \<longleftrightarrow> char_code (hd s) = n"
  by (cases s) simp_all

definition reads :: "(string \<Rightarrow> string) \<Rightarrow> pyval \<Rightarrow> bool" where
  "reads flt v \<longleftrightarrow> (\<forall>n i x. ends_number x \<longrightarrow> 2 * length (canonical v @ x) < n \<longrightarrow>
     load_value flt n i (canonical v @ x) = Inr (sorted_doc v, i + length (canonical v), x))"

lemma items_read:
  assumes "list_all (reads flt) xs" "list_all (printable flt) xs" "xs \<noteq> []"
    and "2 * length (py_join '', '' (map canonical xs) @ CHR '']'' # x) + 1 < n"
  shows "load_items flt n i (py_join '', '' (map canonical xs) @ CHR '']'' # x) =
    Inr (map sorted_doc xs, i + length (py_join '', '' (map canonical xs)) + 1, x)"
  using assms
proof (induction xs arbitrary: n i)
  case (Cons v xs)
  obtain m where n: "n = Suc m" using Cons.prems(4) by (cases n) auto
  show ?case
  proof (cases xs)
    case Nil
    have "load_value flt m i (canonical v @ CHR '']'' # x) = Inr (sorted_doc v, i + length (canonical v), CHR '']'' # x)"
      using Cons.prems Nil n by (auto simp: reads_def)
    then show ?thesis using Nil n by (simp add: is_ws_def)
  next
    case (Cons w ys)
    let ?rest = "py_join '', '' (map canonical xs) @ CHR '']'' # x"
    have join: "py_join '', '' (map canonical (v # xs)) @ CHR '']'' # x = canonical v @ CHR '','' # CHR '' '' # ?rest" using Cons by simp
    have "load_value flt m i (canonical v @ CHR '','' # CHR '' '' # ?rest) = Inr (sorted_doc v, i + length (canonical v), CHR '','' # CHR '' '' # ?rest)"
      using Cons.prems(1,4) n unfolding join by (auto simp: reads_def)
    moreover have "skip_ws j ?rest = (j, ?rest)" for j
      using canonical_head [of flt w] Cons.prems(2) Cons by (intro skip_ws_head) (cases ys; auto)+
    moreover have "load_items flt m (i + length (canonical v) + 2) ?rest =
        Inr (map sorted_doc xs, i + length (canonical v) + 2 + length (py_join '', '' (map canonical xs)) + 1, x)"
      using Cons.prems n Cons unfolding join by (intro Cons.IH) auto
    ultimately show ?thesis unfolding join using n Cons by (simp add: is_ws_def)
  qed
qed simp

lemma scan_member:
  assumes "printable flt (snd kv)"
  shows "scan_key i (member_text kv @ y) = Inr (fst kv, i + length (json_plain_text (fst kv)) + 2, canonical (snd kv) @ y)"
proof -
  have "skip_ws j (canonical (snd kv) @ y) = (j, canonical (snd kv) @ y)" for j
    using canonical_head [OF assms] by (intro skip_ws_head) auto
  then show ?thesis
    using text_no_token(3) [of "fst kv"] scan_plain_text [of i "fst kv"] by (simp add: scan_key_def member_text_def is_ws_def)
qed

lemma scalar_loads:
  assumes "printable flt v" "scalar v" "ends_number x" "0 < n"
  shows "load_value flt n i (canonical v @ x) = Inr (sorted_doc v, i + length (canonical v), x)"
proof -
  have "sorted_doc v = v" using assms(2) by (cases v) (simp_all add: scalar_def)
  then show ?thesis using scalar_read [OF assms(1-3)] assms(4) by (cases n) (simp_all add: load_scalar_def)
qed

lemma members_read:
  assumes "list_all (\<lambda>kv. reads flt (snd kv)) d" "list_all (\<lambda>kv. printable flt (snd kv)) d" "d \<noteq> []"
    and "2 * length (py_join '', '' (map member_text d) @ CHR ''}'' # x) < n"
  shows "load_members flt n i (py_join '', '' (map member_text d) @ CHR ''}'' # x) =
    Inr (map (\<lambda>kv. (fst kv, sorted_doc (snd kv))) d, i + length (py_join '', '' (map member_text d)) + 1, x)"
  using assms
proof (induction d arbitrary: n i)
  case (Cons kv d)
  obtain m where n: "n = Suc m" using Cons.prems(4) by (cases n) auto
  let ?k = "length (json_plain_text (fst kv)) + 2"
  have key: "scan_key i (member_text kv @ y) = Inr (fst kv, i + ?k, canonical (snd kv) @ y)" for y
    using scan_member [of flt kv] Cons.prems(2) by simp
  have len: "length (member_text kv) = ?k + length (canonical (snd kv))" by (simp add: member_text_def)
  show ?case
  proof (cases d)
    case Nil
    have "load_value flt m (i + ?k) (canonical (snd kv) @ CHR ''}'' # x) =
        Inr (sorted_doc (snd kv), i + ?k + length (canonical (snd kv)), CHR ''}'' # x)"
      using Cons.prems Nil n len by (auto simp: reads_def)
    then show ?thesis using Nil n key len by (simp add: is_ws_def)
  next
    case (Cons lw e)
    let ?rest = "py_join '', '' (map member_text d) @ CHR ''}'' # x"
    have join: "py_join '', '' (map member_text (kv # d)) @ CHR ''}'' # x = member_text kv @ CHR '','' # CHR '' '' # ?rest" using Cons by simp
    have "load_value flt m (i + ?k) (canonical (snd kv) @ CHR '','' # CHR '' '' # ?rest) =
        Inr (sorted_doc (snd kv), i + ?k + length (canonical (snd kv)), CHR '','' # CHR '' '' # ?rest)"
      using Cons.prems(1,4) n len unfolding join by (auto simp: reads_def)
    moreover have "skip_ws j ?rest = (j, ?rest)" for j
      using text_no_token(4,5) [of "fst lw"] Cons by (intro skip_ws_head) (cases e; auto simp: member_text_def)+
    moreover have "load_members flt m (i + ?k + length (canonical (snd kv)) + 2) ?rest =
        Inr (map (\<lambda>kv. (fst kv, sorted_doc (snd kv))) d,
          i + ?k + length (canonical (snd kv)) + 2 + length (py_join '', '' (map member_text d)) + 1, x)"
      using Cons.prems n Cons len unfolding join by (intro Cons.IH) auto
    ultimately show ?thesis unfolding join using n Cons key len by (simp add: is_ws_def)
  qed
qed simp

lemma load_bracket:
  assumes "skip_ws (Suc i) s = (Suc i, s)"
  shows "\<not> head_is s 93 \<Longrightarrow> load_value flt (Suc n) i (CHR ''['' # s) = rbind (load_items flt n (Suc i) s) (\<lambda>(xs, k, t). Inr (PList xs, k, t))"
    "\<not> head_is s 125 \<Longrightarrow> load_value flt (Suc n) i (CHR ''{'' # s) = rbind (load_members flt n (Suc i) s) (\<lambda>(d, k, t). Inr (PDict d, k, t))"
  using assms by simp_all

lemma canonical_reads: "printable flt v \<Longrightarrow> reads flt v"
proof (induction v)
  case (PList xs)
  show ?case
  proof (cases xs)
    case Nil
    have "load_value flt n i (canonical v @ x) = Inr (sorted_doc v, i + length (canonical v), x)"
      if "v = PList []" "2 * length (canonical v @ x) < n" for n i v x
      using that by (cases n) (simp_all add: is_ws_def)
    then show ?thesis using Nil by (simp only: reads_def) blast
  next
    case (Cons w ys)
    have r: "list_all (reads flt) xs" "list_all (printable flt) xs" using PList by (simp_all add: list_all_iff)
    let ?j = "py_join '', '' (map canonical xs)"
    have "load_value flt n i (CHR ''['' # ?j @ CHR '']'' # x) = Inr (PList (map sorted_doc xs), i + length ?j + 2, x)"
      if n: "2 * (length ?j + 2 + length x) < n" for n i x
    proof -
      obtain m where m: "n = Suc m" using n by (cases n) auto
      have h: "?j \<noteq> [] \<and> hd ?j = hd (canonical w) \<and> canonical w \<noteq> []"
        using canonical_head(1) [of flt w] r(2) Cons by (cases ys) auto
      have hw: "\<not> is_ws (hd (canonical w))" "hd (canonical w) \<noteq> CHR '']''" using canonical_head [of flt w] r(2) Cons by simp_all
      have "skip_ws (Suc i) (?j @ CHR '']'' # x) = (Suc i, ?j @ CHR '']'' # x)" using h hw by (intro skip_ws_head) auto
      moreover have "\<not> head_is (?j @ CHR '']'' # x) 93" using h hw(2) char_eq_code [of "hd ?j" "CHR '']''"]
          head_is_append [of ?j "CHR '']'' # x" 93] by simp
      moreover have "load_items flt m (Suc i) (?j @ CHR '']'' # x) = Inr (map sorted_doc xs, Suc i + length ?j + 1, x)"
        using items_read [OF r, of x m "Suc i"] n m Cons by simp
      ultimately show ?thesis unfolding m by (subst load_bracket(1)) simp_all
    qed
    then show ?thesis by (simp add: reads_def)
  qed
next
  case (PDict d)
  show ?case
  proof (cases "d = []")
    case True
    have "load_value flt n i (canonical v @ x) = Inr (sorted_doc v, i + length (canonical v), x)"
      if "v = PDict []" "2 * length (canonical v @ x) < n" for n i v x
      using that by (cases n) (simp_all add: is_ws_def)
    then show ?thesis using True by (simp only: reads_def) blast
  next
    case False
    let ?d = "sort_key fst d"
    have r: "list_all (\<lambda>kv. reads flt (snd kv)) ?d" "list_all (\<lambda>kv. printable flt (snd kv)) ?d"
      using PDict by (auto simp: list_all_iff)
    have ne: "?d \<noteq> []" using False by (metis set_empty set_sort)
    then obtain kw e where Cons: "?d = kw # e" by (cases ?d) auto
    let ?j = "py_join '', '' (map member_text ?d)"
    have "load_value flt n i (CHR ''{'' # ?j @ CHR ''}'' # x) = Inr (sorted_doc (PDict d), i + length ?j + 2, x)"
      if n: "2 * (length ?j + 2 + length x) < n" for n i x
    proof -
      obtain m where m: "n = Suc m" using n by (cases n) auto
      have h: "?j \<noteq> [] \<and> hd ?j = hd (json_plain_text (fst kw))"
        using text_no_token(5) [of "fst kw"] Cons by (cases e) (simp_all add: member_text_def)
      then have "skip_ws (Suc i) (?j @ CHR ''}'' # x) = (Suc i, ?j @ CHR ''}'' # x)"
        using text_no_token(4) [of "fst kw"] by (intro skip_ws_head) auto
      moreover have "\<not> head_is (?j @ CHR ''}'' # x) 125" using h head_is_append [of ?j "CHR ''}'' # x" 125]
        by (simp add: json_plain_text_def Let_def)
      moreover have "load_members flt m (Suc i) (?j @ CHR ''}'' # x) =
          Inr (map (\<lambda>kv. (fst kv, sorted_doc (snd kv))) ?d, Suc i + length ?j + 1, x)"
        using members_read [OF r ne, of x m "Suc i"] n m by simp
      ultimately show ?thesis unfolding m canonical_dict(2) by (subst load_bracket(2)) simp_all
    qed
    then show ?thesis by (simp only: reads_def canonical_dict(1)) simp
  qed
qed (use scalar_loads in \<open>simp_all add: reads_def scalar_def del: canonical.simps sorted_doc.simps load_value.simps\<close>)

lemma sorted_doc_wf: "printable flt v \<Longrightarrow> wf_py (sorted_doc v)"
proof (induction v rule: sorted_doc.induct)
  case (2 d)
  have "distinct (map fst (sort_key fst d))" using 2(2) by (auto simp: distinct_map)
  then show ?case using 2 unfolding canonical_dict(2) by (auto simp: list_all_iff comp_def)
qed (auto simp: list_all_iff)

lemma canonical_sorted: "canonical (sorted_doc v) = canonical v"
proof (induction v)
  case (PList xs)
  then have "map canonical (map sorted_doc xs) = map canonical xs" by simp
  then show ?case by (simp only: canonical.simps sorted_doc.simps)
next
  case (PDict d)
  let ?d = "sort_key fst d" and ?g = "\<lambda>kv. (fst kv, sorted_doc (snd kv))"
  have "sort_key fst (map ?g ?d) = map ?g (sort_key fst ?d)" using sort_key_map [of fst ?g ?d] by simp
  also have "\<dots> = map ?g ?d" by (simp add: sort_key_id_if_sorted)
  finally have s: "sort_key fst (map ?g ?d) = map ?g ?d" .
  have "map member_text (map ?g ?d) = map member_text ?d" using PDict by (auto simp: member_text_def)
  then show ?case by (simp only: canonical_dict s)
qed simp_all

lemma canonical_loads:
  assumes "printable flt v"
  shows "body_loads flt (canonical v) = Inr (sorted_doc v)"
proof -
  have "load_value flt (scan_fuel (canonical v)) 0 (canonical v) = Inr (sorted_doc v, length (canonical v), [])"
    using canonical_reads [OF assms, unfolded reads_def, rule_format, of "[]" "scan_fuel (canonical v)" 0]
    by (simp add: ends_number_def scan_fuel_def)
  moreover have "skip_ws 0 (canonical v) = (0, canonical v)" using canonical_head [OF assms] by (intro skip_ws_head)
  ultimately show ?thesis using as_dicts_wf [OF sorted_doc_wf [OF assms]] by (simp add: body_loads_def load_pairs_def)
qed

text \<open>
  C17: the canonical form is exact: it loads back as the value with its entries in key order, so two
  values as \<open>json.loads\<close> makes them have the same canonical form exactly when they differ at most in
  the order of their entries; a change is never missed and a reordering never counts as one.
\<close>

theorem canonical_exact:
  assumes "printable flt v" "printable flt w"
  shows "body_loads flt (canonical v) = Inr (sorted_doc v) \<and> (canonical v = canonical w \<longleftrightarrow> sorted_doc v = sorted_doc w)"
  using canonical_loads [OF assms(1)] canonical_loads [OF assms(2)] canonical_sorted [of v] canonical_sorted [of w] by (metis sum.inject(2))

theorem canonical_exact_witness:
  "body_loads id (canonical (PDict [(''b'', PFloat ''1.5''), (''a'', PList [PInt (-7), PStr [newline]])])) =
     Inr (PDict [(''a'', PList [PInt (-7), PStr [newline]]), (''b'', PFloat ''1.5'')]) \<and>
   canonical (PDict [(''b'', PFloat ''1.5''), (''a'', PList [PInt (-7), PStr [newline]])]) =
     canonical (PDict [(''a'', PList [PInt (-7), PStr [newline]]), (''b'', PFloat ''1.5'')])"
proof -
  let ?v = "PDict [(''b'', PFloat ''1.5''), (''a'', PList [PInt (-7), PStr [newline]])]"
  let ?w = "PDict [(''a'', PList [PInt (-7), PStr [newline]]), (''b'', PFloat ''1.5'')]"
  have "printable id ?v" "printable id ?w" "sorted_doc ?v = ?w" "sorted_doc ?w = ?w" by code_simp+
  then show ?thesis using canonical_exact [of id ?v ?w] by simp
qed

section \<open>What a term selects\<close>

lemma locate_located:
  assumes "load_pairs flt s = Inr v" "finite_doc v" "wf_py v"
  shows "case locate_term flt s term of
      Inl e \<Rightarrow> False
    | Inr None \<Rightarrow> list_all (\<lambda>pv. case snd pv of PStr u \<Rightarrow> py_find term u = None | _ \<Rightarrow> True) (leaves v)
    | Inr (Some l) \<Rightarrow> navigate v (sl_path l) = Inr (sl_value l) \<and> (sl_path l, sl_value l) \<in> set (leaves v) \<and>
        (holds_term term l \<or> (\<exists>pos. py_find term s = Some pos \<and> sl_start l \<le> pos \<and> pos < sl_end l))"
proof -
  obtain ls where ls: "index_scalars flt s = Inr ls" "located ls = leaves v" using load_pairs_index [OF assms(1,2)] by blast
  let ?first = "case py_find term s of None \<Rightarrow> None | Some pos \<Rightarrow> find (\<lambda>l. sl_start l \<le> pos \<and> pos < sl_end l) ls"
  have at: "navigate v (sl_path l) = Inr (sl_value l) \<and> (sl_path l, sl_value l) \<in> set (leaves v)" if "l \<in> set ls" for l
    using index_navigates [OF ls(2) assms(3) that] that unfolding ls(2) [symmetric] by (auto simp: located_def)
  show ?thesis
  proof (cases ?first)
    case (Some l)
    then obtain pos where p: "py_find term s = Some pos" "find (\<lambda>l. sl_start l \<le> pos \<and> pos < sl_end l) ls = Some l"
      by (auto split: option.splits)
    then have "l \<in> set ls" "sl_start l \<le> pos \<and> pos < sl_end l" by (auto simp: find_Some_iff)
    then show ?thesis using at p Some ls(1) by (auto simp: locate_term_def)
  next
    case None
    then have l: "locate_term flt s term = Inr (find (holds_term term) ls)" by (simp add: locate_term_def ls(1))
    show ?thesis
    proof (cases "find (holds_term term) ls")
      case (Some l)
      then have "l \<in> set ls" "holds_term term l" by (auto simp: find_Some_iff)
      then show ?thesis using at l Some by simp
    next
      case None
      then have "\<forall>l\<in>set ls. \<not> holds_term term l" by (auto simp: find_None_iff)
      then have "list_all (\<lambda>pv. case snd pv of PStr u \<Rightarrow> py_find term u = None | _ \<Rightarrow> True) (located ls)"
        by (auto simp: located_def list_all_iff holds_term_def split: pyval.splits)
      then show ?thesis using l None ls(2) by simp
    qed
  qed
qed

text \<open>
  In a document that \<open>json.loads\<close> reads (finite numbers, distinct keys) the search for a term never
  raises. What it finds is a scalar of the document at its path, and the first occurrence of the
  term in the raw text starts inside its token or its decoded text contains the term; it finds
  nothing only when no text of the document contains the term.
\<close>

theorem locate_term_sound:
  assumes "load_pairs flt s = Inr v" "finite_doc v" "wf_py v"
  shows "case locate_term flt s term of
      Inl e \<Rightarrow> False
    | Inr None \<Rightarrow> list_all (\<lambda>pv. case snd pv of PStr u \<Rightarrow> py_find term u = None | _ \<Rightarrow> True) (leaves v)
    | Inr (Some l) \<Rightarrow> navigate v (sl_path l) = Inr (sl_value l) \<and> (sl_path l, sl_value l) \<in> set (leaves v) \<and>
        (holds_term term l \<or> (\<exists>pos. py_find term s = Some pos \<and> sl_start l \<le> pos \<and> pos < sl_end l))"
  using locate_located [OF assms] .

theorem locate_term_sound_witness:
  "\<exists>l. locate_term id (''{'' @ json_plain_text ''a'' @ '': ['' @ json_plain_text ''xyz'' @ '']}'') ''yz'' = Inr (Some l) \<and>
     (sl_path l, sl_value l) = ([Key ''a'', Idx 0], PStr ''xyz'')"
proof -
  let ?s = "''{'' @ json_plain_text ''a'' @ '': ['' @ json_plain_text ''xyz'' @ '']}''"
  have "load_pairs id ?s = Inr (PDict [(''a'', PList [PStr ''xyz''])])" by code_simp
  from locate_term_sound [OF this, of "''yz''"] show ?thesis by (auto split: sum.splits option.splits)
qed
end
