(* ===== verification/JudgeVersion.thy ===== *)
theory JudgeVersion imports JudgeBody begin
text \<open>
  From a spot in a committed body to the commit that wrote it: \<open>src/judge/version.py\<close> and the reading of the git
  log in \<open>src/judge/gitread.py\<close>. Git is the record \<open>judge_repo\<close>. An unresolved target is \<open>None\<close>, its
  reason is left out. For a whole body as target the code keeps whatever its \<open>id\<close> is (\<open>version.py:76\<close>); here
  it counts when it is a text, as everywhere else in the code.
\<close>

section \<open>Git\<close>

record commit =
  cm_sha :: string
  cm_author_date :: string
  cm_committer_date :: string
  cm_subject :: string

record judge_repo =
  jr_log :: "string \<Rightarrow> string \<Rightarrow> string option"
  jr_show :: "string \<Rightarrow> string \<Rightarrow> string option"
  jr_tree :: "string \<Rightarrow> string \<Rightarrow> string option"

datatype judge_error = GitReadError | ListingTypeError

definition field_sep :: char where "field_sep = char_of (31 :: nat)"
definition record_sep :: char where "record_sep = char_of (30 :: nat)"

text \<open>\<open>rec.strip("\n")\<close>.\<close>

definition strip_newlines :: "string \<Rightarrow> string" where
  "strip_newlines s = py_rstrip_char newline (dropWhile (\<lambda>c. c = newline) s)"

definition commit_of :: "string \<Rightarrow> commit list" where
  "commit_of rec =
     (case split_char field_sep (strip_newlines rec) of
        [sha, author, committer, subject] \<Rightarrow>
          if strip_newlines rec = [] then []
          else [\<lparr>cm_sha = sha, cm_author_date = author, cm_committer_date = committer, cm_subject = subject\<rparr>]
      | _ \<Rightarrow> [])"

definition log_for_path :: "judge_repo \<Rightarrow> string \<Rightarrow> string \<Rightarrow> judge_error + commit list" where
  "log_for_path repo ref path =
     (case jr_log repo ref path of
        None \<Rightarrow> Inl GitReadError
      | Some out \<Rightarrow> Inr (concat (map commit_of (split_char record_sep out))))"

definition listed_files :: "judge_repo \<Rightarrow> string \<Rightarrow> string \<Rightarrow> string list" where
  "listed_files repo ref prefix =
     (case jr_tree repo ref prefix of
        None \<Rightarrow> []
      | Some out \<Rightarrow> filter (\<lambda>l. py_strip l \<noteq> []) (py_splitlines out))"

section \<open>The target\<close>

record target =
  tg_json_path :: "seg list"
  tg_node_id :: "string option"
  tg_node_path :: "seg list option"
  tg_scalar_text :: "string option"

definition text_form :: "pyval \<Rightarrow> string" where
  "text_form v = (case v of PStr s \<Rightarrow> s | _ \<Rightarrow> canonical v)"

definition target_at :: "pyval \<Rightarrow> seg list \<Rightarrow> pyval \<Rightarrow> target" where
  "target_at data path v =
     \<lparr>tg_json_path = path, tg_node_id = map_option fst (enclosing_id_node data path),
      tg_node_path = map_option snd (enclosing_id_node data path), tg_scalar_text = Some (text_form v)\<rparr>"

text \<open>\<open>resolve_target\<close>; the left side is an exception that leaves it.\<close>

definition resolve_target :: "(string \<Rightarrow> string) \<Rightarrow> string \<Rightarrow> string option \<Rightarrow> string option \<Rightarrow> body_error + target option" where
  "resolve_target flt tip_text term node_arg =
     (case body_loads flt tip_text of
        Inl e \<Rightarrow> Inr None
      | Inr data \<Rightarrow>
          (case node_arg of
             Some (c # cs) \<Rightarrow>
               (let path = parse_node_arg (c # cs) in
                case navigate data path of
                  Inl e \<Rightarrow> Inr None
                | Inr node \<Rightarrow> Inr (Some (target_at data path node)))
           | _ \<Rightarrow>
               (case term of
                  Some (c # cs) \<Rightarrow>
                    rbind (locate_term flt tip_text (c # cs)) (\<lambda>found. Inr (
                      case found of
                        None \<Rightarrow> None
                      | Some l \<Rightarrow> Some (target_at data (sl_path l) (sl_value l))))
                | _ \<Rightarrow> Inr (Some \<lparr>tg_json_path = [], tg_node_id = own_id data, tg_node_path = Some [], tg_scalar_text = None\<rparr>))))"

section \<open>The version\<close>

text \<open>\<open>None\<close>: the file is missing or unreadable, or the target is absent at that commit.\<close>

definition value_in :: "pyval \<Rightarrow> target \<Rightarrow> string option" where
  "value_in data t =
     (case (case tg_node_id t of None \<Rightarrow> None | Some i \<Rightarrow> find_node_by_id data i) of
        Some node \<Rightarrow> Some (canonical node)
      | None \<Rightarrow>
          (case (case tg_node_path t of None \<Rightarrow> Inl KeyError | Some p \<Rightarrow> navigate data p) of
             Inr PNone \<Rightarrow> if tg_node_id t \<noteq> None \<or> tg_node_path t \<noteq> Some [] then None else Some (canonical data)
           | Inr node \<Rightarrow> Some (canonical node)
           | Inl e \<Rightarrow> if tg_node_id t \<noteq> None \<or> tg_node_path t \<notin> {None, Some []} then None else Some (canonical data)))"

definition value_at_commit :: "(string \<Rightarrow> string) \<Rightarrow> judge_repo \<Rightarrow> string \<Rightarrow> string \<Rightarrow> target \<Rightarrow> string option" where
  "value_at_commit flt repo sha body_path t =
     (case jr_show repo sha body_path of
        None \<Rightarrow> None
      | Some body \<Rightarrow> (case body_loads flt body of Inl e \<Rightarrow> None | Inr data \<Rightarrow> value_in data t))"

record round_hit =
  rh_path :: string
  rh_round :: pyval
  rh_version :: pyval
  rh_listed_as :: string

definition ROUND_RECORDS_DIR :: string where "ROUND_RECORDS_DIR = ''patch-series-review-rounds''"

text \<open>\<open>node_id in (listing or [])\<close>.\<close>

definition in_listing :: "string \<Rightarrow> pyval \<Rightarrow> judge_error + bool" where
  "in_listing node_id listing =
     (if \<not> py_truthy listing then Inr False
      else (case listing of
          PList xs \<Rightarrow> Inr (PStr node_id \<in> set xs)
        | PDict d \<Rightarrow> Inr (has_key d node_id)
        | PStr s \<Rightarrow> Inr (py_find node_id s \<noteq> None)
        | _ \<Rightarrow> Inl ListingTypeError))"

definition listed_as :: "string \<Rightarrow> pydict \<Rightarrow> judge_error + string" where
  "listed_as node_id rec =
     rbind (in_listing node_id (py_get rec ''added_node_ids'')) (\<lambda>added.
       if added then Inr ''added''
       else rbind (in_listing node_id (py_get rec ''changed_node_ids'')) (\<lambda>changed. Inr (if changed then ''changed'' else [])))"

fun record_hits :: "(string \<Rightarrow> string) \<Rightarrow> judge_repo \<Rightarrow> string \<Rightarrow> string \<Rightarrow> string list \<Rightarrow> judge_error + round_hit list" where
  "record_hits flt repo sha node_id [] = Inr []"
| "record_hits flt repo sha node_id (path # paths) =
     rbind (if \<not> endswith path ''.json'' then Inr []
            else (case jr_show repo sha path of
                None \<Rightarrow> Inr []
              | Some body \<Rightarrow>
                  (case body_loads flt body of
                     Inr (PDict rec) \<Rightarrow>
                       rbind (listed_as node_id rec) (\<lambda>l. Inr (if l = [] then [] else
                         [\<lparr>rh_path = path, rh_round = py_get rec ''review_round'', rh_version = py_get rec ''author_version'', rh_listed_as = l\<rparr>]))
                   | _ \<Rightarrow> Inr [])))
       (\<lambda>hits. rbind (record_hits flt repo sha node_id paths) (\<lambda>more. Inr (hits @ more)))"

definition round_record_hits :: "(string \<Rightarrow> string) \<Rightarrow> judge_repo \<Rightarrow> string \<Rightarrow> target \<Rightarrow> judge_error + round_hit list" where
  "round_record_hits flt repo sha t =
     (case tg_node_id t of
        None \<Rightarrow> Inr []
      | Some i \<Rightarrow> record_hits flt repo sha i (listed_files repo sha ROUND_RECORDS_DIR))"

definition version_label :: "string \<Rightarrow> string" where
  "version_label subject =
     (case group_search (lit ''patch_series v'') (plus (Chr is_digit)) WordEdge subject 0 of
        Some (g, _) \<Rightarrow> ''v'' @ g
      | None \<Rightarrow> if rex_search (Seq (lit ''patch_series: receive'') WordEdge) subject then ''v1'' else [])"

record version_link =
  vl_commit :: string
  vl_subject :: string
  vl_committed_at :: string
  vl_parent_commit :: string
  vl_window_start :: string
  vl_window_end :: string
  vl_change_kind :: string
  vl_version_label :: string
  vl_round_records :: "round_hit list"

text \<open>The loop over the older commits: how many of them, from the newest on, still have the value.\<close>

fun same_run :: "(commit \<Rightarrow> string option) \<Rightarrow> string \<Rightarrow> commit list \<Rightarrow> nat" where
  "same_run value_of anchor [] = 0"
| "same_run value_of anchor (c # cs) = (if value_of c = Some anchor then Suc (same_run value_of anchor cs) else 0)"

definition resolve_version ::
  "(string \<Rightarrow> string) \<Rightarrow> judge_repo \<Rightarrow> string \<Rightarrow> string \<Rightarrow> target option \<Rightarrow> string \<Rightarrow> judge_error + version_link option" where
  "resolve_version flt repo branch body_path target_opt at_commit =
     (case target_opt of
        None \<Rightarrow> Inr None
      | Some t \<Rightarrow>
          rbind (log_for_path repo (if at_commit \<noteq> [] then at_commit else branch) body_path) (\<lambda>commits.
            (case commits of
               [] \<Rightarrow> Inr None
             | first # others \<Rightarrow>
                 (let value_of = (\<lambda>c. value_at_commit flt repo (cm_sha c) body_path t) in
                  case value_of first of
                    None \<Rightarrow> Inr None
                  | Some anchor \<Rightarrow>
                      (let change_idx = same_run value_of anchor others;
                           change = commits ! change_idx;
                           parent = (if change_idx + 1 < length commits then Some (commits ! (change_idx + 1)) else None)
                       in rbind (round_record_hits flt repo (cm_sha change) t) (\<lambda>hits.
                            Inr (Some \<lparr>vl_commit = cm_sha change, vl_subject = cm_subject change,
                              vl_committed_at = cm_committer_date change,
                              vl_parent_commit = (case parent of None \<Rightarrow> [] | Some p \<Rightarrow> cm_sha p),
                              vl_window_start = (case parent of None \<Rightarrow> [] | Some p \<Rightarrow> cm_committer_date p),
                              vl_window_end = cm_committer_date change,
                              vl_change_kind = (case parent of
                                  None \<Rightarrow> ''introduced''
                                | Some p \<Rightarrow> if value_of p \<noteq> None then ''changed'' else ''introduced''),
                              vl_version_label = version_label (cm_subject change), vl_round_records = hits\<rparr>)))))))"

section \<open>The target is found\<close>

text \<open>The deepest node on the path that carries an id, and there is none deeper.\<close>

definition deepest_id :: "pyval \<Rightarrow> seg list \<Rightarrow> string \<Rightarrow> seg list \<Rightarrow> bool" where
  "deepest_id data path i p \<longleftrightarrow>
     (\<exists>m\<le>length path. p = take m path \<and> id_at data p = Some i \<and> (\<forall>k. m < k \<and> k \<le> length path \<longrightarrow> id_at data (take k path) = None))"

definition encloses :: "pyval \<Rightarrow> target \<Rightarrow> bool" where
  "encloses data t \<longleftrightarrow>
     (case (tg_node_id t, tg_node_path t) of
        (Some i, Some p) \<Rightarrow> deepest_id data (tg_json_path t) i p
      | (None, None) \<Rightarrow> list_all (\<lambda>k. id_at data (take k (tg_json_path t)) = None) [0..<Suc (length (tg_json_path t))]
      | (None, Some p) \<Rightarrow> p = [] \<and> tg_json_path t = [] \<and> id_at data [] = None
      | (Some i, None) \<Rightarrow> False)"

lemma target_encloses: "encloses data (target_at data path v)"
proof (cases "enclosing_id_node data path")
  case None
  then have "\<forall>k\<le>length path. id_at data (take k path) = None" by (simp add: enclosing_id_node_def enclosing_cut_None)
  then show ?thesis using None by (simp add: encloses_def target_at_def list_all_iff del: upt_Suc)
next
  case (Some ip)
  then have "deepest_id data path (fst ip) (snd ip)"
    using enclosing_cut_Some [of data path "length path" "fst ip" "snd ip"] by (simp add: enclosing_id_node_def deepest_id_def)
  then show ?thesis using Some by (simp add: encloses_def target_at_def)
qed

text \<open>The path leads to a value with the recorded text, and the node is the deepest one on it that carries an id.\<close>

definition true_target :: "pyval \<Rightarrow> target \<Rightarrow> bool" where
  "true_target data t \<longleftrightarrow> encloses data t \<and>
     (case navigate data (tg_json_path t) of Inl e \<Rightarrow> False | Inr x \<Rightarrow> tg_scalar_text t \<in> {None, Some (text_form x)})"

lemma true_target_at: "navigate data path = Inr x \<Longrightarrow> true_target data (target_at data path x)"
  using target_encloses [of data path x] by (simp add: true_target_def target_at_def)

text \<open>
  C14: in a document that \<open>json.loads\<close> reads (finite numbers, distinct keys) resolving a target never
  raises, and a resolved target is what it says: its path leads to a value of the document whose
  text is the recorded one, and its node is the deepest one on that path that carries an id.
\<close>

theorem resolve_target_sound:
  assumes "load_pairs flt s = Inr v" "finite_doc v" "wf_py v"
  shows "case resolve_target flt s term node_arg of
      Inl e \<Rightarrow> False
    | Inr None \<Rightarrow> term \<noteq> None \<or> node_arg \<noteq> None
    | Inr (Some t) \<Rightarrow> true_target v t"
proof -
  have loads: "body_loads flt s = Inr v" using assms(1) as_dicts_wf [OF assms(3)] by (simp add: body_loads_def)
  have whole: "true_target v \<lparr>tg_json_path = [], tg_node_id = own_id v, tg_node_path = Some [], tg_scalar_text = None\<rparr>"
    by (simp add: true_target_def encloses_def deepest_id_def id_at_def split: option.split)
  consider c cs where "node_arg = Some (c # cs)" | (by_term) c cs where "node_arg \<in> {None, Some []}" "term = Some (c # cs)"
    | (body) "node_arg \<in> {None, Some []}" "term \<in> {None, Some []}"
    by (cases node_arg; cases "term") (metis insertCI list.exhaust)+
  then show ?thesis
  proof cases
    case 1
    then show ?thesis using true_target_at [of v "parse_node_arg (c # cs)"]
      by (cases "navigate v (parse_node_arg (c # cs))") (simp_all add: resolve_target_def loads Let_def)
  next
    case by_term
    have r: "resolve_target flt s term node_arg = rbind (locate_term flt s (c # cs)) (\<lambda>found. Inr (
        case found of None \<Rightarrow> None | Some l \<Rightarrow> Some (target_at v (sl_path l) (sl_value l))))"
      using by_term by (auto simp: resolve_target_def loads split: option.split)
    show ?thesis
    proof (cases "locate_term flt s (c # cs)")
      case (Inl e)
      then show ?thesis using locate_located [OF assms, of "c # cs"] by simp
    next
      case (Inr m)
      then show ?thesis using locate_located [OF assms, of "c # cs"] true_target_at by_term(2) unfolding r by (cases m) simp_all
    qed
  next
    case body
    then show ?thesis using whole by (auto simp: resolve_target_def loads)
  qed
qed

theorem resolve_target_sound_witness:
  "\<exists>t. resolve_target id (''{'' @ json_plain_text ''id'' @ '':'' @ json_plain_text ''n'' @ '', '' @ json_plain_text ''a'' @ '': ['' @ json_plain_text ''xyz'' @ '']}'')
       (Some ''yz'') None = Inr (Some t) \<and> tg_node_id t = Some ''n'' \<and> tg_node_path t = Some []"
proof -
  let ?s = "''{'' @ json_plain_text ''id'' @ '':'' @ json_plain_text ''n'' @ '', '' @ json_plain_text ''a'' @ '': ['' @ json_plain_text ''xyz'' @ '']}''"
  have l: "load_pairs id ?s = Inr (PDict [(''id'', PStr ''n''), (''a'', PList [PStr ''xyz''])])" by code_simp
  have r: "resolve_target id ?s (Some ''yz'') None =
      Inr (Some \<lparr>tg_json_path = [Key ''a'', Idx 0], tg_node_id = Some ''n'', tg_node_path = Some [], tg_scalar_text = Some ''xyz''\<rparr>)"
    by code_simp
  show ?thesis using resolve_target_sound [OF l, of "Some ''yz''" None] r by simp
qed

text \<open>A document of \<open>json.loads\<close> that is not JSON makes the search for a term raise.\<close>

lemma constant_raises: "resolve_target id ''[NaN]'' (Some ''x'') None = Inl (BodyParseError 1)"
  by code_simp

section \<open>The commit that wrote it\<close>








section \<open>A target without an id\<close>

text \<open>When no node on the path of a term carries an id, the value that is compared is the whole body.\<close>

lemma idless_target_is_body:
  "tg_node_id t = None \<Longrightarrow> tg_node_path t = None \<Longrightarrow> value_in data t = Some (canonical data)"
  by (simp add: value_in_def)

definition two_keys :: "string \<Rightarrow> string \<Rightarrow> pyval" where
  "two_keys x y = PDict [(''a'', PStr x), (''b'', PStr y)]"

definition log_line :: "string \<Rightarrow> string" where
  "log_line sha = sha @ field_sep # ''d'' @ field_sep # ''d'' @ field_sep # ''s'' @ [record_sep]"

definition drifting_repo :: judge_repo where
  "drifting_repo =
     \<lparr>jr_log = (\<lambda>_ _. Some (log_line ''new'' @ newline # log_line ''old'')),
      jr_show = (\<lambda>sha _. Some (canonical (two_keys ''x'' (if sha = ''new'' then ''y'' else ''z'')))), jr_tree = (\<lambda>_ _. None)\<rparr>"

text \<open>
  The text \<open>x\<close> stands at the same path in both commits, but the newer commit, which changed another key
  only, is reported as the one that changed it.
\<close>

lemma idless_target_drifts:
  defines "t \<equiv> \<lparr>tg_json_path = [Key ''a''], tg_node_id = None, tg_node_path = None, tg_scalar_text = Some ''x''\<rparr>"
  shows "resolve_target id (canonical (two_keys ''x'' ''y'')) (Some ''x'') None = Inr (Some t)"
    "\<exists>link. resolve_version id drifting_repo ''br'' ''p'' (Some t) [] = Inr (Some link) \<and>
       vl_commit link = ''new'' \<and> vl_parent_commit link = ''old'' \<and> vl_change_kind link = ''changed''"
    "navigate (two_keys ''x'' ''y'') [Key ''a''] = navigate (two_keys ''x'' ''z'') [Key ''a'']"
proof -
  have p: "printable id (two_keys x y) \<and> sorted_doc (two_keys x y) = two_keys x y" for x y
    by (simp add: two_keys_def)
  have l: "body_loads id (canonical (two_keys x y)) = Inr (two_keys x y)" for x y
    using canonical_loads [of id "two_keys x y"] p by simp
  have v: "value_in data t = Some (canonical data)" for data by (simp add: idless_target_is_body t_def)
  have "canonical (two_keys ''x'' ''y'') \<noteq> canonical (two_keys ''x'' ''z'')"
    using l [of "''x''" "''y''"] l [of "''x''" "''z''"] by (auto simp: two_keys_def)
  moreover have "log_for_path drifting_repo ''br'' ''p'' = Inr [\<lparr>cm_sha = ''new'', cm_author_date = ''d'', cm_committer_date = ''d'', cm_subject = ''s''\<rparr>,
      \<lparr>cm_sha = ''old'', cm_author_date = ''d'', cm_committer_date = ''d'', cm_subject = ''s''\<rparr>]" by code_simp
  moreover have "round_record_hits id drifting_repo sha t = Inr []" for sha by (simp add: round_record_hits_def t_def)
  ultimately show "\<exists>link. resolve_version id drifting_repo ''br'' ''p'' (Some t) [] = Inr (Some link) \<and>
       vl_commit link = ''new'' \<and> vl_parent_commit link = ''old'' \<and> vl_change_kind link = ''changed''"
    by (simp add: resolve_version_def value_at_commit_def drifting_repo_def l v)
  show "resolve_target id (canonical (two_keys ''x'' ''y'')) (Some ''x'') None = Inr (Some t)" unfolding t_def by code_simp
  show "navigate (two_keys ''x'' ''y'') [Key ''a''] = navigate (two_keys ''x'' ''z'') [Key ''a'']" by (simp add: two_keys_def seg_get_def)
qed
end
