(* ===== verification/ReviewPull.thy ===== *)
theory ReviewPull imports ReviewRound begin
text \<open>
  Which series the pull of \<open>src/ai_org/patchwork_queue/__init__.py\<close> revises or reviews next, and the
  rounds a series can have under it.

  A series is the log of its branch, newest subject first, with the number of its readable round
  records, whether it is merged into the default branch, and whether it holds unprocessed experience
  reports. One pull works on a branch at a time; nothing else in \<open>src/ai_org\<close> calls the revision or
  the review of a series. The record a round commits is one that can be read back.
\<close>

section \<open>The selector\<close>

record series =
  sr_subjects :: "string list"
  sr_records :: nat
  sr_merged :: bool
  sr_experience :: bool

fun terminal_scan :: "string list \<Rightarrow> bool" where
  "terminal_scan [] = False"
| "terminal_scan (x # xs) =
     (if in_text ''patch_series: needs-revision round '' x then False
      else if startswith x ''patch_series v'' then False
      else if in_text ''patch_series: direction-ok'' x then True
      else terminal_scan xs)"

definition has_subject :: "string list \<Rightarrow> string \<Rightarrow> bool" where
  "has_subject subjects w \<longleftrightarrow> list_ex (in_text w) subjects"

definition is_terminal_patch_series :: "series \<Rightarrow> bool" where
  "is_terminal_patch_series s \<longleftrightarrow>
     has_subject (sr_subjects s) ''patch_series: nak'' \<or> sr_merged s \<or> terminal_scan (sr_subjects s)"

fun latest_needs_revision_is_head :: "string list \<Rightarrow> bool" where
  "latest_needs_revision_is_head [] = False"
| "latest_needs_revision_is_head (x # xs) =
     (if in_text ''patch_series: direction-ok'' x \<or> in_text ''patch_series: nak'' x then False
      else if in_text ''patch_series: needs-revision round '' x then True
      else if startswith x ''patch_series v'' then False
      else latest_needs_revision_is_head xs)"


text \<open>The two loops of \<open>pull\<close>: a revision of any series goes before every review.\<close>

definition to_revise :: "series \<Rightarrow> bool" where
  "to_revise s \<longleftrightarrow> \<not> is_terminal_patch_series s \<and>
     (latest_needs_revision_is_head (sr_subjects s) \<or> sr_experience s) \<and> 0 < sr_records s"

definition to_review :: "series \<Rightarrow> bool" where
  "to_review s \<longleftrightarrow> \<not> is_terminal_patch_series s \<and> \<not> latest_needs_revision_is_head (sr_subjects s)"



section \<open>The life of a series\<close>


definition add_round :: "string \<Rightarrow> series \<Rightarrow> series" where
  "add_round subject s = s\<lparr>sr_subjects := subject # sr_subjects s, sr_records := Suc (sr_records s)\<rparr>"





section \<open>Rounds are bounded\<close>




text \<open>A series the selector leaves alone for good.\<close>

definition closed_series :: "series \<Rightarrow> bool" where
  "closed_series s \<longleftrightarrow> has_subject (sr_subjects s) ''patch_series: nak'' \<or> terminal_scan (sr_subjects s)"

lemma closed_no_turn: "closed_series s \<Longrightarrow> \<not> to_revise s \<and> \<not> to_review s"
  by (auto simp: closed_series_def to_revise_def to_review_def is_terminal_patch_series_def)





lemma add_round_records [simp]: "sr_records (add_round x s) = Suc (sr_records s)"
  by (simp add: add_round_def)



lemma to_review_open: "to_review s \<Longrightarrow> \<not> closed_series s"
  using closed_no_turn by blast






text \<open>
  The reviews are bounded, the revisions are not: a reposted version with a round record behind it and
  an unprocessed experience report is revised again before it is reviewed.
\<close>

lemma experience_revises_again:
  "\<not> has_subject xs ''patch_series: nak'' \<Longrightarrow> \<not> in_text ''patch_series: nak'' (''patch_series v'' @ t) \<Longrightarrow>
   \<not> in_text ''patch_series: needs-revision round '' (''patch_series v'' @ t) \<Longrightarrow>
   to_revise \<lparr>sr_subjects = (''patch_series v'' @ t) # xs, sr_records = Suc n, sr_merged = False, sr_experience = True\<rparr>"
  using startswith_append [of "''patch_series v''" t]
  by (simp add: to_revise_def is_terminal_patch_series_def has_subject_def)
end
