(* ===== verification/SubsystemSeat.thy ===== *)
theory SubsystemSeat imports MaintainerMerge begin
text \<open>
  The subsystem seat, \<open>accept_leaf\<close> and \<open>handoff_series\<close> of \<open>src/ai_org/subsystem.py\<close>, and the history of
  the two integration branches under everybody who moves them: seats and the maintainer stages.

  A run of the seat is a program over single git commands, \<open>run\<close>: it issues a command, gets the answer and
  goes on, so that other processes act between any two commands of it. The state of the repository is
  its refs and the branch that is checked out in its main worktree, which all of them share. The snapshot
  of the leaves of a series (\<open>_series_leaf_snapshot\<close>, over the network and the resolution of the gate) is
  an answer of the repository. Records for the log are left out.
\<close>

section \<open>Commands\<close>

type_synonym leaf_row = "string \<times> string \<times> string"

datatype git_command =
    Branch_exists string
  | Origin_head
  | Current_branch
  | Head_of string
  | Is_ancestor string string
  | Checkout string
  | Commit_empty "string list"
  | Rev_parse_head
  | New_branch string string
  | Make_tempdir
  | Add_worktree string
  | Merge_no_ff string string "string list"
  | Fast_forward string string
  | Fast_forward_here string
  | Remove_worktree
  | Remove_tempdir
  | Leaf_snapshot string
  | Record_commit string
  | Base_before string "leaf_row list"

text \<open>A command fails with its message (empty when git printed none), or answers.\<close>

datatype git_answer = Git_failed string | Git_done | Git_truth bool | Git_text string | Git_leaves "leaf_row list" "leaf_row list"

text \<open>What leaves a function: a \<open>RuntimeError\<close> with its text, or an \<open>OSError\<close>.\<close>

datatype seat_exn = Runtime string | Os_error

datatype 'a run = Return 'a | Issue git_command "git_answer \<Rightarrow> 'a run"

primrec run_bind :: "'a run \<Rightarrow> ('a \<Rightarrow> 'b run) \<Rightarrow> 'b run" where
  "run_bind (Return x) f = f x"
| "run_bind (Issue c k) f = Issue c (\<lambda>a. run_bind (k a) f)"

text \<open>Sequencing: a raise ends the block.\<close>

definition run_then :: "('e + 'a) run \<Rightarrow> ('a \<Rightarrow> ('e + 'b) run) \<Rightarrow> ('e + 'b) run" where
  "run_then p f = run_bind p (\<lambda>r. case r of Inl e \<Rightarrow> Return (Inl e) | Inr x \<Rightarrow> f x)"

text \<open>\<open>try: p finally: q\<close>; a raise of \<open>q\<close> replaces the outcome of \<open>p\<close>.\<close>

definition run_finally :: "('e + 'a) run \<Rightarrow> ('e + unit) run \<Rightarrow> ('e + 'a) run" where
  "run_finally p q = run_bind p (\<lambda>r. run_bind q (\<lambda>s. case s of Inl e \<Rightarrow> Return (Inl e) | Inr _ \<Rightarrow> Return r))"

text \<open>\<open>_git_required\<close>, with the output of the command.\<close>

definition git_failure :: "string \<Rightarrow> string \<Rightarrow> seat_exn" where
  "git_failure message instead = Runtime (or_text message instead)"

definition said :: "git_answer \<Rightarrow> string" where
  "said a = (case a of Git_text t \<Rightarrow> t | _ \<Rightarrow> [])"

definition answered_yes :: "git_answer \<Rightarrow> bool" where
  "answered_yes a = (case a of Git_truth b \<Rightarrow> b | _ \<Rightarrow> False)"

definition git_required :: "git_command \<Rightarrow> (seat_exn + string) run" where
  "git_required c =
     Issue c (\<lambda>a. case a of Git_failed message \<Rightarrow> Return (Inl (git_failure message ''git command failed'')) | _ \<Rightarrow> Return (Inr (said a)))"

section \<open>The functions of the seat\<close>

text \<open>\<open>_required_head\<close>.\<close>

definition required_head :: "string \<Rightarrow> (seat_exn + string) run" where
  "required_head ref =
     Issue (Head_of ref) (\<lambda>a. if said a = [] then Return (Inl (Runtime (''Git ref has no commit: '' @ ref))) else Return (Inr (said a)))"

text \<open>\<open>commit_empty\<close> of the git wrapper: the marker is committed on whatever is checked out by then.\<close>

definition commit_empty :: "string \<Rightarrow> string list \<Rightarrow> (seat_exn + string) run" where
  "commit_empty branch messages =
     Issue Current_branch (\<lambda>original.
       run_finally
         (run_then (git_required (Checkout branch)) (\<lambda>_.
            run_then (git_required (Commit_empty messages)) (\<lambda>_. git_required Rev_parse_head)))
         (if said original = [] then Return (Inr ())
          else run_then (git_required (Checkout (said original))) (\<lambda>_. Return (Inr ()))))"

text \<open>\<open>_branch_worktree\<close> around a body.\<close>

definition branch_worktree :: "string \<Rightarrow> (seat_exn + 'a) run \<Rightarrow> (seat_exn + 'a) run" where
  "branch_worktree branch body =
     Issue Make_tempdir (\<lambda>made. case made of
         Git_failed _ \<Rightarrow> Return (Inl Os_error)
       | _ \<Rightarrow>
           run_finally
             (Issue (Add_worktree branch) (\<lambda>added. case added of
                 Git_failed message \<Rightarrow> Return (Inl (git_failure message ''git worktree add failed''))
               | _ \<Rightarrow> run_finally body (Issue Remove_worktree (\<lambda>_. Return (Inr ())))))
             (Issue Remove_tempdir (\<lambda>removed. case removed of Git_failed _ \<Rightarrow> Return (Inl Os_error) | _ \<Rightarrow> Return (Inr ()))))"

text \<open>\<open>default_branch\<close> of the git wrapper and \<open>_local_default_branch\<close>.\<close>

definition wrapper_default_branch :: "(seat_exn + string) run" where
  "wrapper_default_branch =
     Issue Origin_head (\<lambda>origin.
       if startswith (said origin) ''origin/'' then Return (Inr (said origin))
       else Issue (Branch_exists ''main'') (\<lambda>main. if answered_yes main then Return (Inr ''main'')
       else Issue (Branch_exists ''master'') (\<lambda>master. if answered_yes master then Return (Inr ''master'')
       else Issue Current_branch (\<lambda>current.
         if said current \<noteq> [] then Return (Inr (said current))
         else Return (Inl (Runtime ''could not determine repository default branch''))))))"

definition local_default_branch :: "(seat_exn + string) run" where
  "local_default_branch =
     run_then wrapper_default_branch (\<lambda>found.
       let plain = removeprefix found ''refs/heads/'';
           checked = (\<lambda>name. Issue (Branch_exists name) (\<lambda>there.
             if answered_yes there then Return (Inr name) else Return (Inl (Runtime (''local default branch is missing: '' @ name)))))
       in if startswith plain ''origin/''
          then Issue (Branch_exists (removeprefix plain ''origin/'')) (\<lambda>there.
            checked (if answered_yes there then removeprefix plain ''origin/'' else plain))
          else checked plain)"

text \<open>\<open>_fast_forward_branch\<close>.\<close>

definition fast_forward_branch :: "string \<Rightarrow> string \<Rightarrow> (seat_exn + unit) run" where
  "fast_forward_branch branch commit =
     Issue (Is_ancestor branch commit) (\<lambda>ahead.
       if \<not> answered_yes ahead then Return (Inl (Runtime (branch @ '' cannot fast-forward to '' @ commit)))
       else Issue Current_branch (\<lambda>current.
         if said current = branch then run_then (git_required (Fast_forward_here commit)) (\<lambda>_. Return (Inr ()))
         else branch_worktree branch (run_then (git_required (Fast_forward branch commit)) (\<lambda>_. Return (Inr ())))))"

definition ACCEPTANCE_SUBJECT :: string where "ACCEPTANCE_SUBJECT = ''acceptance: reachable''"

definition ACCEPTANCE_BODY :: string where
  "ACCEPTANCE_BODY =
     ''Requester-fiat acceptance: this empty-headed maintainer form accepts the '' @
     ''contribution without an independent judgment.''"

datatype seat_result =
    Contrib_missing
  | Leaf_accepted string string string
  | Series_incomplete "leaf_row list"
  | Subsystem_missing
  | Mainline_base_missing
  | Already_current string "leaf_row list"
  | Series_accepted string "leaf_row list"
  | Git_error string

text \<open>The outer functions turn a \<open>RuntimeError\<close> into a result; an \<open>OSError\<close> leaves them.\<close>

definition caught :: "(seat_exn + seat_result) run \<Rightarrow> (seat_exn + seat_result) run" where
  "caught p = run_bind p (\<lambda>r. case r of Inl (Runtime message) \<Rightarrow> Return (Inr (Git_error message)) | _ \<Rightarrow> Return r)"

definition accept_leaf :: "string \<Rightarrow> (seat_exn + seat_result) run" where
  "accept_leaf contrib = caught
     (Issue (Branch_exists contrib) (\<lambda>there.
        if \<not> answered_yes there then Return (Inr Contrib_missing)
        else run_then local_default_branch (\<lambda>default.
          run_then (commit_empty contrib [ACCEPTANCE_SUBJECT, ACCEPTANCE_BODY]) (\<lambda>marker.
          Issue (Branch_exists SUBSYSTEM_BRANCH) (\<lambda>tree.
          run_then (if answered_yes tree then Return (Inr []) else git_required (New_branch SUBSYSTEM_BRANCH default)) (\<lambda>_.
          run_then (branch_worktree SUBSYSTEM_BRANCH
              (run_then (git_required (Merge_no_ff SUBSYSTEM_BRANCH marker [''subsystem: accept '' @ contrib])) (\<lambda>_.
                 required_head SUBSYSTEM_BRANCH))) (\<lambda>subsystem.
          run_then (fast_forward_branch default subsystem) (\<lambda>_.
            Return (Inr (Leaf_accepted marker subsystem default))))))))))"

text \<open>\<open>_handoff_body\<close>, the record of a hand-off.\<close>

definition leaf_line :: "leaf_row \<Rightarrow> string" where
  "leaf_line row = (case row of (path, branch, tip) \<Rightarrow> ''- '' @ path @ '' | '' @ branch @ '' | '' @ tip)"

definition handoff_body :: "leaf_row list \<Rightarrow> string \<Rightarrow> string \<Rightarrow> string" where
  "handoff_body leaves series_tip subsystem_tip =
     py_join [newline] ([''Leaves:''] @ map leaf_line leaves @
       [[], ''Series branch tip: '' @ series_tip, ''Subsystem tip: '' @ subsystem_tip, [],
        ''Counts: leaves='' @ nat_str (length leaves) @ '' resolved='' @ nat_str (length leaves) @ '' unresolved=0''])"

definition handoff_series :: "string \<Rightarrow> string \<Rightarrow> (seat_exn + seat_result) run" where
  "handoff_series series slug = caught
     (Issue (Leaf_snapshot series) (\<lambda>snapshot. case snapshot of
        Git_leaves leaves unresolved \<Rightarrow>
          if unresolved \<noteq> [] then Return (Inr (Series_incomplete unresolved))
          else (let subject = ''mainline: accept series '' @ slug in
            Issue (Record_commit subject) (\<lambda>existing.
            if said existing \<noteq> [] then Return (Inr (Already_current (said existing) leaves))
            else Issue (Head_of series) (\<lambda>series_tip.
            Issue (Head_of SUBSYSTEM_BRANCH) (\<lambda>subsystem_tip.
            if said series_tip = [] then Return (Inr (Series_incomplete (if leaves = [] then [(''.'', [], [])] else leaves)))
            else if said subsystem_tip = [] then Return (Inr Subsystem_missing)
            else Issue (Branch_exists MAINLINE_BRANCH) (\<lambda>mainline.
              run_then
                (if answered_yes mainline
                 then run_then (required_head MAINLINE_BRANCH) (\<lambda>mainline_tip.
                   Issue (Is_ancestor (said subsystem_tip) mainline_tip) (\<lambda>merged.
                     Return (Inr (if answered_yes merged then Some (Already_current mainline_tip leaves) else None))))
                 else Issue (Base_before (said subsystem_tip) leaves) (\<lambda>base.
                   if said base = [] then Return (Inr (Some Mainline_base_missing))
                   else run_then (git_required (New_branch MAINLINE_BRANCH (said base))) (\<lambda>_. Return (Inr None))))
                (\<lambda>settled. case settled of
                   Some result \<Rightarrow> Return (Inr result)
                 | None \<Rightarrow>
                     run_then (branch_worktree MAINLINE_BRANCH
                         (run_then (git_required (Merge_no_ff MAINLINE_BRANCH (said subsystem_tip)
                              [subject, handoff_body leaves (said series_tip) (said subsystem_tip)])) (\<lambda>_.
                            required_head MAINLINE_BRANCH))) (\<lambda>mainline_commit.
                       Return (Inr (Series_accepted mainline_commit leaves)))))))))
      | Git_failed message \<Rightarrow> Return (Inl (Runtime message))
      | _ \<Rightarrow> Return (Inl (Runtime []))))"

section \<open>Walks over the history\<close>

text \<open>
  \<open>_mainline_record_commit\<close> and \<open>_base_before_series_acceptance\<close> follow first parents. Commits do not
  change, so a walk is one read. \<open>None\<close> is a walk that does not return.
\<close>

partial_function (option) record_walk ::
  "(string \<Rightarrow> string option) \<Rightarrow> (string \<Rightarrow> string list) \<Rightarrow> string \<Rightarrow> string list \<Rightarrow> string option \<Rightarrow> string option option" where
  "record_walk subject_of parents wanted seen current =
     (case current of
        None \<Rightarrow> Some None
      | Some c \<Rightarrow>
          if c = [] \<or> c \<in> set seen then Some None
          else if subject_of c = Some wanted \<and> 2 \<le> length (parents c) then Some (Some c)
          else record_walk subject_of parents wanted (c # seen) (case parents c of [] \<Rightarrow> None | p # _ \<Rightarrow> Some p))"

partial_function (option) base_walk ::
  "(string \<Rightarrow> string list) \<Rightarrow> string list \<Rightarrow> string list \<Rightarrow> string list \<Rightarrow> string option \<Rightarrow> string \<Rightarrow> string option option" where
  "base_walk parents tips matched seen candidate current =
     (let found = Some (if set matched = set tips then candidate else None) in
      if current = [] \<or> current \<in> set seen then found
      else (case parents current of
          [] \<Rightarrow> found
        | p # merged \<Rightarrow>
            (let here = filter (\<lambda>t. t \<in> set merged) tips in
             if here \<noteq> [] \<and> set (here @ matched) = set tips then Some (Some p)
             else base_walk parents tips (here @ matched) (current # seen) (if here \<noteq> [] then Some p else candidate) p)))"

definition leaf_tips :: "leaf_row list \<Rightarrow> string list" where
  "leaf_tips leaves = filter (\<lambda>t. t \<noteq> []) (map (\<lambda>row. snd (snd row)) leaves)"

section \<open>What a command does\<close>

datatype checked_out = On string | Detached string

record git_state =
  gs_refs :: refs
  gs_here :: checked_out

text \<open>
  The part of a repository a command finds beside the refs: commits and their ancestry, the network
  of a series, the names \<open>rev-parse\<close> knows, and whether git refuses a command for reasons of its own.
\<close>

record seat_host =
  st_refuses :: "git_command \<Rightarrow> string option"
  st_message :: "git_command \<Rightarrow> string"
  st_origin :: "string option"
  st_resolve :: "refs \<Rightarrow> string \<Rightarrow> string option"
  st_ancestor :: "string \<Rightarrow> string \<Rightarrow> bool"
  st_subject :: "string \<Rightarrow> string option"
  st_parents :: "string \<Rightarrow> string list"
  st_empty :: "string \<Rightarrow> string list \<Rightarrow> string"
  st_merge :: "string \<Rightarrow> string \<Rightarrow> string list \<Rightarrow> string"
  st_leaves :: "string \<Rightarrow> leaf_row list \<times> leaf_row list"

definition text_answer :: "seat_host \<Rightarrow> git_command \<Rightarrow> string option \<Rightarrow> git_answer" where
  "text_answer host c t = (case t of None \<Rightarrow> Git_failed (st_message host c) | Some s \<Rightarrow> Git_text s)"

definition head_oid :: "git_state \<Rightarrow> string option" where
  "head_oid g = (case gs_here g of On b \<Rightarrow> gs_refs g (heads b) | Detached oid \<Rightarrow> Some oid)"

definition move_branch :: "string \<Rightarrow> string \<Rightarrow> git_state \<Rightarrow> git_state" where
  "move_branch b oid g = g\<lparr>gs_refs := (gs_refs g)(heads b \<mapsto> oid)\<rparr>"

text \<open>A fast-forward of a branch: nothing to do, a move to a descendant, or a failure.\<close>

definition ff_branch :: "seat_host \<Rightarrow> git_command \<Rightarrow> string \<Rightarrow> string \<Rightarrow> git_state \<Rightarrow> git_answer \<times> git_state" where
  "ff_branch host c b commit g =
     (case gs_refs g (heads b) of
        None \<Rightarrow> (Git_failed (st_message host c), g)
      | Some old \<Rightarrow>
          if st_ancestor host commit old then (Git_done, g)
          else if st_ancestor host old commit then (Git_done, move_branch b commit g)
          else (Git_failed (st_message host c), g))"

fun git_acts :: "seat_host \<Rightarrow> git_command \<Rightarrow> git_state \<Rightarrow> git_answer \<times> git_state" where
  "git_acts host (Branch_exists b) g = (Git_truth (gs_refs g (heads b) \<noteq> None), g)"
| "git_acts host Origin_head g = (text_answer host Origin_head (st_origin host), g)"
| "git_acts host Current_branch g =
     (text_answer host Current_branch (case gs_here g of On b \<Rightarrow> Some b | Detached _ \<Rightarrow> None), g)"
| "git_acts host (Head_of name) g = (text_answer host (Head_of name) (st_resolve host (gs_refs g) name), g)"
| "git_acts host (Is_ancestor a b) g =
     (Git_truth (case (st_resolve host (gs_refs g) a, st_resolve host (gs_refs g) b) of
        (Some x, Some y) \<Rightarrow> st_ancestor host x y | _ \<Rightarrow> False), g)"
| "git_acts host (Checkout b) g =
     (if gs_refs g (heads b) = None then (Git_failed (st_message host (Checkout b)), g) else (Git_done, g\<lparr>gs_here := On b\<rparr>))"
| "git_acts host (Commit_empty messages) g =
     (Git_done,
      case gs_here g of
        On b \<Rightarrow> move_branch b (st_empty host (text_of (gs_refs g (heads b))) messages) g
      | Detached oid \<Rightarrow> g\<lparr>gs_here := Detached (st_empty host oid messages)\<rparr>)"
| "git_acts host Rev_parse_head g = (text_answer host Rev_parse_head (head_oid g), g)"
| "git_acts host (New_branch b base) g =
     (case (gs_refs g (heads b), st_resolve host (gs_refs g) base) of
        (None, Some oid) \<Rightarrow> (Git_done, move_branch b oid g)
      | _ \<Rightarrow> (Git_failed (st_message host (New_branch b base)), g))"
| "git_acts host (Merge_no_ff b source messages) g =
     (case gs_refs g (heads b) of
        None \<Rightarrow> (Git_failed (st_message host (Merge_no_ff b source messages)), g)
      | Some old \<Rightarrow>
          (Git_done, if st_ancestor host source old then g else move_branch b (st_merge host old source messages) g))"
| "git_acts host (Fast_forward b commit) g = ff_branch host (Fast_forward b commit) b commit g"
| "git_acts host (Fast_forward_here commit) g =
     (case gs_here g of
        On b \<Rightarrow> ff_branch host (Fast_forward_here commit) b commit g
      | Detached oid \<Rightarrow>
          if st_ancestor host commit oid then (Git_done, g)
          else if st_ancestor host oid commit then (Git_done, g\<lparr>gs_here := Detached commit\<rparr>)
          else (Git_failed (st_message host (Fast_forward_here commit)), g))"
| "git_acts host (Leaf_snapshot series) g = (Git_leaves (fst (st_leaves host series)) (snd (st_leaves host series)), g)"
| "git_acts host (Record_commit subject) g =
     (text_answer host (Record_commit subject)
        (case record_walk (st_subject host) (st_parents host) subject [] (st_resolve host (gs_refs g) MAINLINE_BRANCH) of
           Some found \<Rightarrow> found | None \<Rightarrow> None), g)"
| "git_acts host (Base_before tip leaves) g =
     (text_answer host (Base_before tip leaves)
        (case base_walk (st_parents host) (leaf_tips leaves) [] [] None tip of Some found \<Rightarrow> found | None \<Rightarrow> None), g)"
| "git_acts host c g = (Git_done, g)"

definition git_does :: "seat_host \<Rightarrow> git_command \<Rightarrow> git_state \<Rightarrow> git_answer \<times> git_state" where
  "git_does host c g = (case st_refuses host c of Some message \<Rightarrow> (Git_failed message, g) | None \<Rightarrow> git_acts host c g)"

text \<open>A run that nothing interrupts.\<close>

primrec run_alone :: "seat_host \<Rightarrow> 'a run \<Rightarrow> git_state \<Rightarrow> 'a \<times> git_state" where
  "run_alone host (Return x) g = (x, g)"
| "run_alone host (Issue c k) g = (case git_does host c g of (a, g') \<Rightarrow> run_alone host (k a) g')"

lemma run_alone_bind: "run_alone host (run_bind p f) g = (case run_alone host p g of (x, g') \<Rightarrow> run_alone host (f x) g')"
  by (induction p arbitrary: g) (simp_all split: prod.split)

text \<open>Both walks return on every history in which the first parents of a commit lead into a finite set.\<close>

lemma record_walk_returns:
  assumes "finite S" "\<And>c p ps. c \<in> S \<Longrightarrow> parents c = p # ps \<Longrightarrow> p \<in> S" "\<And>c. current = Some c \<Longrightarrow> c \<in> S"
  shows "\<exists>r. record_walk subject_of parents wanted seen current = Some r"
  using assms(3)
proof (induction "card (S - set seen)" arbitrary: seen current rule: less_induct)
  case less
  show ?case
  proof (cases "\<exists>c. current = Some c \<and> c \<noteq> [] \<and> c \<notin> set seen \<and> \<not> (subject_of c = Some wanted \<and> 2 \<le> length (parents c))")
    case True
    then obtain c where c: "current = Some c" "c \<noteq> []" "c \<notin> set seen" "\<not> (subject_of c = Some wanted \<and> 2 \<le> length (parents c))" by blast
    have "card (S - set (c # seen)) < card (S - set seen)"
      using less.prems [OF c(1)] c(3) assms(1) by (intro psubset_card_mono) auto
    moreover have "\<And>d. (case parents c of [] \<Rightarrow> None | p # _ \<Rightarrow> Some p) = Some d \<Longrightarrow> d \<in> S"
      using assms(2) [OF less.prems [OF c(1)]] by (auto split: list.splits)
    ultimately show ?thesis using less.hyps [of "c # seen"] c by (subst record_walk.simps) (simp split: list.splits)
  next
    case False
    then show ?thesis by (subst record_walk.simps) (auto split: option.split)
  qed
qed

lemma base_walk_returns:
  assumes "finite S" "\<And>c p ps. c \<in> S \<Longrightarrow> parents c = p # ps \<Longrightarrow> p \<in> S" "current \<in> S"
  shows "\<exists>r. base_walk parents tips matched seen candidate current = Some r"
  using assms(3)
proof (induction "card (S - set seen)" arbitrary: matched seen candidate current rule: less_induct)
  case less
  show ?case
  proof (cases "current = [] \<or> current \<in> set seen \<or> parents current = []")
    case False
    then obtain p ps where p: "parents current = p # ps" by (cases "parents current") auto
    have "card (S - set (current # seen)) < card (S - set seen)"
      using less.prems False assms(1) by (intro psubset_card_mono) auto
    then show ?thesis using less.hyps [of "current # seen" p] assms(2) [OF less.prems p] False p
      by (subst base_walk.simps) (simp add: Let_def)
  next
    case True
    then show ?thesis by (subst base_walk.simps) (auto simp: Let_def)
  qed
qed

lemma handoff_fails_closed:
  assumes "st_refuses host (Leaf_snapshot series) = None" "snd (st_leaves host series) \<noteq> []"
  shows "run_alone host (handoff_series series slug) g = (Inr (Series_incomplete (snd (st_leaves host series))), g)"
  using assms by (simp add: handoff_series_def caught_def git_does_def)

section \<open>Commands only advance branches\<close>

text \<open>What git documents of the commits its commands make and of \<open>merge-base --is-ancestor\<close>.\<close>

definition seat_descends :: "(string \<Rightarrow> string \<Rightarrow> bool) \<Rightarrow> seat_host \<Rightarrow> bool" where
  "seat_descends anc host \<longleftrightarrow>
     (\<forall>a b. st_ancestor host a b \<longrightarrow> anc a b) \<and> (\<forall>old messages. anc old (st_empty host old messages)) \<and>
     (\<forall>old source messages. anc old (st_merge host old source messages))"

definition branches_advance :: "(string \<Rightarrow> string \<Rightarrow> bool) \<Rightarrow> refs \<Rightarrow> refs \<Rightarrow> bool" where
  "branches_advance anc refs after \<longleftrightarrow> (\<forall>r old. refs r = Some old \<longrightarrow> (\<exists>new. after r = Some new \<and> anc old new))"

lemma branches_advance_refl: "reflp anc \<Longrightarrow> branches_advance anc refs refs"
  by (simp add: branches_advance_def reflpD)

lemma branches_advance_move:
  "reflp anc \<Longrightarrow> (\<And>old. gs_refs g (heads b) = Some old \<Longrightarrow> anc old new) \<Longrightarrow> branches_advance anc (gs_refs g) (gs_refs (move_branch b new g))"
  by (simp add: branches_advance_def move_branch_def reflpD)

lemma ff_branch_advances:
  "seat_descends anc host \<Longrightarrow> reflp anc \<Longrightarrow> branches_advance anc (gs_refs g) (gs_refs (snd (ff_branch host c b commit g)))"
  by (auto simp: ff_branch_def seat_descends_def intro!: branches_advance_refl branches_advance_move split: option.split)

lemma git_does_advances:
  assumes "seat_descends anc host" "reflp anc"
  shows "branches_advance anc (gs_refs g) (gs_refs (snd (git_does host c g)))"
proof -
  have "branches_advance anc (gs_refs g) (gs_refs (snd (git_acts host c g)))"
    using assms
    by (cases "(host, c, g)" rule: git_acts.cases)
      (auto simp: branches_advance_refl ff_branch_advances text_of_def seat_descends_def
        intro!: branches_advance_move split: option.split checked_out.split)
  then show ?thesis using branches_advance_refl [OF assms(2)] by (simp add: git_does_def split: option.split)
qed

section \<open>Everybody who moves the integration branches\<close>

type_synonym integration_state = "git_state \<times> (seat_exn + seat_result) run list"

text \<open>
  Any number of maintainers, seats and other writers, interleaved. A maintainer is one call of \<open>pull\<close>
  whose reads (\<open>repo\<close>, \<open>host\<close>) may be of any earlier moment and that may raise; its merge without evidence
  (\<open>merge_contribution\<close>), which is two commands on the branch, may also be cut between them
  (\<open>stage_command\<close>, once for each). A seat starts
  \<open>accept_leaf\<close> or \<open>handoff_series\<close> and then acts one command at a time; one that is killed takes no
  further step. The others leave the two integration branches alone.
\<close>

inductive maintainer_step ::
  "(string \<Rightarrow> string) \<Rightarrow> (ref_command list \<Rightarrow> refs \<Rightarrow> refs option) \<Rightarrow> (string \<Rightarrow> string \<Rightarrow> bool) \<Rightarrow>
   integration_state \<Rightarrow> integration_state \<Rightarrow> bool"
  for digest txn anc where
  subsystem_stage:
    "pull digest repo reachable blocker branch_exists branches = PullSubsystem branch \<Longrightarrow> descends anc host \<Longrightarrow>
     snd (subsystem_review digest repo host txn branch SUBSYSTEM_BRANCH [] (gs_refs g)) = after \<Longrightarrow>
     maintainer_step digest txn anc (g, seats) (g\<lparr>gs_refs := after\<rparr>, seats)"
| mainline_stage:
    "pull digest repo reachable blocker branch_exists branches = PullMainline \<Longrightarrow> descends anc host \<Longrightarrow>
     snd (mainline_review digest repo host txn SUBSYSTEM_BRANCH MAINLINE_BRANCH [] (gs_refs g)) = after \<Longrightarrow>
     maintainer_step digest txn anc (g, seats) (g\<lparr>gs_refs := after\<rparr>, seats)"
| stage_command:
    "target \<in> {SUBSYSTEM_BRANCH, MAINLINE_BRANCH} \<Longrightarrow> c \<in> {New_branch target base, Merge_no_ff target source [message]} \<Longrightarrow>
     seat_descends anc seat \<Longrightarrow> git_does seat c g = (a, g') \<Longrightarrow>
     maintainer_step digest txn anc (g, seats) (g', seats)"
| leaf_starts: "maintainer_step digest txn anc (g, seats) (g, seats @ [accept_leaf contrib])"
| series_starts: "maintainer_step digest txn anc (g, seats) (g, seats @ [handoff_series series slug])"
| seat_command:
    "i < length seats \<Longrightarrow> seats ! i = Issue c k \<Longrightarrow> seat_descends anc seat \<Longrightarrow> git_does seat c g = (a, g') \<Longrightarrow>
     maintainer_step digest txn anc (g, seats) (g', seats[i := k a])"
| other_writer:
    "gs_refs g' (heads SUBSYSTEM_BRANCH) = gs_refs g (heads SUBSYSTEM_BRANCH) \<Longrightarrow>
     gs_refs g' (heads MAINLINE_BRANCH) = gs_refs g (heads MAINLINE_BRANCH) \<Longrightarrow>
     maintainer_step digest txn anc (g, seats) (g', seats)"

inductive_cases maintainer_stepE: "maintainer_step digest txn anc s t"

text \<open>A seat that nothing interrupts is a chain of steps.\<close>

lemma run_alone_steps:
  assumes "seat_descends anc seat" "i < length seats" "seats ! i = p" "run_alone seat p g = (x, g')"
  shows "(maintainer_step digest txn anc)\<^sup>*\<^sup>* (g, seats) (g', seats[i := Return x])"
  using assms(2-4)
proof (induction p arbitrary: g seats)
  case (Return y)
  then show ?case by (metis list_update_id prod.inject rtranclp.rtrancl_refl run_alone.simps(1))
next
  case (Issue c k)
  obtain a h where d: "git_does seat c g = (a, h)" by fastforce
  have "(maintainer_step digest txn anc)\<^sup>*\<^sup>* (h, seats[i := k a]) (g', (seats[i := k a])[i := Return x])"
    using Issue.IH [of "k a" "seats[i := k a]" h] Issue.prems d by simp
  moreover have "maintainer_step digest txn anc (g, seats) (h, seats[i := k a])"
    using Issue.prems assms(1) d by (blast intro: maintainer_step.seat_command)
  ultimately show ?case by (simp add: converse_rtranclp_into_rtranclp)
qed

lemma advances_ref:
  "advances anc target refs after \<Longrightarrow> reflp anc \<Longrightarrow> refs r = Some old \<Longrightarrow> \<exists>new. after r = Some new \<and> anc old new"
  by (cases "r = target") (simp_all add: advances_def reflpD)

lemma maintainer_step_advances:
  assumes "maintainer_step digest txn anc s t" "transactional txn" "reflp anc"
    and "b \<in> {SUBSYSTEM_BRANCH, MAINLINE_BRANCH}" "gs_refs (fst s) (heads b) = Some c"
  shows "\<exists>c'. gs_refs (fst t) (heads b) = Some c' \<and> anc c c'"
  using assms(1)
proof (cases rule: maintainer_step.cases)
  case (subsystem_stage repo reachable blocker branch_exists branches branch host g after seats)
  then show ?thesis
    using advances_ref [OF subsystem_review_advances [OF assms(2) _ assms(3)] assms(3)] assms(5) by fastforce
next
  case (mainline_stage repo reachable blocker branch_exists branches host g after seats)
  then show ?thesis
    using advances_ref [OF mainline_review_advances [OF assms(2) _ assms(3)] assms(3)] assms(5) by fastforce
next
  case (seat_command i seats cm k seat g a g')
  then have "branches_advance anc (gs_refs g) (gs_refs g')"
    using git_does_advances [OF _ assms(3), of seat g cm] by simp
  then show ?thesis using seat_command(1,2) assms(5) by (simp add: branches_advance_def)
next
  case (stage_command target c base source message seat g a g' seats)
  then have "branches_advance anc (gs_refs g) (gs_refs g')"
    using git_does_advances [OF _ assms(3), of seat g c] by simp
  then show ?thesis using stage_command(1,2) assms(5) by (simp add: branches_advance_def)
next
  case (other_writer g' g seats)
  then show ?thesis using assms(3-5) by (auto simp: reflpD)
qed (use assms(3,5) in \<open>auto simp: reflpD\<close>)

text \<open>
  C2: no integration is ever lost. Whatever maintainer stages, seats and other writers do in
  whatever order, each stage deciding on reads that may be out of date and raising where it may, each seat
  interrupted or killed between any two of its git commands, a commit that the subsystem or mainline
  branch once had is an ancestor of what the branch has at any later time. Other writers are those
  that leave the two branches alone; resetting one by hand, which the README gives as the way of
  rejecting a series, is none of these steps.
\<close>

theorem integration_never_lost:
  assumes "transactional txn" "reflp anc" "transp anc"
    and "(maintainer_step digest txn anc)\<^sup>*\<^sup>* (g, seats) (later, seats')"
    and "b \<in> {SUBSYSTEM_BRANCH, MAINLINE_BRANCH}" "gs_refs g (heads b) = Some c"
  shows "\<exists>c'. gs_refs later (heads b) = Some c' \<and> anc c c'"
proof -
  have "\<exists>c'. gs_refs (fst t) (heads b) = Some c' \<and> anc c c'"
    if "(maintainer_step digest txn anc)\<^sup>*\<^sup>* (g, seats) t" for t
    using that
  proof (induction rule: rtranclp_induct)
    case base
    then show ?case using assms(2,6) by (simp add: reflpD)
  next
    case (step y z)
    then obtain d where "gs_refs (fst y) (heads b) = Some d" "anc c d" by blast
    then show ?case
      using maintainer_step_advances [OF step(2) assms(1,2,5)] assms(3) by (meson transpD)
  qed
  from this [OF assms(4)] show ?thesis by simp
qed

section \<open>A seat that accepts\<close>

definition sample_seat :: seat_host where
  "sample_seat =
     \<lparr>st_refuses = (\<lambda>_. None), st_message = (\<lambda>_. []), st_origin = None, st_resolve = (\<lambda>refs name. if length name = 40 then Some name else refs (heads name)),
      st_ancestor = (\<lambda>a b. a = b \<or> b = sample_oid (CHR ''1'')), st_subject = (\<lambda>_. None), st_parents = (\<lambda>_. []),
      st_empty = (\<lambda>_ _. sample_oid (CHR ''1'')), st_merge = (\<lambda>_ _ _. sample_oid (CHR ''1'')), st_leaves = (\<lambda>_. ([], []))\<rparr>"

definition sample_state :: git_state where
  "sample_state =
     \<lparr>gs_refs = [heads ''main'' \<mapsto> sample_oid (CHR ''8''), heads ''c'' \<mapsto> sample_oid (CHR ''7''),
                 heads SUBSYSTEM_BRANCH \<mapsto> sample_oid (CHR ''9'')], gs_here = On ''main''\<rparr>"

lemma sample_leaf:
  "case run_alone sample_seat (accept_leaf ''c'') sample_state of
     (r, after) \<Rightarrow> r = Inr (Leaf_accepted (sample_oid (CHR ''1'')) (sample_oid (CHR ''1'')) ''main'') \<and>
       gs_refs after (heads ''main'') = Some (sample_oid (CHR ''1'')) \<and>
       gs_refs after (heads SUBSYSTEM_BRANCH) = Some (sample_oid (CHR ''1'')) \<and> gs_here after = On ''main''"
  by code_simp


lemma sample_seat_descends: "seat_descends (\<lambda>x y. x = y \<or> y = sample_oid (CHR ''1'')) sample_seat"
  by (auto simp: seat_descends_def sample_seat_def)

theorem integration_never_lost_witness:
  "\<exists>later seats' c'. gs_refs sample_state (heads SUBSYSTEM_BRANCH) = Some (sample_oid (CHR ''9'')) \<and>
     (maintainer_step sample_digest apply_ref_commands (\<lambda>x y. x = y \<or> y = sample_oid (CHR ''1'')))\<^sup>*\<^sup>* (sample_state, []) (later, seats') \<and>
     gs_refs later (heads SUBSYSTEM_BRANCH) = Some c' \<and> c' \<noteq> sample_oid (CHR ''9'')"
proof -
  let ?anc = "\<lambda>x y. x = y \<or> y = sample_oid (CHR ''1'')"
  let ?step = "maintainer_step sample_digest apply_ref_commands ?anc"
  obtain r later where r: "run_alone sample_seat (accept_leaf ''c'') sample_state = (r, later)"
    "gs_refs later (heads SUBSYSTEM_BRANCH) = Some (sample_oid (CHR ''1''))"
    using sample_leaf by (auto split: prod.splits)
  have "?step (sample_state, []) (sample_state, [] @ [accept_leaf ''c''])" by (rule maintainer_step.leaf_starts)
  moreover have "?step\<^sup>*\<^sup>* (sample_state, [accept_leaf ''c'']) (later, [accept_leaf ''c''][0 := Return r])"
    by (rule run_alone_steps [OF sample_seat_descends _ _ r(1)]) simp_all
  ultimately have s: "?step\<^sup>*\<^sup>* (sample_state, []) (later, [Return r])"
    by (simp add: converse_rtranclp_into_rtranclp)
  have h: "gs_refs sample_state (heads SUBSYSTEM_BRANCH) = Some (sample_oid (CHR ''9''))" by code_simp
  have "\<exists>c'. gs_refs later (heads SUBSYSTEM_BRANCH) = Some c' \<and> ?anc (sample_oid (CHR ''9'')) c'"
    using integration_never_lost [OF apply_transactional _ _ s _ h] by (auto simp: reflp_def transp_def)
  moreover have "sample_oid (CHR ''1'') \<noteq> sample_oid (CHR ''9'')" by (simp add: sample_oid_def replicate_eq_replicate)
  ultimately show ?thesis using s h r(2) by force
qed

end
