(* ===== verification/Spec2Isabelle.thy ===== *)
theory Spec2Isabelle
  imports PyPrelude WhenLang EdgeGate EdgeValidation DepCycle DepOrder CheckStream PyText MailingList MailingProtocol CarrierRevive PyJson PlanGraph PyRegex CodexReset RequesterAssumptions StructureGadgets Rejections Approach ReviewScope ReviewRound IntegrationEvidence MaintainerMerge JudgeBody JudgeVersion ReviewPull SubsystemSeat
begin

text \<open>
  A verification development for the deterministic core of the repository \<open>ai_org\<close>: the code that
  decides what an automated organisation of authors, reviewers and maintainers may do next, and the
  records it leaves in git. Prompts, model calls, the git executable and the sandboxes around it
  are not deterministic and are arguments of the model where the modelled code calls them.

  How the parts interact. A patch series is a network of nodes; a node has a manifest with typed
  edges (depends, excludes, part_of), optional predicates over named check values, and a lifecycle
  state. A plan is partitioned into the children of a network (\<open>PlanGraph\<close>); manifests are
  validated and check events projected (\<open>EdgeValidation\<close>, \<open>WhenLang\<close>); the gate decides which nodes
  are eligible (\<open>EdgeGate\<close>), refuses dependency cycles (\<open>DepCycle\<close>) and orders the nodes
  (\<open>DepOrder\<close>). Check values come from an append-only stream in git (\<open>CheckStream\<close>). Questions and
  announcements travel over a mailing list in a git ref that many processes extend concurrently
  (\<open>MailingList\<close>, \<open>MailingProtocol\<close>). Calls of the coding agent are retried and resumed
  (\<open>CodexReset\<close>), their invalid outputs are classified as fresh or permanent (\<open>Rejections\<close>), repaired
  in structure (\<open>StructureGadgets\<close>) and regenerated within a budget (\<open>Approach\<close>, the technical approach
  a request is given); dead sessions are found and revived (\<open>CarrierRevive\<close>). A proposed series is
  reviewed in rounds over windows of its tree (\<open>ReviewScope\<close>, \<open>ReviewRound\<close>); objections only the
  requester can settle are recorded as assumptions (\<open>RequesterAssumptions\<close>); the pull of the queue
  decides from the log of a series whether it is revised or reviewed next (\<open>ReviewPull\<close>). An accepted
  contribution is sealed with its evidence (\<open>IntegrationEvidence\<close>) and integrated first into the
  subsystem branch, then into the mainline, by maintainers that publish with compare-and-swap
  (\<open>MaintainerMerge\<close>); the subsystem seat accepts leaves and hands finished series off with plain git
  commands on the same two branches (\<open>SubsystemSeat\<close>). A
  reader of the result asks where a sentence of a committed body came from: the provenance judge
  finds the spot in the text (\<open>JudgeBody\<close>) and the commit that wrote it (\<open>JudgeVersion\<close>).

  Theories and the code they model:
    \<^item> \<open>PyPrelude\<close>, \<open>PyText\<close>, \<open>PyJson\<close>, \<open>PyRegex\<close>: the operations of Python the sources use: values
      (\<open>pyval\<close>, dicts as association lists in insertion order), results (\<open>Inl\<close> a raised
      exception, \<open>Inr\<close> a value), text, \<open>json.dumps\<close>, regular expressions in backtracking order.
    \<^item> \<open>WhenLang\<close>: the predicate language of edges, \<open>_WhenParser\<close>, \<open>_eval_when_ast\<close> and the static
      checks of \<open>src/ai_org/patchwork_queue/patch_series_gate.py\<close>. The parser is total at the nesting
      limits of the code (the fuel is the number of tokens), the iterative evaluator equals the
      recursive meaning, and statically accepted predicates evaluate without warnings.
    \<^item> \<open>EdgeGate\<close>: \<open>_canonical_lifecycle\<close>, \<open>_normalize_edges\<close>, \<open>eligible\<close>, the edge facts and the
      dependency pairs. Scheduler, report and cycle check agree, and progress never blocks a node.
    \<^item> \<open>EdgeValidation\<close>: edge form, \<open>validate_manifest_edges\<close>, exclusions, registry and check events.
    \<^item> \<open>DepCycle\<close>: the depth-first search \<open>_find_cycle\<close> as a loop over explicit frames: sound, complete,
      terminating, and, with the gate, a network without a cycle always has an eligible node.
    \<^item> \<open>DepOrder\<close>: Kahn's algorithm shared by \<open>topological_order\<close>, \<open>critical_path\<close> and \<open>_child_depths\<close>.
    \<^item> \<open>PlanGraph\<close>: \<open>_plan_graph\<close>, \<open>_weak_components\<close>, \<open>_partition_plan_graph\<close>, \<open>_normalize_split\<close>: the
      children are the connected components of the plan and no dependency joins two of them.
    \<^item> \<open>CheckStream\<close>: \<open>src/ai_org/patchwork_check_stream.py\<close>: base64 bodies, records, replay, append
      and publication by compare-and-swap.
    \<^item> \<open>MailingList\<close>: the validation, printing and parsing of messages in \<open>src/ai_org/mailing_list.py\<close>;
      \<open>MailingProtocol\<close>: \<open>ensure_list\<close>, \<open>post\<close>, \<open>read\<close>, \<open>advance_cursor\<close> cut at their git calls and
      interleaved by the relation \<open>mail_step\<close>: unique ids, no duplicate question, no lost post.
    \<^item> \<open>CarrierRevive\<close>: the package \<open>src/carrier_revive\<close>: scanning, live processes, gated resume.
    \<^item> \<open>CodexReset\<close>: \<open>src/ai_org/codex_reset.py\<close>: whitelist of interruptions, session ids, resume
      command, announced reset, and the retry loop with its budgets.
    \<^item> \<open>RequesterAssumptions\<close>: \<open>src/ai_org/patchwork_queue/requester_assumptions.py\<close>.
    \<^item> \<open>StructureGadgets\<close>: \<open>src/ai_org/deterministic_structure_gadgets\<close>: skeletons, repair delta, merge of a
      fragment, hints. A merge only fills, and one honest repair round converges.
    \<^item> \<open>Rejections\<close>: the identity of validator rejections in \<open>src/ai_org/patchwork_queue/codex_exec.py\<close>.
    \<^item> \<open>Approach\<close>: steps 5 and 6 of \<open>src/ai_org/patchwork_queue/receive.py\<close>: the attempt loop, the
      evaluation of each candidate, the repair of the coverage, the parser of the decision.
    \<^item> \<open>ReviewScope\<close>, \<open>ReviewRound\<close>: \<open>src/ai_org/patchwork_queue/review.py\<close>: which nodes a reviewer sees, one
      reviewer call, consolidation, the verdict of a round and the cap of the rounds.
    \<^item> \<open>ReviewPull\<close>: the selection of a series by \<open>pull\<close> of \<open>src/ai_org/patchwork_queue/__init__.py\<close>, with
      \<open>_is_terminal_patch_series\<close> and \<open>_latest_needs_revision_is_head\<close>, and the rounds of a series under
      it: \<open>series_step\<close> takes the turn the selector gives, or commits something else on the branch.
    \<^item> \<open>IntegrationEvidence\<close>: \<open>src/ai_org/maintainer_merge/evidence.py\<close> and \<open>changed_paths\<close> of
      \<open>src/ai_org/git_wrapper.py\<close>: links, the message of an integration commit and its validator, code
      paths, sealed contributions, what the mainline may promote.
    \<^item> \<open>MaintainerMerge\<close>: \<open>subsystem.py\<close>, \<open>mainline.py\<close> and \<open>pull\<close> of the same package over
      \<open>publish_prepared_integration_commit\<close>. A stage reads one snapshot of the repository and publishes
      into refs that may have moved since. Processes a stage starts and files it touches may raise, and so
      may the search for the default branch; a stage has written all its refs or none also then.
    \<^item> \<open>SubsystemSeat\<close>: \<open>accept_leaf\<close> and \<open>handoff_series\<close> of \<open>src/ai_org/subsystem.py\<close> as programs over
      single git commands (\<open>'a run\<close>), on refs and a checked out branch that all processes share.
      \<open>maintainer_step\<close> interleaves maintainer stages, the commands of running seats and other writers.
    \<^item> \<open>JudgeBody\<close>: \<open>src/judge/body.py\<close> and the \<open>json.loads\<close> it is used with: the scanner of scalars with
      their spans and paths agrees with the document, the canonical form is exact. \<open>JudgeVersion\<close>:
      \<open>src/judge/version.py\<close> and the log reader of \<open>gitread.py\<close>: the target of a search and the commit
      from which on it has its value.

  Conventions. A function of the source is a definition of the same name without the leading
  underscore. Mutable objects are passed and returned; a \<open>while\<close> loop is a recursive function with
  its measure, \<open>while_option\<close> or a \<open>partial_function\<close> that is proved to return
  (\<open>component_from\<close>, \<open>wait_from\<close>, \<open>record_walk\<close>, \<open>base_walk\<close>); a process that yields to others is a step
  relation. Characters are the code points 0 to 255, the range in which the text operations are defined exactly; a float
  is carried by its \<open>repr\<close>. Hypotheses on arguments state documented behaviour: a decoder
  inverts its encoder, a ref update compares before it swaps (\<open>transactional\<close>), a new commit
  descends from the head it was made on (\<open>descends\<close>, \<open>seat_descends\<close>). Three hypotheses restrict what the
  environment does and nothing in the code enforces them: no posted request hides a line separator that
  validation lets through (\<open>request_hides_break\<close>, without it the list becomes unreadable); other writers
  leave the two integration branches alone (a reset by hand, the README's way of rejecting a series, is
  no step of \<open>maintainer_step\<close>); other commands commit no subject the selector looks for (\<open>neutral\<close>).

  Bounds. \<open>post\<close> makes at most 41 steps for its four attempts, the retry loop at most one attempt
  more than its two budgets together, the predicate parser at most one step per token and level, the
  attempt loop of a generation step three calls, a series as many revision rounds as its cap and one round more,
  the scanner of bodies two steps per character and two more.

  Interfaces are locales interpreted on the model: \<open>codec\<close> (\<open>CheckStream\<close>, a decoder inverting an
  encoder, on base64), \<open>predicate_language\<close> (\<open>WhenLang\<close>, on the evaluator) and \<open>char_escape\<close> (\<open>PyJson\<close>, an
  escape of characters that can be read back, on both modes of \<open>json.dumps\<close>).

  Not modelled: the git and file orchestration of the gate (loading networks, split and stamping
  commits, migration), the other steps of reception and generation (\<open>receive.py\<close>: prompting, JSON
  repair, files), the git records and mail around a review round, the other calls of the git
  wrapper, the Go codec and its client, the precedent store, image generation, logging, the
  harvest of session records, the author's worker, functional check and announcements, and the run
  logs, session files and report of the judge: they are prompts, calls of external programs and
  tables. Texts of diagnostics are left out where only their presence decides.
\<close>

end
